(* ===== verification/Nachos_Prelude.thy ===== *)
theory Nachos_Prelude
  imports Main "HOL-Library.Word"
begin

text \<open>
  Shared vocabulary of the development: the errors by which Nachos code stops
  (a failed ASSERT of threads/utility.h, a dereference of NULL, an access outside an
  array, the use of a variable that was never assigned, a loop that does not end), results
  \<open>nerr + 'a\<close> and their sequencing, C integer division, the
  little-endian layout of integers in byte buffers, and generic lemmas on lists.
\<close>

named_theorems res_simps "rewriting of sequenced results"
named_theorems wf_intros "well-formedness is kept by an operation"

unbundle bit_operations_syntax

subsection \<open>Errors and results\<close>

datatype nerr =
    AssertFailed     \<comment> \<open>ASSERT in threads/utility.h: print a message and Abort()\<close>
  | NullDeref        \<comment> \<open>member access through a NULL pointer\<close>
  | BadPointer       \<comment> \<open>access to memory that is not allocated\<close>
  | OutOfBounds      \<comment> \<open>array access outside the array\<close>
  | Uninitialised    \<comment> \<open>use of a variable that was never assigned\<close>
  | ArithTrap        \<comment> \<open>an integer operation the host traps on\<close>
  | Overflow         \<comment> \<open>signed arithmetic whose result is not an \<open>int\<close>: undefined in C++\<close>
  | Diverges         \<comment> \<open>a loop that never ends\<close>

type_synonym 'a res = "nerr + 'a"

fun bind_res :: "'e + 'a \<Rightarrow> ('a \<Rightarrow> 'e + 'b) \<Rightarrow> 'e + 'b" where
  "bind_res (Inl e) f = Inl e"
| "bind_res (Inr x) f = f x"

text \<open>The macro ASSERT(condition): go on when the condition holds, abort otherwise.\<close>

definition ASSERT :: "bool \<Rightarrow> unit res" where
  "ASSERT condition = (if condition then Inr () else Inl AssertFailed)"

text \<open>A loop modelled by \<open>partial_function (option)\<close>: not returning is an error.\<close>

fun returns :: "'a res option \<Rightarrow> 'a res" where
  "returns None = Inl Diverges"
| "returns (Some r) = r"

text \<open>Following a pointer; NULL is \<open>None\<close>.\<close>

fun deref :: "'a option \<Rightarrow> 'a res" where
  "deref None = Inl NullDeref"
| "deref (Some p) = Inr p"

text \<open>Array reads and writes, with the bounds the C++ leaves to the programmer.\<close>

definition arr_get :: "'a list \<Rightarrow> nat \<Rightarrow> 'a res" where
  "arr_get xs i = (if i < length xs then Inr (xs ! i) else Inl OutOfBounds)"

definition arr_set :: "'a list \<Rightarrow> nat \<Rightarrow> 'a \<Rightarrow> 'a list res" where
  "arr_set xs i v = (if i < length xs then Inr (xs[i := v]) else Inl OutOfBounds)"

text \<open>Running an operation on each of a list of arguments, and running one a number of times.\<close>

fun fold_res :: "('x \<Rightarrow> 's \<Rightarrow> 'e + 's) \<Rightarrow> 'x list \<Rightarrow> 's \<Rightarrow> 'e + 's" where
  "fold_res f [] s = Inr s"
| "fold_res f (x # xs) s = bind_res (f x s) (fold_res f xs)"

fun repeat_res :: "nat \<Rightarrow> ('s \<Rightarrow> 'e + 'a \<times> 's) \<Rightarrow> 's \<Rightarrow> 'e + 'a list \<times> 's" where
  "repeat_res 0 f s = Inr ([], s)"
| "repeat_res (Suc n) f s =
     bind_res (f s) (\<lambda>(a, s1). bind_res (repeat_res n f s1) (\<lambda>(as, s2). Inr (a # as, s2)))"

subsection \<open>Integers\<close>

text \<open>An \<open>int\<close> holds the values from \<open>- 2 ^ 31\<close> up to \<open>2 ^ 31 - 1\<close>. Sums and differences of counters that
  grow while the system runs are checked: a result outside this range is an error.\<close>

definition is_int :: "int \<Rightarrow> bool" where
  "is_int i \<longleftrightarrow> - (2 ^ 31) \<le> i \<and> i < 2 ^ 31"

definition int_add :: "int \<Rightarrow> int \<Rightarrow> int res" where
  "int_add a b = (if is_int (a + b) then Inr (a + b) else Inl Overflow)"

definition int_sub :: "int \<Rightarrow> int \<Rightarrow> int res" where
  "int_sub a b = (if is_int (a - b) then Inr (a - b) else Inl Overflow)"

subsection \<open>What the processor is doing\<close>

text \<open>The enumeration of machine/interrupt.h that the machine and the kernel share.\<close>

datatype MachineStatus = IdleMode | SystemMode | UserMode

subsection \<open>C integer division\<close>

text \<open>The macros of threads/utility.h; on the non-negative sizes the code uses.\<close>

definition divRoundDown :: "nat \<Rightarrow> nat \<Rightarrow> nat" where
  "divRoundDown n s = n div s"

definition divRoundUp :: "nat \<Rightarrow> nat \<Rightarrow> nat" where
  "divRoundUp n s = (n div s) + (if n mod s > 0 then 1 else 0)"

subsection \<open>Bytes\<close>

type_synonym byte = "8 word"

text \<open>An \<open>int\<close> as the four bytes it has in the memory of the little-endian host.\<close>

definition int_to_bytes :: "32 word \<Rightarrow> byte list" where
  "int_to_bytes w = [ucast w, ucast (drop_bit 8 w), ucast (drop_bit 16 w), ucast (drop_bit 24 w)]"

fun bytes_to_int :: "byte list \<Rightarrow> 32 word" where
  "bytes_to_int [a, b, c, d] =
     ucast a OR push_bit 8 (ucast b) OR push_bit 16 (ucast c) OR push_bit 24 (ucast d)"
| "bytes_to_int _ = 0"

text \<open>A byte of a \<open>char\<close> array read as an \<open>int\<close>: \<open>char\<close> is signed on the i386 host.\<close>

definition char_to_int :: "byte \<Rightarrow> int" where
  "char_to_int b = sint b"

subsection \<open>Lemmas on results\<close>

lemma int_add_Inr [simp]: "is_int (a + b) \<Longrightarrow> int_add a b = Inr (a + b)"
  by (simp add: int_add_def)

lemma int_add_Inl [simp]: "\<not> is_int (a + b) \<Longrightarrow> int_add a b = Inl Overflow"
  by (simp add: int_add_def)

lemma int_add_Inr_iff [res_simps]: "int_add a b = Inr c \<longleftrightarrow> is_int (a + b) \<and> c = a + b"
  by (auto simp: int_add_def)

lemma int_sub_Inr_iff [res_simps]: "int_sub a b = Inr c \<longleftrightarrow> is_int (a - b) \<and> c = a - b"
  by (auto simp: int_sub_def)

lemma bind_res_Inr_iff [res_simps]:
  "bind_res m f = Inr y \<longleftrightarrow> (\<exists>x. m = Inr x \<and> f x = Inr y)"
  by (cases m) auto

lemma bind_res_Inl_iff [res_simps]:
  "bind_res m f = Inl e \<longleftrightarrow> m = Inl e \<or> (\<exists>x. m = Inr x \<and> f x = Inl e)"
  by (cases m) auto

lemma bind_res_assoc: "bind_res (bind_res m f) g = bind_res m (\<lambda>x. bind_res (f x) g)"
  by (cases m) auto

lemma ASSERT_Inr_iff [res_simps]: "ASSERT c = Inr u \<longleftrightarrow> c"
  by (simp add: ASSERT_def)

lemma ASSERT_Inl_iff [res_simps]: "ASSERT c = Inl e \<longleftrightarrow> \<not> c \<and> e = AssertFailed"
  by (auto simp: ASSERT_def)

lemma ASSERT_True [simp]: "c \<Longrightarrow> ASSERT c = Inr ()"
  by (simp add: ASSERT_def)

lemma ASSERT_False [simp]: "\<not> c \<Longrightarrow> ASSERT c = Inl AssertFailed"
  by (simp add: ASSERT_def)

lemma arr_get_Inr_iff [res_simps]: "arr_get xs i = Inr v \<longleftrightarrow> i < length xs \<and> v = xs ! i"
  by (auto simp: arr_get_def)

lemma arr_set_Inr_iff [res_simps]: "arr_set xs i v = Inr ys \<longleftrightarrow> i < length xs \<and> ys = xs[i := v]"
  by (auto simp: arr_set_def)

lemma arr_get_ok [simp]: "i < length xs \<Longrightarrow> arr_get xs i = Inr (xs ! i)"
  by (simp add: arr_get_def)

lemma arr_set_ok [simp]: "i < length xs \<Longrightarrow> arr_set xs i v = Inr (xs[i := v])"
  by (simp add: arr_set_def)

subsection \<open>Lemmas on division and bytes\<close>

lemma divRoundUp_le: "0 < s \<Longrightarrow> n \<le> divRoundUp n s * s"
proof -
  assume s: "0 < s"
  have e: "n = n div s * s + n mod s" by simp
  have l: "n mod s < s" using s by simp
  have "divRoundUp n s * s = n div s * s + (if n mod s > 0 then s else 0)"
    by (simp add: divRoundUp_def)
  moreover have "n mod s \<le> (if n mod s > 0 then s else 0)"
    using l by simp
  ultimately show ?thesis using e by linarith
qed

lemma divRoundUp_tight: "0 < s \<Longrightarrow> divRoundUp n s * s < n + s"
proof -
  assume s: "0 < s"
  have e: "n = n div s * s + n mod s" by simp
  show ?thesis
  proof (cases "n mod s > 0")
    case True
    then have "divRoundUp n s * s = n div s * s + s" by (simp add: divRoundUp_def)
    then show ?thesis using e True by linarith
  next
    case False
    then have "divRoundUp n s * s = n" using e by (simp add: divRoundUp_def)
    then show ?thesis using s by simp
  qed
qed

lemma length_int_to_bytes [simp]: "length (int_to_bytes w) = 4"
  by (simp add: int_to_bytes_def)

lemma bytes_to_int_to_bytes [simp]: "bytes_to_int (int_to_bytes w) = w"
  unfolding int_to_bytes_def
proof (simp, rule bit_word_eqI)
  fix n assume "n < LENGTH(32)"
  then have "n < 8 \<or> (8 \<le> n \<and> n < 16) \<or> (16 \<le> n \<and> n < 24) \<or> (24 \<le> n \<and> n < 32)"
    by auto
  then show "bit (ucast (ucast w :: byte) OR push_bit 8 (ucast (ucast (drop_bit 8 w) :: byte)) OR
      push_bit 16 (ucast (ucast (drop_bit 16 w) :: byte)) OR
      push_bit 24 (ucast (ucast (drop_bit 24 w) :: byte)) :: 32 word) n \<longleftrightarrow> bit w n"
    by (elim disjE conjE) (simp_all add: bit_simps less_diff_conv2)
qed

lemma int_to_bytes_to_int: "length bs = 4 \<Longrightarrow> int_to_bytes (bytes_to_int bs) = bs"
proof -
  assume "length bs = 4"
  then obtain a b c d where bs: "bs = [a, b, c, d]"
    by (auto simp: length_Suc_conv numeral_eq_Suc)
  show ?thesis
    unfolding bs
    by (auto simp: int_to_bytes_def bit_eq_iff bit_simps dest: bit_imp_le_length)
qed

end
