(* ===== verification/Nachos_List.thy ===== *)
theory Nachos_List
  imports Nachos_Prelude "HOL-Library.Multiset"
begin

text \<open>
  The singly linked lists of threads/list.h and threads/list.cc. The list elements live in
  a heap of cells that all lists share; a list holds its head, its tail and its
  length. Every operation of the class is a function of the heap and the list, the walks over
  \<open>next\<close> pointers are partial functions, and a sequence of (item, key) pairs is what a
  list represents. Items are \<open>void *\<close>, so an item may be NULL (\<open>None\<close>).
\<close>

subsection \<open>Data\<close>

type_synonym addr = nat

record 'a ListElement =
  le_item :: "'a option"
  le_key :: int
  le_next :: "addr option"

record 'a lheap =
  cells :: "addr \<Rightarrow> 'a ListElement option"
  brk :: addr                              \<comment> \<open>addresses from here on were never handed out\<close>

record LList =
  firstp :: "addr option"
  lastp :: "addr option"
  numInList :: int

subsection \<open>Memory operations\<close>

definition load :: "'a lheap \<Rightarrow> addr option \<Rightarrow> 'a ListElement res" where
  "load h p = (case p of None \<Rightarrow> Inl NullDeref
     | Some a \<Rightarrow> (case cells h a of None \<Rightarrow> Inl BadPointer | Some c \<Rightarrow> Inr c))"

definition store :: "'a lheap \<Rightarrow> addr \<Rightarrow> 'a ListElement \<Rightarrow> 'a lheap" where
  "store h a c = h\<lparr>cells := (cells h)(a \<mapsto> c)\<rparr>"

definition set_next :: "'a lheap \<Rightarrow> addr option \<Rightarrow> addr option \<Rightarrow> 'a lheap res" where
  "set_next h p q = bind_res (load h p) (\<lambda>c. Inr (store h (the p) (c\<lparr>le_next := q\<rparr>)))"

definition delete_elem :: "'a lheap \<Rightarrow> addr option \<Rightarrow> 'a lheap res" where
  "delete_elem h p = bind_res (load h p) (\<lambda>_. Inr (h\<lparr>cells := (cells h)(the p := None)\<rparr>))"

text \<open>\<open>new ListElement(itemPtr, sortKey)\<close>: allocation and the constructor.\<close>

definition new_ListElement :: "'a lheap \<Rightarrow> 'a option \<Rightarrow> int \<Rightarrow> 'a lheap \<times> addr" where
  "new_ListElement h itemPtr sortKey =
     (h\<lparr>cells := (cells h)(brk h \<mapsto> \<lparr>le_item = itemPtr, le_key = sortKey, le_next = None\<rparr>),
        brk := brk h + 1\<rparr>, brk h)"

subsection \<open>Operations of class List\<close>

definition List_List :: LList where
  "List_List = \<lparr>firstp = None, lastp = None, numInList = 0\<rparr>"

definition List_IsEmpty :: "LList \<Rightarrow> bool" where
  "List_IsEmpty L = (firstp L = None)"

definition List_NumInList :: "LList \<Rightarrow> int" where
  "List_NumInList L = numInList L"

definition List_Append :: "'a option \<Rightarrow> 'a lheap \<Rightarrow> LList \<Rightarrow> ('a lheap \<times> LList) res" where
  "List_Append item h L =
     (let (h1, element) = new_ListElement h item 0 in
      if List_IsEmpty L
      then Inr (h1, L\<lparr>firstp := Some element, lastp := Some element, numInList := numInList L + 1\<rparr>)
      else bind_res (set_next h1 (lastp L) (Some element)) (\<lambda>h2.
        Inr (h2, L\<lparr>lastp := Some element, numInList := numInList L + 1\<rparr>)))"

definition List_Prepend :: "'a option \<Rightarrow> 'a lheap \<Rightarrow> LList \<Rightarrow> ('a lheap \<times> LList) res" where
  "List_Prepend item h L =
     (let (h1, element) = new_ListElement h item 0 in
      if List_IsEmpty L
      then Inr (h1, L\<lparr>firstp := Some element, lastp := Some element, numInList := numInList L + 1\<rparr>)
      else bind_res (set_next h1 (Some element) (firstp L)) (\<lambda>h2.
        Inr (h2, L\<lparr>firstp := Some element, numInList := numInList L + 1\<rparr>)))"

text \<open>The loop of SortedInsert: the element after which to insert, or NULL when the loop runs
  off the end of the list.\<close>

partial_function (option) insert_loop ::
  "'a lheap \<Rightarrow> addr option \<Rightarrow> int \<Rightarrow> addr option res option" where
  "insert_loop h ptr sortKey =
     (case load h ptr of Inl e \<Rightarrow> Some (Inl e)
      | Inr c \<Rightarrow> (case le_next c of None \<Rightarrow> Some (Inr None)
         | Some n \<Rightarrow> (case load h (Some n) of Inl e \<Rightarrow> Some (Inl e)
            | Inr d \<Rightarrow> if sortKey < le_key d then Some (Inr ptr)
                       else insert_loop h (Some n) sortKey)))"

definition List_SortedInsert ::
  "'a option \<Rightarrow> int \<Rightarrow> 'a lheap \<Rightarrow> LList \<Rightarrow> ('a lheap \<times> LList) res" where
  "List_SortedInsert item sortKey h L =
     (let (h1, element) = new_ListElement h item sortKey in
      if List_IsEmpty L
      then Inr (h1, L\<lparr>firstp := Some element, lastp := Some element, numInList := numInList L + 1\<rparr>)
      else bind_res (load h1 (firstp L)) (\<lambda>f.
        if sortKey < le_key f
        then bind_res (set_next h1 (Some element) (firstp L)) (\<lambda>h2.
          Inr (h2, L\<lparr>firstp := Some element, numInList := numInList L + 1\<rparr>))
        else bind_res (returns (insert_loop h1 (firstp L) sortKey)) (\<lambda>found.
          case found of
            Some ptr \<Rightarrow> bind_res (load h1 (Some ptr)) (\<lambda>c.
              bind_res (set_next h1 (Some element) (le_next c)) (\<lambda>h2.
              bind_res (set_next h2 (Some ptr) (Some element)) (\<lambda>h3.
              Inr (h3, L\<lparr>numInList := numInList L + 1\<rparr>))))
          | None \<Rightarrow> bind_res (set_next h1 (lastp L) (Some element)) (\<lambda>h2.
              Inr (h2, L\<lparr>lastp := Some element, numInList := numInList L + 1\<rparr>)))))"

text \<open>SortedRemove returns the item and, through \<open>keyPtr\<close>, its key; \<open>None\<close> in the key position
  is the location left alone because the list was empty.\<close>

definition List_SortedRemove ::
  "'a lheap \<Rightarrow> LList \<Rightarrow> ('a option \<times> int option \<times> 'a lheap \<times> LList) res" where
  "List_SortedRemove h L =
     (if List_IsEmpty L then Inr (None, None, h, L)
      else bind_res (load h (firstp L)) (\<lambda>element.
        let L1 = (if firstp L = lastp L then L\<lparr>firstp := None, lastp := None\<rparr>
                  else L\<lparr>firstp := le_next element\<rparr>)
        in bind_res (delete_elem h (firstp L)) (\<lambda>h1.
             Inr (le_item element, Some (le_key element), h1,
                  L1\<lparr>numInList := numInList L - 1\<rparr>))))"

definition List_Remove :: "'a lheap \<Rightarrow> LList \<Rightarrow> ('a option \<times> 'a lheap \<times> LList) res" where
  "List_Remove h L = bind_res (List_SortedRemove h L) (\<lambda>(thing, _, h1, L1). Inr (thing, h1, L1))"

text \<open>The loop of Remove(item): \<open>(prev, ptr)\<close> where it stops.\<close>

partial_function (option) remove_loop ::
  "'a lheap \<Rightarrow> 'a option \<Rightarrow> addr option \<Rightarrow> addr option \<Rightarrow> (addr option \<times> addr option) res option" where
  "remove_loop h item prev ptr =
     (case ptr of None \<Rightarrow> Some (Inr (prev, None))
      | Some p \<Rightarrow> (case load h ptr of Inl e \<Rightarrow> Some (Inl e)
         | Inr c \<Rightarrow> if item = le_item c then Some (Inr (prev, ptr))
                    else remove_loop h item ptr (le_next c)))"

definition List_RemoveItem :: "'a option \<Rightarrow> 'a lheap \<Rightarrow> LList \<Rightarrow> ('a lheap \<times> LList) res" where
  "List_RemoveItem item h L =
     bind_res (load h (firstp L)) (\<lambda>f.
       if item = le_item f
       then bind_res (List_Remove h L) (\<lambda>(removed, h1, L1).
              bind_res (ASSERT (item = removed)) (\<lambda>_. Inr (h1, L1)))
       else bind_res (returns (remove_loop h item (firstp L) (le_next f))) (\<lambda>(prev, ptr).
              case ptr of
                None \<Rightarrow> Inl AssertFailed
              | Some p \<Rightarrow> bind_res (load h (Some p)) (\<lambda>c.
                  bind_res (set_next h prev (le_next c)) (\<lambda>h1.
                  bind_res (delete_elem h1 (Some p)) (\<lambda>h2.
                  Inr (h2, (if le_next c = None then L\<lparr>lastp := prev\<rparr> else L)
                             \<lparr>numInList := numInList L - 1\<rparr>))))))"

text \<open>Mapcar applies a procedure to each item in turn; \<open>'s\<close> is the state the procedure acts on.\<close>

partial_function (option) mapcar_loop ::
  "'a lheap \<Rightarrow> ('a option \<Rightarrow> 's \<Rightarrow> 's) \<Rightarrow> addr option \<Rightarrow> 's \<Rightarrow> 's res option" where
  "mapcar_loop h func ptr s =
     (case ptr of None \<Rightarrow> Some (Inr s)
      | Some p \<Rightarrow> (case load h ptr of Inl e \<Rightarrow> Some (Inl e)
         | Inr c \<Rightarrow> mapcar_loop h func (le_next c) (func (le_item c) s)))"

definition List_Mapcar :: "('a option \<Rightarrow> 's \<Rightarrow> 's) \<Rightarrow> 'a lheap \<Rightarrow> LList \<Rightarrow> 's \<Rightarrow> 's res" where
  "List_Mapcar func h L s = returns (mapcar_loop h func (firstp L) s)"

text \<open>The destructor: \<open>while (Remove() != NULL)\<close>.\<close>

partial_function (option) destroy_loop ::
  "'a lheap \<Rightarrow> LList \<Rightarrow> ('a lheap \<times> LList) res option" where
  "destroy_loop h L =
     (case List_Remove h L of Inl e \<Rightarrow> Some (Inl e)
      | Inr (thing, h1, L1) \<Rightarrow> (if thing \<noteq> None then destroy_loop h1 L1 else Some (Inr (h1, L1))))"

definition List_destroy :: "'a lheap \<Rightarrow> LList \<Rightarrow> ('a lheap \<times> LList) res" where
  "List_destroy h L = returns (destroy_loop h L)"

subsection \<open>What a list represents\<close>

text \<open>\<open>chain h p as q\<close>: from the pointer \<open>p\<close>, the elements at the addresses \<open>as\<close>
  follow one another and the last one's next pointer is \<open>q\<close>.\<close>

fun chain :: "'a lheap \<Rightarrow> addr option \<Rightarrow> addr list \<Rightarrow> addr option \<Rightarrow> bool" where
  "chain h p [] q = (p = q)"
| "chain h p (a # as) q =
     (p = Some a \<and> (case cells h a of None \<Rightarrow> False | Some c \<Rightarrow> chain h (le_next c) as q))"

definition entry :: "'a lheap \<Rightarrow> addr \<Rightarrow> 'a option \<times> int" where
  "entry h a = (le_item (the (cells h a)), le_key (the (cells h a)))"

definition heap_wf :: "'a lheap \<Rightarrow> bool" where
  "heap_wf h \<longleftrightarrow> (\<forall>a. brk h \<le> a \<longrightarrow> cells h a = None)"

text \<open>\<open>list_at h L as\<close>: the list \<open>L\<close> is well formed and occupies the cells \<open>as\<close>, in order.\<close>

definition list_at :: "'a lheap \<Rightarrow> LList \<Rightarrow> addr list \<Rightarrow> bool" where
  "list_at h L as \<longleftrightarrow> chain h (firstp L) as None \<and> distinct as \<and> (\<forall>a\<in>set as. a < brk h)
     \<and> lastp L = (if as = [] then None else Some (last as)) \<and> numInList L = int (length as)"

text \<open>\<open>represents h L as xs\<close> adds the contents: the items with their keys.\<close>

definition represents ::
  "'a lheap \<Rightarrow> LList \<Rightarrow> addr list \<Rightarrow> ('a option \<times> int) list \<Rightarrow> bool" where
  "represents h L as xs \<longleftrightarrow> heap_wf h \<and> list_at h L as \<and> map (entry h) as = xs"

subsection \<open>The specification: operations on sequences\<close>

definition ins_sorted :: "'a \<Rightarrow> int \<Rightarrow> ('a \<times> int) list \<Rightarrow> ('a \<times> int) list" where
  "ins_sorted x k xs = takeWhile (\<lambda>e. snd e \<le> k) xs @ (x, k) # dropWhile (\<lambda>e. snd e \<le> k) xs"

fun remove_item :: "'a \<Rightarrow> ('a \<times> int) list \<Rightarrow> ('a \<times> int) list" where
  "remove_item x [] = []"
| "remove_item x (e # xs) = (if x = fst e then xs else e # remove_item x xs)"

text \<open>The calls a client can make on a list, what each returns, and what it means for the
  sequence. The empty list and an absent item have the outcomes of the code: NULL from
  Remove, a NULL dereference or a failed ASSERT from Remove(item).\<close>

datatype 'a call =
    Append "'a option" | Prepend "'a option" | SortedInsert "'a option" int
  | SortedRemove | RemoveItem "'a option"

datatype 'a answer = Done | Removed "'a option" "int option"

fun spec_call :: "'a call \<Rightarrow> ('a option \<times> int) list \<Rightarrow> ('a answer \<times> ('a option \<times> int) list) res" where
  "spec_call (Append x) xs = Inr (Done, xs @ [(x, 0)])"
| "spec_call (Prepend x) xs = Inr (Done, (x, 0) # xs)"
| "spec_call (SortedInsert x k) xs = Inr (Done, ins_sorted x k xs)"
| "spec_call SortedRemove [] = Inr (Removed None None, [])"
| "spec_call SortedRemove ((x, k) # xs) = Inr (Removed x (Some k), xs)"
| "spec_call (RemoveItem x) xs =
     (if x \<in> fst ` set xs then Inr (Done, remove_item x xs)
      else Inl (if xs = [] then NullDeref else AssertFailed))"

fun list_call :: "'a call \<Rightarrow> 'a lheap \<times> LList \<Rightarrow> ('a answer \<times> 'a lheap \<times> LList) res" where
  "list_call (Append x) (h, L) = bind_res (List_Append x h L) (\<lambda>s. Inr (Done, s))"
| "list_call (Prepend x) (h, L) = bind_res (List_Prepend x h L) (\<lambda>s. Inr (Done, s))"
| "list_call (SortedInsert x k) (h, L) = bind_res (List_SortedInsert x k h L) (\<lambda>s. Inr (Done, s))"
| "list_call SortedRemove (h, L) =
     bind_res (List_SortedRemove h L) (\<lambda>(x, k, h1, L1). Inr (Removed x k, h1, L1))"
| "list_call (RemoveItem x) (h, L) = bind_res (List_RemoveItem x h L) (\<lambda>s. Inr (Done, s))"

fun run_calls :: "('c \<Rightarrow> 's \<Rightarrow> 'e + 'o \<times> 's) \<Rightarrow> 'c list \<Rightarrow> 's \<Rightarrow> 'e + 'o list \<times> 's" where
  "run_calls f [] s = Inr ([], s)"
| "run_calls f (c # cs) s =
     bind_res (f c s) (\<lambda>(out, s1). bind_res (run_calls f cs s1) (\<lambda>(outs, s2). Inr (out # outs, s2)))"

subsection \<open>Lemmas on chains\<close>

lemma chain_append:
  "chain h p (as @ bs) q \<longleftrightarrow> (\<exists>m. chain h p as m \<and> chain h m bs q)"
  by (induction as arbitrary: p) (auto split: option.splits)

lemma chain_cong:
  "(\<And>a. a \<in> set as \<Longrightarrow> cells h' a = cells h a) \<Longrightarrow> chain h' p as q = chain h p as q"
  by (induction as arbitrary: p) (auto split: option.splits)

lemma chain_cells: "chain h p as q \<Longrightarrow> a \<in> set as \<Longrightarrow> \<exists>c. cells h a = Some c"
  by (induction as arbitrary: p) (auto split: option.splits)

lemma chain_hd: "chain h p as q \<Longrightarrow> p = (if as = [] then q else Some (hd as))"
  by (cases as) auto

lemma chain_middle:
  "chain h p (as @ m # bs) q \<longleftrightarrow>
     chain h p as (Some m) \<and> (\<exists>c. cells h m = Some c \<and> chain h (le_next c) bs q)"
  by (auto simp: chain_append split: option.splits)

lemma load_Some [simp]: "cells h a = Some c \<Longrightarrow> load h (Some a) = Inr c"
  by (simp add: load_def)

lemma set_next_Some [simp]:
  "cells h a = Some c \<Longrightarrow> set_next h (Some a) q = Inr (store h a (c\<lparr>le_next := q\<rparr>))"
  by (simp add: set_next_def)

lemma delete_Some [simp]:
  "cells h a = Some c \<Longrightarrow> delete_elem h (Some a) = Inr (h\<lparr>cells := (cells h)(a := None)\<rparr>)"
  by (simp add: delete_elem_def)

lemma cells_store [simp]: "cells (store h a c) b = (if b = a then Some c else cells h b)"
  by (simp add: store_def)

lemma brk_store [simp]: "brk (store h a c) = brk h"
  by (simp add: store_def)

lemma entry_store [simp]:
  "entry (store h a c) b = (if b = a then (le_item c, le_key c) else entry h b)"
  by (simp add: entry_def)

lemma entry_brk [simp]: "entry (h\<lparr>brk := n\<rparr>) b = entry h b"
  by (simp add: entry_def)

lemma new_ListElement_store:
  "new_ListElement h x k = (store (h\<lparr>brk := brk h + 1\<rparr>) (brk h)
     \<lparr>le_item = x, le_key = k, le_next = None\<rparr>, brk h)"
  by (simp add: new_ListElement_def store_def)

text \<open>\<open>relink h as p\<close> redirects the next pointer of the last of the elements \<open>as\<close>. Both
  insertion and removal change a list at one such point.\<close>

definition relink :: "'a lheap \<Rightarrow> addr list \<Rightarrow> addr option \<Rightarrow> 'a lheap" where
  "relink h as p =
     (if as = [] then h else store h (last as) ((the (cells h (last as)))\<lparr>le_next := p\<rparr>))"

lemma chain_relink:
  assumes "chain h p as q" "distinct as"
  shows "chain (relink h as r) (if as = [] then r else p) as r"
proof (cases as rule: rev_cases)
  case (snoc bs b)
  obtain c where c: "cells h b = Some c" "chain h p bs (Some b)"
    using assms(1) snoc by (auto simp: chain_middle)
  have "chain (relink h as r) p bs (Some b) = chain h p bs (Some b)"
    by (rule chain_cong) (use assms(2) snoc in \<open>auto simp: relink_def\<close>)
  then show ?thesis using c snoc by (auto simp: chain_middle relink_def)
qed simp

lemma entry_relink [simp]: "entry (relink h as p) a = entry h a"
  by (auto simp: relink_def entry_def)

lemma cells_relink_other: "a \<notin> set as \<Longrightarrow> cells (relink h as p) a = cells h a"
  using last_in_set by (fastforce simp: relink_def)

lemma brk_relink [simp]: "brk (relink h as p) = brk h"
  by (simp add: relink_def)

lemma relink_None: "chain h p as q \<Longrightarrow> cells (relink h as r) a = None \<longleftrightarrow> cells h a = None"
  using chain_cells [of h p as q "last as"] by (auto simp: relink_def)

lemma set_next_last:
  "chain h p as q \<Longrightarrow> as \<noteq> [] \<Longrightarrow> set_next h (Some (last as)) r = Inr (relink h as r)"
  using chain_cells [of h p as q "last as"] by (auto simp: relink_def)

text \<open>Inserting a new element between \<open>as\<close> and \<open>bs\<close>.\<close>

definition inserted :: "'a lheap \<Rightarrow> addr list \<Rightarrow> addr list \<Rightarrow> 'a option \<Rightarrow> int \<Rightarrow> 'a lheap" where
  "inserted h as bs x k =
     relink (store (h\<lparr>brk := brk h + 1\<rparr>) (brk h)
       \<lparr>le_item = x, le_key = k, le_next = (if bs = [] then None else Some (hd bs))\<rparr>)
       as (Some (brk h))"

lemma represents_insert:
  assumes rep: "represents h L (as @ bs) xs"
    and f: "firstp L' = (if as = [] then Some (brk h) else firstp L)"
    and l: "lastp L' = (if bs = [] then Some (brk h) else lastp L)"
    and n: "numInList L' = numInList L + 1"
  shows "represents (inserted h as bs x k) L' (as @ brk h # bs)
           (take (length as) xs @ (x, k) # drop (length as) xs)"
proof -
  let ?e = "\<lparr>le_item = x, le_key = k, le_next = (if bs = [] then None else Some (hd bs))\<rparr>"
  let ?h = "store (h\<lparr>brk := brk h + 1\<rparr>) (brk h) ?e"
  let ?h' = "inserted h as bs x k"
  have h': "?h' = relink ?h as (Some (brk h))" by (simp add: inserted_def)
  from rep obtain m where ch: "chain h (firstp L) as m" "chain h m bs None"
    and d: "distinct (as @ bs)" and b: "\<forall>a\<in>set (as @ bs). a < brk h" and wf: "heap_wf h"
    and xs: "map (entry h) as @ map (entry h) bs = xs"
    by (auto simp: represents_def list_at_def chain_append)
  have m: "m = le_next ?e" using chain_hd [OF ch(2)] by simp
  have new: "brk h \<notin> set as" "brk h \<notin> set bs" using b by auto
  have nb: "a \<in> set bs \<Longrightarrow> a \<notin> set as \<and> a \<noteq> brk h" for a using d new by auto
  have "chain ?h (firstp L) as m = chain h (firstp L) as m"
    by (rule chain_cong) (use new in auto)
  then have c0: "chain ?h (firstp L) as m" using ch(1) by simp
  from chain_relink [OF this, of "Some (brk h)"] d
  have c1: "chain ?h' (firstp L') as (Some (brk h))"
    by (simp add: h' f split: if_splits)
  have "cells ?h' (brk h) = Some ?e" using new by (simp add: h' cells_relink_other)
  moreover have "chain ?h' m bs None = chain h m bs None"
    by (rule chain_cong) (use nb in \<open>auto simp: h' cells_relink_other\<close>)
  ultimately have c2: "chain ?h' (firstp L') (as @ brk h # bs) None"
    using c1 m ch(2) by (simp add: chain_middle)
  have "heap_wf ?h'"
    using wf relink_None [OF c0] by (auto simp: heap_wf_def h')
  moreover have "list_at ?h' L' (as @ brk h # bs)"
    using rep c2 d b new l n by (auto simp: represents_def list_at_def h' less_Suc_eq)
  moreover have "map (entry ?h') (as @ brk h # bs) =
      take (length as) xs @ (x, k) # drop (length as) xs"
    using new by (auto simp: xs [symmetric] h')
  ultimately show ?thesis by (simp add: represents_def)
qed

text \<open>Unlinking the element \<open>a\<close> between \<open>as\<close> and \<open>bs\<close>.\<close>

definition unlinked :: "'a lheap \<Rightarrow> addr list \<Rightarrow> addr \<Rightarrow> 'a lheap" where
  "unlinked h as a =
     (let g = relink h as (le_next (the (cells h a))) in g\<lparr>cells := (cells g)(a := None)\<rparr>)"

lemma represents_unlink:
  assumes rep: "represents h L (as @ a # bs) xs"
    and f: "firstp L' = (if as = [] then le_next (the (cells h a)) else firstp L)"
    and l: "lastp L' = (if bs = [] then (if as = [] then None else Some (last as)) else lastp L)"
    and n: "numInList L' = numInList L - 1"
  shows "represents (unlinked h as a) L' (as @ bs)
           (take (length as) xs @ drop (Suc (length as)) xs)"
proof -
  let ?h = "unlinked h as a"
  from rep obtain c where ch: "chain h (firstp L) as (Some a)" "cells h a = Some c"
      "chain h (le_next c) bs None"
    and d: "distinct (as @ a # bs)" and wf: "heap_wf h"
    and xs: "map (entry h) as @ entry h a # map (entry h) bs = xs"
    by (auto simp: represents_def list_at_def chain_middle)
  have oth: "b \<notin> set as \<Longrightarrow> b \<noteq> a \<Longrightarrow> cells ?h b = cells h b" for b
    by (simp add: unlinked_def Let_def cells_relink_other)
  have ent: "b \<noteq> a \<Longrightarrow> entry ?h b = entry h b" for b
    using entry_relink [of h as "le_next c" b] ch(2) by (simp add: unlinked_def Let_def entry_def)
  have "chain ?h (firstp L') as (le_next c) = chain (relink h as (le_next c)) (firstp L') as (le_next c)"
    by (rule chain_cong) (use d ch(2) in \<open>auto simp: unlinked_def Let_def\<close>)
  then have "chain ?h (firstp L') as (le_next c)"
    using chain_relink [OF ch(1), of "le_next c"] d f ch(2) by (auto split: if_splits)
  moreover have "chain ?h (le_next c) bs None"
    using ch(3) chain_cong [of bs ?h h "le_next c" None] oth d by fastforce
  ultimately have "chain ?h (firstp L') (as @ bs) None" by (auto simp: chain_append)
  then have "list_at ?h L' (as @ bs)"
    using rep l n by (auto simp: represents_def list_at_def unlinked_def Let_def)
  moreover have "heap_wf ?h"
    using wf relink_None [OF ch(1)] by (auto simp: heap_wf_def unlinked_def Let_def)
  moreover have "map (entry ?h) (as @ bs) = take (length as) xs @ drop (Suc (length as)) xs"
    using d by (auto simp: xs [symmetric] intro!: ent)
  ultimately show ?thesis by (simp add: represents_def)
qed

subsection \<open>The operations refine the operations on sequences\<close>

text \<open>The cells an operation may change, and the frame rule for the other lists of the heap.\<close>

definition frame :: "'a lheap \<Rightarrow> 'a lheap \<Rightarrow> addr set \<Rightarrow> bool" where
  "frame h h' A \<longleftrightarrow> brk h \<le> brk h' \<and> (\<forall>a. a < brk h \<longrightarrow> a \<notin> A \<longrightarrow> cells h' a = cells h a)"

lemma frame_represents:
  assumes "represents h L bs ys" "frame h h' A" "set bs \<inter> A = {}" "heap_wf h'"
  shows "represents h' L bs ys"
proof -
  have same: "a \<in> set bs \<Longrightarrow> cells h' a = cells h a" for a
    using assms(1-3) by (auto simp: represents_def list_at_def frame_def)
  have "chain h' (firstp L) bs None = chain h (firstp L) bs None"
    by (rule chain_cong) (rule same)
  moreover have "map (entry h') bs = map (entry h) bs"
    using same by (simp add: entry_def)
  ultimately show ?thesis
    using assms by (auto simp: represents_def list_at_def frame_def)
qed

lemma frame_inserted: "heap_wf h \<Longrightarrow> frame h (inserted h as bs x k) (set as)"
  by (auto simp: frame_def inserted_def cells_relink_other)

lemma frame_unlinked: "frame h (unlinked h as a) (set (as @ [a]))"
  by (auto simp: frame_def unlinked_def Let_def cells_relink_other)

lemma represents_wf: "represents h L as xs \<Longrightarrow> heap_wf h"
  by (simp add: represents_def)

lemma represents_empty_iff: "represents h L as xs \<Longrightarrow> List_IsEmpty L \<longleftrightarrow> xs = []"
  by (cases as) (auto simp: represents_def list_at_def List_IsEmpty_def)

lemma represents_as_Nil: "represents h L as xs \<Longrightarrow> as = [] \<longleftrightarrow> xs = []"
  by (auto simp: represents_def)

lemma represents_length: "represents h L as xs \<Longrightarrow> length as = length xs"
  by (auto simp: represents_def)

lemma List_List_represents: "heap_wf h \<Longrightarrow> represents h List_List [] []"
  by (simp add: represents_def list_at_def List_List_def)

lemma chain_new:
  assumes "represents h L as xs"
  shows "chain (store (h\<lparr>brk := n\<rparr>) (brk h) c) (firstp L) as None"
proof -
  have "chain (store (h\<lparr>brk := n\<rparr>) (brk h) c) (firstp L) as None = chain h (firstp L) as None"
    by (rule chain_cong) (use assms in \<open>auto simp: represents_def list_at_def\<close>)
  then show ?thesis using assms by (simp add: represents_def list_at_def)
qed

lemma List_Append_refines:
  assumes rep: "represents h L as xs"
  shows "\<exists>L'. List_Append x h L = Inr (inserted h as [] x 0, L') \<and>
    represents (inserted h as [] x 0) L' (as @ [brk h]) (xs @ [(x, 0)])"
proof -
  let ?L = "L\<lparr>firstp := (if as = [] then Some (brk h) else firstp L), lastp := Some (brk h),
    numInList := numInList L + 1\<rparr>"
  have "represents (inserted h as [] x 0) ?L (as @ [brk h]) (xs @ [(x, 0)])"
    using represents_insert [of h L as "[]" xs ?L x 0] rep represents_length [OF rep] by simp
  moreover have "List_Append x h L = Inr (inserted h as [] x 0, ?L)"
  proof (cases "as = []")
    case True
    then show ?thesis using represents_empty_iff [OF rep] represents_as_Nil [OF rep]
      by (simp add: List_Append_def new_ListElement_store inserted_def relink_def)
  next
    case False
    then have "lastp L = Some (last as)" using rep by (simp add: represents_def list_at_def)
    then show ?thesis
      using False represents_empty_iff [OF rep] represents_as_Nil [OF rep]
      by (simp add: List_Append_def new_ListElement_store inserted_def
          set_next_last [OF chain_new [OF rep] False])
  qed
  ultimately show ?thesis by blast
qed

lemma List_Prepend_refines:
  assumes rep: "represents h L as xs"
  shows "\<exists>L'. List_Prepend x h L = Inr (inserted h [] as x 0, L') \<and>
    represents (inserted h [] as x 0) L' (brk h # as) ((x, 0) # xs)"
proof -
  let ?L = "L\<lparr>firstp := Some (brk h), lastp := (if as = [] then Some (brk h) else lastp L),
    numInList := numInList L + 1\<rparr>"
  have "represents (inserted h [] as x 0) ?L (brk h # as) ((x, 0) # xs)"
    using represents_insert [of h L "[]" as xs ?L x 0] rep by simp
  moreover have "List_Prepend x h L = Inr (inserted h [] as x 0, ?L)"
  proof -
    have "as \<noteq> [] \<Longrightarrow> firstp L = Some (hd as)"
      using rep chain_hd [of h "firstp L" as None] by (simp add: represents_def list_at_def)
    then show ?thesis
      using represents_empty_iff [OF rep] represents_as_Nil [OF rep]
      by (auto simp: List_Prepend_def new_ListElement_store inserted_def relink_def store_def)
  qed
  ultimately show ?thesis by blast
qed

lemma insert_loop_spec:
  "chain h (Some a) (a # as) None \<Longrightarrow>
   \<exists>ys zs. as = ys @ zs \<and> (\<forall>y\<in>set ys. snd (entry h y) \<le> k) \<and>
     (zs \<noteq> [] \<longrightarrow> k < snd (entry h (hd zs))) \<and>
     insert_loop h (Some a) k = Some (Inr (if zs = [] then None else Some (last (a # ys))))"
proof (induction as arbitrary: a)
  case Nil
  then show ?case by (subst insert_loop.simps) (auto split: option.splits)
next
  case (Cons b as)
  from Cons.prems obtain c d where c: "cells h a = Some c" "le_next c = Some b"
    and d: "cells h b = Some d" and ch: "chain h (Some b) (b # as) None"
    by (auto split: option.splits)
  show ?case
  proof (cases "k < le_key d")
    case True
    then have "insert_loop h (Some a) k = Some (Inr (Some a))"
      by (subst insert_loop.simps) (simp add: c d)
    then show ?thesis using True d
      by (intro exI [of _ "[]"] exI [of _ "b # as"]) (simp add: entry_def)
  next
    case False
    then have e: "insert_loop h (Some a) k = insert_loop h (Some b) k"
      by (subst insert_loop.simps) (simp add: c d)
    from Cons.IH [OF ch] obtain ys zs where "as = ys @ zs" "\<forall>y\<in>set ys. snd (entry h y) \<le> k"
      "zs \<noteq> [] \<longrightarrow> k < snd (entry h (hd zs))"
      "insert_loop h (Some b) k = Some (Inr (if zs = [] then None else Some (last (b # ys))))"
      by blast
    then show ?thesis using False d e
      by (intro exI [of _ "b # ys"] exI [of _ zs]) (simp add: entry_def)
  qed
qed

lemma takeWhile_split:
  "(\<forall>e\<in>set us. P e) \<Longrightarrow> (vs \<noteq> [] \<longrightarrow> \<not> P (hd vs)) \<Longrightarrow>
   takeWhile P (us @ vs) = us \<and> dropWhile P (us @ vs) = vs"
  by (cases vs) auto

lemma ins_sorted_split:
  assumes "\<forall>e\<in>set us. snd e \<le> k" "vs \<noteq> [] \<longrightarrow> k < snd (hd vs)"
  shows "ins_sorted x k (us @ vs) = us @ (x, k) # vs"
  using takeWhile_split [of us "\<lambda>e. snd e \<le> k" vs] assms
  by (simp add: ins_sorted_def not_le)

lemma chain_next_hd:
  "chain h p (us @ vs) None \<Longrightarrow> us \<noteq> [] \<Longrightarrow>
   \<exists>c. cells h (last us) = Some c \<and> le_next c = (if vs = [] then None else Some (hd vs))"
  by (cases us rule: rev_cases) (use chain_hd in \<open>fastforce simp: chain_middle\<close>)+

lemma List_SortedInsert_step:
  assumes rep: "represents h L (us @ vs) xs"
    and us: "\<forall>a\<in>set us. snd (entry h a) \<le> k"
    and vs: "vs \<noteq> [] \<longrightarrow> k < snd (entry h (hd vs))"
    and run: "List_SortedInsert x k h L = Inr (inserted h us vs x k,
      L\<lparr>firstp := (if us = [] then Some (brk h) else firstp L),
        lastp := (if vs = [] then Some (brk h) else lastp L), numInList := numInList L + 1\<rparr>)"
  shows "\<exists>as' L' h'. List_SortedInsert x k h L = Inr (h', L') \<and> frame h h' (set (us @ vs)) \<and>
     set as' = insert (brk h) (set (us @ vs)) \<and> represents h' L' as' (ins_sorted x k xs)"
proof -
  have xs: "xs = map (entry h) us @ map (entry h) vs" using rep by (simp add: represents_def)
  then have "ins_sorted x k xs = take (length us) xs @ (x, k) # drop (length us) xs"
    using ins_sorted_split [of "map (entry h) us" k "map (entry h) vs" x] us vs
    by (simp add: hd_map)
  moreover have "frame h (inserted h us vs x k) (set (us @ vs))"
    using frame_inserted [OF represents_wf [OF rep]] by (auto simp: frame_def)
  ultimately show ?thesis
    unfolding run
    by (intro exI [of _ "us @ brk h # vs"] exI conjI)
      (auto intro!: represents_insert [OF rep])
qed

lemma List_SortedInsert_refines:
  assumes rep: "represents h L as xs"
  shows "\<exists>as' L' h'. List_SortedInsert x k h L = Inr (h', L') \<and> frame h h' (set as) \<and>
     set as' = insert (brk h) (set as) \<and> represents h' L' as' (ins_sorted x k xs)"
proof (cases as)
  case Nil
  then show ?thesis
    using List_SortedInsert_step [of h L "[]" "[]" xs k x] rep represents_empty_iff [OF rep]
      represents_as_Nil [OF rep]
    by (simp add: List_SortedInsert_def new_ListElement_store inserted_def relink_def)
next
  case (Cons a bs)
  let ?h = "store (h\<lparr>brk := brk h + 1\<rparr>) (brk h) \<lparr>le_item = x, le_key = k, le_next = None\<rparr>"
  have ne: "\<not> List_IsEmpty L" using Cons represents_empty_iff [OF rep] represents_as_Nil [OF rep]
    by simp
  have lt: "\<forall>b\<in>set as. b < brk h" and nb: "brk h \<notin> set as"
    using rep by (auto simp: represents_def list_at_def)
  have ch: "chain ?h (firstp L) as None" by (rule chain_new [OF rep])
  then have f: "firstp L = Some a" using Cons by simp
  have ent: "b \<in> set as \<Longrightarrow> entry ?h b = entry h b" for b using nb by auto
  obtain c where c: "cells h a = Some c" "a \<noteq> brk h"
    using ch Cons nb by (auto split: option.splits)
  show ?thesis
  proof (cases "k < le_key c")
    case True
    then have "List_SortedInsert x k h L = Inr (inserted h [] as x k,
        L\<lparr>firstp := Some (brk h), numInList := numInList L + 1\<rparr>)"
      using ne c f Cons
      by (simp add: List_SortedInsert_def new_ListElement_store inserted_def relink_def store_def)
    then show ?thesis
      using List_SortedInsert_step [of h L "[]" as xs k x] rep True Cons c by (simp add: entry_def)
  next
    case False
    from insert_loop_spec [of ?h a bs k] ch f Cons obtain ys zs where
      sp: "bs = ys @ zs" "\<forall>y\<in>set ys. snd (entry ?h y) \<le> k" "zs \<noteq> [] \<longrightarrow> k < snd (entry ?h (hd zs))"
      and lp: "insert_loop ?h (Some a) k = Some (Inr (if zs = [] then None else Some (last (a # ys))))"
      by auto
    have as: "as = (a # ys) @ zs" using Cons sp by simp
    obtain d where d: "cells ?h (last (a # ys)) = Some d"
      "le_next d = (if zs = [] then None else Some (hd zs))"
      using chain_next_hd [of ?h "firstp L" "a # ys" zs] ch as by auto
    have lb: "last (a # ys) \<noteq> brk h" using nb as last_in_set [of "a # ys"] by fastforce
    have ll: "zs = [] \<Longrightarrow> lastp L = Some (last (a # ys))"
      using rep as by (simp add: represents_def list_at_def)
    have "List_SortedInsert x k h L = Inr (inserted h (a # ys) zs x k,
       L\<lparr>lastp := (if zs = [] then Some (brk h) else lastp L), numInList := numInList L + 1\<rparr>)"
      using ne c f False lp d lb ll
      by (cases "zs = []") (auto simp: List_SortedInsert_def new_ListElement_store inserted_def
          relink_def store_def fun_upd_twist)
    moreover have "\<forall>b\<in>set (a # ys). snd (entry h b) \<le> k"
      using sp(2) ent False c as by (auto simp: entry_def)
    moreover have "zs \<noteq> [] \<longrightarrow> k < snd (entry h (hd zs))"
      using sp(3) ent [of "hd zs"] as hd_in_set [of zs] by auto
    ultimately show ?thesis
      using List_SortedInsert_step [of h L "a # ys" zs xs k x] rep as by simp
  qed
qed

lemma List_SortedRemove_empty: "represents h L as [] \<Longrightarrow> List_SortedRemove h L = Inr (None, None, h, L)"
  using represents_empty_iff [of h L as "[]"] by (simp add: List_SortedRemove_def)

lemma List_SortedRemove_refines:
  assumes rep: "represents h L as ((x, k) # xs)"
  shows "\<exists>L'. List_SortedRemove h L = Inr (x, Some k, unlinked h [] (hd as), L') \<and>
     represents (unlinked h [] (hd as)) L' (tl as) xs"
proof -
  obtain a bs where as: "as = a # bs" using rep by (cases as) (auto simp: represents_def)
  from rep as obtain c where c: "cells h a = Some c" "le_item c = x" "le_key c = k"
    and f: "firstp L = Some a" and l: "lastp L = Some (last as)" and d: "distinct as"
    and ch: "chain h (le_next c) bs None"
    by (auto simp: represents_def list_at_def entry_def split: option.splits)
  let ?L = "L\<lparr>firstp := le_next c, lastp := (if bs = [] then None else lastp L),
              numInList := numInList L - 1\<rparr>"
  have "represents (unlinked h [] a) ?L bs xs"
    using represents_unlink [of h L "[]" a bs "(x, k) # xs" ?L] rep as c
    by (cases "bs = []") auto
  moreover have "firstp L = lastp L \<longleftrightarrow> bs = []"
    using f l d as by (auto dest: last_in_set)
  then have "List_SortedRemove h L = Inr (x, Some k, unlinked h [] a, ?L)"
    using f c ch represents_empty_iff [OF rep]
    by (auto simp: List_SortedRemove_def unlinked_def relink_def)
  ultimately show ?thesis using as by auto
qed

lemma List_Remove_refines:
  assumes "represents h L as ((x, k) # xs)"
  shows "\<exists>L'. List_Remove h L = Inr (x, unlinked h [] (hd as), L') \<and>
     represents (unlinked h [] (hd as)) L' (tl as) xs"
  using List_SortedRemove_refines [OF assms] by (auto simp: List_Remove_def)

lemma remove_loop_spec:
  "chain h p as None \<Longrightarrow>
   \<exists>ys zs. as = ys @ zs \<and> (\<forall>y\<in>set ys. fst (entry h y) \<noteq> x) \<and>
     (zs \<noteq> [] \<longrightarrow> fst (entry h (hd zs)) = x) \<and>
     remove_loop h x prev p = Some (Inr (if ys = [] then prev else Some (last ys),
                                         if zs = [] then None else Some (hd zs)))"
proof (induction as arbitrary: p prev)
  case Nil
  then show ?case by (subst remove_loop.simps) simp
next
  case (Cons a as)
  from Cons.prems obtain c where c: "p = Some a" "cells h a = Some c" "chain h (le_next c) as None"
    by (auto split: option.splits)
  show ?case
  proof (cases "x = le_item c")
    case True
    then have "remove_loop h x prev p = Some (Inr (prev, Some a))"
      by (subst remove_loop.simps) (simp add: c)
    then show ?thesis using True c
      by (intro exI [of _ "[]"] exI [of _ "a # as"]) (simp add: entry_def)
  next
    case False
    then have e: "remove_loop h x prev p = remove_loop h x (Some a) (le_next c)"
      by (subst remove_loop.simps) (simp add: c)
    from Cons.IH [OF c(3), of "Some a"] obtain ys zs where "as = ys @ zs"
      "\<forall>y\<in>set ys. fst (entry h y) \<noteq> x" "zs \<noteq> [] \<longrightarrow> fst (entry h (hd zs)) = x"
      "remove_loop h x (Some a) (le_next c) =
         Some (Inr (if ys = [] then Some a else Some (last ys), if zs = [] then None else Some (hd zs)))"
      by blast
    then show ?thesis using False c e
      by (intro exI [of _ "a # ys"] exI [of _ zs]) (auto simp: entry_def)
  qed
qed

lemma remove_item_split:
  "\<forall>e\<in>set us. fst e \<noteq> x \<Longrightarrow> fst e = x \<Longrightarrow> remove_item x (us @ e # vs) = us @ vs"
  by (induction us) auto

lemma List_RemoveItem_empty: "represents h L as [] \<Longrightarrow> List_RemoveItem x h L = Inl NullDeref"
  using represents_empty_iff [of h L as "[]"]
  by (simp add: List_RemoveItem_def List_IsEmpty_def load_def)

lemma List_RemoveItem_cases:
  assumes rep: "represents h L (a # bs) xs"
  obtains us b vs h' L' where "a # bs = us @ b # vs" "x \<in> fst ` set xs" "remove_item x xs = map (entry h) (us @ vs)"
      "List_RemoveItem x h L = Inr (unlinked h us b, L')"
      "represents (unlinked h us b) L' (us @ vs) (remove_item x xs)"
  | "x \<notin> fst ` set xs" "List_RemoveItem x h L = Inl AssertFailed"
proof -
  from rep obtain c where c: "cells h a = Some c" "chain h (le_next c) bs None"
    and f: "firstp L = Some a" and d: "distinct (a # bs)" and xs: "xs = map (entry h) (a # bs)"
    and l: "lastp L = Some (last (a # bs))"
    by (auto simp: represents_def list_at_def split: option.splits)
  show thesis
  proof (cases "x = le_item c")
    case True
    have xs': "xs = (x, le_key c) # map (entry h) bs" using xs c True by (simp add: entry_def)
    from List_Remove_refines [OF rep [unfolded xs']] obtain L' where
      "List_Remove h L = Inr (x, unlinked h [] a, L')" "represents (unlinked h [] a) L' bs (map (entry h) bs)"
      by auto
    then show thesis using True c f xs'
      by (intro that(1) [of "[]" a bs L']) (auto simp: List_RemoveItem_def)
  next
    case False
    from remove_loop_spec [OF c(2), of x "Some a"] obtain ys zs where
      sp: "bs = ys @ zs" "\<forall>y\<in>set ys. fst (entry h y) \<noteq> x" "zs \<noteq> [] \<longrightarrow> fst (entry h (hd zs)) = x"
      and lp0: "remove_loop h x (Some a) (le_next c) =
         Some (Inr (if ys = [] then Some a else Some (last ys), if zs = [] then None else Some (hd zs)))"
      by blast
    have lp: "remove_loop h x (Some a) (le_next c) =
         Some (Inr (Some (last (a # ys)), if zs = [] then None else Some (hd zs)))"
      using lp0 by (cases "ys = []") simp_all
    show thesis
    proof (cases zs)
      case Nil
      then have "x \<notin> fst ` set xs" using sp False c xs by (auto simp: entry_def)
      moreover have "List_RemoveItem x h L = Inl AssertFailed"
        using False c f lp Nil by (simp add: List_RemoveItem_def)
      ultimately show thesis by (rule that(2))
    next
      case (Cons b vs)
      have as: "a # bs = (a # ys) @ b # vs" using sp Cons by simp
      then have ch: "chain h (Some a) (a # ys) (Some b)" and "\<exists>e. cells h b = Some e \<and> chain h (le_next e) vs None"
        using rep f chain_middle [of h "Some a" "a # ys" b vs None] by (auto simp: represents_def list_at_def)
      then obtain e where e: "cells h b = Some e" "chain h (le_next e) vs None" by auto
      have ne: "le_next e = None \<longleftrightarrow> vs = []" using chain_hd [OF e(2)] by auto
      have lb: "last (a # ys) \<noteq> b" using d as last_in_set [of "a # ys"] by fastforce
      let ?L = "(if vs = [] then L\<lparr>lastp := Some (last (a # ys))\<rparr> else L)\<lparr>numInList := numInList L - 1\<rparr>"
      have run: "List_RemoveItem x h L = Inr (unlinked h (a # ys) b, ?L)"
        using False c f lp Cons e lb ne set_next_last [OF ch, of "le_next e"]
        by (auto simp: List_RemoveItem_def unlinked_def Let_def relink_def)
      have "remove_item x xs = map (entry h) ((a # ys) @ vs)"
        using remove_item_split [of "map (entry h) (a # ys)" x "entry h b" "map (entry h) vs"]
          sp Cons False c xs by (auto simp: entry_def)
      moreover have "represents (unlinked h (a # ys) b) ?L ((a # ys) @ vs) (map (entry h) ((a # ys) @ vs))"
        using represents_unlink [of h L "a # ys" b vs xs ?L] rep as xs by auto
      moreover have "x \<in> fst ` set xs" using xs as sp(3) Cons by force
      ultimately show thesis using as run by (intro that(1) [of "a # ys" b vs ?L]) auto
    qed
  qed
qed

lemma List_RemoveItem_refines:
  assumes rep: "represents h L as xs" and x: "x \<in> fst ` set xs"
  shows "\<exists>as' h' L'. List_RemoveItem x h L = Inr (h', L') \<and> frame h h' (set as) \<and>
    set as' \<subseteq> set as \<and> represents h' L' as' (remove_item x xs)"
proof -
  obtain a bs where as: "as = a # bs" using rep x by (cases as) (auto simp: represents_def)
  show ?thesis
  proof (rule List_RemoveItem_cases [OF rep [unfolded as], of x])
    fix us b vs L'
    assume a: "a # bs = us @ b # vs" "List_RemoveItem x h L = Inr (unlinked h us b, L')"
      "represents (unlinked h us b) L' (us @ vs) (remove_item x xs)"
    have "frame h (unlinked h us b) (set as)"
      using frame_unlinked [of h us b] a(1) as by (auto simp: frame_def)
    moreover have "set (us @ vs) \<subseteq> set as" using a(1) as by auto
    ultimately show ?thesis using a by blast
  next
    assume "x \<notin> fst ` set xs"
    then show ?thesis using x by simp
  qed
qed

lemma List_RemoveItem_absent:
  assumes rep: "represents h L as xs" and x: "x \<notin> fst ` set xs"
  shows "List_RemoveItem x h L = Inl (if xs = [] then NullDeref else AssertFailed)"
proof (cases as)
  case Nil
  then show ?thesis using List_RemoveItem_empty [of h L as] rep represents_as_Nil [OF rep] by simp
next
  case (Cons a bs)
  show ?thesis
    by (rule List_RemoveItem_cases [OF rep [unfolded Cons], of x])
      (use x represents_as_Nil [OF rep] Cons in auto)
qed

lemma mapcar_loop_spec:
  "chain h p as None \<Longrightarrow> mapcar_loop h func p s = Some (Inr (fold func (map (fst \<circ> entry h) as) s))"
proof (induction as arbitrary: p s)
  case Nil
  then show ?case by (subst mapcar_loop.simps) simp
next
  case (Cons a as)
  then show ?case
    by (subst mapcar_loop.simps) (auto simp: entry_def comp_def split: option.splits)
qed

lemma List_Mapcar_refines:
  "represents h L as xs \<Longrightarrow> List_Mapcar func h L s = Inr (fold func (map fst xs) s)"
  by (auto simp: List_Mapcar_def represents_def list_at_def mapcar_loop_spec)

text \<open>The destructor frees the elements up to and including the first one whose item is NULL.\<close>

lemma frame_trans:
  assumes "frame h h1 A" "frame h1 h2 B" "B \<subseteq> A \<union> {brk h..<brk h1}"
  shows "frame h h2 A"
proof -
  have "cells h2 a = cells h a" if a: "a < brk h" "a \<notin> A" for a
  proof -
    have "a < brk h1" "a \<notin> B" using a assms by (auto simp: frame_def)
    then show ?thesis using a assms(1,2) by (simp add: frame_def)
  qed
  then show ?thesis using assms(1,2) by (simp add: frame_def)
qed

lemma unlinked_hd_cells: "cells (unlinked h [] a) b = (if b = a then None else cells h b)"
  by (simp add: unlinked_def relink_def)

lemma brk_unlinked [simp]: "brk (unlinked h as a) = brk h"
  by (simp add: unlinked_def Let_def)

lemma destroy_loop_spec:
  assumes "represents h L as xs"
  shows "\<exists>h' L' n. destroy_loop h L = Some (Inr (h', L')) \<and>
    n = Suc (length (takeWhile (\<lambda>e. fst e \<noteq> None) xs)) \<and>
    represents h' L' (drop n as) (drop n xs) \<and> brk h' = brk h \<and>
    cells h' = (\<lambda>a. if a \<in> set (take n as) then None else cells h a)"
  using assms
proof (induction xs arbitrary: h L as)
  case Nil
  then have "destroy_loop h L = Some (Inr (h, L))"
    using List_SortedRemove_empty [OF Nil] by (subst destroy_loop.simps) (simp add: List_Remove_def)
  moreover have "as = []" using represents_as_Nil [OF Nil] by simp
  ultimately show ?case using Nil by auto
next
  case (Cons e xs)
  obtain x k where e: "e = (x, k)" by (cases e)
  obtain a bs where as: "as = a # bs" using Cons.prems by (cases as) (auto simp: represents_def)
  from List_Remove_refines [of h L as x k xs] Cons.prems e as obtain L1 where
    r: "List_Remove h L = Inr (x, unlinked h [] a, L1)" "represents (unlinked h [] a) L1 bs xs"
    by auto
  show ?case
  proof (cases "x = None")
    case True
    then have "destroy_loop h L = Some (Inr (unlinked h [] a, L1))"
      by (subst destroy_loop.simps) (simp add: r)
    then show ?thesis using r True e as by (auto simp: unlinked_hd_cells)
  next
    case False
    then have "destroy_loop h L = destroy_loop (unlinked h [] a) L1"
      by (subst destroy_loop.simps) (simp add: r)
    then show ?thesis
      using Cons.IH [OF r(2)] False e as by (fastforce simp: unlinked_hd_cells)
  qed
qed

lemma List_destroy_refines:
  assumes "represents h L as xs" "None \<notin> fst ` set xs"
  shows "\<exists>h' L'. List_destroy h L = Inr (h', L') \<and> represents h' L' [] [] \<and> brk h' = brk h \<and>
    cells h' = (\<lambda>a. if a \<in> set as then None else cells h a)"
proof -
  have "takeWhile (\<lambda>e. fst e \<noteq> None) xs = xs"
    using assms(2) by (force simp: takeWhile_eq_all_conv)
  from destroy_loop_spec [OF assms(1), unfolded this] represents_length [OF assms(1)]
  show ?thesis by (auto simp: List_destroy_def)
qed

subsection \<open>Every call refines its specification\<close>

text \<open>The cells a list may own after a call: its old ones and those allocated since.\<close>

lemma list_call_refines:
  assumes rep: "represents h L as xs"
  shows "case spec_call c xs of
      Inl e \<Rightarrow> list_call c (h, L) = Inl e
    | Inr (out, ys) \<Rightarrow> \<exists>h' L' as'. list_call c (h, L) = Inr (out, h', L') \<and> represents h' L' as' ys \<and>
        frame h h' (set as) \<and> set as' \<subseteq> set as \<union> {brk h..<brk h'}"
proof (cases c)
  case (Append x)
  from List_Append_refines [OF rep, of x] obtain L' where
    "List_Append x h L = Inr (inserted h as [] x 0, L')"
    "represents (inserted h as [] x 0) L' (as @ [brk h]) (xs @ [(x, 0)])" by blast
  then show ?thesis
    using Append frame_inserted [OF represents_wf [OF rep], of as "[]" x 0]
    by (auto simp: inserted_def)
next
  case (Prepend x)
  from List_Prepend_refines [OF rep, of x] obtain L' where
    r: "List_Prepend x h L = Inr (inserted h [] as x 0, L')"
    "represents (inserted h [] as x 0) L' (brk h # as) ((x, 0) # xs)" by blast
  have "frame h (inserted h [] as x 0) (set as)"
    using frame_inserted [OF represents_wf [OF rep], of "[]" as x 0] by (simp add: frame_def)
  moreover have "set (brk h # as) \<subseteq> set as \<union> {brk h..<brk (inserted h [] as x 0)}"
    by (auto simp: inserted_def)
  ultimately show ?thesis using Prepend r by fastforce
next
  case (SortedInsert x k)
  from List_SortedInsert_refines [OF rep, of x k] obtain as' L' h' where
    r: "List_SortedInsert x k h L = Inr (h', L')" "frame h h' (set as)"
      "set as' = insert (brk h) (set as)" "represents h' L' as' (ins_sorted x k xs)" by blast
  then have "brk h < brk h'" by (auto simp: represents_def list_at_def)
  then show ?thesis using SortedInsert r by fastforce
next
  case SortedRemove
  show ?thesis
  proof (cases xs)
    case Nil
    then show ?thesis using SortedRemove rep List_SortedRemove_empty [of h L as]
      by (auto simp: frame_def)
  next
    case (Cons e ys)
    obtain x k where e: "e = (x, k)" by (cases e)
    from List_SortedRemove_refines [of h L as x k ys] rep Cons e obtain L' where
      r: "List_SortedRemove h L = Inr (x, Some k, unlinked h [] (hd as), L')"
        "represents (unlinked h [] (hd as)) L' (tl as) ys" by auto
    have "as \<noteq> []" using rep Cons by (auto simp: represents_def)
    then have "frame h (unlinked h [] (hd as)) (set as)" "set (tl as) \<subseteq> set as"
      using frame_unlinked [of h "[]" "hd as"] by (auto simp: frame_def dest: list.set_sel)
    then show ?thesis using r SortedRemove Cons e by fastforce
  qed
next
  case (RemoveItem x)
  show ?thesis
  proof (cases "x \<in> fst ` set xs")
    case True
    from List_RemoveItem_refines [OF rep True] obtain as' h' L' where
      "List_RemoveItem x h L = Inr (h', L')" "frame h h' (set as)" "set as' \<subseteq> set as"
      "represents h' L' as' (remove_item x xs)" by blast
    then show ?thesis using RemoveItem True by auto
  next
    case False
    then show ?thesis
      using RemoveItem List_RemoveItem_absent [OF rep False] by simp
  qed
qed

lemma run_calls_refines:
  assumes "represents h L as xs"
  shows "case run_calls spec_call cs xs of
      Inl e \<Rightarrow> run_calls list_call cs (h, L) = Inl e
    | Inr (outs, ys) \<Rightarrow> \<exists>h' L' as'. run_calls list_call cs (h, L) = Inr (outs, h', L') \<and>
        represents h' L' as' ys \<and> frame h h' (set as) \<and> set as' \<subseteq> set as \<union> {brk h..<brk h'}"
  using assms
proof (induction cs arbitrary: h L as xs)
  case Nil
  then show ?case by (auto simp: frame_def)
next
  case (Cons c cs)
  show ?case
  proof (cases "spec_call c xs")
    case (Inl e)
    then show ?thesis using list_call_refines [OF Cons.prems, of c] by simp
  next
    case (Inr p)
    obtain out ys where p: "p = (out, ys)" by (cases p)
    from list_call_refines [OF Cons.prems, of c] Inr p obtain h1 L1 as1 where
      r: "list_call c (h, L) = Inr (out, h1, L1)" "represents h1 L1 as1 ys" "frame h h1 (set as)"
        "set as1 \<subseteq> set as \<union> {brk h..<brk h1}" by auto
    show ?thesis
    proof (cases "run_calls spec_call cs ys")
      case (Inl e)
      then show ?thesis using Cons.IH [OF r(2)] r(1) Inr p by simp
    next
      case (Inr q)
      obtain outs zs where q: "q = (outs, zs)" by (cases q)
      from Cons.IH [OF r(2)] Inr q obtain h2 L2 as2 where
        t: "run_calls list_call cs (h1, L1) = Inr (outs, h2, L2)" "represents h2 L2 as2 zs"
          "frame h1 h2 (set as1)" "set as2 \<subseteq> set as1 \<union> {brk h1..<brk h2}" by auto
      have "frame h h2 (set as)"
        using frame_trans [OF r(3) t(3) r(4)] .
      moreover have "set as2 \<subseteq> set as \<union> {brk h..<brk h2}"
        using r(3,4) t(3,4) by (auto simp: frame_def subset_iff)
      ultimately show ?thesis
        using r(1) t(1,2) Inr \<open>spec_call c xs = Inr p\<close> p q by auto
    qed
  qed
qed

subsection \<open>The interface the schedulers and device queues rely on\<close>

text \<open>A store of keyed items. \<open>rep s xs\<close> says that the state \<open>s\<close> holds the items \<open>xs\<close>. The
  clients insert with a key (the pending interrupts, a ready list by priority) or without (a
  ready list, a wait queue), and take from the front.\<close>

locale keyed_queue =
  fixes rep :: "'s \<Rightarrow> ('a \<times> int) list \<Rightarrow> bool"
    and insert_last :: "'a \<Rightarrow> 's \<Rightarrow> 'e + 's"
    and insert_key :: "'a \<times> int \<Rightarrow> 's \<Rightarrow> 'e + 's"
    and take_first :: "'s \<Rightarrow> 'e + ('a \<times> int) option \<times> 's"
  assumes insert_last_rep: "rep s xs \<Longrightarrow> \<exists>s'. insert_last x s = Inr s' \<and> rep s' (xs @ [(x, 0)])"
    and insert_key_rep: "rep s xs \<Longrightarrow> \<exists>s'. insert_key e s = Inr s' \<and> rep s' (ins_sorted (fst e) (snd e) xs)"
    and take_first_Nil: "rep s [] \<Longrightarrow> take_first s = Inr (None, s)"
    and take_first_Cons: "rep s (e # xs) \<Longrightarrow> \<exists>s'. take_first s = Inr (Some e, s') \<and> rep s' xs"
begin

lemma fold_insert_last:
  "rep s xs \<Longrightarrow> \<exists>s'. fold_res insert_last ys s = Inr s' \<and> rep s' (xs @ map (\<lambda>y. (y, 0)) ys)"
proof (induction ys arbitrary: s xs)
  case (Cons y ys)
  from insert_last_rep [OF Cons.prems, of y] obtain s1 where
    "insert_last y s = Inr s1" "rep s1 (xs @ [(y, 0)])" by blast
  then show ?case using Cons.IH [of s1 "xs @ [(y, 0)]"] by simp
qed simp

lemma fold_insert_key:
  "rep s xs \<Longrightarrow> \<exists>s'. fold_res insert_key es s = Inr s' \<and>
     rep s' (fold (\<lambda>e. ins_sorted (fst e) (snd e)) es xs)"
proof (induction es arbitrary: s xs)
  case (Cons e es)
  from insert_key_rep [OF Cons.prems, of e] obtain s1 where
    "insert_key e s = Inr s1" "rep s1 (ins_sorted (fst e) (snd e) xs)" by blast
  then show ?case using Cons.IH [of s1] by simp
qed simp

lemma drain:
  "rep s xs \<Longrightarrow> \<exists>s'. repeat_res (length xs) take_first s = Inr (map Some xs, s') \<and> rep s' []"
proof (induction xs arbitrary: s)
  case (Cons e xs)
  from take_first_Cons [OF Cons.prems] obtain s1 where
    "take_first s = Inr (Some e, s1)" "rep s1 xs" by blast
  then show ?case using Cons.IH [of s1] by auto
qed simp

lemma fifo:
  assumes "rep s []"
  shows "\<exists>s1 s2. fold_res insert_last ys s = Inr s1 \<and>
     repeat_res (length ys) take_first s1 = Inr (map (\<lambda>y. Some (y, 0)) ys, s2) \<and> rep s2 []"
proof -
  from fold_insert_last [OF assms, of ys] obtain s1 where
    s1: "fold_res insert_last ys s = Inr s1" "rep s1 (map (\<lambda>y. (y, 0)) ys)" by auto
  from drain [OF s1(2)] s1(1) show ?thesis by (auto simp: comp_def)
qed

end

text \<open>Inserting with keys into an empty list is a stable sort.\<close>

lemma mset_ins_sorted [simp]: "mset (ins_sorted x k xs) = add_mset (x, k) (mset xs)"
proof -
  have "mset (takeWhile (\<lambda>e. snd e \<le> k) xs) + mset (dropWhile (\<lambda>e. snd e \<le> k) xs) = mset xs"
    by (metis mset_append takeWhile_dropWhile_id)
  then show ?thesis by (simp add: ins_sorted_def)
qed

lemma sorted_dropWhile_le:
  "sorted (map snd xs) \<Longrightarrow> e \<in> set (dropWhile (\<lambda>e. snd e \<le> k) xs) \<Longrightarrow> (k::int) < snd e"
  by (induction xs) (force split: if_splits)+

lemma sorted_ins_sorted:
  assumes "sorted (map snd xs)"
  shows "sorted (map snd (ins_sorted x k xs))"
proof -
  let ?t = "takeWhile (\<lambda>e. snd e \<le> k) xs" and ?d = "dropWhile (\<lambda>e. snd e \<le> k) xs"
  have "sorted (map snd (?t @ ?d))" using assms by (simp only: takeWhile_dropWhile_id)
  moreover have "\<forall>e\<in>set ?t. snd e \<le> k" by (auto dest: set_takeWhileD)
  moreover have "\<forall>e\<in>set ?d. k < snd e" using sorted_dropWhile_le [OF assms] by blast
  ultimately show ?thesis
    by (auto simp: ins_sorted_def sorted_append intro: less_imp_le
        simp del: takeWhile_dropWhile_id)
qed

lemma filter_ins_sorted:
  assumes "sorted (map snd xs)"
  shows "filter (\<lambda>e. snd e = j) (ins_sorted x k xs) =
    filter (\<lambda>e. snd e = j) xs @ (if k = j then [(x, k)] else [])"
proof -
  let ?t = "takeWhile (\<lambda>e. snd e \<le> k) xs" and ?d = "dropWhile (\<lambda>e. snd e \<le> k) xs"
  have "filter (\<lambda>e. snd e = j) xs = filter (\<lambda>e. snd e = j) ?t @ filter (\<lambda>e. snd e = j) ?d"
    by (metis filter_append takeWhile_dropWhile_id)
  moreover have "filter (\<lambda>e. snd e = j) ?d = []" if "k = j"
    using sorted_dropWhile_le [OF assms] that by (force simp: filter_empty_conv)
  ultimately show ?thesis by (auto simp: ins_sorted_def)
qed

lemma fold_ins_sorted:
  assumes "sorted (map snd xs)"
  defines "r \<equiv> \<lambda>es. fold (\<lambda>e. ins_sorted (fst e) (snd e)) es xs"
  shows "sorted (map snd (r es)) \<and> mset (r es) = mset xs + mset es \<and>
    filter (\<lambda>e. snd e = j) (r es) = filter (\<lambda>e. snd e = j) xs @ filter (\<lambda>e. snd e = j) es"
  unfolding r_def
proof (induction es rule: rev_induct)
  case (snoc e es)
  then show ?case by (cases e) (auto simp: sorted_ins_sorted filter_ins_sorted)
qed (simp add: assms)

lemma fold_ins_sorted_sort:
  "fold (\<lambda>e. ins_sorted (fst e) (snd e)) es [] = sort_key snd es"
proof (rule properties_for_sort_key [symmetric])
  show "mset (fold (\<lambda>e. ins_sorted (fst e) (snd e)) es []) = mset es"
    "sorted (map snd (fold (\<lambda>e. ins_sorted (fst e) (snd e)) es []))"
    using fold_ins_sorted [of "[]" es] by simp_all
  fix e
  show "filter (\<lambda>x. snd e = snd x) (fold (\<lambda>e. ins_sorted (fst e) (snd e)) es []) =
      filter (\<lambda>x. snd e = snd x) es"
    using fold_ins_sorted [of "[]" es "snd e"] by (simp add: eq_commute [of "snd e"])
qed

context keyed_queue
begin

lemma priority_order:
  assumes "rep s []"
  shows "\<exists>s1 s2. fold_res insert_key es s = Inr s1 \<and>
     repeat_res (length es) take_first s1 = Inr (map Some (sort_key snd es), s2) \<and> rep s2 []"
proof -
  from fold_insert_key [OF assms, of es] obtain s1 where
    s1: "fold_res insert_key es s = Inr s1" "rep s1 (sort_key snd es)"
    by (auto simp: fold_ins_sorted_sort)
  from drain [OF s1(2)] s1(1) show ?thesis by auto
qed

end

definition list_rep :: "'a lheap \<times> LList \<Rightarrow> ('a option \<times> int) list \<Rightarrow> bool" where
  "list_rep s xs \<longleftrightarrow> (\<exists>as. represents (fst s) (snd s) as xs)"

definition put_last :: "'a option \<Rightarrow> 'a lheap \<times> LList \<Rightarrow> ('a lheap \<times> LList) res" where
  "put_last x s = List_Append x (fst s) (snd s)"

definition put_key :: "'a option \<times> int \<Rightarrow> 'a lheap \<times> LList \<Rightarrow> ('a lheap \<times> LList) res" where
  "put_key e s = List_SortedInsert (fst e) (snd e) (fst s) (snd s)"

definition get_first ::
  "'a lheap \<times> LList \<Rightarrow> (('a option \<times> int) option \<times> 'a lheap \<times> LList) res" where
  "get_first s = bind_res (List_SortedRemove (fst s) (snd s))
     (\<lambda>(x, k, s1). Inr (map_option (Pair x) k, s1))"

interpretation lq: keyed_queue list_rep put_last put_key get_first
proof
  fix s :: "'a lheap \<times> LList" and xs x
  assume "list_rep s xs"
  then obtain as where "represents (fst s) (snd s) as xs" by (auto simp: list_rep_def)
  from List_Append_refines [OF this, of x]
  show "\<exists>s'. put_last x s = Inr s' \<and> list_rep s' (xs @ [(x, 0)])"
    by (auto simp: put_last_def list_rep_def)
next
  fix s :: "'a lheap \<times> LList" and xs and e :: "'a option \<times> int"
  assume "list_rep s xs"
  then obtain as where "represents (fst s) (snd s) as xs" by (auto simp: list_rep_def)
  from List_SortedInsert_refines [OF this, of "fst e" "snd e"]
  show "\<exists>s'. put_key e s = Inr s' \<and> list_rep s' (ins_sorted (fst e) (snd e) xs)"
    by (auto simp: put_key_def list_rep_def)
next
  fix s :: "'a lheap \<times> LList"
  assume "list_rep s []"
  then show "get_first s = Inr (None, s)"
    by (auto simp: list_rep_def get_first_def List_SortedRemove_empty)
next
  fix s :: "'a lheap \<times> LList" and e xs
  assume "list_rep s (e # xs)"
  then obtain as where "represents (fst s) (snd s) as ((fst e, snd e) # xs)"
    by (auto simp: list_rep_def)
  from List_SortedRemove_refines [OF this]
  show "\<exists>s'. get_first s = Inr (Some e, s') \<and> list_rep s' xs"
    by (auto simp: get_first_def list_rep_def)
qed

subsection \<open>Properties\<close>

text \<open>C9. Whatever calls a client makes on a well formed list (Append, Prepend, SortedInsert, Remove,
  Remove(item), in any order), the pointer code answers exactly as the sequence of
  (item, key) pairs would, errors included: it aborts when the sequence operation is
  undefined and otherwise returns the same answers, ends with a well formed list holding the
  resulting sequence, and leaves every other list of the heap as it was.\<close>

theorem list_calls_simulate:
  assumes "represents h L as xs" "represents h M bs ys" "set as \<inter> set bs = {}"
  shows "case run_calls spec_call cs xs of
      Inl e \<Rightarrow> run_calls list_call cs (h, L) = Inl e
    | Inr (outs, zs) \<Rightarrow> \<exists>h' L' as'. run_calls list_call cs (h, L) = Inr (outs, h', L') \<and>
        represents h' L' as' zs \<and> numInList L' = int (length zs) \<and>
        represents h' M bs ys \<and> set as' \<inter> set bs = {}"
proof (cases "run_calls spec_call cs xs")
  case (Inl e)
  then show ?thesis using run_calls_refines [OF assms(1), of cs] by simp
next
  case (Inr p)
  obtain outs zs where p: "p = (outs, zs)" by (cases p)
  from run_calls_refines [OF assms(1), of cs] Inr p obtain h' L' as' where
    r: "run_calls list_call cs (h, L) = Inr (outs, h', L')" "represents h' L' as' zs"
      "frame h h' (set as)" "set as' \<subseteq> set as \<union> {brk h..<brk h'}" by auto
  have b: "b < brk h" if "b \<in> set bs" for b
    using assms(2) that by (auto simp: represents_def list_at_def)
  then have "set as' \<inter> set bs = {}" using r(4) assms(3) by fastforce
  moreover have "represents h' M bs ys"
    using frame_represents [OF assms(2) r(3) _ represents_wf [OF r(2)]] assms(3) by blast
  moreover have "numInList L' = int (length zs)"
    using r(2) by (auto simp: represents_def list_at_def)
  ultimately show ?thesis using Inr p r by auto
qed

text \<open>C30. Items put with SortedInsert into an empty list come back from SortedRemove in
  increasing order of their keys, those with equal keys in the order of their insertion:
  the list is a stable priority queue, and afterwards it is empty again.\<close>

theorem sorted_list_priority_order:
  assumes "list_rep s []"
  shows "\<exists>s1 s2. fold_res put_key es s = Inr s1 \<and>
     repeat_res (length es) get_first s1 = Inr (map Some (sort_key snd es), s2) \<and> list_rep s2 []"
  using assms by (rule lq.priority_order)

text \<open>Items put with Append into an empty list come back from Remove in the order they
  were put.\<close>

theorem list_fifo:
  assumes "list_rep s []"
  shows "\<exists>s1 s2. fold_res put_last ys s = Inr s1 \<and>
     repeat_res (length ys) get_first s1 = Inr (map (\<lambda>y. Some (y, 0)) ys, s2) \<and> list_rep s2 []"
  using assms by (rule lq.fifo)

text \<open>The destructor of a list without NULL items returns, and frees every element of that
  list and no other memory.\<close>

theorem list_destructor_frees:
  assumes "represents h L as xs" "None \<notin> fst ` set xs"
  shows "\<exists>h' L'. List_destroy h L = Inr (h', L') \<and> List_IsEmpty L' \<and> numInList L' = 0 \<and>
    cells h' = (\<lambda>a. if a \<in> set as then None else cells h a)"
  using List_destroy_refines [OF assms]
  by (fastforce simp: represents_def list_at_def List_IsEmpty_def)

subsection \<open>Witnesses\<close>

definition empty_heap :: "nat lheap" where
  "empty_heap = \<lparr>cells = (\<lambda>_. None), brk = 0\<rparr>"

definition one_heap :: "nat lheap" where
  "one_heap = \<lparr>cells = [0 \<mapsto> \<lparr>le_item = Some 7, le_key = 3, le_next = None\<rparr>], brk = 1\<rparr>"

definition one_list :: LList where
  "one_list = \<lparr>firstp = Some 0, lastp = Some 0, numInList = 1\<rparr>"

lemma one_list_represents: "represents one_heap one_list [0] [(Some 7, 3)]"
  by (simp add: represents_def list_at_def heap_wf_def entry_def one_heap_def one_list_def)

lemma empty_list_rep: "list_rep (empty_heap, List_List) []"
  by (auto simp: list_rep_def represents_def list_at_def heap_wf_def empty_heap_def List_List_def)

lemma list_calls_simulate_witness:
  "represents one_heap one_list [0] [(Some 7, 3)] \<and> represents one_heap List_List [] [] \<and>
   (\<exists>h' L' as'. run_calls list_call [SortedInsert (Some 5) 2, Append None, RemoveItem (Some 7), SortedRemove]
      (one_heap, one_list) = Inr ([Done, Done, Done, Removed (Some 5) (Some 2)], h', L') \<and>
      represents h' L' as' [(None, 0)] \<and> numInList L' = 1 \<and>
      represents h' List_List [] [] \<and> set as' \<inter> set [] = {})"
  using list_calls_simulate [OF one_list_represents List_List_represents, of
      "[SortedInsert (Some 5) 2, Append None, RemoveItem (Some 7), SortedRemove]"]
    one_list_represents List_List_represents [of one_heap] represents_wf [OF one_list_represents]
  by (simp add: ins_sorted_def)

lemma sorted_list_priority_order_witness:
  "list_rep (empty_heap, List_List) [] \<and>
   (\<exists>s1 s2. fold_res put_key [(Some 1, 9), (Some 2, 4), (Some 3, 9), (Some 4, 4)]
       (empty_heap, List_List) = Inr s1 \<and>
     repeat_res 4 get_first s1 =
       Inr ([Some (Some 2, 4), Some (Some 4, 4), Some (Some 1, 9), Some (Some 3, 9)], s2) \<and>
     list_rep s2 [])"
  using empty_list_rep
    sorted_list_priority_order [OF empty_list_rep, of "[(Some 1, 9), (Some 2, 4), (Some 3, 9), (Some 4, 4)]"]
  by (simp add: numeral_eq_Suc)

lemma list_fifo_witness:
  "list_rep (empty_heap, List_List) [] \<and>
   (\<exists>s1 s2. fold_res put_last [Some 3, Some 1] (empty_heap, List_List) = Inr s1 \<and>
     repeat_res 2 get_first s1 = Inr ([Some (Some 3, 0), Some (Some 1, 0)], s2) \<and> list_rep s2 [])"
  using empty_list_rep list_fifo [OF empty_list_rep, of "[Some 3, Some 1]"]
  by (simp add: numeral_eq_Suc)

lemma list_destructor_frees_witness:
  "represents one_heap one_list [0] [(Some 7, 3)] \<and> None \<notin> fst ` set [(Some (7::nat), 3::int)] \<and>
   (\<exists>h' L'. List_destroy one_heap one_list = Inr (h', L') \<and> List_IsEmpty L' \<and> numInList L' = 0 \<and>
    cells h' = (\<lambda>a. if a \<in> set [0] then None else cells one_heap a))"
  using one_list_represents list_destructor_frees [OF one_list_represents] by simp

end
