(* ===== verification/Nachos_Bitmap.thy ===== *)
theory Nachos_Bitmap
  imports Nachos_Prelude
begin

text \<open>
  The bitmap of userprog/bitmap.h and userprog/bitmap.cc, which hands out disk sectors (filesys)
  and page frames (machine.cc). The bits are packed in 32-bit words as in the code; the set of
  marked numbers is what a bitmap means. The locale \<open>allocator\<close> is the contract its clients
  rely on: taking the lowest free number, giving one back.
\<close>

subsection \<open>Data and operations\<close>

definition BitsInWord :: nat where "BitsInWord = 32"

record BitMap =
  numBits :: nat
  numWords :: nat
  bm_map :: "32 word list"

definition in_range :: "BitMap \<Rightarrow> int \<Rightarrow> bool" where
  "in_range bm which \<longleftrightarrow> which \<ge> 0 \<and> which < int (numBits bm)"

text \<open>The mask \<open>1 << (which % BitsInWord)\<close>.\<close>

definition bit_mask :: "nat \<Rightarrow> 32 word" where
  "bit_mask which = push_bit (which mod BitsInWord) 1"

definition BitMap_Mark :: "int \<Rightarrow> BitMap \<Rightarrow> BitMap res" where
  "BitMap_Mark which bm =
     bind_res (ASSERT (in_range bm which)) (\<lambda>_.
     bind_res (arr_get (bm_map bm) (nat which div BitsInWord)) (\<lambda>w.
     bind_res (arr_set (bm_map bm) (nat which div BitsInWord) (w OR bit_mask (nat which))) (\<lambda>ws.
     Inr (bm\<lparr>bm_map := ws\<rparr>))))"

definition BitMap_Clear :: "int \<Rightarrow> BitMap \<Rightarrow> BitMap res" where
  "BitMap_Clear which bm =
     bind_res (ASSERT (in_range bm which)) (\<lambda>_.
     bind_res (arr_get (bm_map bm) (nat which div BitsInWord)) (\<lambda>w.
     bind_res (arr_set (bm_map bm) (nat which div BitsInWord) (w AND NOT (bit_mask (nat which)))) (\<lambda>ws.
     Inr (bm\<lparr>bm_map := ws\<rparr>))))"

definition BitMap_Test :: "int \<Rightarrow> BitMap \<Rightarrow> bool res" where
  "BitMap_Test which bm =
     bind_res (ASSERT (in_range bm which)) (\<lambda>_.
     bind_res (arr_get (bm_map bm) (nat which div BitsInWord)) (\<lambda>w.
     Inr (w AND bit_mask (nat which) \<noteq> 0)))"

text \<open>The constructor; \<open>junk\<close> is what the memory of \<open>new unsigned int[numWords]\<close> held.\<close>

definition BitMap_BitMap :: "nat \<Rightarrow> (nat \<Rightarrow> 32 word) \<Rightarrow> BitMap res" where
  "BitMap_BitMap nitems junk =
     (let nw = divRoundUp nitems BitsInWord;
          bm = \<lparr>numBits = nitems, numWords = nw, bm_map = map junk [0..<nw]\<rparr>
      in fold_res BitMap_Clear (map int [0..<nitems]) bm)"

fun find_loop :: "nat list \<Rightarrow> BitMap \<Rightarrow> (int \<times> BitMap) res" where
  "find_loop [] bm = Inr (-1, bm)"
| "find_loop (i # is) bm =
     bind_res (BitMap_Test (int i) bm) (\<lambda>t.
       if \<not> t then bind_res (BitMap_Mark (int i) bm) (\<lambda>bm'. Inr (int i, bm'))
       else find_loop is bm)"

definition BitMap_Find :: "BitMap \<Rightarrow> (int \<times> BitMap) res" where
  "BitMap_Find bm = find_loop [0..<numBits bm] bm"

fun numclear_loop :: "nat list \<Rightarrow> int \<Rightarrow> BitMap \<Rightarrow> int res" where
  "numclear_loop [] count bm = Inr count"
| "numclear_loop (i # is) count bm =
     bind_res (BitMap_Test (int i) bm) (\<lambda>t.
       numclear_loop is (if \<not> t then count + 1 else count) bm)"

definition BitMap_NumClear :: "BitMap \<Rightarrow> int res" where
  "BitMap_NumClear bm = numclear_loop [0..<numBits bm] 0 bm"

text \<open>The numbers that Print writes out.\<close>

fun print_loop :: "nat list \<Rightarrow> BitMap \<Rightarrow> nat list res" where
  "print_loop [] bm = Inr []"
| "print_loop (i # is) bm =
     bind_res (BitMap_Test (int i) bm) (\<lambda>t.
     bind_res (print_loop is bm) (\<lambda>out. Inr (if t then i # out else out)))"

definition BitMap_Print :: "BitMap \<Rightarrow> nat list res" where
  "BitMap_Print bm = print_loop [0..<numBits bm] bm"

subsection \<open>Meaning and invariant\<close>

definition bitmap_wf :: "BitMap \<Rightarrow> bool" where
  "bitmap_wf bm \<longleftrightarrow> numWords bm = divRoundUp (numBits bm) BitsInWord \<and> length (bm_map bm) = numWords bm"

definition is_marked :: "BitMap \<Rightarrow> nat \<Rightarrow> bool" where
  "is_marked bm i \<longleftrightarrow> i < numBits bm \<and> bit (bm_map bm ! (i div BitsInWord)) (i mod BitsInWord)"

definition marked :: "BitMap \<Rightarrow> nat set" where
  "marked bm = {i. is_marked bm i}"

subsection \<open>Lemmas\<close>

lemma bit_bit_mask: "bit (bit_mask i) n \<longleftrightarrow> n = i mod BitsInWord"
  by (auto simp: bit_mask_def bit_simps BitsInWord_def)

lemma and_bit_mask: "w AND bit_mask i \<noteq> 0 \<longleftrightarrow> bit w (i mod BitsInWord)"
proof -
  have "w AND bit_mask i \<noteq> 0 \<longleftrightarrow> (\<exists>n. bit (w AND bit_mask i) n)"
    using bit_imp_le_length [of "w AND bit_mask i"] by (auto simp: bit_eq_iff)
  then show ?thesis by (simp add: bit_and_iff bit_bit_mask)
qed

lemma word_index: "bitmap_wf bm \<Longrightarrow> i < numBits bm \<Longrightarrow> i div BitsInWord < length (bm_map bm)"
proof -
  assume wf: "bitmap_wf bm" and i: "i < numBits bm"
  have "i < divRoundUp (numBits bm) BitsInWord * BitsInWord"
    using divRoundUp_le [of BitsInWord "numBits bm"] i by (simp add: BitsInWord_def)
  then show ?thesis using wf by (simp add: bitmap_wf_def less_mult_imp_div_less)
qed

lemma same_position: "i div BitsInWord = j div BitsInWord \<Longrightarrow> i mod BitsInWord = j mod BitsInWord \<Longrightarrow> i = j"
  by (metis div_mult_mod_eq)

lemma BitMap_Test_eq:
  "bitmap_wf bm \<Longrightarrow> i < numBits bm \<Longrightarrow> BitMap_Test (int i) bm = Inr (is_marked bm i)"
  by (simp add: BitMap_Test_def in_range_def word_index and_bit_mask is_marked_def)

lemma BitMap_Mark_ok:
  assumes "bitmap_wf bm" "i < numBits bm"
  shows "\<exists>bm'. BitMap_Mark (int i) bm = Inr bm' \<and> bitmap_wf bm' \<and> numBits bm' = numBits bm \<and>
    marked bm' = insert i (marked bm)"
  using assms word_index [OF assms]
  by (auto simp: BitMap_Mark_def in_range_def bitmap_wf_def marked_def is_marked_def nth_list_update
      bit_simps bit_bit_mask dest: same_position)

lemma BitMap_Clear_ok:
  assumes "bitmap_wf bm" "i < numBits bm"
  shows "\<exists>bm'. BitMap_Clear (int i) bm = Inr bm' \<and> bitmap_wf bm' \<and> numBits bm' = numBits bm \<and>
    marked bm' = marked bm - {i}"
proof -
  have "i mod BitsInWord < 32" for i by (simp add: BitsInWord_def)
  then show ?thesis
    using assms word_index [OF assms]
    by (auto simp: BitMap_Clear_def in_range_def bitmap_wf_def marked_def is_marked_def nth_list_update
        bit_simps bit_bit_mask dest: same_position)
qed

lemma BitMap_out_of_range:
  "\<not> in_range bm which \<Longrightarrow> BitMap_Mark which bm = Inl AssertFailed \<and>
     BitMap_Clear which bm = Inl AssertFailed \<and> BitMap_Test which bm = Inl AssertFailed"
  by (simp add: BitMap_Mark_def BitMap_Clear_def BitMap_Test_def)

lemma marked_bound: "marked bm \<subseteq> {..<numBits bm}"
  by (auto simp: marked_def is_marked_def)

lemma finite_marked [simp]: "finite (marked bm)"
  using finite_subset [OF marked_bound] by simp

lemma find_loop_spec:
  assumes "bitmap_wf bm" "\<forall>i\<in>set is. i < numBits bm"
  shows "(set is \<subseteq> marked bm \<longrightarrow> find_loop is bm = Inr (-1, bm)) \<and>
    (\<forall>us i vs. is = us @ i # vs \<longrightarrow> set us \<subseteq> marked bm \<longrightarrow> i \<notin> marked bm \<longrightarrow>
       find_loop is bm = bind_res (BitMap_Mark (int i) bm) (\<lambda>bm'. Inr (int i, bm')))"
  using assms
proof (induction "is")
  case (Cons j js)
  show ?case
  proof (cases "j \<in> marked bm")
    case True
    then have "find_loop (j # js) bm = find_loop js bm"
      using Cons.prems by (simp add: BitMap_Test_eq marked_def)
    then show ?thesis using Cons True by (auto simp: Cons_eq_append_conv)
  next
    case False
    then have "find_loop (j # js) bm = bind_res (BitMap_Mark (int j) bm) (\<lambda>bm'. Inr (int j, bm'))"
      using Cons.prems by (simp add: BitMap_Test_eq marked_def)
    then show ?thesis using False by (auto simp: Cons_eq_append_conv)
  qed
qed simp

lemma BitMap_Find_full:
  "bitmap_wf bm \<Longrightarrow> marked bm = {..<numBits bm} \<Longrightarrow> BitMap_Find bm = Inr (-1, bm)"
  using find_loop_spec [of bm "[0..<numBits bm]"] by (simp add: BitMap_Find_def lessThan_atLeast0)

lemma BitMap_Find_first:
  assumes wf: "bitmap_wf bm" and nf: "marked bm \<noteq> {..<numBits bm}"
  shows "\<exists>i bm'. BitMap_Find bm = Inr (int i, bm') \<and> i < numBits bm \<and> i \<notin> marked bm \<and>
    {..<i} \<subseteq> marked bm \<and> bitmap_wf bm' \<and> numBits bm' = numBits bm \<and> marked bm' = insert i (marked bm)"
proof -
  define i where "i = (LEAST i. i < numBits bm \<and> i \<notin> marked bm)"
  have "\<exists>i. i < numBits bm \<and> i \<notin> marked bm" using nf marked_bound [of bm] by auto
  then have i: "i < numBits bm \<and> i \<notin> marked bm" unfolding i_def by (rule LeastI_ex)
  have below: "j \<in> marked bm" if "j < i" for j
    using that i not_less_Least [of j "\<lambda>i. i < numBits bm \<and> i \<notin> marked bm"] by (auto simp: i_def)
  have "[0..<numBits bm] = [0..<i] @ i # [Suc i..<numBits bm]"
    using i by (metis less_imp_add_positive upt_add_eq_append upt_conv_Cons le0 less_imp_le)
  moreover have "set [0..<i] \<subseteq> marked bm" using below by auto
  ultimately have "BitMap_Find bm = bind_res (BitMap_Mark (int i) bm) (\<lambda>bm'. Inr (int i, bm'))"
    using find_loop_spec [of bm "[0..<numBits bm]"] wf i unfolding BitMap_Find_def by fastforce
  then show ?thesis using BitMap_Mark_ok [of bm i] wf i below by auto
qed

lemma numclear_loop_spec:
  "bitmap_wf bm \<Longrightarrow> \<forall>i\<in>set is. i < numBits bm \<Longrightarrow>
   numclear_loop is c bm = Inr (c + int (length (filter (\<lambda>i. i \<notin> marked bm) is)))"
  by (induction "is" arbitrary: c) (auto simp: BitMap_Test_eq marked_def)

lemma BitMap_NumClear_eq:
  assumes "bitmap_wf bm"
  shows "BitMap_NumClear bm = Inr (int (card ({..<numBits bm} - marked bm)))"
proof -
  have "length (filter (\<lambda>i. i \<notin> marked bm) [0..<numBits bm]) = card ({..<numBits bm} - marked bm)"
    by (subst distinct_card [symmetric]) (auto intro: arg_cong [of _ _ card])
  then show ?thesis
    using numclear_loop_spec [OF assms, of "[0..<numBits bm]" 0] by (simp add: BitMap_NumClear_def)
qed

lemma print_loop_spec:
  "bitmap_wf bm \<Longrightarrow> \<forall>i\<in>set is. i < numBits bm \<Longrightarrow> print_loop is bm = Inr (filter (\<lambda>i. i \<in> marked bm) is)"
  by (induction "is") (auto simp: BitMap_Test_eq marked_def)

lemma BitMap_Print_eq: "bitmap_wf bm \<Longrightarrow> BitMap_Print bm = Inr (filter (\<lambda>i. i \<in> marked bm) [0..<numBits bm])"
  using print_loop_spec [of bm "[0..<numBits bm]"] by (simp add: BitMap_Print_def)

lemma clear_all:
  assumes "bitmap_wf bm" "\<forall>i\<in>set is. i < numBits bm"
  shows "\<exists>bm'. fold_res BitMap_Clear (map int is) bm = Inr bm' \<and> bitmap_wf bm' \<and>
    numBits bm' = numBits bm \<and> marked bm' = marked bm - set is"
  using assms
proof (induction "is" arbitrary: bm)
  case (Cons i js)
  from BitMap_Clear_ok [of bm i] Cons.prems obtain bm1 where
    "BitMap_Clear (int i) bm = Inr bm1" "bitmap_wf bm1" "numBits bm1 = numBits bm"
    "marked bm1 = marked bm - {i}" by auto
  then show ?case using Cons.IH [of bm1] Cons.prems by fastforce
qed simp

lemma BitMap_BitMap_ok:
  "\<exists>bm. BitMap_BitMap n junk = Inr bm \<and> bitmap_wf bm \<and> numBits bm = n \<and> marked bm = {}"
proof -
  let ?bm = "\<lparr>numBits = n, numWords = divRoundUp n BitsInWord,
    bm_map = map junk [0..<divRoundUp n BitsInWord]\<rparr>"
  have "bitmap_wf ?bm" by (simp add: bitmap_wf_def)
  from clear_all [OF this, of "[0..<n]"] obtain bm where
    "fold_res BitMap_Clear (map int [0..<n]) ?bm = Inr bm" "bitmap_wf bm" "numBits bm = n"
    "marked bm = marked ?bm - {0..<n}" by auto
  moreover have "marked ?bm \<subseteq> {0..<n}" using marked_bound [of ?bm] by auto
  ultimately show ?thesis by (auto simp: BitMap_BitMap_def Let_def)
qed

subsection \<open>The contract of an allocator of numbers\<close>

locale allocator =
  fixes inv :: "'s \<Rightarrow> bool" and used :: "'s \<Rightarrow> nat set" and capacity :: "'s \<Rightarrow> nat"
    and find :: "'s \<Rightarrow> nerr + int \<times> 's" and clear :: "int \<Rightarrow> 's \<Rightarrow> nerr + 's"
  assumes used_bound: "inv s \<Longrightarrow> used s \<subseteq> {..<capacity s}"
    and find_none: "inv s \<Longrightarrow> used s = {..<capacity s} \<Longrightarrow> find s = Inr (-1, s)"
    and find_some: "inv s \<Longrightarrow> used s \<noteq> {..<capacity s} \<Longrightarrow>
      \<exists>i s'. find s = Inr (int i, s') \<and> i < capacity s \<and> i \<notin> used s \<and> {..<i} \<subseteq> used s \<and>
        inv s' \<and> capacity s' = capacity s \<and> used s' = insert i (used s)"
    and clear_ok: "inv s \<Longrightarrow> i < capacity s \<Longrightarrow>
      \<exists>s'. clear (int i) s = Inr s' \<and> inv s' \<and> capacity s' = capacity s \<and> used s' = used s - {i}"
begin

lemma free_card: "inv s \<Longrightarrow> card ({..<capacity s} - used s) = capacity s - card (used s)"
  using used_bound [of s] by (simp add: card_Diff_subset finite_subset)

lemma allocate_many:
  assumes "inv s" "n \<le> card ({..<capacity s} - used s)"
  shows "\<exists>is s'. repeat_res n find s = Inr (map int is, s') \<and> length is = n \<and> distinct is \<and>
    set is \<subseteq> {..<capacity s} - used s \<and> inv s' \<and> capacity s' = capacity s \<and> used s' = used s \<union> set is"
  using assms
proof (induction n arbitrary: s)
  case 0
  then show ?case by auto
next
  case (Suc n)
  have "used s \<noteq> {..<capacity s}"
  proof
    assume "used s = {..<capacity s}"
    then show False using Suc.prems(2) by simp
  qed
  from find_some [OF Suc.prems(1) this] obtain i s1 where
    f: "find s = Inr (int i, s1)" "i < capacity s" "i \<notin> used s" "inv s1"
      "capacity s1 = capacity s" "used s1 = insert i (used s)" by auto
  have "{..<capacity s} - used s = insert i ({..<capacity s1} - used s1)" using f by auto
  moreover have "i \<notin> {..<capacity s1} - used s1" "finite ({..<capacity s1} - used s1)"
    using f by auto
  ultimately have "n \<le> card ({..<capacity s1} - used s1)" using Suc.prems(2) by simp
  from Suc.IH [OF f(4) this] obtain js s2 where
    "repeat_res n find s1 = Inr (map int js, s2)" "length js = n" "distinct js"
    "set js \<subseteq> {..<capacity s1} - used s1" "inv s2" "capacity s2 = capacity s1"
    "used s2 = used s1 \<union> set js" by blast
  then show ?case using f
    by (intro exI [of _ "i # js"] exI [of _ s2]) auto
qed

lemma release_many:
  assumes "inv s" "set is \<subseteq> {..<capacity s}"
  shows "\<exists>s'. fold_res clear (map int is) s = Inr s' \<and> inv s' \<and> capacity s' = capacity s \<and>
    used s' = used s - set is"
  using assms
proof (induction "is" arbitrary: s)
  case (Cons i js)
  from clear_ok [OF Cons.prems(1), of i] Cons.prems(2) obtain s1 where
    "clear (int i) s = Inr s1" "inv s1" "capacity s1 = capacity s" "used s1 = used s - {i}" by auto
  then show ?case using Cons.IH [of s1] Cons.prems(2) by fastforce
qed simp

end

interpretation bma: allocator bitmap_wf marked numBits BitMap_Find BitMap_Clear
proof
  fix s
  show "marked s \<subseteq> {..<numBits s}" by (rule marked_bound)
qed (rule BitMap_Find_full BitMap_Find_first BitMap_Clear_ok, assumption+)+

subsection \<open>Properties\<close>

text \<open>C27. From a bitmap with at least \<open>n\<close> clear bits, \<open>n\<close> calls of Find return \<open>n\<close> distinct
  numbers below the size of the bitmap, none of them in use before, and mark exactly those; clearing
  them again gives back the set of marked numbers there was. NumClear returns \<open>n\<close> less after the calls of Find and again
  what it returned before after the numbers are cleared; the size of the bitmap does not change.\<close>

theorem bitmap_allocate_release:
  assumes "bitmap_wf bm" "n \<le> card ({..<numBits bm} - marked bm)"
  shows "\<exists>is bm1 bm2. repeat_res n BitMap_Find bm = Inr (map int is, bm1) \<and> length is = n \<and>
    distinct is \<and> set is \<subseteq> {..<numBits bm} - marked bm \<and> marked bm1 = marked bm \<union> set is \<and>
    BitMap_NumClear bm = Inr (int (card ({..<numBits bm} - marked bm))) \<and> numBits bm1 = numBits bm \<and>
    BitMap_NumClear bm1 = Inr (int (card ({..<numBits bm} - marked bm)) - int n) \<and>
    fold_res BitMap_Clear (map int is) bm1 = Inr bm2 \<and> bitmap_wf bm2 \<and> marked bm2 = marked bm \<and>
    numBits bm2 = numBits bm \<and> BitMap_NumClear bm2 = BitMap_NumClear bm"
proof -
  from bma.allocate_many [OF assms] obtain js bm1 where
    a: "repeat_res n BitMap_Find bm = Inr (map int js, bm1)" "length js = n" "distinct js"
      "set js \<subseteq> {..<numBits bm} - marked bm" "bitmap_wf bm1" "numBits bm1 = numBits bm"
      "marked bm1 = marked bm \<union> set js" by blast
  have "set js \<subseteq> {..<numBits bm1}" using a(4,6) by auto
  from bma.release_many [OF a(5) this] obtain bm2 where
    b: "fold_res BitMap_Clear (map int js) bm1 = Inr bm2" "bitmap_wf bm2" "marked bm2 = marked bm1 - set js"
      "numBits bm2 = numBits bm1"
    by blast
  have "marked bm2 = marked bm" using a(4,7) b(3) by auto
  moreover have "{..<numBits bm1} - marked bm1 = ({..<numBits bm} - marked bm) - set js"
    using a(6,7) by auto
  then have "card ({..<numBits bm1} - marked bm1) = card ({..<numBits bm} - marked bm) - n"
    using a(2,3,4) by (simp add: card_Diff_subset distinct_card)
  ultimately show ?thesis
    using a b(1,2,4) assms by (auto simp: BitMap_NumClear_eq of_nat_diff)
qed

text \<open>Find is exact: the constructor leaves no bit set whatever the fresh memory held, Find
  returns the lowest clear bit and marks only that one, and returns -1 without a change when
  every bit is set.\<close>

theorem bitmap_find_lowest:
  "(\<exists>bm. BitMap_BitMap n junk = Inr bm \<and> bitmap_wf bm \<and> numBits bm = n \<and> marked bm = {}) \<and>
   (bitmap_wf bm \<longrightarrow> (if marked bm = {..<numBits bm} then BitMap_Find bm = Inr (-1, bm)
      else \<exists>bm'. BitMap_Find bm = Inr (int (LEAST i. i \<notin> marked bm), bm') \<and> bitmap_wf bm' \<and>
             marked bm' = insert (LEAST i. i \<notin> marked bm) (marked bm)))"
proof (intro conjI impI)
  show "\<exists>bm. BitMap_BitMap n junk = Inr bm \<and> bitmap_wf bm \<and> numBits bm = n \<and> marked bm = {}"
    by (rule BitMap_BitMap_ok)
next
  assume wf: "bitmap_wf bm"
  show "if marked bm = {..<numBits bm} then BitMap_Find bm = Inr (-1, bm)
      else \<exists>bm'. BitMap_Find bm = Inr (int (LEAST i. i \<notin> marked bm), bm') \<and> bitmap_wf bm' \<and>
             marked bm' = insert (LEAST i. i \<notin> marked bm) (marked bm)"
  proof (cases "marked bm = {..<numBits bm}")
    case True
    then show ?thesis using BitMap_Find_full [OF wf] by simp
  next
    case False
    from BitMap_Find_first [OF wf False] obtain i bm' where
      r: "BitMap_Find bm = Inr (int i, bm')" "i \<notin> marked bm" "{..<i} \<subseteq> marked bm"
        "bitmap_wf bm'" "marked bm' = insert i (marked bm)" by blast
    then have "(LEAST i. i \<notin> marked bm) = i"
      by (intro Least_equality) (auto simp: not_less [symmetric])
    then show ?thesis using False r by simp
  qed
qed

subsection \<open>Witnesses\<close>

definition bm3 :: BitMap where
  "bm3 = \<lparr>numBits = 3, numWords = 1, bm_map = [2]\<rparr>"

lemma bm3_wf: "bitmap_wf bm3"
  by (simp add: bitmap_wf_def bm3_def divRoundUp_def BitsInWord_def)

lemma bm3_numBits: "numBits bm3 = 3"
  by (simp add: bm3_def)

lemma bm3_marked: "marked bm3 = {1}"
proof -
  have "is_marked bm3 i \<longleftrightarrow> i = 1" for i
    by (cases "i < 3") (auto simp: is_marked_def bm3_def BitsInWord_def bit_2_iff)
  then show ?thesis by (simp add: marked_def)
qed

lemma bitmap_allocate_release_witness:
  "bitmap_wf bm3 \<and> 2 \<le> card ({..<numBits bm3} - marked bm3) \<and>
   (\<exists>is bm1. repeat_res 2 BitMap_Find bm3 = Inr (map int is, bm1) \<and> length is = 2 \<and> distinct is)"
proof -
  have "{..<numBits bm3} - marked bm3 = {0, 2}" by (auto simp: bm3_marked bm3_numBits)
  then have c: "2 \<le> card ({..<numBits bm3} - marked bm3)" by simp
  from bitmap_allocate_release [OF bm3_wf c] c bm3_wf show ?thesis by blast
qed

lemma bitmap_find_lowest_witness:
  "bitmap_wf bm3 \<and> (\<exists>bm'. BitMap_Find bm3 = Inr (0, bm') \<and> marked bm' = {0, 1})"
proof -
  have l: "(LEAST i. i \<notin> marked bm3) = 0"
    by (rule Least_equality) (auto simp: bm3_marked)
  have "marked bm3 \<noteq> {..<numBits bm3}"
  proof
    assume "marked bm3 = {..<numBits bm3}"
    then have "0 \<in> marked bm3" by (simp add: bm3_numBits)
    then show False by (simp add: bm3_marked)
  qed
  then obtain bm' where "BitMap_Find bm3 = Inr (int 0, bm')" "marked bm' = insert 0 (marked bm3)"
    using bitmap_find_lowest [of 0 "\<lambda>_. 0" bm3] bm3_wf unfolding l by auto
  then show ?thesis using bm3_wf by (simp add: bm3_marked)
qed

end
