(* ===== verification/Nachos_Machine.thy ===== *)
theory Nachos_Machine
  imports Nachos_Bitmap "HOL-Library.Signed_Division"
begin

text \<open>
  The simulated machine: registers, memory and address translation (machine/machine.h,
  machine.cc, translate.h, translate.cc) and the kernel's exception handler
  (userprog/exception.cc). Registers, addresses and table entries are 32-bit words. The tlb
  and the page table are pointers to arrays of entries, so two of them can be the same
  array; the arrays live in \<open>tables\<close>. The compile-time switches of the makefiles are the
  fields of a \<open>build\<close>.
\<close>

subsection \<open>Constants and data\<close>

definition SectorSize :: nat where "SectorSize = 128"
definition PageSize :: nat where "PageSize = SectorSize"
definition NumPhysPages :: nat where "NumPhysPages = 32"
definition MemorySize :: nat where "MemorySize = NumPhysPages * PageSize"
definition TLBSize :: nat where "TLBSize = 4"

definition StackReg :: nat where "StackReg = 29"
definition RetAddrReg :: nat where "RetAddrReg = 31"
definition NumGPRegs :: nat where "NumGPRegs = 32"
definition HiReg :: nat where "HiReg = 32"
definition LoReg :: nat where "LoReg = 33"
definition PCReg :: nat where "PCReg = 34"
definition NextPCReg :: nat where "NextPCReg = 35"
definition PrevPCReg :: nat where "PrevPCReg = 36"
definition LoadReg :: nat where "LoadReg = 37"
definition LoadValueReg :: nat where "LoadValueReg = 38"
definition BadVAddrReg :: nat where "BadVAddrReg = 39"
definition NumTotalRegs :: nat where "NumTotalRegs = 40"

lemmas reg_defs = StackReg_def RetAddrReg_def NumGPRegs_def HiReg_def LoReg_def PCReg_def
  NextPCReg_def PrevPCReg_def LoadReg_def LoadValueReg_def BadVAddrReg_def NumTotalRegs_def

lemmas size_defs = SectorSize_def PageSize_def NumPhysPages_def MemorySize_def TLBSize_def

record build =
  USE_TLB :: bool
  TLB_LRU :: bool
  HOST_IS_BIG_ENDIAN :: bool

datatype ExceptionType =
    NoException | SyscallException | PageFaultException | ReadOnlyException
  | BusErrorException | AddressErrorException | OverflowException | IllegalInstrException

record TranslationEntry =
  virtualPage :: "32 word"
  physicalPage :: "32 word"
  te_valid :: bool
  readOnly :: bool
  te_use :: bool
  dirty :: bool
  hitRate :: "32 word"

type_synonym table_ptr = nat

record Machine =
  mainMemory :: "nat \<Rightarrow> byte"
  registers :: "nat \<Rightarrow> 32 word"
  tables :: "table_ptr \<Rightarrow> TranslationEntry list option"
  tlb :: "table_ptr option"
  pageTable :: "table_ptr option"
  pageTableSize :: "32 word"
  bitMap :: BitMap
  mode :: MachineStatus              \<comment> \<open>interrupt->status\<close>

text \<open>How a call can end without returning: a fault of the host program, Halt (the simulation
  ends), or Finish of the current thread.\<close>

datatype stop = Fault nerr | Halted Machine | Finished Machine

fun lift :: "'a res \<Rightarrow> stop + 'a" where
  "lift (Inl e) = Inl (Fault e)"
| "lift (Inr x) = Inr x"

subsection \<open>Byte order (translate.cc)\<close>

definition WordToHost :: "build \<Rightarrow> 32 word \<Rightarrow> 32 word" where
  "WordToHost b w =
     (if HOST_IS_BIG_ENDIAN b
      then (drop_bit 24 w AND 0x000000ff) OR (drop_bit 8 w AND 0x0000ff00) OR
           (push_bit 8 w AND 0x00ff0000) OR (push_bit 24 w AND 0xff000000)
      else w)"

definition ShortToHost :: "build \<Rightarrow> 16 word \<Rightarrow> 16 word" where
  "ShortToHost b w =
     (if HOST_IS_BIG_ENDIAN b then (push_bit 8 w AND 0xff00) OR (drop_bit 8 w AND 0x00ff) else w)"

definition WordToMachine :: "build \<Rightarrow> 32 word \<Rightarrow> 32 word" where
  "WordToMachine b w = WordToHost b w"

definition ShortToMachine :: "build \<Rightarrow> 16 word \<Rightarrow> 16 word" where
  "ShortToMachine b w = ShortToHost b w"

text \<open>What the host reads from and writes to memory when it accesses an \<open>unsigned int\<close> or
  \<open>unsigned short\<close> there: the order of the bytes is the host's.\<close>

definition host_get32 :: "build \<Rightarrow> (nat \<Rightarrow> byte) \<Rightarrow> nat \<Rightarrow> 32 word" where
  "host_get32 b mem a =
     (if HOST_IS_BIG_ENDIAN b
      then bytes_to_int [mem (a + 3), mem (a + 2), mem (a + 1), mem a]
      else bytes_to_int [mem a, mem (a + 1), mem (a + 2), mem (a + 3)])"

definition host_put32 :: "build \<Rightarrow> (nat \<Rightarrow> byte) \<Rightarrow> nat \<Rightarrow> 32 word \<Rightarrow> (nat \<Rightarrow> byte)" where
  "host_put32 b mem a w =
     (let bs = (if HOST_IS_BIG_ENDIAN b then rev (int_to_bytes w) else int_to_bytes w)
      in mem(a := bs ! 0, a + 1 := bs ! 1, a + 2 := bs ! 2, a + 3 := bs ! 3))"

definition host_get16 :: "build \<Rightarrow> (nat \<Rightarrow> byte) \<Rightarrow> nat \<Rightarrow> 16 word" where
  "host_get16 b mem a =
     (if HOST_IS_BIG_ENDIAN b
      then ucast (mem (a + 1)) OR push_bit 8 (ucast (mem a))
      else ucast (mem a) OR push_bit 8 (ucast (mem (a + 1))))"

definition host_put16 :: "build \<Rightarrow> (nat \<Rightarrow> byte) \<Rightarrow> nat \<Rightarrow> 16 word \<Rightarrow> (nat \<Rightarrow> byte)" where
  "host_put16 b mem a w =
     (if HOST_IS_BIG_ENDIAN b
      then mem(a := ucast (drop_bit 8 w), a + 1 := ucast w)
      else mem(a := ucast w, a + 1 := ucast (drop_bit 8 w)))"

subsection \<open>Registers and tables\<close>

definition set_reg :: "nat \<Rightarrow> 32 word \<Rightarrow> Machine \<Rightarrow> Machine" where
  "set_reg i v m = m\<lparr>registers := (registers m)(i := v)\<rparr>"

definition Machine_ReadRegister :: "int \<Rightarrow> Machine \<Rightarrow> 32 word res" where
  "Machine_ReadRegister num m =
     bind_res (ASSERT (num \<ge> 0 \<and> num < int NumTotalRegs)) (\<lambda>_. Inr (registers m (nat num)))"

definition Machine_WriteRegister :: "int \<Rightarrow> 32 word \<Rightarrow> Machine \<Rightarrow> Machine res" where
  "Machine_WriteRegister num value m =
     bind_res (ASSERT (num \<ge> 0 \<and> num < int NumTotalRegs)) (\<lambda>_. Inr (set_reg (nat num) value m))"

definition get_entry :: "table_ptr option \<Rightarrow> nat \<Rightarrow> Machine \<Rightarrow> TranslationEntry res" where
  "get_entry t i m =
     bind_res (deref t) (\<lambda>p. case tables m p of None \<Rightarrow> Inl BadPointer | Some es \<Rightarrow> arr_get es i)"

definition put_entry :: "table_ptr option \<Rightarrow> nat \<Rightarrow> TranslationEntry \<Rightarrow> Machine \<Rightarrow> Machine res" where
  "put_entry t i e m =
     bind_res (deref t) (\<lambda>p. case tables m p of None \<Rightarrow> Inl BadPointer
       | Some es \<Rightarrow> bind_res (arr_set es i e) (\<lambda>es'. Inr (m\<lparr>tables := (tables m)(p \<mapsto> es')\<rparr>)))"

text \<open>\<open>big\<close> is the byte order the host really has.\<close>

definition CheckEndian :: "build \<Rightarrow> bool \<Rightarrow> unit res" where
  "CheckEndian b big =
     (let intword = host_get32 (b\<lparr>HOST_IS_BIG_ENDIAN := big\<rparr>) (\<lambda>i. of_nat (i + 1)) 0
      in ASSERT (intword = (if HOST_IS_BIG_ENDIAN b then 0x01020304 else 0x04030201)))"

text \<open>The constructor. \<open>junk\<close> is the fresh memory of the bitmap and \<open>fresh\<close> the uninitialised
  entries of the tlb; \<open>pageTableSize\<close> is not assigned, so it is whatever it was. The tlb is
  allocated at the table pointer 0.\<close>

definition Machine_Machine ::
  "build \<Rightarrow> bool \<Rightarrow> (nat \<Rightarrow> 32 word) \<Rightarrow> (nat \<Rightarrow> TranslationEntry) \<Rightarrow> 32 word \<Rightarrow> Machine res" where
  "Machine_Machine b big junk fresh pts =
     bind_res (BitMap_BitMap NumPhysPages junk) (\<lambda>bm.
     bind_res (CheckEndian b big) (\<lambda>_.
       Inr \<lparr>mainMemory = (\<lambda>_. 0), registers = (\<lambda>_. 0),
         tables = (if USE_TLB b
           then [0 \<mapsto> map (\<lambda>i. (fresh i)\<lparr>te_valid := False, hitRate := 0\<rparr>) [0..<TLBSize]]
           else Map.empty),
         tlb = (if USE_TLB b then Some 0 else None),
         pageTable = None, pageTableSize = pts, bitMap = bm, mode = SystemMode\<rparr>))"

subsection \<open>Translate (translate.cc)\<close>

fun tlb_lookup :: "nat list \<Rightarrow> 32 word \<Rightarrow> Machine \<Rightarrow> nat option res" where
  "tlb_lookup [] vpn m = Inr None"
| "tlb_lookup (i # is) vpn m =
     bind_res (get_entry (tlb m) i m) (\<lambda>e.
       if te_valid e \<and> virtualPage e = vpn then Inr (Some i) else tlb_lookup is vpn m)"

text \<open>The entry for a virtual page, as a table and an index into it, or the exception.\<close>

definition Translate_entry ::
  "32 word \<Rightarrow> Machine \<Rightarrow> (ExceptionType + table_ptr option \<times> nat \<times> Machine) res" where
  "Translate_entry vpn m =
     (if tlb m = None
      then if vpn \<ge> pageTableSize m then Inr (Inl AddressErrorException)
           else bind_res (get_entry (pageTable m) (unat vpn) m) (\<lambda>e.
             if \<not> te_valid e then Inr (Inl PageFaultException)
             else Inr (Inr (pageTable m, unat vpn, m)))
      else bind_res (tlb_lookup [0..<TLBSize] vpn m) (\<lambda>found.
        case found of
          None \<Rightarrow> Inr (Inl PageFaultException)
        | Some i \<Rightarrow> bind_res (get_entry (tlb m) i m) (\<lambda>e.
            bind_res (put_entry (tlb m) i (e\<lparr>hitRate := hitRate e + 1\<rparr>) m) (\<lambda>m1.
            Inr (Inr (tlb m, i, m1))))))"

definition misaligned :: "32 word \<Rightarrow> nat \<Rightarrow> bool" where
  "misaligned virtAddr sz \<longleftrightarrow>
     (sz = 4 \<and> virtAddr AND 3 \<noteq> 0) \<or> (sz = 2 \<and> virtAddr AND 1 \<noteq> 0)"

text \<open>Translate returns the exception and, when there is none, the value it stores at
  \<open>*physAddr\<close>.\<close>

definition Machine_Translate ::
  "32 word \<Rightarrow> nat \<Rightarrow> bool \<Rightarrow> Machine \<Rightarrow> (ExceptionType \<times> 32 word option \<times> Machine) res" where
  "Machine_Translate virtAddr sz writing m =
     (if misaligned virtAddr sz then Inr (AddressErrorException, None, m)
      else
        bind_res (ASSERT (tlb m = None \<or> pageTable m = None)) (\<lambda>_.
        bind_res (ASSERT (tlb m \<noteq> None \<or> pageTable m \<noteq> None)) (\<lambda>_.
        let vpn = virtAddr div of_nat PageSize; offset = virtAddr mod of_nat PageSize in
        bind_res (Translate_entry vpn m) (\<lambda>r.
        case r of
          Inl exception \<Rightarrow> Inr (exception, None, m)
        | Inr (t, i, m1) \<Rightarrow> bind_res (get_entry t i m1) (\<lambda>e.
            if readOnly e \<and> writing then Inr (ReadOnlyException, None, m1)
            else if physicalPage e \<ge> of_nat NumPhysPages then Inr (BusErrorException, None, m1)
            else
              bind_res (put_entry t i (e\<lparr>te_use := True, dirty := (if writing then True else dirty e)\<rparr>) m1) (\<lambda>m2.
              let physAddr = physicalPage e * of_nat PageSize + offset in
              bind_res (ASSERT (0 \<le> sint physAddr \<and> sint (physAddr + of_nat sz) \<le> int MemorySize)) (\<lambda>_.
              Inr (NoException, Some physAddr, m2))))))))"

subsection \<open>The tlb and the page frames (machine.cc)\<close>

fun first_invalid :: "nat list \<Rightarrow> Machine \<Rightarrow> nat option res" where
  "first_invalid [] m = Inr None"
| "first_invalid (i # is) m =
     bind_res (get_entry (tlb m) i m) (\<lambda>e. if \<not> te_valid e then Inr (Some i) else first_invalid is m)"

text \<open>The loop of the TLB_LRU build: the first entry with the least hit count below \<open>minRate\<close>.\<close>

fun least_hit :: "nat list \<Rightarrow> 32 word \<Rightarrow> nat option \<Rightarrow> Machine \<Rightarrow> nat option res" where
  "least_hit [] minRate swapI m = Inr swapI"
| "least_hit (i # is) minRate swapI m =
     bind_res (get_entry (tlb m) i m) (\<lambda>e.
       if te_valid e \<and> hitRate e <s minRate then least_hit is (hitRate e) (Some i) m
       else least_hit is minRate swapI m)"

text \<open>The loop of the other build: \<open>tlb[i] = tlb[i+1]\<close>.\<close>

definition shift_entry :: "nat \<Rightarrow> Machine \<Rightarrow> Machine res" where
  "shift_entry i m = bind_res (get_entry (tlb m) (i + 1) m) (\<lambda>e. put_entry (tlb m) i e m)"

text \<open>Signed division and remainder of C on 32-bit integers.\<close>

definition int_div :: "32 word \<Rightarrow> 32 word \<Rightarrow> 32 word" where
  "int_div a b = word_of_int (sint a sdiv sint b)"

definition int_mod :: "32 word \<Rightarrow> 32 word \<Rightarrow> 32 word" where
  "int_mod a b = word_of_int (sint a smod sint b)"

definition tlb_victim :: "build \<Rightarrow> 32 word \<Rightarrow> Machine \<Rightarrow> (nat option \<times> Machine) res" where
  "tlb_victim b vpn m =
     (if TLB_LRU b
      then bind_res (least_hit [0..<TLBSize] (push_bit 31 1 - 1) None m) (\<lambda>swapI. Inr (swapI, m))
      else let swapI = TLBSize - 1 in
        bind_res (fold_res shift_entry [0..<TLBSize - 1] m) (\<lambda>m1.
        bind_res (get_entry (tlb m1) swapI m1) (\<lambda>e.
        bind_res (if 0 \<le> sint vpn then get_entry (pageTable m1) (unat vpn) m1
                  else bind_res (deref (pageTable m1)) (\<lambda>_. Inl OutOfBounds)) (\<lambda>p.
        bind_res (put_entry (tlb m1) swapI (e\<lparr>physicalPage := physicalPage p\<rparr>) m1) (\<lambda>m2.
        Inr (Some swapI, m2))))))"

definition Machine_tlbSwap :: "build \<Rightarrow> 32 word \<Rightarrow> Machine \<Rightarrow> Machine res" where
  "Machine_tlbSwap b vaddr m =
     bind_res (ASSERT (tlb m \<noteq> None)) (\<lambda>_.
     bind_res (first_invalid [0..<TLBSize] m) (\<lambda>empty.
     let vpn = int_div vaddr (of_nat PageSize) in
     bind_res (case empty of Some i \<Rightarrow> Inr (Some i, m) | None \<Rightarrow> tlb_victim b vpn m) (\<lambda>(swapI, m1).
     case swapI of
       None \<Rightarrow> Inl OutOfBounds
     | Some i \<Rightarrow> bind_res (get_entry (tlb m1) i m1) (\<lambda>e.
         put_entry (tlb m1) i (e\<lparr>te_valid := True, virtualPage := vpn, te_use := False,
           dirty := False, readOnly := False, hitRate := 0\<rparr>) m1))))"

definition Machine_Find :: "Machine \<Rightarrow> (int \<times> Machine) res" where
  "Machine_Find m =
     bind_res (BitMap_Find (bitMap m)) (\<lambda>(tmp, bm).
     bind_res (ASSERT (tmp \<noteq> -1)) (\<lambda>_. Inr (tmp, m\<lparr>bitMap := bm\<rparr>)))"

definition Machine_Clear :: "int \<Rightarrow> Machine \<Rightarrow> Machine res" where
  "Machine_Clear num m =
     bind_res (BitMap_Test num (bitMap m)) (\<lambda>t.
       if t then bind_res (BitMap_Clear num (bitMap m)) (\<lambda>bm. Inr (m\<lparr>bitMap := bm\<rparr>)) else Inr m)"

definition Machine_ClearAll :: "build \<Rightarrow> Machine \<Rightarrow> Machine res" where
  "Machine_ClearAll b m =
     bind_res (BitMap_Print (bitMap m)) (\<lambda>_.
     fold_res (\<lambda>i m. bind_res (get_entry (if USE_TLB b then tlb m else pageTable m) i m) (\<lambda>e.
         Machine_Clear (sint (physicalPage e)) m))
       [0..<unat (pageTableSize m)] m)"

subsection \<open>Exceptions (machine.cc, userprog/exception.cc)\<close>

definition SC_Halt :: "32 word" where "SC_Halt = 0"
definition SC_Exit :: "32 word" where "SC_Exit = 1"

definition DelayedLoad :: "32 word \<Rightarrow> 32 word \<Rightarrow> Machine \<Rightarrow> Machine res" where
  "DelayedLoad nextReg nextValue m =
     (let r = registers m LoadReg in
      if 0 \<le> sint r \<and> sint r < int NumTotalRegs
      then Inr (set_reg 0 0 (set_reg LoadValueReg nextValue (set_reg LoadReg nextReg
             (set_reg (unat r) (registers m LoadValueReg) m))))
      else Inl OutOfBounds)"

definition IncrementPCRegs :: "Machine \<Rightarrow> Machine res" where
  "IncrementPCRegs m =
     bind_res (Machine_ReadRegister (int NextPCReg) m) (\<lambda>v. Machine_WriteRegister (int PCReg) v m)"

definition ExceptionHandler :: "build \<Rightarrow> ExceptionType \<Rightarrow> Machine \<Rightarrow> stop + Machine" where
  "ExceptionHandler b which m =
     bind_res (lift (Machine_ReadRegister 2 m)) (\<lambda>type.
       if which = SyscallException \<and> type = SC_Halt
       then bind_res (lift (Machine_ClearAll b m)) (\<lambda>m1. Inl (Halted m1))
       else if which = SyscallException \<and> type = SC_Exit
       then bind_res (lift (Machine_ClearAll b m)) (\<lambda>m1.
            bind_res (lift (IncrementPCRegs m1)) (\<lambda>m2. Inl (Finished m2)))
       else if which = PageFaultException
       then bind_res (lift (Machine_ReadRegister (int BadVAddrReg) m)) (\<lambda>vaddr.
            if tlb m \<noteq> None then lift (Machine_tlbSwap b vaddr m) else Inr m)
       else Inl (Fault AssertFailed))"

definition RaiseException :: "build \<Rightarrow> ExceptionType \<Rightarrow> 32 word \<Rightarrow> Machine \<Rightarrow> stop + Machine" where
  "RaiseException b which badVAddr m =
     bind_res (lift (DelayedLoad 0 0 (set_reg BadVAddrReg badVAddr m))) (\<lambda>m1.
     bind_res (ExceptionHandler b which (m1\<lparr>mode := SystemMode\<rparr>)) (\<lambda>m2.
     Inr (m2\<lparr>mode := UserMode\<rparr>)))"

subsection \<open>ReadMem and WriteMem (translate.cc)\<close>

text \<open>The common part of both: translate, raise the exception, and after a page fault translate
  once more. The result is \<open>None\<close> when the access returns FALSE; otherwise it is the variable
  \<open>physicalAddress\<close>, still unassigned (\<open>Some None\<close>) when the second translation failed as well.\<close>

definition mem_address ::
  "build \<Rightarrow> 32 word \<Rightarrow> nat \<Rightarrow> bool \<Rightarrow> Machine \<Rightarrow> stop + 32 word option option \<times> Machine" where
  "mem_address b addr sz writing m =
     bind_res (lift (Machine_Translate addr sz writing m)) (\<lambda>(exception, pa, m1).
       if exception \<noteq> NoException
       then bind_res (RaiseException b exception addr m1) (\<lambda>m2.
         if exception = PageFaultException
         then bind_res (lift (Machine_Translate addr sz True m2)) (\<lambda>(_, pa', m3). Inr (Some pa', m3))
         else Inr (None, m2))
       else Inr (Some pa, m1))"

definition Machine_ReadMem ::
  "build \<Rightarrow> 32 word \<Rightarrow> nat \<Rightarrow> Machine \<Rightarrow> stop + 32 word option \<times> Machine" where
  "Machine_ReadMem b addr sz m =
     bind_res (mem_address b addr sz False m) (\<lambda>(r, m1).
       case r of
         None \<Rightarrow> Inr (None, m1)
       | Some None \<Rightarrow> Inl (Fault Uninitialised)
       | Some (Some pa) \<Rightarrow>
           if sz = 1 then Inr (Some (scast (mainMemory m1 (unat pa))), m1)
           else if sz = 2 then Inr (Some (ucast (ShortToHost b (host_get16 b (mainMemory m1) (unat pa)))), m1)
           else if sz = 4 then Inr (Some (WordToHost b (host_get32 b (mainMemory m1) (unat pa))), m1)
           else Inl (Fault AssertFailed))"

definition Machine_WriteMem ::
  "build \<Rightarrow> 32 word \<Rightarrow> nat \<Rightarrow> 32 word \<Rightarrow> Machine \<Rightarrow> stop + bool \<times> Machine" where
  "Machine_WriteMem b addr sz value m =
     bind_res (mem_address b addr sz True m) (\<lambda>(r, m1).
       case r of
         None \<Rightarrow> Inr (False, m1)
       | Some None \<Rightarrow> Inl (Fault Uninitialised)
       | Some (Some pa) \<Rightarrow>
           (let a = unat pa; mem = mainMemory m1 in
            if sz = 1 then Inr (True, m1\<lparr>mainMemory := mem(a := ucast (value AND 0xff))\<rparr>)
            else if sz = 2 then Inr (True, m1\<lparr>mainMemory :=
              host_put16 b mem a (ShortToMachine b (ucast (value AND 0xffff)))\<rparr>)
            else if sz = 4 then Inr (True, m1\<lparr>mainMemory :=
              host_put32 b mem a (WordToMachine b value)\<rparr>)
            else Inl (Fault AssertFailed)))"

subsection \<open>Byte order\<close>

lemma bit_byte_masks [simp]:
  "bit (0xff :: int) n \<longleftrightarrow> n < 8" "bit (0xff00 :: int) n \<longleftrightarrow> 8 \<le> n \<and> n < 16"
  "bit (0xff0000 :: int) n \<longleftrightarrow> 16 \<le> n \<and> n < 24" "bit (0xff000000 :: int) n \<longleftrightarrow> 24 \<le> n \<and> n < 32"
  "bit (0xffff :: int) n \<longleftrightarrow> n < 16"
proof -
  have m: "(0xff :: int) = mask 8" "(0xffff :: int) = mask 16"
    "(0xff00 :: int) = push_bit 8 (mask 8)" "(0xff0000 :: int) = push_bit 16 (mask 8)"
    "(0xff000000 :: int) = push_bit 24 (mask 8)"
    by (simp_all add: mask_eq_exp_minus_1 push_bit_eq_mult)
  show "bit (0xff :: int) n \<longleftrightarrow> n < 8" "bit (0xff00 :: int) n \<longleftrightarrow> 8 \<le> n \<and> n < 16"
    "bit (0xff0000 :: int) n \<longleftrightarrow> 16 \<le> n \<and> n < 24" "bit (0xff000000 :: int) n \<longleftrightarrow> 24 \<le> n \<and> n < 32"
    "bit (0xffff :: int) n \<longleftrightarrow> n < 16"
    unfolding m by (auto simp: bit_simps)
qed

lemma bit_WordToHost_big:
  assumes "HOST_IS_BIG_ENDIAN b"
  shows "bit (WordToHost b w) n \<longleftrightarrow>
    (if n < 8 then bit w (n + 24) else if n < 16 then bit w (n + 8)
     else if n < 24 then bit w (n - 8) else n < 32 \<and> bit w (n - 24))"
  using assms by (auto simp: WordToHost_def bit_or_iff bit_and_iff bit_drop_bit_eq bit_push_bit_iff
      add.commute)

lemma WordToHost_involution [simp]: "WordToHost b (WordToHost b w) = w"
proof (cases "HOST_IS_BIG_ENDIAN b")
  case True
  show ?thesis
  proof (rule bit_word_eqI)
    fix n assume "n < LENGTH(32)"
    then show "bit (WordToHost b (WordToHost b w)) n = bit w n"
      by (auto simp: bit_WordToHost_big [OF True] not_less)
  qed
qed (simp add: WordToHost_def)

lemma ShortToHost_involution [simp]: "ShortToHost b (ShortToHost b w) = w"
proof (cases "HOST_IS_BIG_ENDIAN b")
  case True
  show ?thesis
  proof (rule bit_word_eqI)
    fix n assume "n < LENGTH(16)"
    then show "bit (ShortToHost b (ShortToHost b w)) n = bit w n"
      using True by (auto simp: ShortToHost_def bit_or_iff bit_and_iff bit_drop_bit_eq
          bit_push_bit_iff)
  qed
qed (simp add: ShortToHost_def)

lemma bit_bytes_to_int:
  "bit (bytes_to_int [b0, b1, b2, b3]) n \<longleftrightarrow>
    (if n < 8 then bit b0 n else if n < 16 then bit b1 (n - 8)
     else if n < 24 then bit b2 (n - 16) else n < 32 \<and> bit b3 (n - 24))"
  using bit_imp_le_length [of b0 n] bit_imp_le_length [of b1 "n - 8"] bit_imp_le_length [of b2 "n - 16"]
    bit_imp_le_length [of b3 "n - 24"]
  by (auto simp: bit_or_iff bit_push_bit_iff bit_unsigned_iff)

text \<open>What ReadMem returns does not depend on the byte order of the host.\<close>

lemma read_word_little_endian:
  "WordToHost b (host_get32 b mem a) = bytes_to_int [mem a, mem (a + 1), mem (a + 2), mem (a + 3)]"
proof (cases "HOST_IS_BIG_ENDIAN b")
  case True
  show ?thesis
  proof (rule bit_word_eqI)
    fix n assume "n < LENGTH(32)"
    then show "bit (WordToHost b (host_get32 b mem a)) n =
        bit (bytes_to_int [mem a, mem (a + 1), mem (a + 2), mem (a + 3)]) n"
      using True
      by (auto simp: bit_WordToHost_big host_get32_def bit_bytes_to_int not_less simp del: bytes_to_int.simps)
  qed
qed (simp add: WordToHost_def host_get32_def)

subsection \<open>Translation through a page table\<close>

lemma sint_small:
  assumes "unat (w :: 32 word) < 2 ^ 31"
  shows "sint w = int (unat w)"
proof -
  have "int (unat w) < int (2 ^ 31)" using assms by (simp only: of_nat_less_iff)
  then have "uint w < 2 ^ 31" by simp
  moreover have "sint w = signed_take_bit 31 (uint w)" by (simp add: sint_uint)
  moreover have "- (2 ^ 31) \<le> uint w" by (rule order_trans [OF _ unsigned_greater_eq]) simp
  ultimately show ?thesis using signed_take_bit_int_eq_self [of 31 "uint w"] by simp
qed

lemma misaligned_iff:
  "misaligned va sz \<longleftrightarrow> (sz = 4 \<and> unat va mod 4 \<noteq> 0) \<or> (sz = 2 \<and> unat va mod 2 \<noteq> 0)"
proof -
  have "va AND 3 = take_bit 2 va" by (simp add: take_bit_eq_mask mask_eq_exp_minus_1)
  then have 3: "unat (va AND 3) = unat va mod 4" by (simp add: take_bit_eq_mod unat_mod_distrib)
  have "va AND 1 = take_bit 1 va" by (simp add: take_bit_eq_mask mask_eq_exp_minus_1)
  then have 1: "unat (va AND 1) = unat va mod 2" by (simp add: take_bit_eq_mod unat_mod_distrib)
  have "va AND 3 \<noteq> 0 \<longleftrightarrow> unat (va AND 3) \<noteq> 0" "va AND 1 \<noteq> 0 \<longleftrightarrow> unat (va AND 1) \<noteq> 0"
    by (simp_all only: unsigned_eq_0_iff)
  then show ?thesis unfolding misaligned_def 3 1 by simp
qed

lemma aligned_in_page:
  assumes "\<not> misaligned va sz" "sz \<in> {1, 2, 4}"
  shows "unat va mod PageSize + sz \<le> PageSize"
proof -
  let ?o = "unat va mod 128"
  have "unat va mod 4 = ?o mod 4" "unat va mod 2 = ?o mod 2" by (simp_all add: mod_mod_cancel)
  moreover have "?o < 128" by simp
  ultimately show ?thesis using assms unfolding misaligned_iff size_defs by auto
qed


lemma unat_frame_addr:
  fixes frame va :: "32 word"
  assumes "unat frame < NumPhysPages"
  shows "unat (frame * of_nat PageSize + va mod of_nat PageSize) = unat frame * PageSize + unat va mod PageSize"
proof -
  have p: "unat (of_nat PageSize :: 32 word) = 128" by (simp add: size_defs)
  have m: "unat (va mod of_nat PageSize) = unat va mod 128" by (simp add: unat_mod_distrib p)
  have "unat (frame * of_nat PageSize) = unat frame * 128"
    using assms by (simp add: unat_word_ariths p size_defs)
  then show ?thesis
    using assms m by (simp add: unat_word_ariths p size_defs)
qed

lemma frame_addr_bound:
  fixes frame va :: "32 word"
  assumes "unat frame < NumPhysPages" "\<not> misaligned va sz" "sz \<in> {1, 2, 4}"
  shows "unat frame * PageSize + unat va mod PageSize + sz \<le> MemorySize"
proof -
  have "unat frame * PageSize + PageSize \<le> MemorySize"
    using assms(1) by (simp add: size_defs)
  then show ?thesis using aligned_in_page [OF assms(2,3)] by linarith
qed

lemma phys_assert:
  fixes frame va :: "32 word"
  assumes "unat frame < NumPhysPages" "\<not> misaligned va sz" "sz \<in> {1, 2, 4}"
  defines "pa \<equiv> frame * of_nat PageSize + va mod of_nat PageSize"
  shows "0 \<le> sint pa \<and> sint (pa + of_nat sz) \<le> int MemorySize"
proof -
  have pa: "unat pa = unat frame * PageSize + unat va mod PageSize"
    unfolding pa_def by (rule unat_frame_addr [OF assms(1)])
  have b: "unat pa + sz \<le> MemorySize" using frame_addr_bound [OF assms(1-3)] pa by simp
  have "unat (pa + of_nat sz) = unat pa + sz"
    using b assms(3) by (auto simp: unat_word_ariths size_defs)
  then have u: "unat (pa + of_nat sz) \<le> MemorySize" "unat pa \<le> MemorySize" using b by simp_all
  have s: "sint w = int (unat w)" if "unat w \<le> MemorySize" for w :: "32 word"
    by (rule sint_small) (use that in \<open>simp add: size_defs\<close>)
  show ?thesis using u unfolding s [OF u(1)] s [OF u(2)] by (simp only: of_nat_le_iff of_nat_0_le_iff)
qed


text \<open>The machine runs with a linear page table \<open>es\<close>.\<close>

definition page_table :: "Machine \<Rightarrow> TranslationEntry list \<Rightarrow> bool" where
  "page_table m es \<longleftrightarrow> tlb m = None \<and>
     (\<exists>p. pageTable m = Some p \<and> tables m p = Some es) \<and> length es = unat (pageTableSize m)"

definition set_page_table :: "TranslationEntry list \<Rightarrow> Machine \<Rightarrow> Machine" where
  "set_page_table es m = m\<lparr>tables := (tables m)(the (pageTable m) \<mapsto> es)\<rparr>"

text \<open>What a virtual address means under a page table.\<close>

definition page_fault :: "TranslationEntry list \<Rightarrow> 32 word \<Rightarrow> nat \<Rightarrow> bool \<Rightarrow> ExceptionType" where
  "page_fault es va sz writing =
     (let v = unat va div PageSize in
      if misaligned va sz \<or> length es \<le> v then AddressErrorException
      else if \<not> te_valid (es ! v) then PageFaultException
      else if readOnly (es ! v) \<and> writing then ReadOnlyException
      else if NumPhysPages \<le> unat (physicalPage (es ! v)) then BusErrorException
      else NoException)"

definition phys_addr :: "TranslationEntry list \<Rightarrow> 32 word \<Rightarrow> nat" where
  "phys_addr es va = unat (physicalPage (es ! (unat va div PageSize))) * PageSize + unat va mod PageSize"

definition touch :: "TranslationEntry list \<Rightarrow> 32 word \<Rightarrow> bool \<Rightarrow> TranslationEntry list" where
  "touch es va writing =
     (let v = unat va div PageSize; e = es ! v
      in es[v := e\<lparr>te_use := True, dirty := (if writing then True else dirty e)\<rparr>])"

lemma translate_page_table:
  assumes pt: "page_table m es" and sz: "sz \<in> {1, 2, 4}"
  shows "Machine_Translate va sz writing m =
    (if page_fault es va sz writing = NoException
     then Inr (NoException, Some (of_nat (phys_addr es va)), set_page_table (touch es va writing) m)
     else Inr (page_fault es va sz writing, None, m))"
proof -
  let ?v = "va div of_nat PageSize :: 32 word"
  have v: "unat ?v = unat va div PageSize"
    by (simp add: unat_div_distrib size_defs)
  from pt obtain p where p: "tlb m = None" "pageTable m = Some p" "tables m p = Some es"
    "length es = unat (pageTableSize m)" by (auto simp: page_table_def)
  have ge: "?v \<ge> pageTableSize m \<longleftrightarrow> length es \<le> unat va div PageSize"
    by (simp only: word_le_nat_alt v p(4))
  define e where "e = es ! (unat va div PageSize)"
  have fr: "physicalPage e \<ge> of_nat NumPhysPages \<longleftrightarrow> NumPhysPages \<le> unat (physicalPage e)"
    by (simp add: word_le_nat_alt size_defs)
  show ?thesis
  proof (cases "misaligned va sz \<or> length es \<le> unat va div PageSize")
    case True
    then show ?thesis
      using p ge by (auto simp: Machine_Translate_def page_fault_def Translate_entry_def Let_def)
  next
    case False
    then have lt: "unat va div PageSize < length es" and al: "\<not> misaligned va sz"
      and n: "\<not> ?v \<ge> pageTableSize m" using ge by auto
    show ?thesis
    proof (cases "NumPhysPages \<le> unat (physicalPage e)")
      case True
      then show ?thesis
        using p v fr lt al n e_def
        by (simp add: Machine_Translate_def page_fault_def Translate_entry_def Let_def get_entry_def)
    next
      case False
      then have f: "unat (physicalPage e) < NumPhysPages" by simp
      have "physicalPage e * of_nat PageSize + va mod of_nat PageSize = of_nat (phys_addr es va)"
        using arg_cong [OF unat_frame_addr [OF f, of va], of "of_nat :: nat \<Rightarrow> 32 word"]
        by (simp add: phys_addr_def e_def)
      then show ?thesis
        using p v fr lt al n e_def False phys_assert [OF f al sz]
        by (simp add: Machine_Translate_def page_fault_def Translate_entry_def Let_def get_entry_def
            put_entry_def touch_def set_page_table_def)
    qed
  qed
qed


text \<open>Loads after stores.\<close>

lemma host_get_put32 [simp]: "host_get32 b (host_put32 b mem a w) a = w"
proof -
  have "bytes_to_int [int_to_bytes w ! 0, int_to_bytes w ! 1, int_to_bytes w ! 2, int_to_bytes w ! 3] = w"
    using bytes_to_int_to_bytes [of w] by (simp add: int_to_bytes_def del: bytes_to_int_to_bytes)
  then show ?thesis
    by (simp add: host_get32_def host_put32_def Let_def rev_nth del: bytes_to_int.simps)
qed

lemma host_get_put16 [simp]: "host_get16 b (host_put16 b mem a w) a = w"
  by (rule bit_word_eqI) (auto simp: host_get16_def host_put16_def bit_simps)

lemma host_put_other:
  "x < a \<or> a + 4 \<le> x \<Longrightarrow> host_put32 b mem a w x = mem x"
  "x < a \<or> a + 2 \<le> x \<Longrightarrow> host_put16 b mem a v x = mem x"
  by (auto simp: host_put32_def host_put16_def Let_def)

lemma touch_same [simp]:
  "length (touch es va w) = length es"
  "physicalPage (touch es va w ! i) = physicalPage (es ! i)"
  "te_valid (touch es va w ! i) = te_valid (es ! i)"
  "readOnly (touch es va w ! i) = readOnly (es ! i)"
  "virtualPage (touch es va w ! i) = virtualPage (es ! i)"
proof -
  have upd: "f (es[j := x] ! i) = f (es ! i)" if "f x = f (es ! j)" for f :: "TranslationEntry \<Rightarrow> 'b" and j x
    using that by (cases "i = j"; cases "j < length es") (simp_all add: list_update_beyond)
  show "length (touch es va w) = length es" by (simp add: touch_def Let_def)
  show "physicalPage (touch es va w ! i) = physicalPage (es ! i)"
    unfolding touch_def Let_def by (rule upd) simp
  show "te_valid (touch es va w ! i) = te_valid (es ! i)"
    unfolding touch_def Let_def by (rule upd) simp
  show "readOnly (touch es va w ! i) = readOnly (es ! i)"
    unfolding touch_def Let_def by (rule upd) simp
  show "virtualPage (touch es va w ! i) = virtualPage (es ! i)"
    unfolding touch_def Let_def by (rule upd) simp
qed

lemma phys_addr_touch [simp]: "phys_addr (touch es va w) va' = phys_addr es va'"
  by (simp add: phys_addr_def)

lemma page_fault_touch [simp]: "page_fault (touch es va w) va' sz w' = page_fault es va' sz w'"
  by (simp add: page_fault_def Let_def)

lemma page_fault_read: "page_fault es va sz True = NoException \<Longrightarrow> page_fault es va sz False = NoException"
  by (auto simp: page_fault_def Let_def split: if_splits)

lemma phys_addr_bound:
  assumes "page_fault es va sz w = NoException" "sz \<in> {1, 2, 4}"
  shows "phys_addr es va + sz \<le> MemorySize"
  using assms frame_addr_bound [of "physicalPage (es ! (unat va div PageSize))" va sz]
  by (auto simp: page_fault_def Let_def phys_addr_def not_le split: if_splits)

lemma unat_phys_addr:
  assumes "page_fault es va sz w = NoException" "sz \<in> {1, 2, 4}"
  shows "unat (of_nat (phys_addr es va) :: 32 word) = phys_addr es va"
proof -
  have "phys_addr es va < 2 ^ 32" using phys_addr_bound [OF assms] by (simp add: size_defs)
  then show ?thesis by (simp add: unat_of_nat take_bit_nat_eq_self)
qed

lemma page_table_set [simp]:
  "page_table m es \<Longrightarrow> length es' = length es \<Longrightarrow> page_table (set_page_table es' m) es'"
  by (auto simp: page_table_def set_page_table_def)

lemma set_page_table_simps [simp]:
  "mainMemory (set_page_table es m) = mainMemory m" "registers (set_page_table es m) = registers m"
  "set_page_table es (set_page_table es' m) = set_page_table es m"
  by (simp_all add: set_page_table_def)

lemma page_table_mem [simp]: "page_table (m\<lparr>mainMemory := x\<rparr>) es = page_table m es"
  by (simp add: page_table_def)

lemma mem_address_page_table:
  assumes "page_table m es" "sz \<in> {1, 2, 4}" "page_fault es va sz w = NoException"
  shows "mem_address b va sz w m =
    Inr (Some (Some (of_nat (phys_addr es va))), set_page_table (touch es va w) m)"
  using translate_page_table [OF assms(1,2), of va w] assms(3) by (simp add: mem_address_def)

text \<open>What a load of a given size yields from the bytes of a stored value.\<close>

definition loaded :: "nat \<Rightarrow> 32 word \<Rightarrow> 32 word" where
  "loaded sz v = (if sz = 1 then scast (ucast v :: byte) else if sz = 2 then ucast (ucast v :: 16 word) else v)"

lemma ucast_mask: "ucast (v AND 0xff :: 32 word) = (ucast v :: byte)"
  "ucast (v AND 0xffff :: 32 word) = (ucast v :: 16 word)"
  by (rule bit_word_eqI, simp add: bit_simps)+

lemma WriteMem_page_table:
  assumes "page_table m es" "sz \<in> {1, 2, 4}" "page_fault es va sz True = NoException"
  shows "\<exists>mem. Machine_WriteMem b va sz v m =
      Inr (True, (set_page_table (touch es va True) m)\<lparr>mainMemory := mem\<rparr>) \<and>
    (\<forall>a. a < phys_addr es va \<or> phys_addr es va + sz \<le> a \<longrightarrow> mem a = mainMemory m a) \<and>
    (sz = 1 \<longrightarrow> mem (phys_addr es va) = ucast v) \<and>
    (sz = 2 \<longrightarrow> ShortToHost b (host_get16 b mem (phys_addr es va)) = ucast v) \<and>
    (sz = 4 \<longrightarrow> WordToHost b (host_get32 b mem (phys_addr es va)) = v)"
  using assms(2) mem_address_page_table [OF assms] unat_phys_addr [OF assms(3,2)]
  by (auto simp: Machine_WriteMem_def Let_def ucast_mask WordToMachine_def ShortToMachine_def
      host_put_other)

lemma ReadMem_page_table:
  assumes "page_table m es" "sz \<in> {1, 2, 4}" "page_fault es va sz False = NoException"
  shows "Machine_ReadMem b va sz m = Inr (Some
     (if sz = 1 then scast (mainMemory m (phys_addr es va))
      else if sz = 2 then ucast (ShortToHost b (host_get16 b (mainMemory m) (phys_addr es va)))
      else WordToHost b (host_get32 b (mainMemory m) (phys_addr es va))), set_page_table (touch es va False) m)"
  using assms(2) mem_address_page_table [OF assms] unat_phys_addr [OF assms(3,2)]
  by (auto simp: Machine_ReadMem_def)

subsection \<open>Exceptions\<close>

lemma DelayedLoad_ok:
  "0 \<le> sint (registers m LoadReg) \<Longrightarrow> sint (registers m LoadReg) < int NumTotalRegs \<Longrightarrow>
   DelayedLoad nr nv m = Inr (set_reg 0 0 (set_reg LoadValueReg nv (set_reg LoadReg nr
     (set_reg (unat (registers m LoadReg)) (registers m LoadValueReg) m))))"
  by (simp add: DelayedLoad_def Let_def)

definition load_reg_ok :: "Machine \<Rightarrow> bool" where
  "load_reg_ok m \<longleftrightarrow> 0 \<le> sint (registers m LoadReg) \<and> sint (registers m LoadReg) < int NumTotalRegs"

lemma set_reg_simps [simp]:
  "registers (set_reg i v m) j = (if j = i then v else registers m j)"
  "tlb (set_reg i v m) = tlb m" "pageTable (set_reg i v m) = pageTable m"
  "tables (set_reg i v m) = tables m" "pageTableSize (set_reg i v m) = pageTableSize m"
  "bitMap (set_reg i v m) = bitMap m" "mainMemory (set_reg i v m) = mainMemory m"
  "mode (set_reg i v m) = mode m"
  by (simp_all add: set_reg_def)

lemma page_table_set_reg [simp]: "page_table (set_reg i v m) es = page_table m es"
  by (simp add: page_table_def)

lemma page_table_mode [simp]: "page_table (m\<lparr>mode := x\<rparr>) es = page_table m es"
  by (simp add: page_table_def)

lemma RaiseException_page_table:
  assumes "page_table m es" "load_reg_ok m"
  shows "which \<notin> {PageFaultException, SyscallException} \<Longrightarrow>
      RaiseException b which va m = Inl (Fault AssertFailed)"
    and "\<exists>m'. RaiseException b PageFaultException va m = Inr m' \<and> page_table m' es \<and>
      mainMemory m' = mainMemory m"
  using assms
  by (auto simp: RaiseException_def ExceptionHandler_def Machine_ReadRegister_def load_reg_ok_def
      DelayedLoad_ok reg_defs page_table_def)

lemma mem_address_fault:
  assumes "page_table m es" "load_reg_ok m" "sz \<in> {1, 2, 4}" "page_fault es va sz w \<noteq> NoException"
  shows "if page_fault es va sz w = PageFaultException then \<exists>m'. mem_address b va sz w m = Inr (Some None, m')
    else mem_address b va sz w m = Inl (Fault AssertFailed)"
proof (cases "page_fault es va sz w = PageFaultException")
  case True
  from RaiseException_page_table(2) [OF assms(1,2), of b va] obtain m' where
    m': "RaiseException b PageFaultException va m = Inr m'" "page_table m' es" by blast
  have "page_fault es va sz True = PageFaultException"
    using True by (auto simp: page_fault_def Let_def split: if_splits)
  then show ?thesis
    using True m'(1) translate_page_table [OF assms(1,3), of va w]
      translate_page_table [OF m'(2) assms(3), of va True]
    by (simp add: mem_address_def)
next
  case False
  have "page_fault es va sz w \<noteq> SyscallException"
    by (auto simp: page_fault_def Let_def)
  then show ?thesis
    using False assms(4) translate_page_table [OF assms(1,3), of va w]
      RaiseException_page_table(1) [OF assms(1,2), of "page_fault es va sz w" b va]
    by (simp add: mem_address_def)
qed

subsection \<open>The tlb\<close>

text \<open>The machine runs with the tlb entries \<open>es\<close>.\<close>

definition tlb_entries :: "Machine \<Rightarrow> TranslationEntry list \<Rightarrow> bool" where
  "tlb_entries m es \<longleftrightarrow> (\<exists>p. tlb m = Some p \<and> tables m p = Some es) \<and> length es = TLBSize"

definition set_tlb :: "TranslationEntry list \<Rightarrow> Machine \<Rightarrow> Machine" where
  "set_tlb es m = m\<lparr>tables := (tables m)(the (tlb m) \<mapsto> es)\<rparr>"

lemma get_tlb [simp]: "tlb_entries m es \<Longrightarrow> i < TLBSize \<Longrightarrow> get_entry (tlb m) i m = Inr (es ! i)"
  by (auto simp: tlb_entries_def get_entry_def)

lemma put_tlb [simp]:
  "tlb_entries m es \<Longrightarrow> i < TLBSize \<Longrightarrow> put_entry (tlb m) i e m = Inr (set_tlb (es[i := e]) m)"
  by (auto simp: tlb_entries_def put_entry_def set_tlb_def)

lemma first_invalid_full:
  "tlb_entries m es \<Longrightarrow> \<forall>i\<in>set is. i < TLBSize \<and> te_valid (es ! i) \<Longrightarrow> first_invalid is m = Inr None"
  by (induction "is") auto

lemma least_hit_spec:
  assumes "tlb_entries m es" "\<forall>i\<in>set is. i < TLBSize \<and> te_valid (es ! i)"
  defines "hits \<equiv> \<lambda>i. sint (hitRate (es ! i))"
  shows "least_hit is w s m = Inr s \<and> (\<forall>i\<in>set is. sint w \<le> hits i) \<or>
    (\<exists>j\<in>set is. least_hit is w s m = Inr (Some j) \<and> hits j < sint w \<and> (\<forall>i\<in>set is. hits j \<le> hits i))"
  using assms(2)
proof (induction "is" arbitrary: w s)
  case Nil
  then show ?case by simp
next
  case (Cons k ks)
  then have tl: "\<forall>i\<in>set ks. i < TLBSize \<and> te_valid (es ! i)" by simp
  show ?case
  proof (cases "hits k < sint w")
    case True
    then have e: "least_hit (k # ks) w s m = least_hit ks (hitRate (es ! k)) (Some k) m"
      using Cons.prems assms(1) by (simp add: word_sless_alt hits_def)
    have hk: "sint (hitRate (es ! k)) = hits k" by (simp add: hits_def)
    show ?thesis
      using Cons.IH [OF tl, of "hitRate (es ! k)" "Some k"] True unfolding e hk
      by (elim disjE bexE conjE) auto
  next
    case False
    then have e: "least_hit (k # ks) w s m = least_hit ks w s m"
      using Cons.prems assms(1) by (simp add: word_sless_alt hits_def)
    show ?thesis
      using Cons.IH [OF tl, of w s] False unfolding e by (elim disjE bexE conjE) auto
  qed
qed

subsection \<open>Properties\<close>

text \<open>C15. Under a linear page table Translate returns, for every virtual address, size and access,
  exactly the documented outcome: AddressErrorException for a misaligned address or a page beyond the
  table, PageFaultException for an invalid entry, ReadOnlyException for a write to a read-only page,
  BusErrorException for a frame that does not exist, and otherwise the address
  \<open>frame * PageSize + offset\<close>, which lies inside memory together with the bytes accessed; only the use bit
  and, on a write, the dirty bit of that one entry change. The assertion on the physical
  address never fails.\<close>

theorem Translate_exact:
  assumes "page_table m es" "sz \<in> {1, 2, 4}"
  shows "Machine_Translate va sz writing m =
      (if page_fault es va sz writing = NoException
       then Inr (NoException, Some (of_nat (phys_addr es va)), set_page_table (touch es va writing) m)
       else Inr (page_fault es va sz writing, None, m)) \<and>
    (page_fault es va sz writing = NoException \<longrightarrow>
       phys_addr es va + sz \<le> MemorySize \<and> phys_addr es va div PageSize = unat (physicalPage (es ! (unat va div PageSize))))"
proof
  show "page_fault es va sz writing = NoException \<longrightarrow>
       phys_addr es va + sz \<le> MemorySize \<and> phys_addr es va div PageSize = unat (physicalPage (es ! (unat va div PageSize)))"
    using phys_addr_bound [OF _ assms(2)] by (auto simp: phys_addr_def size_defs)
qed (rule translate_page_table [OF assms])

text \<open>C25. A store through WriteMem to a mapped, writable address is what the next ReadMem of
  that address and size returns (a byte sign-extended, a half word zero-extended), on hosts
  of either byte order, and no other byte of memory changes.\<close>

theorem WriteMem_ReadMem:
  assumes "page_table m es" "sz \<in> {1, 2, 4}" "page_fault es va sz True = NoException"
  shows "\<exists>m1 m2. Machine_WriteMem b va sz v m = Inr (True, m1) \<and>
    Machine_ReadMem b va sz m1 = Inr (Some (loaded sz v), m2) \<and> mainMemory m2 = mainMemory m1 \<and>
    (\<forall>a. a < phys_addr es va \<or> phys_addr es va + sz \<le> a \<longrightarrow> mainMemory m1 a = mainMemory m a)"
proof -
  from WriteMem_page_table [OF assms, of b v] obtain mem where
    w: "Machine_WriteMem b va sz v m = Inr (True, (set_page_table (touch es va True) m)\<lparr>mainMemory := mem\<rparr>)"
      (is "_ = Inr (True, ?m1)")
    and o: "\<forall>a. a < phys_addr es va \<or> phys_addr es va + sz \<le> a \<longrightarrow> mem a = mainMemory m a"
    and c: "sz = 1 \<longrightarrow> mem (phys_addr es va) = ucast v"
      "sz = 2 \<longrightarrow> ShortToHost b (host_get16 b mem (phys_addr es va)) = ucast v"
      "sz = 4 \<longrightarrow> WordToHost b (host_get32 b mem (phys_addr es va)) = v" by blast
  have "page_table ?m1 (touch es va True)" using assms(1) by simp
  from ReadMem_page_table [OF this assms(2), of va b] page_fault_read [OF assms(3)]
  show ?thesis using w o c assms(2) by (auto simp: loaded_def)
qed

text \<open>C26. Address spaces are isolated: a store through one page table never changes a byte of a
  frame that another page table maps, when the two share no frame.\<close>

theorem WriteMem_isolated:
  assumes "page_table m es" "sz \<in> {1, 2, 4}" "page_fault es va sz True = NoException"
    and disj: "\<forall>e\<in>set es. \<forall>f\<in>set fs. physicalPage e \<noteq> physicalPage f"
    and f: "f \<in> set fs" and a: "a div PageSize = unat (physicalPage f)"
  shows "\<exists>m1. Machine_WriteMem b va sz v m = Inr (True, m1) \<and> mainMemory m1 a = mainMemory m a"
proof -
  let ?e = "es ! (unat va div PageSize)"
  have al: "\<not> misaligned va sz" and "unat va div PageSize < length es"
    using assms(3) by (auto simp: page_fault_def Let_def split: if_splits)
  then have "unat (physicalPage ?e) \<noteq> unat (physicalPage f)"
    using disj f by (metis nth_mem unsigned_word_eqI)
  moreover have "a < phys_addr es va \<or> phys_addr es va + sz \<le> a"
  proof (rule ccontr)
    assume "\<not> ?thesis"
    then have "phys_addr es va \<le> a" "a < phys_addr es va + sz" by auto
    then have "unat (physicalPage ?e) * PageSize \<le> a" "a < Suc (unat (physicalPage ?e)) * PageSize"
      using aligned_in_page [OF al assms(2)] by (auto simp: phys_addr_def)
    then have "a div PageSize = unat (physicalPage ?e)"
      by (intro div_nat_eqI) (simp_all add: mult.commute)
    then show False using a calculation by simp
  qed
  ultimately show ?thesis using WriteMem_page_table [OF assms(1-3), of b v] by auto
qed

text \<open>C37. What an access to an address without a usable translation leads to in a machine that runs with a
  page table and no tlb: a page fault is handled by doing nothing, so that the access, a read by ReadMem or a write by
  WriteMem, goes on with the address variable unassigned; every other exception (an address that is not aligned or beyond
  the table, a write to a read-only page, a frame beyond the memory) stops Nachos by a failed assertion.\<close>

theorem access_fault:
  assumes "page_table m es" "load_reg_ok m" "sz \<in> {1, 2, 4}"
  shows "(page_fault es va sz False \<noteq> NoException \<longrightarrow> Machine_ReadMem b va sz m =
      Inl (Fault (if page_fault es va sz False = PageFaultException then Uninitialised else AssertFailed))) \<and>
    (page_fault es va sz True \<noteq> NoException \<longrightarrow> Machine_WriteMem b va sz v m =
      Inl (Fault (if page_fault es va sz True = PageFaultException then Uninitialised else AssertFailed)))"
  using mem_address_fault [OF assms, of va False b] mem_address_fault [OF assms, of va True b]
  by (auto simp: Machine_ReadMem_def Machine_WriteMem_def split: if_splits)

text \<open>C38. Replacement in the build with TLB_LRU: when all four tlb entries are in use and none has the hit count
  \<open>2 ^ 31 - 1\<close>, tlbSwap replaces one with the least hit count, but keeps its frame number, so that the new virtual
  page is mapped to the frame of the page that was evicted.\<close>

theorem tlbSwap_LRU_keeps_frame:
  assumes "TLB_LRU b" "tlb_entries m es" "\<forall>e\<in>set es. te_valid e \<and> hitRate e \<noteq> 0x7fffffff"
  shows "\<exists>i<TLBSize. (\<forall>e\<in>set es. sint (hitRate (es ! i)) \<le> sint (hitRate e)) \<and>
    Machine_tlbSwap b vaddr m = Inr (set_tlb (es[i := \<lparr>virtualPage = int_div vaddr (of_nat PageSize),
      physicalPage = physicalPage (es ! i), te_valid = True, readOnly = False, te_use = False,
      dirty = False, hitRate = 0\<rparr>]) m)"
proof -
  let ?is = "[0..<TLBSize]"
  have len: "length es = TLBSize" using assms(2) by (simp add: tlb_entries_def)
  have v: "\<forall>i\<in>set ?is. i < TLBSize \<and> te_valid (es ! i)" using assms(3) len by auto
  have mx: "sint (push_bit 31 1 - 1 :: 32 word) = 2147483647" by simp
  have lt: "sint (hitRate (es ! i)) < 2147483647" if "i < TLBSize" for i
  proof -
    have "hitRate (es ! i) \<noteq> 0x7fffffff" using assms(3) len that by simp
    then have "sint (hitRate (es ! i)) \<noteq> sint (0x7fffffff :: 32 word)" using word_eq_iff_signed by blast
    moreover have "sint (hitRate (es ! i)) < 2 ^ 31" using sint_lt [of "hitRate (es ! i)"] by simp
    ultimately show ?thesis by simp
  qed
  have "0 \<in> set ?is" by (simp add: TLBSize_def)
  then have ex: "\<not> (\<forall>i\<in>set ?is. 2147483647 \<le> sint (hitRate (es ! i)))"
    using lt [of 0] by (auto intro!: bexI [of _ 0])
  obtain i where i: "i < TLBSize" "least_hit ?is (push_bit 31 1 - 1) None m = Inr (Some i)"
    "\<forall>j<TLBSize. sint (hitRate (es ! i)) \<le> sint (hitRate (es ! j))"
    using least_hit_spec [OF assms(2) v, of "push_bit 31 1 - 1" None] ex
    unfolding mx by auto
  have "Machine_tlbSwap b vaddr m = Inr (set_tlb (es[i := \<lparr>virtualPage = int_div vaddr (of_nat PageSize),
      physicalPage = physicalPage (es ! i), te_valid = True, readOnly = False, te_use = False,
      dirty = False, hitRate = 0\<rparr>]) m)"
    using assms(1,2) i first_invalid_full [OF assms(2) v]
    by (cases "es ! i") (auto simp: Machine_tlbSwap_def tlb_victim_def tlb_entries_def)
  moreover have "\<forall>e\<in>set es. sint (hitRate (es ! i)) \<le> sint (hitRate e)"
    using i(3) len by (auto simp: in_set_conv_nth)
  ultimately show ?thesis using i(1) by blast
qed

subsection \<open>Witnesses\<close>

definition entry0 :: TranslationEntry where
  "entry0 = \<lparr>virtualPage = 0, physicalPage = 3, te_valid = True, readOnly = False, te_use = False,
     dirty = False, hitRate = 0\<rparr>"

definition mach0 :: Machine where
  "mach0 = \<lparr>mainMemory = (\<lambda>_. 0), registers = (\<lambda>_. 0), tables = [5 \<mapsto> [entry0, entry0\<lparr>te_valid := False\<rparr>]],
     tlb = None, pageTable = Some 5, pageTableSize = 2,
     bitMap = \<lparr>numBits = 32, numWords = 1, bm_map = [8]\<rparr>, mode = UserMode\<rparr>"

definition little :: build where
  "little = \<lparr>USE_TLB = False, TLB_LRU = True, HOST_IS_BIG_ENDIAN = False\<rparr>"

definition mach_tlb :: Machine where
  "mach_tlb = mach0\<lparr>tables := [5 \<mapsto> [entry0\<lparr>hitRate := 2\<rparr>, entry0\<lparr>hitRate := 1\<rparr>, entry0, entry0\<lparr>hitRate := 4\<rparr>]],
     tlb := Some 5, pageTable := None\<rparr>"

lemma mach0_table: "page_table mach0 [entry0, entry0\<lparr>te_valid := False\<rparr>]"
  by (simp add: page_table_def mach0_def)

lemma mach0_load: "load_reg_ok mach0"
  by (simp add: load_reg_ok_def mach0_def reg_defs)

lemma mach0_ok: "page_fault [entry0, entry0\<lparr>te_valid := False\<rparr>] 12 4 w = NoException"
  by (simp add: page_fault_def misaligned_def entry0_def size_defs Let_def)

lemma Translate_exact_witness:
  "page_table mach0 [entry0, entry0\<lparr>te_valid := False\<rparr>] \<and>
   (\<exists>m'. Machine_Translate 12 4 True mach0 = Inr (NoException, Some 396, m'))"
  using Translate_exact [OF mach0_table, of 4 12 True] mach0_table mach0_ok [of True]
  by (simp add: phys_addr_def entry0_def size_defs)

lemma WriteMem_ReadMem_witness:
  "page_table mach0 [entry0, entry0\<lparr>te_valid := False\<rparr>] \<and>
   (\<exists>m1 m2. Machine_WriteMem little 12 4 77 mach0 = Inr (True, m1) \<and>
      Machine_ReadMem little 12 4 m1 = Inr (Some 77, m2))"
  using WriteMem_ReadMem [OF mach0_table _ mach0_ok, of little 77] mach0_table
  by (auto simp: loaded_def)

lemma WriteMem_isolated_witness:
  "\<exists>m1. Machine_WriteMem little 12 4 77 mach0 = Inr (True, m1) \<and> mainMemory m1 200 = mainMemory mach0 200"
  using WriteMem_isolated [OF mach0_table _ mach0_ok, of "[entry0\<lparr>physicalPage := 1\<rparr>]"
      "entry0\<lparr>physicalPage := 1\<rparr>" 200 little 77]
  by (simp add: entry0_def size_defs)

lemma access_fault_witness:
  "page_fault [entry0, entry0\<lparr>te_valid := False\<rparr>] 128 4 False = PageFaultException \<and>
   Machine_ReadMem little 128 4 mach0 = Inl (Fault Uninitialised) \<and>
   page_fault [entry0, entry0\<lparr>te_valid := False\<rparr>] 6 4 True = AddressErrorException \<and>
   Machine_WriteMem little 6 4 77 mach0 = Inl (Fault AssertFailed)"
proof -
  have "page_fault [entry0, entry0\<lparr>te_valid := False\<rparr>] 128 4 False = PageFaultException"
    "page_fault [entry0, entry0\<lparr>te_valid := False\<rparr>] 6 4 True = AddressErrorException"
    by (simp_all add: page_fault_def misaligned_def entry0_def size_defs Let_def)
  then show ?thesis
    using access_fault [OF mach0_table mach0_load, of 4 128 little] access_fault [OF mach0_table mach0_load, of 4 6 little 77] by simp
qed

lemma tlbSwap_LRU_keeps_frame_witness:
  "TLB_LRU little \<and> (\<exists>m'. Machine_tlbSwap little 640 mach_tlb = Inr m')"
proof -
  have "tlb_entries mach_tlb [entry0\<lparr>hitRate := 2\<rparr>, entry0\<lparr>hitRate := 1\<rparr>, entry0, entry0\<lparr>hitRate := 4\<rparr>]"
    by (simp add: tlb_entries_def mach_tlb_def TLBSize_def)
  from tlbSwap_LRU_keeps_frame [OF _ this, of little 640] show ?thesis
    by (auto simp: little_def entry0_def)
qed

end
