(* ===== verification/Nachos_Mips.thy ===== *)
theory Nachos_Mips
  imports Nachos_Machine
begin

text \<open>
  The MIPS simulator (machine/mipssim.h, machine/mipssim.cc): decoding, the instructions, the
  delayed load and the advance of the program counters. Each instruction of the switch in
  OneInstruction is one definition; it either returns early to Run (\<open>Trap\<close>) or goes on
  to the end of OneInstruction with the next program counter and the load to delay
  (\<open>Continue\<close>).
\<close>

subsection \<open>Operation codes and tables (mipssim.h)\<close>

type_synonym OpCode = nat

definition OP_ADD :: OpCode where "OP_ADD = 1"
definition OP_ADDI :: OpCode where "OP_ADDI = 2"
definition OP_ADDIU :: OpCode where "OP_ADDIU = 3"
definition OP_ADDU :: OpCode where "OP_ADDU = 4"
definition OP_AND :: OpCode where "OP_AND = 5"
definition OP_ANDI :: OpCode where "OP_ANDI = 6"
definition OP_BEQ :: OpCode where "OP_BEQ = 7"
definition OP_BGEZ :: OpCode where "OP_BGEZ = 8"
definition OP_BGEZAL :: OpCode where "OP_BGEZAL = 9"
definition OP_BGTZ :: OpCode where "OP_BGTZ = 10"
definition OP_BLEZ :: OpCode where "OP_BLEZ = 11"
definition OP_BLTZ :: OpCode where "OP_BLTZ = 12"
definition OP_BLTZAL :: OpCode where "OP_BLTZAL = 13"
definition OP_BNE :: OpCode where "OP_BNE = 14"
definition OP_DIV :: OpCode where "OP_DIV = 16"
definition OP_DIVU :: OpCode where "OP_DIVU = 17"
definition OP_J :: OpCode where "OP_J = 18"
definition OP_JAL :: OpCode where "OP_JAL = 19"
definition OP_JALR :: OpCode where "OP_JALR = 20"
definition OP_JR :: OpCode where "OP_JR = 21"
definition OP_LB :: OpCode where "OP_LB = 22"
definition OP_LBU :: OpCode where "OP_LBU = 23"
definition OP_LH :: OpCode where "OP_LH = 24"
definition OP_LHU :: OpCode where "OP_LHU = 25"
definition OP_LUI :: OpCode where "OP_LUI = 26"
definition OP_LW :: OpCode where "OP_LW = 27"
definition OP_LWL :: OpCode where "OP_LWL = 28"
definition OP_LWR :: OpCode where "OP_LWR = 29"
definition OP_MFHI :: OpCode where "OP_MFHI = 31"
definition OP_MFLO :: OpCode where "OP_MFLO = 32"
definition OP_MTHI :: OpCode where "OP_MTHI = 34"
definition OP_MTLO :: OpCode where "OP_MTLO = 35"
definition OP_MULT :: OpCode where "OP_MULT = 36"
definition OP_MULTU :: OpCode where "OP_MULTU = 37"
definition OP_NOR :: OpCode where "OP_NOR = 38"
definition OP_OR :: OpCode where "OP_OR = 39"
definition OP_ORI :: OpCode where "OP_ORI = 40"
definition OP_RFE :: OpCode where "OP_RFE = 41"
definition OP_SB :: OpCode where "OP_SB = 42"
definition OP_SH :: OpCode where "OP_SH = 43"
definition OP_SLL :: OpCode where "OP_SLL = 44"
definition OP_SLLV :: OpCode where "OP_SLLV = 45"
definition OP_SLT :: OpCode where "OP_SLT = 46"
definition OP_SLTI :: OpCode where "OP_SLTI = 47"
definition OP_SLTIU :: OpCode where "OP_SLTIU = 48"
definition OP_SLTU :: OpCode where "OP_SLTU = 49"
definition OP_SRA :: OpCode where "OP_SRA = 50"
definition OP_SRAV :: OpCode where "OP_SRAV = 51"
definition OP_SRL :: OpCode where "OP_SRL = 52"
definition OP_SRLV :: OpCode where "OP_SRLV = 53"
definition OP_SUB :: OpCode where "OP_SUB = 54"
definition OP_SUBU :: OpCode where "OP_SUBU = 55"
definition OP_SW :: OpCode where "OP_SW = 56"
definition OP_SWL :: OpCode where "OP_SWL = 57"
definition OP_SWR :: OpCode where "OP_SWR = 58"
definition OP_XOR :: OpCode where "OP_XOR = 59"
definition OP_XORI :: OpCode where "OP_XORI = 60"
definition OP_SYSCALL :: OpCode where "OP_SYSCALL = 61"
definition OP_UNIMP :: OpCode where "OP_UNIMP = 62"
definition OP_RES :: OpCode where "OP_RES = 63"
definition SPECIAL :: OpCode where "SPECIAL = 100"
definition BCOND :: OpCode where "BCOND = 101"
definition MaxOpcode :: OpCode where "MaxOpcode = 63"

lemmas op_defs = OP_ADD_def OP_ADDI_def OP_ADDIU_def OP_ADDU_def OP_AND_def OP_ANDI_def
  OP_BEQ_def OP_BGEZ_def OP_BGEZAL_def OP_BGTZ_def OP_BLEZ_def OP_BLTZ_def OP_BLTZAL_def
  OP_BNE_def OP_DIV_def OP_DIVU_def OP_J_def OP_JAL_def OP_JALR_def OP_JR_def OP_LB_def
  OP_LBU_def OP_LH_def OP_LHU_def OP_LUI_def OP_LW_def OP_LWL_def OP_LWR_def OP_MFHI_def
  OP_MFLO_def OP_MTHI_def OP_MTLO_def OP_MULT_def OP_MULTU_def OP_NOR_def OP_OR_def OP_ORI_def
  OP_RFE_def OP_SB_def OP_SH_def OP_SLL_def OP_SLLV_def OP_SLT_def OP_SLTI_def OP_SLTIU_def
  OP_SLTU_def OP_SRA_def OP_SRAV_def OP_SRL_def OP_SRLV_def OP_SUB_def OP_SUBU_def OP_SW_def
  OP_SWL_def OP_SWR_def OP_XOR_def OP_XORI_def OP_SYSCALL_def OP_UNIMP_def OP_RES_def
  SPECIAL_def BCOND_def

datatype Format = IFMT | JFMT | RFMT

definition SIGN_BIT :: "32 word" where "SIGN_BIT = 0x80000000"
definition R31 :: nat where "R31 = 31"

definition IndexToAddr :: "32 word \<Rightarrow> 32 word" where
  "IndexToAddr x = push_bit 2 x"

definition opTable :: "(OpCode \<times> Format) list" where
  "opTable =
    [(SPECIAL, RFMT), (BCOND, IFMT), (OP_J, JFMT), (OP_JAL, JFMT),
     (OP_BEQ, IFMT), (OP_BNE, IFMT), (OP_BLEZ, IFMT), (OP_BGTZ, IFMT),
     (OP_ADDI, IFMT), (OP_ADDIU, IFMT), (OP_SLTI, IFMT), (OP_SLTIU, IFMT),
     (OP_ANDI, IFMT), (OP_ORI, IFMT), (OP_XORI, IFMT), (OP_LUI, IFMT),
     (OP_UNIMP, IFMT), (OP_UNIMP, IFMT), (OP_UNIMP, IFMT), (OP_UNIMP, IFMT),
     (OP_RES, IFMT), (OP_RES, IFMT), (OP_RES, IFMT), (OP_RES, IFMT),
     (OP_RES, IFMT), (OP_RES, IFMT), (OP_RES, IFMT), (OP_RES, IFMT),
     (OP_RES, IFMT), (OP_RES, IFMT), (OP_RES, IFMT), (OP_RES, IFMT),
     (OP_LB, IFMT), (OP_LH, IFMT), (OP_LWL, IFMT), (OP_LW, IFMT),
     (OP_LBU, IFMT), (OP_LHU, IFMT), (OP_LWR, IFMT), (OP_RES, IFMT),
     (OP_SB, IFMT), (OP_SH, IFMT), (OP_SWL, IFMT), (OP_SW, IFMT),
     (OP_RES, IFMT), (OP_RES, IFMT), (OP_SWR, IFMT), (OP_RES, IFMT),
     (OP_UNIMP, IFMT), (OP_UNIMP, IFMT), (OP_UNIMP, IFMT), (OP_UNIMP, IFMT),
     (OP_RES, IFMT), (OP_RES, IFMT), (OP_RES, IFMT), (OP_RES, IFMT),
     (OP_UNIMP, IFMT), (OP_UNIMP, IFMT), (OP_UNIMP, IFMT), (OP_UNIMP, IFMT),
     (OP_RES, IFMT), (OP_RES, IFMT), (OP_RES, IFMT), (OP_RES, IFMT)]"

definition specialTable :: "OpCode list" where
  "specialTable =
    [OP_SLL, OP_RES, OP_SRL, OP_SRA, OP_SLLV, OP_RES, OP_SRLV, OP_SRAV,
     OP_JR, OP_JALR, OP_RES, OP_RES, OP_SYSCALL, OP_UNIMP, OP_RES, OP_RES,
     OP_MFHI, OP_MTHI, OP_MFLO, OP_MTLO, OP_RES, OP_RES, OP_RES, OP_RES,
     OP_MULT, OP_MULTU, OP_DIV, OP_DIVU, OP_RES, OP_RES, OP_RES, OP_RES,
     OP_ADD, OP_ADDU, OP_SUB, OP_SUBU, OP_AND, OP_OR, OP_XOR, OP_NOR,
     OP_RES, OP_RES, OP_SLT, OP_SLTU, OP_RES, OP_RES, OP_RES, OP_RES,
     OP_RES, OP_RES, OP_RES, OP_RES, OP_RES, OP_RES, OP_RES, OP_RES,
     OP_RES, OP_RES, OP_RES, OP_RES, OP_RES, OP_RES, OP_RES, OP_RES]"

subsection \<open>Instructions and decoding\<close>

record Instruction =
  i_value :: "32 word"
  opCode :: OpCode
  rs :: nat
  rt :: nat
  rd :: nat
  extra :: "32 word"

definition Decode :: "32 word \<Rightarrow> Instruction" where
  "Decode value =
     (let (op0, fmt) = opTable ! unat (drop_bit 26 value AND 0x3f);
          ext = (if fmt = IFMT
                 then let e = value AND 0xffff in if e AND 0x8000 \<noteq> 0 then e OR 0xffff0000 else e
                 else if fmt = RFMT then drop_bit 6 value AND 0x1f
                 else value AND 0x3ffffff);
          i = value AND 0x1f0000;
          op = (if op0 = SPECIAL then specialTable ! unat (value AND 0x3f)
                else if op0 = BCOND
                then if i = 0 then OP_BLTZ
                     else if i = 0x10000 then OP_BGEZ
                     else if i = 0x100000 then OP_BLTZAL
                     else if i = 0x110000 then OP_BGEZAL
                     else OP_UNIMP
                else op0)
      in \<lparr>i_value = value, opCode = op,
          rs = unat (drop_bit 21 value AND 0x1f),
          rt = unat (drop_bit 16 value AND 0x1f),
          rd = unat (drop_bit 11 value AND 0x1f),
          extra = ext\<rparr>)"

subsection \<open>Multiplication\<close>

text \<open>The loop of Mult, with the number of rounds that are left; the result is \<open>(hi, lo)\<close>.\<close>

fun mult_loop ::
  "nat \<Rightarrow> 32 word \<Rightarrow> 32 word \<Rightarrow> 32 word \<Rightarrow> 32 word \<Rightarrow> 32 word \<Rightarrow> 32 word \<times> 32 word" where
  "mult_loop 0 a bLo bHi lo hi = (hi, lo)"
| "mult_loop (Suc n) a bLo bHi lo hi =
     (let odd = (a AND 1 \<noteq> 0);
          lo1 = (if odd then lo + bLo else lo);
          hi1 = (if odd then (if lo1 < bLo then hi + 1 else hi) + bHi else hi)
      in if odd \<and> a AND 0xfffffffe = 0 then (hi1, lo1)
         else mult_loop n (signed_drop_bit 1 a) (push_bit 1 bLo)
                (let h = push_bit 1 bHi in if bLo AND 0x80000000 \<noteq> 0 then h OR 1 else h) lo1 hi1)"

definition Mult :: "32 word \<Rightarrow> 32 word \<Rightarrow> bool \<Rightarrow> 32 word \<times> 32 word" where
  "Mult a b signedArith =
     (if a = 0 \<or> b = 0 then (0, 0)
      else
        let na = (signedArith \<and> a <s 0); nb = (signedArith \<and> b <s 0);
            negative = (na \<noteq> nb);
            a1 = (if na then - a else a); b1 = (if nb then - b else b);
            (hi, lo) = mult_loop 32 a1 b1 0 0 0
        in if negative
           then let h = NOT hi; l = NOT lo + 1 in (if l = 0 then h + 1 else h, l)
           else (hi, lo))"

subsection \<open>The instructions\<close>

datatype flow =
    Continue Machine "32 word" "32 word" "32 word"   \<comment> \<open>pcAfter, nextLoadReg, nextLoadValue\<close>
  | Trap Machine                                      \<comment> \<open>return to Run\<close>

type_synonym exec = "build \<Rightarrow> Instruction \<Rightarrow> 32 word \<Rightarrow> Machine \<Rightarrow> stop + flow"

text \<open>The end of an instruction without a load, one with a load, and the two ways to return early.\<close>

definition go :: "Machine \<Rightarrow> 32 word \<Rightarrow> stop + flow" where
  "go m pc = Inr (Continue m pc 0 0)"

definition go_load :: "Machine \<Rightarrow> 32 word \<Rightarrow> nat \<Rightarrow> 32 word \<Rightarrow> stop + flow" where
  "go_load m pc r v = Inr (Continue m pc (of_nat r) v)"

definition raise :: "build \<Rightarrow> ExceptionType \<Rightarrow> 32 word \<Rightarrow> Machine \<Rightarrow> stop + flow" where
  "raise b which addr m = bind_res (RaiseException b which addr m) (\<lambda>m1. Inr (Trap m1))"

definition with_read :: "build \<Rightarrow> 32 word \<Rightarrow> nat \<Rightarrow> Machine \<Rightarrow> (32 word \<Rightarrow> Machine \<Rightarrow> stop + flow) \<Rightarrow> stop + flow" where
  "with_read b addr sz m f =
     bind_res (Machine_ReadMem b addr sz m) (\<lambda>(r, m1).
       case r of None \<Rightarrow> Inr (Trap m1) | Some value \<Rightarrow> f value m1)"

definition with_write :: "build \<Rightarrow> 32 word \<Rightarrow> nat \<Rightarrow> 32 word \<Rightarrow> Machine \<Rightarrow> 32 word \<Rightarrow> stop + flow" where
  "with_write b addr sz value m pc =
     bind_res (Machine_WriteMem b addr sz value m) (\<lambda>(ok, m1). if \<not> ok then Inr (Trap m1) else go m1 pc)"

definition do_ADD :: exec where
  "do_ADD b i pc m =
     (let x = registers m (rs i); y = registers m (rt i); sum = x + y in
      if \<not> ((x XOR y) AND SIGN_BIT \<noteq> 0) \<and> (x XOR sum) AND SIGN_BIT \<noteq> 0
      then raise b OverflowException 0 m
      else go (set_reg (rd i) sum m) pc)"

definition do_ADDI :: exec where
  "do_ADDI b i pc m =
     (let x = registers m (rs i); sum = x + extra i in
      if \<not> ((x XOR extra i) AND SIGN_BIT \<noteq> 0) \<and> (extra i XOR sum) AND SIGN_BIT \<noteq> 0
      then raise b OverflowException 0 m
      else go (set_reg (rt i) sum m) pc)"

definition do_ADDIU :: exec where
  "do_ADDIU b i pc m = go (set_reg (rt i) (registers m (rs i) + extra i) m) pc"

definition do_ADDU :: exec where
  "do_ADDU b i pc m = go (set_reg (rd i) (registers m (rs i) + registers m (rt i)) m) pc"

definition do_AND :: exec where
  "do_AND b i pc m = go (set_reg (rd i) (registers m (rs i) AND registers m (rt i)) m) pc"

definition do_ANDI :: exec where
  "do_ANDI b i pc m = go (set_reg (rt i) (registers m (rs i) AND (extra i AND 0xffff)) m) pc"

definition branch_target :: "Instruction \<Rightarrow> Machine \<Rightarrow> 32 word" where
  "branch_target i m = registers m NextPCReg + IndexToAddr (extra i)"

definition do_BEQ :: exec where
  "do_BEQ b i pc m =
     go m (if registers m (rs i) = registers m (rt i) then branch_target i m else pc)"

definition do_BGEZ :: exec where
  "do_BGEZ b i pc m =
     go m (if \<not> (registers m (rs i) AND SIGN_BIT \<noteq> 0) then branch_target i m else pc)"

definition do_BGEZAL :: exec where
  "do_BGEZAL b i pc m = do_BGEZ b i pc (set_reg R31 (registers m NextPCReg + 4) m)"

definition do_BGTZ :: exec where
  "do_BGTZ b i pc m = go m (if 0 <s registers m (rs i) then branch_target i m else pc)"

definition do_BLEZ :: exec where
  "do_BLEZ b i pc m = go m (if registers m (rs i) \<le>s 0 then branch_target i m else pc)"

definition do_BLTZ :: exec where
  "do_BLTZ b i pc m =
     go m (if registers m (rs i) AND SIGN_BIT \<noteq> 0 then branch_target i m else pc)"

definition do_BLTZAL :: exec where
  "do_BLTZAL b i pc m = do_BLTZ b i pc (set_reg R31 (registers m NextPCReg + 4) m)"

definition do_BNE :: exec where
  "do_BNE b i pc m =
     go m (if registers m (rs i) \<noteq> registers m (rt i) then branch_target i m else pc)"

text \<open>The host's division traps when the quotient does not fit.\<close>

definition do_DIV :: exec where
  "do_DIV b i pc m =
     (let x = registers m (rs i); y = registers m (rt i) in
      if y = 0 then go (set_reg HiReg 0 (set_reg LoReg 0 m)) pc
      else if x = 0x80000000 \<and> y = -1 then Inl (Fault ArithTrap)
      else let m1 = set_reg LoReg (int_div x y) m in go (set_reg HiReg (int_mod x y) m1) pc)"

definition do_DIVU :: exec where
  "do_DIVU b i pc m =
     (let x = registers m (rs i); y = registers m (rt i) in
      if y = 0 then go (set_reg HiReg 0 (set_reg LoReg 0 m)) pc
      else go (set_reg HiReg (x mod y) (set_reg LoReg (x div y) m)) pc)"

definition do_J :: exec where
  "do_J b i pc m = go m ((pc AND 0xf0000000) OR IndexToAddr (extra i))"

definition do_JAL :: exec where
  "do_JAL b i pc m = do_J b i pc (set_reg R31 (registers m NextPCReg + 4) m)"

definition do_JR :: exec where
  "do_JR b i pc m = go m (registers m (rs i))"

definition do_JALR :: exec where
  "do_JALR b i pc m = do_JR b i pc (set_reg (rd i) (registers m NextPCReg + 4) m)"

definition address :: "Instruction \<Rightarrow> Machine \<Rightarrow> 32 word" where
  "address i m = registers m (rs i) + extra i"

definition do_LB_LBU :: exec where
  "do_LB_LBU b i pc m =
     with_read b (address i m) 1 m (\<lambda>value m1.
       go_load m1 pc (rt i)
         (if value AND 0x80 \<noteq> 0 \<and> opCode i = OP_LB then value OR 0xffffff00 else value AND 0xff))"

definition do_LH_LHU :: exec where
  "do_LH_LHU b i pc m =
     (let tmp = address i m in
      if tmp AND 1 \<noteq> 0 then raise b AddressErrorException tmp m
      else with_read b tmp 2 m (\<lambda>value m1.
        go_load m1 pc (rt i)
          (if value AND 0x8000 \<noteq> 0 \<and> opCode i = OP_LH then value OR 0xffff0000 else value AND 0xffff)))"

definition do_LUI :: exec where
  "do_LUI b i pc m = go (set_reg (rt i) (push_bit 16 (extra i)) m) pc"

definition do_LW :: exec where
  "do_LW b i pc m =
     (let tmp = address i m in
      if tmp AND 3 \<noteq> 0 then raise b AddressErrorException tmp m
      else with_read b tmp 4 m (\<lambda>value m1. go_load m1 pc (rt i) value))"

text \<open>The value a partial load starts from: the pending delayed load if it is to the same
  register.\<close>

definition partial_base :: "Instruction \<Rightarrow> Machine \<Rightarrow> 32 word" where
  "partial_base i m =
     (if registers m LoadReg = of_nat (rt i) then registers m LoadValueReg else registers m (rt i))"

definition do_LWL :: exec where
  "do_LWL b i pc m =
     (let tmp = address i m in
      bind_res (lift (ASSERT (tmp AND 3 = 0))) (\<lambda>_.
      with_read b tmp 4 m (\<lambda>value m1.
        let v = partial_base i m1; k = tmp AND 3 in
        go_load m1 pc (rt i)
          (if k = 0 then value
           else if k = 1 then (v AND 0xff) OR push_bit 8 value
           else if k = 2 then (v AND 0xffff) OR push_bit 16 value
           else (v AND 0xffffff) OR push_bit 24 value))))"

definition do_LWR :: exec where
  "do_LWR b i pc m =
     (let tmp = address i m in
      bind_res (lift (ASSERT (tmp AND 3 = 0))) (\<lambda>_.
      with_read b tmp 4 m (\<lambda>value m1.
        let v = partial_base i m1; k = tmp AND 3 in
        go_load m1 pc (rt i)
          (if k = 0 then (v AND 0xffffff00) OR (signed_drop_bit 24 value AND 0xff)
           else if k = 1 then (v AND 0xffff0000) OR (signed_drop_bit 16 value AND 0xffff)
           else if k = 2 then (v AND 0xff000000) OR (signed_drop_bit 8 value AND 0xffffff)
           else value))))"

definition do_MFHI :: exec where
  "do_MFHI b i pc m = go (set_reg (rd i) (registers m HiReg) m) pc"

definition do_MFLO :: exec where
  "do_MFLO b i pc m = go (set_reg (rd i) (registers m LoReg) m) pc"

definition do_MTHI :: exec where
  "do_MTHI b i pc m = go (set_reg HiReg (registers m (rs i)) m) pc"

definition do_MTLO :: exec where
  "do_MTLO b i pc m = go (set_reg LoReg (registers m (rs i)) m) pc"

definition do_MULT :: exec where
  "do_MULT b i pc m =
     (let (hi, lo) = Mult (registers m (rs i)) (registers m (rt i)) True
      in go (set_reg LoReg lo (set_reg HiReg hi m)) pc)"

definition do_MULTU :: exec where
  "do_MULTU b i pc m =
     (let (hi, lo) = Mult (registers m (rs i)) (registers m (rt i)) False
      in go (set_reg LoReg lo (set_reg HiReg hi m)) pc)"

definition do_NOR :: exec where
  "do_NOR b i pc m = go (set_reg (rd i) (NOT (registers m (rs i) OR registers m (rt i))) m) pc"

definition do_OR :: exec where
  "do_OR b i pc m = go (set_reg (rd i) (registers m (rs i) OR registers m (rs i)) m) pc"

definition do_ORI :: exec where
  "do_ORI b i pc m = go (set_reg (rt i) (registers m (rs i) OR (extra i AND 0xffff)) m) pc"

definition do_SB :: exec where
  "do_SB b i pc m = with_write b (address i m) 1 (registers m (rt i)) m pc"

definition do_SH :: exec where
  "do_SH b i pc m = with_write b (address i m) 2 (registers m (rt i)) m pc"

definition do_SLL :: exec where
  "do_SLL b i pc m = go (set_reg (rd i) (push_bit (unat (extra i)) (registers m (rt i))) m) pc"

definition do_SLLV :: exec where
  "do_SLLV b i pc m =
     go (set_reg (rd i) (push_bit (unat (registers m (rs i) AND 0x1f)) (registers m (rt i))) m) pc"

definition do_SLT :: exec where
  "do_SLT b i pc m =
     go (set_reg (rd i) (if registers m (rs i) <s registers m (rt i) then 1 else 0) m) pc"

definition do_SLTI :: exec where
  "do_SLTI b i pc m = go (set_reg (rt i) (if registers m (rs i) <s extra i then 1 else 0) m) pc"

definition do_SLTIU :: exec where
  "do_SLTIU b i pc m = go (set_reg (rt i) (if registers m (rs i) < extra i then 1 else 0) m) pc"

definition do_SLTU :: exec where
  "do_SLTU b i pc m =
     go (set_reg (rd i) (if registers m (rs i) < registers m (rt i) then 1 else 0) m) pc"

text \<open>A right shift of a C \<open>int\<close> keeps the sign; the four shifts below all act on an \<open>int\<close>.\<close>

definition do_SRA :: exec where
  "do_SRA b i pc m = go (set_reg (rd i) (signed_drop_bit (unat (extra i)) (registers m (rt i))) m) pc"

definition do_SRAV :: exec where
  "do_SRAV b i pc m =
     go (set_reg (rd i) (signed_drop_bit (unat (registers m (rs i) AND 0x1f)) (registers m (rt i))) m) pc"

definition do_SRL :: exec where
  "do_SRL b i pc m =
     (let tmp = registers m (rt i); tmp1 = signed_drop_bit (unat (extra i)) tmp
      in go (set_reg (rd i) tmp1 m) pc)"

definition do_SRLV :: exec where
  "do_SRLV b i pc m =
     (let tmp = registers m (rt i); tmp1 = signed_drop_bit (unat (registers m (rs i) AND 0x1f)) tmp
      in go (set_reg (rd i) tmp1 m) pc)"

definition do_SUB :: exec where
  "do_SUB b i pc m =
     (let x = registers m (rs i); y = registers m (rt i); diff = x - y in
      if (x XOR y) AND SIGN_BIT \<noteq> 0 \<and> (x XOR diff) AND SIGN_BIT \<noteq> 0
      then raise b OverflowException 0 m
      else go (set_reg (rd i) diff m) pc)"

definition do_SUBU :: exec where
  "do_SUBU b i pc m = go (set_reg (rd i) (registers m (rs i) - registers m (rt i)) m) pc"

definition do_SW :: exec where
  "do_SW b i pc m = with_write b (address i m) 4 (registers m (rt i)) m pc"

definition do_SWL :: exec where
  "do_SWL b i pc m =
     (let tmp = address i m in
      bind_res (lift (ASSERT (tmp AND 3 = 0))) (\<lambda>_.
      with_read b (tmp AND NOT 3) 4 m (\<lambda>value m1.
        let k = tmp AND 3; r = registers m1 (rt i);
            v = (if k = 0 then r
                 else if k = 1 then (value AND 0xff000000) OR (signed_drop_bit 8 r AND 0xffffff)
                 else if k = 2 then (value AND 0xffff0000) OR (signed_drop_bit 16 r AND 0xffff)
                 else (value AND 0xffffff00) OR (signed_drop_bit 24 r AND 0xff))
        in with_write b (tmp AND NOT 3) 4 v m1 pc)))"

definition do_SWR :: exec where
  "do_SWR b i pc m =
     (let tmp = address i m in
      bind_res (lift (ASSERT (tmp AND 3 = 0))) (\<lambda>_.
      with_read b (tmp AND NOT 3) 4 m (\<lambda>value m1.
        let k = tmp AND 3; r = registers m1 (rt i);
            v = (if k = 0 then (value AND 0xffffff) OR push_bit 24 r
                 else if k = 1 then (value AND 0xffff) OR push_bit 16 r
                 else if k = 2 then (value AND 0xff) OR push_bit 8 r
                 else r)
        in with_write b (tmp AND NOT 3) 4 v m1 pc)))"

definition do_SYSCALL :: exec where
  "do_SYSCALL b i pc m = raise b SyscallException 0 m"

definition do_XOR :: exec where
  "do_XOR b i pc m = go (set_reg (rd i) (registers m (rs i) XOR registers m (rt i)) m) pc"

definition do_XORI :: exec where
  "do_XORI b i pc m = go (set_reg (rt i) (registers m (rs i) XOR (extra i AND 0xffff)) m) pc"

definition do_illegal :: exec where
  "do_illegal b i pc m = raise b IllegalInstrException 0 m"

text \<open>The switch on the operation code; \<open>do_default\<close> is its default branch.\<close>

definition op_switch :: "(OpCode \<times> exec) list" where
  "op_switch =
    [(OP_ADD, do_ADD), (OP_ADDI, do_ADDI), (OP_ADDIU, do_ADDIU), (OP_ADDU, do_ADDU), (OP_AND, do_AND),
     (OP_ANDI, do_ANDI), (OP_BEQ, do_BEQ), (OP_BGEZAL, do_BGEZAL), (OP_BGEZ, do_BGEZ), (OP_BGTZ, do_BGTZ),
     (OP_BLEZ, do_BLEZ), (OP_BLTZAL, do_BLTZAL), (OP_BLTZ, do_BLTZ), (OP_BNE, do_BNE), (OP_DIV, do_DIV),
     (OP_DIVU, do_DIVU), (OP_JAL, do_JAL), (OP_J, do_J), (OP_JALR, do_JALR), (OP_JR, do_JR),
     (OP_LB, do_LB_LBU), (OP_LBU, do_LB_LBU), (OP_LH, do_LH_LHU), (OP_LHU, do_LH_LHU), (OP_LUI, do_LUI),
     (OP_LW, do_LW), (OP_LWL, do_LWL), (OP_LWR, do_LWR), (OP_MFHI, do_MFHI), (OP_MFLO, do_MFLO),
     (OP_MTHI, do_MTHI), (OP_MTLO, do_MTLO), (OP_MULT, do_MULT), (OP_MULTU, do_MULTU), (OP_NOR, do_NOR),
     (OP_OR, do_OR), (OP_ORI, do_ORI), (OP_SB, do_SB), (OP_SH, do_SH), (OP_SLL, do_SLL), (OP_SLLV, do_SLLV),
     (OP_SLT, do_SLT), (OP_SLTI, do_SLTI), (OP_SLTIU, do_SLTIU), (OP_SLTU, do_SLTU), (OP_SRA, do_SRA),
     (OP_SRAV, do_SRAV), (OP_SRL, do_SRL), (OP_SRLV, do_SRLV), (OP_SUB, do_SUB), (OP_SUBU, do_SUBU),
     (OP_SW, do_SW), (OP_SWL, do_SWL), (OP_SWR, do_SWR), (OP_SYSCALL, do_SYSCALL), (OP_XOR, do_XOR),
     (OP_XORI, do_XORI), (OP_RES, do_illegal), (OP_UNIMP, do_illegal)]"

definition do_default :: exec where
  "do_default b i pc m = Inl (Fault AssertFailed)"

definition execute :: exec where
  "execute b i pc m = (case map_of op_switch (opCode i) of Some f \<Rightarrow> f | None \<Rightarrow> do_default) b i pc m"

text \<open>The end of OneInstruction: the delayed load and the program counters.\<close>

definition advance :: "32 word \<Rightarrow> Machine \<Rightarrow> Machine" where
  "advance pcAfter m =
     (let m1 = set_reg PrevPCReg (registers m PCReg) m;
          m2 = set_reg PCReg (registers m1 NextPCReg) m1
      in set_reg NextPCReg pcAfter m2)"

definition finish_instruction :: "flow \<Rightarrow> stop + Machine" where
  "finish_instruction f =
     (case f of
        Trap m \<Rightarrow> Inr m
      | Continue m pcAfter nextLoadReg nextLoadValue \<Rightarrow>
          bind_res (lift (DelayedLoad nextLoadReg nextLoadValue m)) (\<lambda>m1. Inr (advance pcAfter m1)))"

definition OneInstruction :: "build \<Rightarrow> Machine \<Rightarrow> stop + Machine" where
  "OneInstruction b m =
     bind_res (Machine_ReadMem b (registers m PCReg) 4 m) (\<lambda>(raw, m1).
       case raw of
         None \<Rightarrow> Inr m1
       | Some value \<Rightarrow>
           bind_res (execute b (Decode value) (registers m1 NextPCReg + 4) m1) finish_instruction)"

subsection \<open>The double-word product\<close>

text \<open>The double word \<open>hi:lo\<close> as a 64-bit word.\<close>

definition base32 :: "64 word" where "base32 = word_of_int 4294967296"

definition dword :: "32 word \<Rightarrow> 32 word \<Rightarrow> 64 word" where
  "dword hi lo = word_of_int (uint hi) * base32 + word_of_int (uint lo)"

lemma base32_sq [simp]: "base32 * base32 = 0"
  by (simp add: base32_def)

lemma base32_sq_left [simp]: "x * base32 * base32 = 0"
  by (simp only: mult.assoc base32_sq mult_zero_right)

lemma of_int_base32: "word_of_int (k + 4294967296) = (word_of_int k + base32 :: 64 word)"
  "word_of_int (k - 4294967296) = (word_of_int k - base32 :: 64 word)"
  "word_of_int (q * 4294967296) = (word_of_int q * base32 :: 64 word)"
  by (simp_all add: base32_def)

lemma of_int_mod32: "word_of_int (k mod 4294967296) * base32 = word_of_int k * base32"
proof -
  have "(word_of_int k :: 64 word) = word_of_int (k div 4294967296 * 4294967296 + k mod 4294967296)"
    by simp
  then have "(word_of_int k :: 64 word) =
      word_of_int (k div 4294967296 * 4294967296) + word_of_int (k mod 4294967296)"
    by (simp only: of_int_add)
  then show ?thesis by (simp only: of_int_base32(3) distrib_right base32_sq_left add_0_left)
qed

lemma uint32_add: "uint (x + y :: 32 word) = (uint x + uint y) mod 4294967296"
  by (simp add: uint_word_ariths)

lemma dword_add_hi: "dword (x + y) lo = dword x lo + word_of_int (uint y) * base32"
  by (simp add: dword_def uint32_add of_int_mod32 distrib_right)

lemma uint32_bounds: "0 \<le> uint (x :: 32 word)" "uint x < 4294967296"
  using uint_lt2p [of x] by simp_all

lemma uint_add_carry:
  fixes lo blo :: "32 word"
  shows "uint (lo + blo) = (if lo + blo < blo then uint lo + uint blo - 4294967296 else uint lo + uint blo)"
proof (cases "uint lo + uint blo < 4294967296")
  case True
  then have "uint (lo + blo) = uint lo + uint blo"
    using uint32_bounds [of lo] uint32_bounds [of blo] by (simp add: uint32_add)
  then show ?thesis using uint32_bounds [of lo] by (simp add: word_less_def)
next
  case False
  then have "(uint lo + uint blo) mod 4294967296 = (uint lo + uint blo - 4294967296) mod 4294967296"
    by (intro mod_pos_geq) simp_all
  also have "\<dots> = uint lo + uint blo - 4294967296"
    using False uint32_bounds [of lo] uint32_bounds [of blo] by (intro mod_pos_pos_trivial) simp_all
  finally have "(uint lo + uint blo) mod 4294967296 = uint lo + uint blo - 4294967296" .
  then have "uint (lo + blo) = uint lo + uint blo - 4294967296" by (simp add: uint32_add)
  then show ?thesis using uint32_bounds [of lo] by (simp add: word_less_def)
qed

lemma dword_add:
  "dword ((if lo + blo < blo then hi + 1 else hi) + bhi) (lo + blo) = dword hi lo + dword bhi blo"
proof -
  note c = uint_add_carry [of lo blo]
  show ?thesis
  proof (cases "lo + blo < blo")
    case True
    then have "word_of_int (uint (lo + blo)) = (word_of_int (uint lo + uint blo) - base32 :: 64 word)"
      using c by (simp only: of_int_base32 if_True)
    then show ?thesis using True
      by (simp add: dword_add_hi) (simp add: dword_def algebra_simps)
  next
    case False
    then have "word_of_int (uint (lo + blo)) = (word_of_int (uint lo + uint blo) :: 64 word)"
      using c by simp
    then show ?thesis using False
      by (simp add: dword_add_hi) (simp add: dword_def algebra_simps)
  qed
qed


lemma bit_sign_mask [simp]: "bit (0x80000000 :: int) n \<longleftrightarrow> n = 31"
proof -
  have "(0x80000000 :: int) = push_bit 31 1" by simp
  then show ?thesis by (simp only: bit_push_bit_iff) (auto simp: bit_1_iff)
qed

lemma and_sign_bit: "(x :: 32 word) AND 0x80000000 \<noteq> 0 \<longleftrightarrow> bit x 31"
proof -
  have b: "bit (x AND 0x80000000) n \<longleftrightarrow> n = 31 \<and> bit x 31" for n
    by (auto simp: bit_simps)
  show ?thesis unfolding bit_eq_iff [of "x AND 0x80000000"] b by auto
qed

lemma carry_double: "(x :: 32 word) + x < x \<longleftrightarrow> x AND 0x80000000 \<noteq> 0"
proof -
  have "x AND 0x80000000 \<noteq> 0 \<longleftrightarrow> bit x 31" by (rule and_sign_bit)
  also have "\<dots> \<longleftrightarrow> 2147483648 \<le> uint x"
  proof -
    have "bit x 31 \<longleftrightarrow> bit (uint x) 31" by (simp add: bit_uint_iff)
    then have "bit x 31 \<longleftrightarrow> odd (uint x div 2 ^ 31)" by (simp only: bit_iff_odd)
    moreover have "uint x div 2 ^ 31 = (if 2147483648 \<le> uint x then 1 else 0)"
      using uint32_bounds [of x] by (auto intro: int_div_pos_eq)
    ultimately show ?thesis by simp
  qed
  also have "\<dots> \<longleftrightarrow> x + x < x"
    using uint_add_carry [of x x] uint32_bounds [of x] uint32_bounds [of "x + x"] by (auto split: if_splits)
  finally show ?thesis by simp
qed

lemma push_bit_one_or: "push_bit 1 x OR 1 = push_bit 1 x + (1 :: 32 word)"
  by (simp add: or_one_eq)

lemma dword_double:
  "dword (let h = push_bit 1 bhi in if blo AND 0x80000000 \<noteq> 0 then h OR 1 else h) (push_bit 1 blo) =
     2 * dword bhi blo"
proof -
  have d: "push_bit 1 x = x + x" for x :: "32 word" by (simp add: push_bit_eq_mult mult_2_right)
  have "(let h = push_bit 1 bhi in if blo AND 0x80000000 \<noteq> 0 then h OR 1 else h) =
      (if blo + blo < blo then bhi + 1 else bhi) + bhi"
    unfolding Let_def push_bit_one_or carry_double unfolding d by (simp add: algebra_simps)
  then show ?thesis unfolding d by (simp only: dword_add mult_2)
qed


lemma last_bit_one:
  assumes "a AND 1 \<noteq> (0 :: 32 word)" "a AND 0xfffffffe = 0"
  shows "a = 1"
proof -
  have n: "(0xfffffffe :: 32 word) = NOT 1" by simp
  have "bit a j \<longleftrightarrow> j = 0" if "j < 32" for j
  proof (cases "j = 0")
    case True
    then show ?thesis using assms(1) by (auto simp: and_one_eq odd_iff_mod_2_eq_one bit_0)
  next
    case False
    have "\<not> bit (a AND NOT 1) j" using assms(2) n by simp
    then show ?thesis using False that by (simp add: bit_simps)
  qed
  then show ?thesis by (intro bit_word_eqI) (simp add: bit_1_iff)
qed

lemma take_bit_half:
  assumes "n \<le> 31"
  shows "take_bit n (uint (signed_drop_bit 1 a :: 32 word)) = take_bit n (uint a div 2)"
proof -
  have h: "uint a div 2 = drop_bit 1 (uint a)" by (simp add: drop_bit_eq_div)
  show ?thesis unfolding h
    by (rule bit_eqI) (use assms in \<open>auto simp: bit_take_bit_iff bit_uint_iff bit_signed_drop_bit_iff
        bit_drop_bit_eq split: if_splits\<close>)
qed

lemma mult_loop_dword:
  "n \<le> 32 \<Longrightarrow> dword (fst (mult_loop n a blo bhi lo hi)) (snd (mult_loop n a blo bhi lo hi)) =
     dword hi lo + word_of_int (take_bit n (uint a)) * dword bhi blo"
proof (induction n arbitrary: a blo bhi lo hi)
  case 0
  then show ?case by simp
next
  case (Suc n)
  define odd1 where "odd1 = (a AND 1 \<noteq> 0)"
  define lo1 where "lo1 = (if odd1 then lo + blo else lo)"
  define hi1 where "hi1 = (if odd1 then (if lo1 < blo then hi + 1 else hi) + bhi else hi)"
  define bhi1 where "bhi1 = (let h = push_bit 1 bhi in if blo AND 0x80000000 \<noteq> 0 then h OR 1 else h)"
  have "odd1 \<longleftrightarrow> bit a 0" by (simp add: odd1_def and_one_eq bit_0 even_iff_mod_2_eq_zero)
  also have "\<dots> \<longleftrightarrow> bit (uint a) 0" by (simp only: bit_uint_iff) simp
  finally have odd: "odd1 \<longleftrightarrow> odd (uint a)" by (simp only: bit_0)
  have hl: "dword hi1 lo1 = dword hi lo + word_of_int (uint a mod 2) * dword bhi blo"
    by (cases odd1) (simp_all add: hi1_def lo1_def dword_add odd odd_iff_mod_2_eq_one even_iff_mod_2_eq_zero)
  have ml: "mult_loop (Suc n) a blo bhi lo hi =
     (if odd1 \<and> a AND 0xfffffffe = 0 then (hi1, lo1)
      else mult_loop n (signed_drop_bit 1 a) (push_bit 1 blo) bhi1 lo1 hi1)"
    by (simp add: odd1_def lo1_def hi1_def bhi1_def Let_def)
  show ?case
  proof (cases "odd1 \<and> a AND 0xfffffffe = 0")
    case True
    then have "a = 1" using last_bit_one by (simp add: odd1_def)
    then show ?thesis using True ml hl by (simp add: take_bit_Suc)
  next
    case False
    have t: "take_bit (Suc n) (uint a) = uint a mod 2 + 2 * take_bit n (uint (signed_drop_bit 1 a :: 32 word))"
      using Suc.prems take_bit_half [of n a] by (simp add: take_bit_Suc)
    have ml': "mult_loop (Suc n) a blo bhi lo hi =
        mult_loop n (signed_drop_bit 1 a) (push_bit 1 blo) bhi1 lo1 hi1"
      unfolding ml using False by (rule if_not_P)
    have "dword bhi1 (push_bit 1 blo) = 2 * dword bhi blo"
      unfolding bhi1_def by (rule dword_double)
    then show ?thesis
      using Suc.IH [of "signed_drop_bit 1 a" "push_bit 1 blo" bhi1 lo1 hi1] Suc.prems hl
      unfolding ml' t by (simp add: algebra_simps)
  qed
qed


lemma mult_loop_32:
  "mult_loop 32 a b 0 0 0 = (h, l) \<Longrightarrow> dword h l = word_of_int (uint a * uint b)"
  using mult_loop_dword [of 32 a b 0 0 0] uint32_bounds [of a]
  by (simp add: dword_def take_bit_int_eq_self)

lemma dword_negate:
  "dword (if NOT l + 1 = 0 then NOT h + 1 else NOT h) (NOT l + 1) = - dword h l"
proof -
  have n: "NOT x + 1 = - x" for x :: "32 word" by (simp add: minus_eq_not_plus_1)
  show ?thesis
  proof (cases "l = 0")
    case True
    then show ?thesis using dword_add [of 0 0 "- h" h]
      by (simp add: n eq_neg_iff_add_eq_0) (simp add: dword_def)
  next
    case False
    then have "- l + l < l" by (simp add: word_gt_0)
    then show ?thesis using False dword_add [of "- l" l "NOT h" h] n [of h]
      by (simp add: n eq_neg_iff_add_eq_0) (simp add: dword_def algebra_simps)
  qed
qed

lemma uint_of_int32: "uint (word_of_int k :: 32 word) = k mod 4294967296"
  by (simp add: unsigned_of_int take_bit_eq_mod)

lemma uint_negate: "a <s 0 \<Longrightarrow> uint (- a) = - sint (a :: 32 word)"
proof -
  assume "a <s 0"
  then have neg: "sint a < 0" by (simp add: word_sless_alt)
  have lb: "- 2147483648 \<le> sint a" using sint_ge [of a] by simp
  have "uint (- a) = (- sint a) mod 4294967296"
    using uint_of_int32 [of "- sint a"] by simp
  then show ?thesis using neg lb by (simp add: mod_pos_pos_trivial)
qed

lemma uint_nonneg: "\<not> a <s 0 \<Longrightarrow> uint a = sint (a :: 32 word)"
proof -
  assume "\<not> a <s 0"
  then have pos: "0 \<le> sint a" by (simp add: word_sless_alt)
  have ub: "sint a < 2147483648" using sint_lt [of a] by simp
  have "uint a = sint a mod 4294967296"
    using uint_of_int32 [of "sint a"] by simp
  then show ?thesis using pos ub by (simp add: mod_pos_pos_trivial)
qed


lemma Mult_product:
  assumes "Mult a b sg = (hi, lo)"
  shows "dword hi lo = word_of_int (if sg then sint a * sint b else uint a * uint b)"
proof (cases "a = 0 \<or> b = 0")
  case True
  then show ?thesis using assms by (auto simp: Mult_def dword_def)
next
  case False
  define na where "na = (sg \<and> a <s 0)"
  define nb where "nb = (sg \<and> b <s 0)"
  define a1 where "a1 = (if na then - a else a)"
  define b1 where "b1 = (if nb then - b else b)"
  obtain h l where hl: "mult_loop 32 a1 b1 0 0 0 = (h, l)" by fastforce
  have d: "dword h l = word_of_int (uint a1 * uint b1)" by (rule mult_loop_32 [OF hl])
  have r: "(hi, lo) = (if na \<noteq> nb then (if NOT l + 1 = 0 then NOT h + 1 else NOT h, NOT l + 1) else (h, l))"
    using assms False hl unfolding Mult_def
    by (auto simp: Let_def na_def [symmetric] nb_def [symmetric] a1_def [symmetric] b1_def [symmetric]
        split: if_splits)
  have ua: "uint a1 = (if sg then (if na then - sint a else sint a) else uint a)"
    by (simp add: a1_def na_def uint_negate uint_nonneg)
  have ub: "uint b1 = (if sg then (if nb then - sint b else sint b) else uint b)"
    by (simp add: b1_def nb_def uint_negate uint_nonneg)
  have "na \<noteq> nb \<Longrightarrow> dword hi lo = - dword h l"
    using r dword_negate [of l h] by simp
  moreover have "na = nb \<Longrightarrow> dword hi lo = dword h l" using r by simp
  moreover have "\<not> sg \<Longrightarrow> na = nb" by (simp add: na_def nb_def)
  ultimately show ?thesis
    unfolding d ua ub by (cases sg; cases na; cases nb) simp_all
qed


subsection \<open>Overflow\<close>

definition in_int32 :: "int \<Rightarrow> bool" where
  "in_int32 k \<longleftrightarrow> - (2 ^ 31) \<le> k \<and> k < 2 ^ 31"

lemma sint_in_int32: "- 2147483648 \<le> sint (x :: 32 word)" "sint x < 2147483648"
  using sint_ge [of x] sint_lt [of x] by simp_all

lemma sign_bit_iff: "(x :: 32 word) AND SIGN_BIT \<noteq> 0 \<longleftrightarrow> sint x < 0"
  using bit_last_iff [of x] by (simp add: SIGN_BIT_def and_sign_bit)

lemma sign_bit_xor: "(x XOR y) AND SIGN_BIT \<noteq> 0 \<longleftrightarrow> (sint x < 0) \<noteq> (sint (y :: 32 word) < 0)"
  using bit_last_iff [of x] bit_last_iff [of y] by (simp add: SIGN_BIT_def and_sign_bit bit_xor_iff)

lemma sint_wrap:
  assumes "x = (word_of_int k :: 32 word)"
  obtains q where "sint x = k + q * 4294967296"
proof -
  have "word_of_int (sint x) = (word_of_int k :: 32 word)" using assms by simp
  then have "sint x mod 4294967296 = k mod 4294967296"
    by (simp only: word_of_int_eq_iff) (simp add: take_bit_eq_mod)
  then obtain q where "sint x = k + 4294967296 * q" by (metis mod_eqE mod_mod_trivial)
  then show ?thesis using that [of q] by (simp add: mult.commute)
qed

lemma add_overflow:
  "(\<not> ((x XOR y) AND SIGN_BIT \<noteq> 0) \<and> (x XOR (x + y)) AND SIGN_BIT \<noteq> 0) \<longleftrightarrow>
     \<not> in_int32 (sint x + sint y)" for x y :: "32 word"
proof -
  have "x + y = word_of_int (sint x + sint y)" by simp
  then obtain q where q: "sint (x + y) = sint x + sint y + q * 4294967296" by (rule sint_wrap)
  note b = sint_in_int32 [of x] sint_in_int32 [of y] sint_in_int32 [of "x + y"]
  have "-2 < q" "q < 2" using q b by linarith+
  then have "q = -1 \<or> q = 0 \<or> q = 1" by auto
  then show ?thesis
    using q b unfolding sign_bit_xor in_int32_def by auto
qed

lemma sub_overflow:
  "((x XOR y) AND SIGN_BIT \<noteq> 0 \<and> (x XOR (x - y)) AND SIGN_BIT \<noteq> 0) \<longleftrightarrow>
     \<not> in_int32 (sint x - sint y)" for x y :: "32 word"
proof -
  have "x - y = word_of_int (sint x - sint y)" by simp
  then obtain q where q: "sint (x - y) = sint x - sint y + q * 4294967296" by (rule sint_wrap)
  note b = sint_in_int32 [of x] sint_in_int32 [of y] sint_in_int32 [of "x - y"]
  have "-2 < q" "q < 2" using q b by linarith+
  then have "q = -1 \<or> q = 0 \<or> q = 1" by auto
  then show ?thesis
    using q b unfolding sign_bit_xor in_int32_def by auto
qed

lemma sint_exact: "in_int32 k \<Longrightarrow> sint (word_of_int k :: 32 word) = k"
proof -
  assume k: "in_int32 k"
  obtain q where "sint (word_of_int k :: 32 word) = k + q * 4294967296" by (rule sint_wrap) simp
  then show ?thesis using k sint_in_int32 [of "word_of_int k"] by (simp add: in_int32_def)
qed

subsection \<open>Decoding stays in the tables\<close>

lemma unat_and_mask:
  "unat (w AND 0x1f :: 32 word) < 32" "unat (w AND 0x3f :: 32 word) < 64"
proof -
  have "w AND 0x1f \<le> (0x1f :: 32 word)" "w AND 0x3f \<le> (0x3f :: 32 word)"
    by (simp_all add: word_and_le1)
  then show "unat (w AND 0x1f :: 32 word) < 32" "unat (w AND 0x3f :: 32 word) < 64"
    by (simp_all add: word_le_nat_alt)
qed

lemma Decode_registers: "rs (Decode v) < 32" "rt (Decode v) < 32" "rd (Decode v) < 32"
  by (simp_all add: Decode_def Let_def split_beta unat_and_mask)

lemma opTable_ops: "\<forall>e\<in>set opTable. fst e \<in> {SPECIAL, BCOND} \<union> fst ` set op_switch"
  by (simp add: opTable_def op_switch_def)

lemma specialTable_ops: "set specialTable \<subseteq> fst ` set op_switch"
  by (simp add: specialTable_def op_switch_def)

lemma table_lengths: "length opTable = 64" "length specialTable = 64"
  by (simp_all add: opTable_def specialTable_def)

lemma Decode_opCode: "opCode (Decode v) \<in> fst ` set op_switch"
proof -
  let ?e = "opTable ! unat (drop_bit 26 v AND 0x3f)"
  have "?e \<in> set opTable" using unat_and_mask(2) [of "drop_bit 26 v"] by (simp add: table_lengths)
  then have e: "fst ?e \<in> {SPECIAL, BCOND} \<union> fst ` set op_switch" by (rule bspec [OF opTable_ops])
  have sp: "specialTable ! unat (v AND 0x3f) \<in> fst ` set op_switch"
    using unat_and_mask(2) [of v] specialTable_ops by (auto simp: table_lengths subset_iff)
  have bc: "{OP_BLTZ, OP_BGEZ, OP_BLTZAL, OP_BGEZAL, OP_UNIMP} \<subseteq> fst ` set op_switch"
    by (simp add: op_switch_def)
  have "SPECIAL \<noteq> BCOND" by (simp add: op_defs)
  then show ?thesis using e sp bc
    by (auto simp: Decode_def Let_def split_beta)
qed


subsection \<open>The register invariant\<close>

definition mips_inv :: "Machine \<Rightarrow> bool" where
  "mips_inv m \<longleftrightarrow> registers m 0 = 0 \<and> unat (registers m LoadReg) < NumGPRegs"

definition pending_ok :: "Machine \<Rightarrow> bool" where
  "pending_ok m \<longleftrightarrow> unat (registers m LoadReg) < NumGPRegs"

lemma put_entry_registers: "put_entry t i e m = Inr m1 \<Longrightarrow> registers m1 = registers m"
  by (auto simp: put_entry_def res_simps split: option.splits)

lemma Translate_entry_registers:
  "Translate_entry vpn m = Inr (Inr (t, i, m1)) \<Longrightarrow> registers m1 = registers m"
  by (auto simp: Translate_entry_def res_simps dest: put_entry_registers split: if_splits option.split_asm)

lemma Translate_registers:
  assumes "Machine_Translate va sz w m = Inr (x, pa, m1)"
  shows "registers m1 = registers m"
proof (cases "misaligned va sz")
  case False
  then obtain r where r: "Translate_entry (va div of_nat PageSize) m = Inr r"
    using assms by (auto simp: Machine_Translate_def Let_def res_simps)
  show ?thesis
  proof (cases r)
    case (Inl e)
    then show ?thesis using assms r False by (auto simp: Machine_Translate_def Let_def res_simps)
  next
    case (Inr q)
    obtain t i m2 where q: "q = (t, i, m2)" by (cases q)
    then have "registers m2 = registers m" using r Inr Translate_entry_registers by blast
    then show ?thesis
      using assms r False Inr q
      by (auto simp: Machine_Translate_def Let_def res_simps dest: put_entry_registers split: if_splits)
  qed
qed (use assms in \<open>simp add: Machine_Translate_def\<close>)

lemma shift_registers:
  "fold_res shift_entry is m = Inr m1 \<Longrightarrow> registers m1 = registers m"
  by (induction "is" arbitrary: m) (auto simp: shift_entry_def res_simps dest: put_entry_registers)

lemma tlb_victim_registers: "tlb_victim b vpn m = Inr (s, m1) \<Longrightarrow> registers m1 = registers m"
  by (auto simp: tlb_victim_def Let_def res_simps split: if_splits
      dest!: put_entry_registers shift_registers)

lemma tlbSwap_registers:
  assumes "Machine_tlbSwap b v m = Inr m1"
  shows "registers m1 = registers m"
proof -
  obtain e s m2 where "(case e of Some i \<Rightarrow> Inr (Some i, m) | None \<Rightarrow> tlb_victim b (int_div v (of_nat PageSize)) m) = Inr (s, m2)"
    and s: "(case s of None \<Rightarrow> Inl OutOfBounds | Some i \<Rightarrow> bind_res (get_entry (tlb m2) i m2) (\<lambda>e.
         put_entry (tlb m2) i (e\<lparr>te_valid := True, virtualPage := int_div v (of_nat PageSize), te_use := False,
           dirty := False, readOnly := False, hitRate := 0\<rparr>) m2)) = Inr m1"
    using assms by (auto simp: Machine_tlbSwap_def Let_def res_simps)
  then have "registers m2 = registers m" by (cases e) (auto dest: tlb_victim_registers)
  moreover have "registers m1 = registers m2"
    using s by (cases s) (auto simp: res_simps dest: put_entry_registers)
  ultimately show ?thesis by simp
qed

lemma lift_iff [res_simps]: "lift r = Inr x \<longleftrightarrow> r = Inr x"
  by (cases r) auto

lemma ExceptionHandler_registers: "ExceptionHandler b x m = Inr m1 \<Longrightarrow> registers m1 = registers m"
  by (auto simp: ExceptionHandler_def res_simps split: if_splits dest: tlbSwap_registers)

lemma DelayedLoad_inv:
  assumes "DelayedLoad r v m = Inr m1" "unat r < NumGPRegs"
  shows "mips_inv m1"
  using assms by (auto simp: DelayedLoad_def Let_def mips_inv_def reg_defs split: if_splits)

lemma pending_load: "pending_ok m \<Longrightarrow> \<exists>m1. DelayedLoad r v m = Inr m1"
proof -
  assume "pending_ok m"
  then have "unat (registers m LoadReg) < 32" by (simp add: pending_ok_def reg_defs)
  moreover from this have "sint (registers m LoadReg) = int (unat (registers m LoadReg))"
    by (intro sint_small) simp
  ultimately have "0 \<le> sint (registers m LoadReg)" "sint (registers m LoadReg) < 40" by linarith+
  then show ?thesis by (simp add: DelayedLoad_def Let_def NumTotalRegs_def)
qed

lemma RaiseException_inv: "RaiseException b x va m = Inr m1 \<Longrightarrow> mips_inv m1"
proof -
  assume "RaiseException b x va m = Inr m1"
  then obtain m2 m3 where d: "DelayedLoad 0 0 (set_reg BadVAddrReg va m) = Inr m2"
    and e: "ExceptionHandler b x (m2\<lparr>mode := SystemMode\<rparr>) = Inr m3" and m1: "m1 = m3\<lparr>mode := UserMode\<rparr>"
    by (auto simp: RaiseException_def res_simps)
  have "mips_inv m2" by (rule DelayedLoad_inv [OF d]) (simp add: reg_defs)
  then show ?thesis using ExceptionHandler_registers [OF e] m1 by (simp add: mips_inv_def)
qed

lemma mem_address_inv:
  assumes "mem_address b va sz w m = Inr (r, m1)" "mips_inv m"
  shows "mips_inv m1"
proof -
  obtain x pa m2 where t: "Machine_Translate va sz w m = Inr (x, pa, m2)"
    using assms(1) by (auto simp: mem_address_def res_simps)
  show ?thesis
  proof (cases "x = NoException")
    case True
    then show ?thesis using assms t Translate_registers [OF t] by (simp add: mem_address_def mips_inv_def)
  next
    case False
    then obtain m3 where m3: "RaiseException b x va m2 = Inr m3"
      using assms(1) t by (auto simp: mem_address_def res_simps)
    have "registers m1 = registers m3"
      using assms(1) t m3 False
      by (cases "x = PageFaultException") (auto simp: mem_address_def res_simps dest: Translate_registers)
    then show ?thesis using RaiseException_inv [OF m3] by (simp add: mips_inv_def)
  qed
qed

lemma ReadMem_inv:
  assumes "Machine_ReadMem b va sz m = Inr (r, m1)" "mips_inv m"
  shows "mips_inv m1"
proof -
  obtain x m2 where x: "mem_address b va sz False m = Inr (x, m2)"
    using assms(1) by (auto simp: Machine_ReadMem_def res_simps)
  then have "m1 = m2"
    using assms(1) by (cases x; cases "the x") (auto simp: Machine_ReadMem_def split: if_splits)
  then show ?thesis using mem_address_inv [OF x assms(2)] by simp
qed

lemma WriteMem_inv:
  assumes "Machine_WriteMem b va sz v m = Inr (r, m1)" "mips_inv m"
  shows "mips_inv m1"
proof -
  obtain x m2 where x: "mem_address b va sz True m = Inr (x, m2)"
    using assms(1) by (auto simp: Machine_WriteMem_def res_simps)
  then have "registers m1 = registers m2"
    using assms(1) by (cases x; cases "the x") (auto simp: Machine_WriteMem_def Let_def split: if_splits)
  then show ?thesis using mem_address_inv [OF x assms(2)] by (simp add: mips_inv_def)
qed


subsection \<open>Every instruction keeps the invariant\<close>

definition flow_ok :: "flow \<Rightarrow> bool" where
  "flow_ok f = (case f of Trap m \<Rightarrow> mips_inv m
     | Continue m pc r v \<Rightarrow> pending_ok m \<and> unat r < NumGPRegs)"

definition safe_exec :: "exec \<Rightarrow> bool" where
  "safe_exec x \<longleftrightarrow> (\<forall>b i pc m f. rs i < 32 \<longrightarrow> rt i < 32 \<longrightarrow> rd i < 32 \<longrightarrow> mips_inv m \<longrightarrow>
     x b i pc m = Inr f \<longrightarrow> flow_ok f)"

lemma mips_inv_pending [simp, intro]: "mips_inv m \<Longrightarrow> pending_ok m"
  by (simp add: mips_inv_def pending_ok_def)

lemma pending_set_reg [simp]: "r \<noteq> LoadReg \<Longrightarrow> pending_ok (set_reg r v m) = pending_ok m"
  by (simp add: pending_ok_def)

lemma go_ok: "go m pc = Inr f \<Longrightarrow> pending_ok m \<Longrightarrow> flow_ok f"
  by (auto simp: go_def flow_ok_def reg_defs)

lemma go_load_ok: "go_load m pc r v = Inr f \<Longrightarrow> pending_ok m \<Longrightarrow> r < 32 \<Longrightarrow> flow_ok f"
  by (auto simp: go_load_def flow_ok_def reg_defs unat_of_nat take_bit_nat_eq_self)

lemma raise_ok: "raise b x a m = Inr f \<Longrightarrow> flow_ok f"
  by (auto simp: raise_def flow_ok_def res_simps dest: RaiseException_inv)

lemma with_read_ok:
  assumes "with_read b a sz m k = Inr f" "mips_inv m"
    and "\<And>v m1. mips_inv m1 \<Longrightarrow> k v m1 = Inr f \<Longrightarrow> flow_ok f"
  shows "flow_ok f"
  using assms by (auto simp: with_read_def flow_ok_def res_simps split: option.split_asm dest: ReadMem_inv)

lemma with_write_ok:
  assumes "with_write b a sz v m pc = Inr f" "mips_inv m"
  shows "flow_ok f"
  using assms
  by (auto simp: with_write_def res_simps split: if_splits dest!: WriteMem_inv)
    (auto simp: flow_ok_def go_def reg_defs)

lemmas exec_ok = go_ok go_load_ok raise_ok with_read_ok with_write_ok

lemma safe_alu:
  "safe_exec do_ADD" "safe_exec do_ADDI" "safe_exec do_ADDIU" "safe_exec do_ADDU" "safe_exec do_AND"
  "safe_exec do_ANDI" "safe_exec do_LUI" "safe_exec do_NOR" "safe_exec do_OR" "safe_exec do_ORI"
  "safe_exec do_SUB" "safe_exec do_SUBU" "safe_exec do_XOR" "safe_exec do_XORI"
  by (auto simp: safe_exec_def do_ADD_def do_ADDI_def do_ADDIU_def do_ADDU_def do_AND_def do_ANDI_def
      do_LUI_def do_NOR_def do_OR_def do_ORI_def do_SUB_def do_SUBU_def do_XOR_def do_XORI_def Let_def
      reg_defs split: if_splits dest!: raise_ok go_ok)

lemma safe_shift:
  "safe_exec do_SLL" "safe_exec do_SLLV" "safe_exec do_SLT" "safe_exec do_SLTI" "safe_exec do_SLTIU"
  "safe_exec do_SLTU" "safe_exec do_SRA" "safe_exec do_SRAV" "safe_exec do_SRL" "safe_exec do_SRLV"
  "safe_exec do_MFHI" "safe_exec do_MFLO" "safe_exec do_MTHI" "safe_exec do_MTLO"
  by (auto simp: safe_exec_def do_SLL_def do_SLLV_def do_SLT_def do_SLTI_def do_SLTIU_def do_SLTU_def
      do_SRA_def do_SRAV_def do_SRL_def do_SRLV_def do_MFHI_def do_MFLO_def do_MTHI_def do_MTLO_def
      Let_def reg_defs dest!: go_ok)

lemma safe_muldiv:
  "safe_exec do_MULT" "safe_exec do_MULTU" "safe_exec do_DIV" "safe_exec do_DIVU"
  by (auto simp: safe_exec_def do_MULT_def do_MULTU_def do_DIV_def do_DIVU_def Let_def reg_defs
      split: if_splits prod.splits dest!: go_ok)

lemma safe_branch:
  "safe_exec do_BEQ" "safe_exec do_BGEZ" "safe_exec do_BGEZAL" "safe_exec do_BGTZ" "safe_exec do_BLEZ"
  "safe_exec do_BLTZ" "safe_exec do_BLTZAL" "safe_exec do_BNE" "safe_exec do_J" "safe_exec do_JAL"
  "safe_exec do_JR" "safe_exec do_JALR"
  by (auto simp: safe_exec_def do_BEQ_def do_BGEZ_def do_BGEZAL_def do_BGTZ_def do_BLEZ_def do_BLTZ_def
      do_BLTZAL_def do_BNE_def do_J_def do_JAL_def do_JR_def do_JALR_def R31_def reg_defs
      dest!: go_ok)

lemma safe_memory:
  "safe_exec do_LB_LBU" "safe_exec do_LH_LHU" "safe_exec do_LW" "safe_exec do_LWL" "safe_exec do_LWR"
  "safe_exec do_SB" "safe_exec do_SH" "safe_exec do_SW" "safe_exec do_SWL" "safe_exec do_SWR"
  "safe_exec do_SYSCALL" "safe_exec do_illegal"
  unfolding safe_exec_def
  by (auto simp: do_LB_LBU_def do_LH_LHU_def do_LW_def do_LWL_def do_LWR_def do_SB_def do_SH_def
      do_SW_def do_SWL_def do_SWR_def do_SYSCALL_def do_illegal_def Let_def res_simps
      split: if_splits elim!: with_read_ok with_write_ok raise_ok go_load_ok)

lemma safe_switch: "\<forall>p\<in>set op_switch. safe_exec (snd p)"
  by (simp add: op_switch_def safe_alu safe_shift safe_muldiv safe_branch safe_memory)


lemma execute_flow_ok:
  assumes "mips_inv m" "execute b (Decode v) pc m = Inr f"
  shows "flow_ok f"
proof -
  obtain x where x: "map_of op_switch (opCode (Decode v)) = Some x"
    using Decode_opCode [of v] by (metis map_of_eq_None_iff not_None_eq)
  then have "safe_exec x" using safe_switch map_of_SomeD by fastforce
  then show ?thesis
    using assms x Decode_registers [of v] unfolding safe_exec_def execute_def by fastforce
qed

lemma finish_inv:
  assumes "flow_ok f"
  shows "\<exists>m. finish_instruction f = Inr m \<and> mips_inv m"
proof (cases f)
  case (Continue m pc r v)
  then obtain m1 where m1: "DelayedLoad r v m = Inr m1"
    using assms pending_load [of m r v] by (auto simp: flow_ok_def)
  then have "mips_inv m1" using assms Continue DelayedLoad_inv by (auto simp: flow_ok_def)
  then show ?thesis using Continue m1
    by (simp add: finish_instruction_def advance_def Let_def mips_inv_def reg_defs)
next
  case (Trap m)
  then show ?thesis using assms by (simp add: flow_ok_def finish_instruction_def)
qed

subsection \<open>Two instructions in a row\<close>

lemma load_reg_ok_mips: "mips_inv m \<Longrightarrow> load_reg_ok m"
proof -
  assume "mips_inv m"
  then have u: "unat (registers m LoadReg) < 32" by (simp add: mips_inv_def reg_defs)
  then have "sint (registers m LoadReg) = int (unat (registers m LoadReg))" by (intro sint_small) simp
  then have "0 \<le> sint (registers m LoadReg)" "sint (registers m LoadReg) < 40" using u by linarith+
  then show ?thesis by (simp add: load_reg_ok_def reg_defs)
qed

text \<open>In a machine with a page table and no tlb, an instruction other than SYSCALL that returns raised no exception: it
  leaves the program counters and the pending load alone.\<close>

definition keeps :: "Machine \<Rightarrow> Machine \<Rightarrow> bool" where
  "keeps m m' \<longleftrightarrow> (\<exists>es. page_table m' es) \<and> registers m' PCReg = registers m PCReg \<and> registers m' NextPCReg = registers m NextPCReg \<and>
     registers m' LoadReg = registers m LoadReg \<and> registers m' LoadValueReg = registers m LoadValueReg"

definition completes :: "Machine \<Rightarrow> flow \<Rightarrow> bool" where
  "completes m f \<longleftrightarrow> (\<exists>m' pc r v. f = Continue m' pc r v \<and> keeps m m')"

definition plain_exec :: "exec \<Rightarrow> bool" where
  "plain_exec x \<longleftrightarrow> (\<forall>b i pc m f es. rs i < 32 \<longrightarrow> rt i < 32 \<longrightarrow> rd i < 32 \<longrightarrow> page_table m es \<longrightarrow> load_reg_ok m \<longrightarrow>
     x b i pc m = Inr f \<longrightarrow> completes m f)"

lemma page_table_touch: "page_table m es \<Longrightarrow> page_table (set_page_table (touch es va w) m) (touch es va w)"
  by (auto simp: page_table_def set_page_table_def touch_def Let_def)

lemma ReadMem_plain:
  assumes "page_table m es" "load_reg_ok m" "sz \<in> {1, 2, 4}" "Machine_ReadMem b va sz m = Inr (r, m1)"
  shows "registers m1 = registers m \<and> (\<exists>es1. page_table m1 es1) \<and> r \<noteq> None"
proof -
  have "page_fault es va sz False = NoException" using mem_address_fault [OF assms(1-3), of va False b] assms(4)
    by (fastforce simp: Machine_ReadMem_def split: if_splits)
  then show ?thesis
    using ReadMem_page_table [OF assms(1,3), of va b] page_table_touch [OF assms(1), of va False] assms(4)
    by (auto simp: set_page_table_def)
qed

lemma WriteMem_plain:
  assumes "page_table m es" "load_reg_ok m" "sz \<in> {1, 2, 4}" "Machine_WriteMem b va sz v m = Inr (ok, m1)"
  shows "registers m1 = registers m \<and> (\<exists>es1. page_table m1 es1) \<and> ok"
proof -
  have "page_fault es va sz True = NoException" using mem_address_fault [OF assms(1-3), of va True b] assms(4)
    by (fastforce simp: Machine_WriteMem_def split: if_splits)
  then show ?thesis
    using WriteMem_page_table [OF assms(1,3), of va b v] page_table_touch [OF assms(1), of va True] assms(4)
    by (auto simp: set_page_table_def page_table_def)
qed

lemma raise_plain:
  assumes "page_table m es" "load_reg_ok m" "x \<notin> {PageFaultException, SyscallException}"
  shows "raise b x a m \<noteq> Inr f"
  using RaiseException_page_table(1) [OF assms] by (simp add: raise_def)

lemma go_plain:
  "go m1 pc = Inr f \<Longrightarrow> keeps m m1 \<Longrightarrow> completes m f" "go_load m1 pc r v = Inr f \<Longrightarrow> keeps m m1 \<Longrightarrow> completes m f"
  by (auto simp: go_def go_load_def completes_def)

lemma keeps_set:
  "page_table m es \<Longrightarrow> keeps m m" "keeps m m1 \<Longrightarrow> r \<notin> {PCReg, NextPCReg, LoadReg, LoadValueReg} \<Longrightarrow> keeps m (set_reg r v m1)"
  by (auto simp: keeps_def)

lemma with_read_plain:
  assumes "with_read b a sz m k = Inr f" "page_table m es" "load_reg_ok m" "sz \<in> {1, 2, 4}"
    and "\<And>v m1 es1. keeps m m1 \<Longrightarrow> page_table m1 es1 \<Longrightarrow> load_reg_ok m1 \<Longrightarrow> k v m1 = Inr f \<Longrightarrow> completes m f"
  shows "completes m f"
proof -
  obtain r m1 where r: "Machine_ReadMem b a sz m = Inr (r, m1)" "(case r of None \<Rightarrow> Inr (Trap m1) | Some value \<Rightarrow> k value m1) = Inr f"
    using assms(1) by (auto simp: with_read_def res_simps)
  note R = ReadMem_plain [OF assms(2-4) r(1)]
  then obtain v es1 where "r = Some v" "page_table m1 es1" by auto
  moreover have "keeps m m1" "load_reg_ok m1" using R assms(3) by (simp_all add: keeps_def load_reg_ok_def)
  ultimately show ?thesis using assms(5) r(2) by simp
qed

lemma with_write_plain:
  assumes "with_write b a sz v m pc = Inr f" "page_table m es" "load_reg_ok m" "sz \<in> {1, 2, 4}"
  shows "completes m f"
proof -
  obtain r m1 where r: "Machine_WriteMem b a sz v m = Inr (r, m1)" "(if \<not> r then Inr (Trap m1) else go m1 pc) = Inr f"
    using assms(1) by (auto simp: with_write_def res_simps)
  then show ?thesis using WriteMem_plain [OF assms(2-4) r(1)] by (auto simp: go_def completes_def keeps_def)
qed

lemma completes_mono: "completes m1 f \<Longrightarrow> keeps m m1 \<Longrightarrow> completes m f"
  by (auto simp: completes_def keeps_def)

lemma plain_alu:
  "plain_exec do_ADD" "plain_exec do_ADDI" "plain_exec do_ADDIU" "plain_exec do_ADDU" "plain_exec do_AND"
  "plain_exec do_ANDI" "plain_exec do_LUI" "plain_exec do_NOR" "plain_exec do_OR" "plain_exec do_ORI"
  "plain_exec do_SUB" "plain_exec do_SUBU" "plain_exec do_XOR" "plain_exec do_XORI"
  by (auto simp: plain_exec_def do_ADD_def do_ADDI_def do_ADDIU_def do_ADDU_def do_AND_def do_ANDI_def
      do_LUI_def do_NOR_def do_OR_def do_ORI_def do_SUB_def do_SUBU_def do_XOR_def do_XORI_def Let_def
      raise_plain reg_defs split: if_splits elim!: go_plain intro!: keeps_set)

lemma plain_shift:
  "plain_exec do_SLL" "plain_exec do_SLLV" "plain_exec do_SLT" "plain_exec do_SLTI" "plain_exec do_SLTIU"
  "plain_exec do_SLTU" "plain_exec do_SRA" "plain_exec do_SRAV" "plain_exec do_SRL" "plain_exec do_SRLV"
  "plain_exec do_MFHI" "plain_exec do_MFLO" "plain_exec do_MTHI" "plain_exec do_MTLO"
  by (auto simp: plain_exec_def do_SLL_def do_SLLV_def do_SLT_def do_SLTI_def do_SLTIU_def do_SLTU_def
      do_SRA_def do_SRAV_def do_SRL_def do_SRLV_def do_MFHI_def do_MFLO_def do_MTHI_def do_MTLO_def
      Let_def reg_defs elim!: go_plain intro!: keeps_set)

lemma plain_muldiv:
  "plain_exec do_MULT" "plain_exec do_MULTU" "plain_exec do_DIV" "plain_exec do_DIVU"
  by (auto simp: plain_exec_def do_MULT_def do_MULTU_def do_DIV_def do_DIVU_def Let_def reg_defs
      split: if_splits prod.splits elim!: go_plain intro!: keeps_set)

lemma plain_branch:
  "plain_exec do_BEQ" "plain_exec do_BGEZ" "plain_exec do_BGEZAL" "plain_exec do_BGTZ" "plain_exec do_BLEZ"
  "plain_exec do_BLTZ" "plain_exec do_BLTZAL" "plain_exec do_BNE" "plain_exec do_J" "plain_exec do_JAL"
  "plain_exec do_JR" "plain_exec do_JALR"
  by (auto simp: plain_exec_def do_BEQ_def do_BGEZ_def do_BGEZAL_def do_BGTZ_def do_BLEZ_def do_BLTZ_def
      do_BLTZAL_def do_BNE_def do_J_def do_JAL_def do_JR_def do_JALR_def R31_def reg_defs
      elim!: go_plain intro!: keeps_set)

lemma plain_load:
  "plain_exec do_LB_LBU" "plain_exec do_LH_LHU" "plain_exec do_LW" "plain_exec do_LWL" "plain_exec do_LWR"
  unfolding plain_exec_def
  by (auto simp: do_LB_LBU_def do_LH_LHU_def do_LW_def do_LWL_def do_LWR_def Let_def raise_plain res_simps
      split: if_splits elim!: with_read_plain go_plain)

lemma plain_store:
  "plain_exec do_SB" "plain_exec do_SH" "plain_exec do_SW" "plain_exec do_SWL" "plain_exec do_SWR" "plain_exec do_illegal"
  unfolding plain_exec_def
  by (auto simp: do_SB_def do_SH_def do_SW_def do_SWL_def do_SWR_def do_illegal_def Let_def raise_plain res_simps
      split: if_splits elim!: with_read_plain intro: with_write_plain completes_mono [OF with_write_plain])

lemma plain_switch: "\<forall>p\<in>set op_switch. fst p \<noteq> OP_SYSCALL \<longrightarrow> plain_exec (snd p)"
  by (simp add: op_switch_def plain_alu plain_shift plain_muldiv plain_branch plain_load plain_store)

lemma OneInstruction_inv:
  assumes inv: "mips_inv m" and "OneInstruction b m = Inr m'"
  shows "mips_inv m'"
proof -
  obtain raw m1 where r: "Machine_ReadMem b (registers m PCReg) 4 m = Inr (raw, m1)"
    and c: "(case raw of None \<Rightarrow> Inr m1 | Some value \<Rightarrow>
       bind_res (execute b (Decode value) (registers m1 NextPCReg + 4) m1) finish_instruction) = Inr m'"
    using assms(2) by (auto simp: OneInstruction_def res_simps)
  have inv: "mips_inv m1" by (rule ReadMem_inv [OF r inv])
  show ?thesis
  proof (cases raw)
    case None
    then show ?thesis using c inv by simp
  next
    case (Some w)
    then obtain f where "execute b (Decode w) (registers m1 NextPCReg + 4) m1 = Inr f"
      "finish_instruction f = Inr m'" using c by (auto simp: res_simps)
    then show ?thesis using finish_inv [OF execute_flow_ok [OF inv]] by force
  qed
qed

lemma finish_continue:
  assumes "pending_ok m"
  shows "\<exists>m'. finish_instruction (Continue m pcAfter r v) = Inr m' \<and>
    registers m' PCReg = registers m NextPCReg \<and> registers m' NextPCReg = pcAfter \<and>
    registers m' LoadReg = r \<and> registers m' LoadValueReg = v \<and>
    (\<forall>g<NumGPRegs. registers m' g =
       (if g = 0 then 0 else if g = unat (registers m LoadReg) then registers m LoadValueReg else registers m g)) \<and>
    (\<forall>es. page_table m es \<longrightarrow> page_table m' es)"
proof -
  have lt: "unat (registers m LoadReg) < 32" using assms by (simp add: pending_ok_def reg_defs)
  from pending_load [OF assms, of r v] obtain m1 where m1: "DelayedLoad r v m = Inr m1" by blast
  then have "m1 = set_reg 0 0 (set_reg LoadValueReg v (set_reg LoadReg r
             (set_reg (unat (registers m LoadReg)) (registers m LoadValueReg) m)))"
    by (auto simp: DelayedLoad_def Let_def split: if_splits)
  then show ?thesis
    using m1 lt by (simp add: finish_instruction_def advance_def Let_def reg_defs)
qed

text \<open>An instruction other than SYSCALL from its fetch to its end.\<close>

lemma plain_step:
  assumes pt: "page_table m es" and inv: "mips_inv m" and w: "Machine_ReadMem b (registers m PCReg) 4 m = Inr (Some w, m0)"
    and s: "opCode (Decode w) \<noteq> OP_SYSCALL" and one: "OneInstruction b m = Inr m1"
  obtains mx pc r v es1 where "execute b (Decode w) (registers m NextPCReg + 4) m0 = Inr (Continue mx pc r v)"
    "registers m0 = registers m" "registers m1 PCReg = registers m NextPCReg" "registers m1 NextPCReg = pc"
    "registers m1 LoadReg = r" "registers m1 LoadValueReg = v" "page_table m1 es1" "mips_inv m1"
    "\<forall>g<32. registers m1 g =
       (if g = 0 then 0 else if g = unat (registers m LoadReg) then registers m LoadValueReg else registers mx g)"
proof -
  obtain es0 where R: "registers m0 = registers m" "page_table m0 es0"
    using ReadMem_plain [OF pt load_reg_ok_mips [OF inv] _ w] by auto
  obtain f where f: "execute b (Decode w) (registers m NextPCReg + 4) m0 = Inr f" "finish_instruction f = Inr m1"
    using one w R(1) by (auto simp: OneInstruction_def res_simps)
  obtain x where x: "map_of op_switch (opCode (Decode w)) = Some x"
    using Decode_opCode [of w] by (metis map_of_eq_None_iff not_None_eq)
  then have "plain_exec x" using plain_switch map_of_SomeD s by fastforce
  moreover have "load_reg_ok m0" using load_reg_ok_mips [OF inv] R(1) by (simp add: load_reg_ok_def)
  ultimately have "completes m0 f"
    using f(1) x Decode_registers [of w] R(2) unfolding plain_exec_def execute_def by fastforce
  then obtain mx pc r v where c: "f = Continue mx pc r v" "keeps m0 mx" by (auto simp: completes_def)
  then obtain es1 where es1: "page_table mx es1" by (auto simp: keeps_def)
  have "pending_ok mx" using inv c(2) R(1) by (simp add: pending_ok_def mips_inv_def keeps_def)
  from finish_continue [OF this, of pc r v] f(2) c
  have m1: "registers m1 PCReg = registers m NextPCReg" "registers m1 NextPCReg = pc" "registers m1 LoadReg = r" "registers m1 LoadValueReg = v"
    "page_table m1 es1"
    "\<forall>g<32. registers m1 g =
       (if g = 0 then 0 else if g = unat (registers m LoadReg) then registers m LoadValueReg else registers mx g)"
    using es1 R(1) by (simp_all add: keeps_def reg_defs)
  have "mips_inv m1" using OneInstruction_inv [OF inv one] .
  with m1 f(1) c(1) R(1) show thesis by (intro that) auto
qed

lemma LW_flow:
  assumes "do_LW b i pc m = Inr (Continue mx pc' r v)" "page_table m es" "load_reg_ok m"
  shows "r = of_nat (rt i) \<and> registers mx = registers m \<and> Machine_ReadMem b (registers m (rs i) + extra i) 4 m = Inr (Some v, mx)"
  using assms
  by (auto simp: do_LW_def address_def Let_def raise_plain with_read_def go_load_def res_simps
      split: if_splits option.splits dest: ReadMem_plain)

subsection \<open>Properties\<close>

text \<open>C17. The simulator keeps its register invariant: when register 0 holds zero and the register of
  the pending delayed load is a general register, both hold again after every instruction that returns,
  exceptions and page faults included; the end of the instruction never fails, because the
  index of the delayed load stays in the register array; and every word decodes to an operation the
  switch handles, so its default branch is never taken.\<close>

theorem OneInstruction_invariant:
  assumes "mips_inv m"
  shows "(\<forall>m'. OneInstruction b m = Inr m' \<longrightarrow> mips_inv m') \<and>
    (\<forall>pc f. execute b (Decode v) pc m = Inr f \<longrightarrow> (\<exists>m'. finish_instruction f = Inr m')) \<and>
    opCode (Decode v) \<in> fst ` set op_switch"
proof (intro conjI allI impI)
  fix m' assume "OneInstruction b m = Inr m'"
  then show "mips_inv m'" by (rule OneInstruction_inv [OF assms])
next
  fix pc f assume "execute b (Decode v) pc m = Inr f"
  then show "\<exists>m'. finish_instruction f = Inr m'"
    using finish_inv [OF execute_flow_ok [OF assms]] by blast
qed (rule Decode_opCode)

text \<open>C10. MULT and MULTU leave in HI and LO the full 64-bit product of the two registers, signed and
  unsigned respectively, for all operands; no other register changes.\<close>

theorem MULT_product:
  "\<exists>m1 m2. do_MULT b i pc m = Inr (Continue m1 pc 0 0) \<and> do_MULTU b i pc m = Inr (Continue m2 pc 0 0) \<and>
     dword (registers m1 HiReg) (registers m1 LoReg) =
       word_of_int (sint (registers m (rs i)) * sint (registers m (rt i))) \<and>
     dword (registers m2 HiReg) (registers m2 LoReg) =
       word_of_int (uint (registers m (rs i)) * uint (registers m (rt i))) \<and>
     (\<forall>r. r \<noteq> HiReg \<and> r \<noteq> LoReg \<longrightarrow> registers m1 r = registers m r \<and> registers m2 r = registers m r)"
proof -
  obtain h1 l1 where s: "Mult (registers m (rs i)) (registers m (rt i)) True = (h1, l1)" by fastforce
  obtain h2 l2 where u: "Mult (registers m (rs i)) (registers m (rt i)) False = (h2, l2)" by fastforce
  show ?thesis
    using Mult_product [OF s] Mult_product [OF u]
    by (simp add: do_MULT_def do_MULTU_def s u go_def reg_defs)
qed

text \<open>C33. ADD, ADDI and SUB trap exactly when the exact sum or difference of the signed operands does not
  fit in 32 bits; when they do not trap, the destination register holds that exact value.\<close>

theorem signed_arithmetic:
  fixes m i
  defines "x \<equiv> sint (registers m (rs i))" and "y \<equiv> sint (registers m (rt i))" and "e \<equiv> sint (extra i)"
  shows "(if in_int32 (x + y)
      then \<exists>m1. do_ADD b i pc m = Inr (Continue m1 pc 0 0) \<and> sint (registers m1 (rd i)) = x + y
      else do_ADD b i pc m = raise b OverflowException 0 m) \<and>
    (if in_int32 (x + e)
      then \<exists>m1. do_ADDI b i pc m = Inr (Continue m1 pc 0 0) \<and> sint (registers m1 (rt i)) = x + e
      else do_ADDI b i pc m = raise b OverflowException 0 m) \<and>
    (if in_int32 (x - y)
      then \<exists>m1. do_SUB b i pc m = Inr (Continue m1 pc 0 0) \<and> sint (registers m1 (rd i)) = x - y
      else do_SUB b i pc m = raise b OverflowException 0 m)"
proof (intro conjI)
  have "registers m (rs i) + registers m (rt i) = word_of_int (x + y)" by (simp add: x_def y_def)
  then show "if in_int32 (x + y)
      then \<exists>m1. do_ADD b i pc m = Inr (Continue m1 pc 0 0) \<and> sint (registers m1 (rd i)) = x + y
      else do_ADD b i pc m = raise b OverflowException 0 m"
    using add_overflow [of "registers m (rs i)" "registers m (rt i)"] sint_exact [of "x + y"]
    unfolding do_ADD_def Let_def go_def by (simp add: x_def [symmetric] y_def [symmetric])
  have "registers m (rs i) + extra i = word_of_int (x + e)" by (simp add: x_def e_def)
  then show "if in_int32 (x + e)
      then \<exists>m1. do_ADDI b i pc m = Inr (Continue m1 pc 0 0) \<and> sint (registers m1 (rt i)) = x + e
      else do_ADDI b i pc m = raise b OverflowException 0 m"
    using add_overflow [of "extra i" "registers m (rs i)"] sint_exact [of "x + e"]
    unfolding do_ADDI_def Let_def go_def
    by (simp add: x_def [symmetric] e_def [symmetric] add.commute xor.commute)
  have "registers m (rs i) - registers m (rt i) = word_of_int (x - y)" by (simp add: x_def y_def)
  then show "if in_int32 (x - y)
      then \<exists>m1. do_SUB b i pc m = Inr (Continue m1 pc 0 0) \<and> sint (registers m1 (rd i)) = x - y
      else do_SUB b i pc m = raise b OverflowException 0 m"
    using sub_overflow [of "registers m (rs i)" "registers m (rt i)"] sint_exact [of "x - y"]
    unfolding do_SUB_def Let_def go_def by (simp add: x_def [symmetric] y_def [symmetric])
qed

text \<open>C34. Delay slots, in a machine that runs with a page table and no tlb. When two instructions in a row, neither of them
  SYSCALL, return, the second is the one at the NextPC of the first, and only after it control reaches where the first sent it: for BEQ the
  target if the registers are equal and the instruction after the delay slot otherwise, for JR the address in the
  register. A word loaded by LW into a register other than 0 is not in the register yet when the second instruction
  runs, which finds the value of before (or that of the load pending then), and is there after it, whatever the
  second instruction wrote to that register.\<close>

theorem delay_slots:
  assumes "page_table m es" "mips_inv m"
    and "Machine_ReadMem b (registers m PCReg) 4 m = Inr (Some w, m0)" "OneInstruction b m = Inr m1"
    and "Machine_ReadMem b (registers m1 PCReg) 4 m1 = Inr (Some w1, m2)" "OneInstruction b m1 = Inr m3"
    and "opCode (Decode w) \<noteq> OP_SYSCALL" "opCode (Decode w1) \<noteq> OP_SYSCALL"
  defines "i \<equiv> Decode w"
  shows "registers m1 PCReg = registers m NextPCReg \<and> registers m3 PCReg = registers m1 NextPCReg \<and>
    (opCode i = OP_BEQ \<longrightarrow> registers m3 PCReg =
       registers m NextPCReg + (if registers m (rs i) = registers m (rt i) then push_bit 2 (extra i) else 4)) \<and>
    (opCode i = OP_JR \<longrightarrow> registers m3 PCReg = registers m (rs i)) \<and>
    (opCode i = OP_LW \<and> rt i \<noteq> 0 \<longrightarrow>
       registers m1 (rt i) = (if unat (registers m LoadReg) = rt i then registers m LoadValueReg else registers m (rt i)) \<and>
       (\<exists>mx. Machine_ReadMem b (registers m (rs i) + extra i) 4 m0 = Inr (Some (registers m3 (rt i)), mx)))"
proof -
  obtain mx pc r v es1 where A: "execute b (Decode w) (registers m NextPCReg + 4) m0 = Inr (Continue mx pc r v)"
    "registers m0 = registers m" "registers m1 PCReg = registers m NextPCReg" "registers m1 NextPCReg = pc"
    "registers m1 LoadReg = r" "registers m1 LoadValueReg = v" "page_table m1 es1" "mips_inv m1"
    "\<forall>g<32. registers m1 g =
       (if g = 0 then 0 else if g = unat (registers m LoadReg) then registers m LoadValueReg else registers mx g)"
    by (rule plain_step [OF assms(1,2,3,7,4)]) blast
  have B: "registers m3 PCReg = registers m1 NextPCReg \<and> (rt i \<noteq> 0 \<and> unat r = rt i \<longrightarrow> registers m3 (rt i) = v)"
  proof (rule plain_step [OF A(7,8) assms(5,8,6)])
    fix my
    assume "registers m3 PCReg = registers m1 NextPCReg" "\<forall>g<32. registers m3 g =
       (if g = 0 then 0 else if g = unat (registers m1 LoadReg) then registers m1 LoadValueReg else registers my g)"
    then show ?thesis using A(5,6) Decode_registers(2) [of w] by (simp add: i_def)
  qed
  obtain es0 where m0: "page_table m0 es0" "load_reg_ok m0"
    using ReadMem_plain [OF assms(1) load_reg_ok_mips [OF assms(2)] _ assms(3)] load_reg_ok_mips [OF assms(2)] A(2)
    by (auto simp: load_reg_ok_def)
  have rt: "rt i < 32" "unat (of_nat (rt i) :: 32 word) = rt i"
    using Decode_registers(2) [of w] by (simp_all add: i_def unat_of_nat take_bit_nat_eq_self)
  have beq: "pc = registers m NextPCReg + (if registers m (rs i) = registers m (rt i) then push_bit 2 (extra i) else 4)" if "opCode i = OP_BEQ"
    using A(1,2) that by (auto simp: i_def execute_def op_switch_def op_defs do_BEQ_def go_def branch_target_def IndexToAddr_def)
  have jr: "pc = registers m (rs i)" if "opCode i = OP_JR"
    using A(1,2) that by (auto simp: i_def execute_def op_switch_def op_defs do_JR_def go_def)
  have lw: "r = of_nat (rt i) \<and> registers mx = registers m \<and> Machine_ReadMem b (registers m (rs i) + extra i) 4 m0 = Inr (Some v, mx)"
    if "opCode i = OP_LW"
  proof -
    have "do_LW b i (registers m NextPCReg + 4) m0 = Inr (Continue mx pc r v)"
      using A(1) that by (simp add: i_def execute_def op_switch_def op_defs)
    from LW_flow [OF this m0] A(2) show ?thesis by simp
  qed
  have "registers m1 (rt i) = (if unat (registers m LoadReg) = rt i then registers m LoadValueReg else registers m (rt i)) \<and>
       (\<exists>mx. Machine_ReadMem b (registers m (rs i) + extra i) 4 m0 = Inr (Some (registers m3 (rt i)), mx))"
    if "opCode i = OP_LW" "rt i \<noteq> 0"
  proof -
    have "unat r = rt i" using lw [OF that(1)] rt(2) by simp
    then have "registers m3 (rt i) = v" using B that(2) by blast
    then show ?thesis using lw [OF that(1)] A(9) rt(1) that(2) by auto
  qed
  then show ?thesis using A(3,4) B beq jr by (intro conjI impI) simp_all
qed

lemma signed_drop_bit_logical:
  assumes "k < 32"
  shows "signed_drop_bit k (x :: 32 word) = drop_bit k x \<longleftrightarrow> k = 0 \<or> \<not> bit x 31"
proof
  assume e: "signed_drop_bit k x = drop_bit k x"
  show "k = 0 \<or> \<not> bit x 31"
  proof (rule ccontr)
    assume "\<not> ?thesis"
    then have k: "0 < k" and b: "bit x 31" by auto
    have "32 - k \<le> 31" using k by simp
    then have "bit (signed_drop_bit k x) 31" using b by (simp add: bit_signed_drop_bit_iff)
    moreover have "\<not> bit (drop_bit k x) 31"
      using k bit_imp_le_length [of x "k + 31"] by (auto simp: bit_drop_bit_eq)
    ultimately show False using e by simp
  qed
next
  assume c: "k = 0 \<or> \<not> bit x 31"
  show "signed_drop_bit k x = drop_bit k x"
  proof (rule bit_word_eqI)
    fix n assume "n < LENGTH(32)"
    then show "bit (signed_drop_bit k x) n = bit (drop_bit k x) n"
      using c assms bit_imp_le_length [of x "k + n"]
      by (auto simp: bit_signed_drop_bit_iff bit_drop_bit_eq)
  qed
qed

text \<open>C40. Where two instructions differ from the machine they simulate. OR takes both operands from the
  register \<open>rs\<close>: its result is the value of \<open>rs\<close> whatever \<open>rt\<close> holds, which is the disjunction only when \<open>rt\<close> adds no bit
  to it. SRL by \<open>k\<close> below 32 shifts in the sign: its result, read as a signed number, is the operand divided by \<open>2 ^ k\<close> and rounded down,
  which is the logical shift only when \<open>k\<close> is zero or the operand is not negative. No other register changes.\<close>

theorem OR_and_SRL:
  assumes "unat (extra i) < 32"
  shows "\<exists>m1 m2. do_OR b i pc m = Inr (Continue m1 pc 0 0) \<and> do_SRL b i pc m = Inr (Continue m2 pc 0 0) \<and>
    registers m1 = (registers m)(rd i := registers m (rs i)) \<and>
    (registers m1 (rd i) = registers m (rs i) OR registers m (rt i) \<longleftrightarrow>
       registers m (rt i) AND NOT (registers m (rs i)) = 0) \<and>
    registers m2 = (registers m)(rd i := registers m2 (rd i)) \<and>
    sint (registers m2 (rd i)) = sint (registers m (rt i)) div 2 ^ unat (extra i) \<and>
    (registers m2 (rd i) = drop_bit (unat (extra i)) (registers m (rt i)) \<longleftrightarrow>
       unat (extra i) = 0 \<or> \<not> bit (registers m (rt i)) 31)"
proof -
  have "x = x OR y \<longleftrightarrow> y AND NOT x = 0" for x y :: "32 word"
    by (auto simp: bit_eq_iff bit_simps)
  then show ?thesis
    using signed_drop_bit_logical [OF assms, of "registers m (rt i)"]
    by (simp add: do_OR_def do_SRL_def go_def Let_def set_reg_def sint_signed_drop_bit_eq drop_bit_eq_div)
qed

subsection \<open>Witnesses\<close>

lemma mach0_inv: "mips_inv mach0"
  by (simp add: mips_inv_def mach0_def reg_defs)

lemma OneInstruction_invariant_witness:
  "mips_inv mach0 \<and> opCode (Decode 0x24080005) \<in> fst ` set op_switch"
  using OneInstruction_invariant [OF mach0_inv, where b = little and v = "0x24080005"] mach0_inv by blast

definition mul_instr :: Instruction where
  "mul_instr = \<lparr>i_value = 0, opCode = OP_MULT, rs = 4, rt = 5, rd = 0, extra = 0\<rparr>"

definition mul_mach :: Machine where
  "mul_mach = set_reg 4 (-3) (set_reg 5 0x40000000 mach0)"

lemma MULT_product_witness:
  "\<exists>m1. do_MULT little mul_instr 8 mul_mach = Inr (Continue m1 8 0 0) \<and>
     dword (registers m1 HiReg) (registers m1 LoReg) = - 0xc0000000 \<and> registers m1 4 = -3"
proof -
  have "sint (registers mul_mach 4) = -3" "sint (registers mul_mach 5) = 0x40000000"
    "registers mul_mach 4 = -3"
    by (simp_all add: mul_mach_def)
  then show ?thesis
    using MULT_product [of little mul_instr 8 mul_mach] by (auto simp: mul_instr_def reg_defs)
qed

text \<open>A branch to 16 at address 0, and an instruction at 4.\<close>

definition slot_mach :: Machine where
  "slot_mach = mach0\<lparr>mainMemory := (\<lambda>_. 0)(384 := 3, 387 := 0x10), registers := (\<lambda>_. 0)(NextPCReg := 4)\<rparr>"

lemma delay_slots_witness:
  "\<exists>m1 m3. OneInstruction little slot_mach = Inr m1 \<and> OneInstruction little m1 = Inr m3 \<and>
     registers m1 PCReg = 4 \<and> registers m3 PCReg = 16"
proof -
  have pt: "page_table slot_mach [entry0, entry0\<lparr>te_valid := False\<rparr>]" "mips_inv slot_mach" "registers slot_mach NextPCReg = 4"
    "registers slot_mach g = (if g = NextPCReg then 4 else 0)" for g
    by (simp_all add: page_table_def mips_inv_def slot_mach_def mach0_def reg_defs)
  have d: "opCode (Decode 0x10000003) = OP_BEQ" "extra (Decode 0x10000003) = 3" "rs (Decode 0x10000003) = 0" "rt (Decode 0x10000003) = 0"
    "opCode (Decode 0) = OP_SLL" "OP_BEQ \<noteq> OP_SYSCALL" "OP_SLL \<noteq> OP_SYSCALL"
    by code_simp+
  have a: "case Machine_ReadMem little (registers slot_mach PCReg) 4 slot_mach of Inr (Some w, m0) \<Rightarrow> w = 0x10000003 | _ \<Rightarrow> False"
    by code_simp
  have c: "case OneInstruction little slot_mach of Inr m1 \<Rightarrow>
      (case Machine_ReadMem little (registers m1 PCReg) 4 m1 of Inr (Some w, _) \<Rightarrow> w = 0 | _ \<Rightarrow> False) \<and>
      (case OneInstruction little m1 of Inr _ \<Rightarrow> True | Inl _ \<Rightarrow> False) | Inl _ \<Rightarrow> False"
    by code_simp
  obtain m0 where m0: "Machine_ReadMem little (registers slot_mach PCReg) 4 slot_mach = Inr (Some 0x10000003, m0)"
    using a by (auto split: sum.splits prod.splits option.splits)
  obtain m1 m2 m3 where m1: "OneInstruction little slot_mach = Inr m1" "Machine_ReadMem little (registers m1 PCReg) 4 m1 = Inr (Some 0, m2)"
    "OneInstruction little m1 = Inr m3"
    using c by (auto split: sum.splits prod.splits option.splits)
  show ?thesis
    using delay_slots [OF pt(1,2) m0 m1] pt(3,4) d m1 by (auto simp: reg_defs)
qed

lemma OR_and_SRL_witness:
  "unat (extra mul_instr) < 32 \<and>
   (\<exists>m1. do_OR little mul_instr 8 mul_mach = Inr (Continue m1 8 0 0) \<and>
      registers m1 0 = registers mul_mach 4 OR registers mul_mach 5)"
proof -
  have e: "unat (extra mul_instr) < 32" by (simp add: mul_instr_def)
  have "registers mul_mach 5 AND NOT (registers mul_mach 4) = 0" by (simp add: mul_mach_def)
  then show ?thesis using e OR_and_SRL [OF e, of little 8 mul_mach] by (auto simp: mul_instr_def)
qed

end
