(* ===== verification/Nachos_Interp.thy ===== *)
theory Nachos_Interp
  imports Nachos_Mips
begin

text \<open>
  The MIPS interpreter of the tools (bin/execute.c with bin/instr.h, bin/encode.h and bin/int.h), a second implementation of the
  instructions that machine/mipssim.cc simulates. It has one flat memory at a fixed address, no address translation, no delayed loads and no
  exceptions. The system calls of a program (bin/system.c) become calls of the host, whose answers are the parameter \<open>os\<close>; the byte
  order of the host is the parameter \<open>b\<close>. Tracing output is left out. Sums and products of C ints wrap around, and a right shift of
  an int keeps the sign, as on every host the code was written for.
\<close>

subsection \<open>Fields of an instruction (instr.h)\<close>

definition i_rd :: "32 word \<Rightarrow> nat" where "i_rd i = unat (drop_bit 11 i AND 0x1f)"
definition i_rt :: "32 word \<Rightarrow> nat" where "i_rt i = unat (drop_bit 16 i AND 0x1f)"
definition i_rs :: "32 word \<Rightarrow> nat" where "i_rs i = unat (drop_bit 21 i AND 0x1f)"
definition shamt :: "32 word \<Rightarrow> nat" where "shamt i = unat (drop_bit 6 i AND 0x1f)"
definition immed :: "32 word \<Rightarrow> 32 word" where
  "immed i = (if i AND 0x8000 \<noteq> 0 then i OR (- 0x8000) else i AND 0x7fff)"

text \<open>The two fields that select the operation.\<close>

definition i_op :: "32 word \<Rightarrow> nat" where "i_op i = unat (drop_bit 26 i AND 0x3f)"
definition i_funct :: "32 word \<Rightarrow> nat" where "i_funct i = unat (i AND 0x3f)"

subsection \<open>Operation codes (encode.h)\<close>

abbreviation I_SPECIAL :: nat where "I_SPECIAL \<equiv> 0"
abbreviation I_BCOND :: nat where "I_BCOND \<equiv> 1"
abbreviation I_J :: nat where "I_J \<equiv> 2"
abbreviation I_JAL :: nat where "I_JAL \<equiv> 3"
abbreviation I_BEQ :: nat where "I_BEQ \<equiv> 4"
abbreviation I_BNE :: nat where "I_BNE \<equiv> 5"
abbreviation I_BLEZ :: nat where "I_BLEZ \<equiv> 6"
abbreviation I_BGTZ :: nat where "I_BGTZ \<equiv> 7"
abbreviation I_ADDI :: nat where "I_ADDI \<equiv> 8"
abbreviation I_ADDIU :: nat where "I_ADDIU \<equiv> 9"
abbreviation I_SLTI :: nat where "I_SLTI \<equiv> 10"
abbreviation I_SLTIU :: nat where "I_SLTIU \<equiv> 11"
abbreviation I_ANDI :: nat where "I_ANDI \<equiv> 12"
abbreviation I_ORI :: nat where "I_ORI \<equiv> 13"
abbreviation I_XORI :: nat where "I_XORI \<equiv> 14"
abbreviation I_LUI :: nat where "I_LUI \<equiv> 15"
definition I_COP :: "nat list" where "I_COP = [16, 17, 18, 19]"
abbreviation I_LB :: nat where "I_LB \<equiv> 32"
abbreviation I_LH :: nat where "I_LH \<equiv> 33"
abbreviation I_LWL :: nat where "I_LWL \<equiv> 34"
abbreviation I_LW :: nat where "I_LW \<equiv> 35"
abbreviation I_LBU :: nat where "I_LBU \<equiv> 36"
abbreviation I_LHU :: nat where "I_LHU \<equiv> 37"
abbreviation I_LWR :: nat where "I_LWR \<equiv> 38"
abbreviation I_SB :: nat where "I_SB \<equiv> 40"
abbreviation I_SH :: nat where "I_SH \<equiv> 41"
abbreviation I_SWL :: nat where "I_SWL \<equiv> 42"
abbreviation I_SW :: nat where "I_SW \<equiv> 43"
abbreviation I_SWR :: nat where "I_SWR \<equiv> 46"
definition I_LWC :: "nat list" where "I_LWC = [48, 49, 50, 51]"
definition I_SWC :: "nat list" where "I_SWC = [56, 57, 58, 59]"

abbreviation I_SLL :: nat where "I_SLL \<equiv> 0"
abbreviation I_SRL :: nat where "I_SRL \<equiv> 2"
abbreviation I_SRA :: nat where "I_SRA \<equiv> 3"
abbreviation I_SLLV :: nat where "I_SLLV \<equiv> 4"
abbreviation I_SRLV :: nat where "I_SRLV \<equiv> 6"
abbreviation I_SRAV :: nat where "I_SRAV \<equiv> 7"
abbreviation I_JR :: nat where "I_JR \<equiv> 8"
abbreviation I_JALR :: nat where "I_JALR \<equiv> 9"
abbreviation I_SYSCALL :: nat where "I_SYSCALL \<equiv> 12"
abbreviation I_BREAK :: nat where "I_BREAK \<equiv> 13"
abbreviation I_MFHI :: nat where "I_MFHI \<equiv> 16"
abbreviation I_MTHI :: nat where "I_MTHI \<equiv> 17"
abbreviation I_MFLO :: nat where "I_MFLO \<equiv> 18"
abbreviation I_MTLO :: nat where "I_MTLO \<equiv> 19"
abbreviation I_MULT :: nat where "I_MULT \<equiv> 24"
abbreviation I_MULTU :: nat where "I_MULTU \<equiv> 25"
abbreviation I_DIV :: nat where "I_DIV \<equiv> 26"
abbreviation I_DIVU :: nat where "I_DIVU \<equiv> 27"
abbreviation I_ADD :: nat where "I_ADD \<equiv> 32"
abbreviation I_ADDU :: nat where "I_ADDU \<equiv> 33"
abbreviation I_SUB :: nat where "I_SUB \<equiv> 34"
abbreviation I_SUBU :: nat where "I_SUBU \<equiv> 35"
abbreviation I_AND :: nat where "I_AND \<equiv> 36"
abbreviation I_OR :: nat where "I_OR \<equiv> 37"
abbreviation I_XOR :: nat where "I_XOR \<equiv> 38"
abbreviation I_NOR :: nat where "I_NOR \<equiv> 39"
abbreviation I_SLT :: nat where "I_SLT \<equiv> 42"
abbreviation I_SLTU :: nat where "I_SLTU \<equiv> 43"

abbreviation I_BLTZ :: nat where "I_BLTZ \<equiv> 0"
abbreviation I_BGEZ :: nat where "I_BGEZ \<equiv> 1"
abbreviation I_BLTZAL :: nat where "I_BLTZAL \<equiv> 16"
abbreviation I_BGEZAL :: nat where "I_BGEZAL \<equiv> 17"

lemmas main_ops = I_COP_def I_LWC_def I_SWC_def

subsection \<open>State and memory (int.h)\<close>

definition MEMSIZE :: nat where "MEMSIZE = 16777216"
definition memoffset :: int where "memoffset = 0x10000000"

text \<open>The calls of the host that system.c makes. Addresses are offsets in \<open>mem\<close>, but those of fstat are passed on as they are.\<close>

datatype hostcall =
    HRead "32 word" int "32 word" | HWrite "32 word" int "32 word" | HOpen int "32 word" "32 word"
  | HLseek "32 word" "32 word" "32 word" | HIoctl "32 word" "32 word" int | HFstat "32 word" "32 word" | HGetpagesize

text \<open>The host: from the calls so far (the latest first), a call and the memory, the value returned and the memory afterwards.\<close>

type_synonym hostsys = "hostcall list \<Rightarrow> hostcall \<Rightarrow> (nat \<Rightarrow> byte) \<Rightarrow> 32 word \<times> (nat \<Rightarrow> byte)"

text \<open>The program counters are local variables of runprogram; \<open>i_calls\<close> is the history of calls of the host.\<close>

record Interp =
  Reg :: "nat \<Rightarrow> 32 word"
  HI :: "32 word"
  LO :: "32 word"
  i_mem :: "nat \<Rightarrow> byte"
  i_pc :: "32 word"
  i_npc :: "32 word"
  i_calls :: "hostcall list"

text \<open>How the program ends: an error of the host, a shift by a count that C leaves undefined, or a call of exit.\<close>

datatype istop = IFault nerr | IUndefined | IExit int

type_synonym 'a ires = "istop + 'a"

definition i_index :: "32 word \<Rightarrow> nat \<Rightarrow> nat ires" where
  "i_index addr sz =
     (let a = sint addr - memoffset in
      if 0 \<le> a \<and> a + int sz \<le> int MEMSIZE then Inr (nat a) else Inl (IFault OutOfBounds))"

definition fetch :: "build \<Rightarrow> 32 word \<Rightarrow> Interp \<Rightarrow> 32 word ires" where
  "fetch b addr s = bind_res (i_index addr 4) (\<lambda>a. Inr (host_get32 b (i_mem s) a))"

definition sfetch :: "build \<Rightarrow> 32 word \<Rightarrow> Interp \<Rightarrow> 32 word ires" where
  "sfetch b addr s = bind_res (i_index addr 2) (\<lambda>a. Inr (scast (host_get16 b (i_mem s) a)))"

definition usfetch :: "build \<Rightarrow> 32 word \<Rightarrow> Interp \<Rightarrow> 32 word ires" where
  "usfetch b addr s = bind_res (i_index addr 2) (\<lambda>a. Inr (ucast (host_get16 b (i_mem s) a)))"

definition cfetch :: "32 word \<Rightarrow> Interp \<Rightarrow> 32 word ires" where
  "cfetch addr s = bind_res (i_index addr 1) (\<lambda>a. Inr (scast (i_mem s a)))"

definition ucfetch :: "32 word \<Rightarrow> Interp \<Rightarrow> 32 word ires" where
  "ucfetch addr s = bind_res (i_index addr 1) (\<lambda>a. Inr (ucast (i_mem s a)))"

definition istore :: "build \<Rightarrow> 32 word \<Rightarrow> 32 word \<Rightarrow> Interp \<Rightarrow> Interp ires" where
  "istore b addr v s = bind_res (i_index addr 4) (\<lambda>a. Inr (s\<lparr>i_mem := host_put32 b (i_mem s) a v\<rparr>))"

definition sstore :: "build \<Rightarrow> 32 word \<Rightarrow> 32 word \<Rightarrow> Interp \<Rightarrow> Interp ires" where
  "sstore b addr v s = bind_res (i_index addr 2) (\<lambda>a. Inr (s\<lparr>i_mem := host_put16 b (i_mem s) a (ucast v)\<rparr>))"

definition cstore :: "32 word \<Rightarrow> 32 word \<Rightarrow> Interp \<Rightarrow> Interp ires" where
  "cstore addr v s = bind_res (i_index addr 1) (\<lambda>a. Inr (s\<lparr>i_mem := (i_mem s)(a := ucast v)\<rparr>))"

subsection \<open>The instructions (execute.c)\<close>

definition put_reg :: "nat \<Rightarrow> 32 word \<Rightarrow> Interp \<Rightarrow> Interp" where
  "put_reg r v s = s\<lparr>Reg := (Reg s)(r := v)\<rparr>"

definition unimplemented :: "Interp ires" where
  "unimplemented = Inl (IExit 2)"

text \<open>A shift by the value of a register, which is not masked.\<close>

definition shift_by :: "32 word \<Rightarrow> (nat \<Rightarrow> 32 word) \<Rightarrow> 32 word ires" where
  "shift_by n f = (if unat n < 32 then Inr (f (unat n)) else Inl IUndefined)"

text \<open>The high word of a product, from products of half words.\<close>

definition high_word :: "32 word \<Rightarrow> 32 word \<Rightarrow> 32 word" where
  "high_word t1 t2 =
     (let t1l = t1 AND 0xffff; t1h = signed_drop_bit 16 t1 AND 0xffff;
          t2l = t2 AND 0xffff; t2h = signed_drop_bit 16 t2 AND 0xffff
      in t1h * t2h + signed_drop_bit 16 (t1h * t2l) + signed_drop_bit 16 (t2h * t1l))"

definition i_mult :: "32 word \<Rightarrow> 32 word \<Rightarrow> 32 word \<times> 32 word" where
  "i_mult x y =
     (let t1 = (if x <s 0 then - x else x); t2 = (if y <s 0 then - y else y);
          neg = ((x <s 0) \<noteq> (y <s 0)); lo = t1 * t2; hi = high_word t1 t2
      in if neg then let l = NOT lo + 1; h = NOT hi in (if l = 0 then h + 1 else h, l) else (hi, lo))"

subsection \<open>System calls (system.c)\<close>

text \<open>The numbers of the calls, as the comments of system.c give them.\<close>

abbreviation SYS_exit :: "32 word" where "SYS_exit \<equiv> 1"
abbreviation SYS_read :: "32 word" where "SYS_read \<equiv> 3"
abbreviation SYS_write :: "32 word" where "SYS_write \<equiv> 4"
abbreviation SYS_open :: "32 word" where "SYS_open \<equiv> 5"
abbreviation SYS_close :: "32 word" where "SYS_close \<equiv> 6"
abbreviation SYS_lseek :: "32 word" where "SYS_lseek \<equiv> 19"
abbreviation SYS_ioctl :: "32 word" where "SYS_ioctl \<equiv> 54"
abbreviation SYS_fstat :: "32 word" where "SYS_fstat \<equiv> 62"
abbreviation SYS_getpagesize :: "32 word" where "SYS_getpagesize \<equiv> 64"

definition u_to_int_addr :: "32 word \<Rightarrow> int" where
  "u_to_int_addr ptr = sint ptr - memoffset"

definition u_to_int_fd :: "32 word \<Rightarrow> 32 word" where
  "u_to_int_fd fd = fd"

definition host_call :: "hostsys \<Rightarrow> hostcall \<Rightarrow> Interp \<Rightarrow> Interp" where
  "host_call os c s = (let (v, m) = os (i_calls s) c (i_mem s) in put_reg 1 v (s\<lparr>i_mem := m, i_calls := c # i_calls s\<rparr>))"

text \<open>The request of an ioctl: one of the group t whose parameter has 8 bytes gets the size 6.\<close>

definition ioctl_request :: "32 word \<Rightarrow> 32 word" where
  "ioctl_request o1 =
     (if drop_bit 8 o1 AND 0xff = 0x74 \<and> drop_bit 16 o1 AND 0x7f = 8 then (o1 AND NOT 0x7f0000) OR 0x60000 else o1)"

definition system_trap :: "hostsys \<Rightarrow> Interp \<Rightarrow> Interp ires" where
  "system_trap os s =
     (let syscallno = Reg s 2; o0 = Reg s 4; o1 = Reg s 5; o2 = Reg s 6 in
      if syscallno = SYS_exit then Inl (IExit 0)
      else if syscallno = SYS_read then Inr (host_call os (HRead (u_to_int_fd o0) (u_to_int_addr o1) o2) s)
      else if syscallno = SYS_write then Inr (host_call os (HWrite (u_to_int_fd o0) (u_to_int_addr o1) o2) s)
      else if syscallno = SYS_open then Inr (host_call os (HOpen (u_to_int_addr o0) o1 o2) s)
      else if syscallno = SYS_close then Inr (put_reg 1 0 s)
      else if syscallno = 17 then Inr (put_reg 1 ((int_div o0 8192 + 1) * 8192) s)
      else if syscallno = SYS_lseek then Inr (host_call os (HLseek (u_to_int_fd o0) o1 o2) s)
      else if syscallno = SYS_ioctl then
        Inr (put_reg 1 0 (host_call os (HIoctl (u_to_int_fd o0) (ioctl_request o1) (u_to_int_addr o2)) s))
      else if syscallno = SYS_fstat then Inr (host_call os (HFstat o1 o2) s)
      else if syscallno = SYS_getpagesize then Inr (host_call os HGetpagesize s)
      else Inl (IExit 2))"

definition system_break :: "hostsys \<Rightarrow> Interp \<Rightarrow> Interp ires" where
  "system_break os s = system_trap os s"

subsection \<open>The switch and the loop of runprogram\<close>

definition i_special :: "hostsys \<Rightarrow> 32 word \<Rightarrow> 32 word \<Rightarrow> Interp \<Rightarrow> Interp ires" where
  "i_special os instr xpc s =
     (let f = i_funct instr; x = Reg s (i_rs instr); y = Reg s (i_rt instr); put = (\<lambda>v. Inr (put_reg (i_rd instr) v s)) in
      if f = I_SLL then put (push_bit (shamt instr) y)
      else if f = I_SRL then put (drop_bit (shamt instr) y)
      else if f = I_SRA then put (signed_drop_bit (shamt instr) y)
      else if f = I_SLLV then bind_res (shift_by x (\<lambda>n. push_bit n y)) put
      else if f = I_SRLV then bind_res (shift_by x (\<lambda>n. drop_bit n y)) put
      else if f = I_SRAV then bind_res (shift_by x (\<lambda>n. signed_drop_bit n y)) put
      else if f = I_JR then Inr (s\<lparr>i_npc := x\<rparr>)
      else if f = I_JALR then Inr (put_reg (i_rd instr) (xpc + 8) (s\<lparr>i_npc := x\<rparr>))
      else if f = I_SYSCALL then system_trap os s
      else if f = I_BREAK then system_break os s
      else if f = I_MFHI then put (HI s)
      else if f = I_MTHI then Inr (s\<lparr>HI := x\<rparr>)
      else if f = I_MFLO then put (LO s)
      else if f = I_MTLO then Inr (s\<lparr>LO := x\<rparr>)
      else if f = I_MULT then (let (hi, lo) = i_mult x y in Inr (s\<lparr>LO := lo, HI := hi\<rparr>))
      else if f = I_MULTU then Inr (s\<lparr>LO := x * y, HI := high_word x y\<rparr>)
      else if f = I_DIV then
        (if y = 0 \<or> x = 0x80000000 \<and> y = -1 then Inl (IFault ArithTrap) else Inr (s\<lparr>LO := int_div x y, HI := int_mod x y\<rparr>))
      else if f = I_DIVU then (if y = 0 then Inl (IFault ArithTrap) else Inr (s\<lparr>LO := x div y, HI := x mod y\<rparr>))
      else if f = I_ADD \<or> f = I_ADDU then put (x + y)
      else if f = I_SUB \<or> f = I_SUBU then put (x - y)
      else if f = I_AND then put (x AND y)
      else if f = I_OR then put (x OR y)
      else if f = I_XOR then put (x XOR y)
      else if f = I_NOR then put (NOT (x OR y))
      else if f = I_SLT then put (if x <s y then 1 else 0)
      else if f = I_SLTU then put (if x < y then 1 else 0)
      else unimplemented)"

definition branch_if :: "bool \<Rightarrow> 32 word \<Rightarrow> 32 word \<Rightarrow> Interp \<Rightarrow> Interp ires" where
  "branch_if c instr xpc s = Inr (if c then s\<lparr>i_npc := xpc + 4 + push_bit 2 (immed instr)\<rparr> else s)"

definition i_bcond :: "32 word \<Rightarrow> 32 word \<Rightarrow> Interp \<Rightarrow> Interp ires" where
  "i_bcond instr xpc s =
     (let f = i_rt instr; linked = put_reg 31 (xpc + 8) s in
      if f = I_BLTZ then branch_if (Reg s (i_rs instr) <s 0) instr xpc s
      else if f = I_BGEZ then branch_if (0 \<le>s Reg s (i_rs instr)) instr xpc s
      else if f = I_BLTZAL then branch_if (Reg linked (i_rs instr) <s 0) instr xpc linked
      else if f = I_BGEZAL then branch_if (0 \<le>s Reg linked (i_rs instr)) instr xpc linked
      else unimplemented)"

definition jump_target :: "32 word \<Rightarrow> 32 word \<Rightarrow> 32 word" where
  "jump_target instr xpc = (xpc AND 0xf0000000) OR push_bit 2 (instr AND 0x03ffffff)"

text \<open>The two loads of parts of a word. The mask of the first one is the constant -1 shifted right as an int.\<close>

definition i_lwl :: "build \<Rightarrow> 32 word \<Rightarrow> Interp \<Rightarrow> Interp ires" where
  "i_lwl b instr s =
     (let i = Reg s (i_rs instr) + immed instr; r = i_rt instr;
          s1 = put_reg r (Reg s r AND signed_drop_bit (8 * unat ((- i) AND 3)) (-1)) s in
      bind_res (fetch b (i AND 0xfffffffc) s1) (\<lambda>v. Inr (put_reg r (Reg s1 r OR push_bit (8 * unat (i AND 3)) v) s1)))"

definition i_lwr :: "build \<Rightarrow> 32 word \<Rightarrow> Interp \<Rightarrow> Interp ires" where
  "i_lwr b instr s =
     (let i = Reg s (i_rs instr) + immed instr; r = i_rt instr;
          s1 = put_reg r (Reg s r AND push_bit (8 * unat (i AND 3)) (-1)) s;
          s2 = (if i AND 3 = 0 then put_reg r 0 s1 else s1) in
      bind_res (fetch b (i AND 0xfffffffc) s2) (\<lambda>v. Inr (put_reg r (Reg s2 r OR signed_drop_bit (8 * unat ((- i) AND 3)) v) s2)))"

definition i_memory :: "build \<Rightarrow> 32 word \<Rightarrow> Interp \<Rightarrow> Interp ires" where
  "i_memory b instr s =
     (let op = i_op instr; a = Reg s (i_rs instr) + immed instr; v = Reg s (i_rt instr); put = (\<lambda>v. Inr (put_reg (i_rt instr) v s)) in
      if op = I_LB then bind_res (cfetch a s) put
      else if op = I_LH then bind_res (sfetch b a s) put
      else if op = I_LWL then i_lwl b instr s
      else if op = I_LW then bind_res (fetch b a s) put
      else if op = I_LBU then bind_res (ucfetch a s) put
      else if op = I_LHU then bind_res (usfetch b a s) put
      else if op = I_LWR then i_lwr b instr s
      else if op = I_SB then cstore a v s
      else if op = I_SH then sstore b a v s
      else if op = I_SWL then unimplemented
      else if op = I_SW then istore b a v s
      else if op = I_SWR then unimplemented
      else if op \<in> set (I_LWC @ I_SWC @ I_COP) then Inl (IExit 2)
      else unimplemented)"

text \<open>The switch on the operation code.\<close>

definition i_switch :: "hostsys \<Rightarrow> build \<Rightarrow> 32 word \<Rightarrow> 32 word \<Rightarrow> Interp \<Rightarrow> Interp ires" where
  "i_switch os b instr xpc s =
     (let op = i_op instr; x = Reg s (i_rs instr); y = Reg s (i_rt instr); im = immed instr; put = (\<lambda>v. Inr (put_reg (i_rt instr) v s)) in
      if op = I_SPECIAL then i_special os instr xpc s
      else if op = I_BCOND then i_bcond instr xpc s
      else if op = I_J then Inr (s\<lparr>i_npc := jump_target instr xpc\<rparr>)
      else if op = I_JAL then Inr ((put_reg 31 (xpc + 8) s)\<lparr>i_npc := jump_target instr xpc\<rparr>)
      else if op = I_BEQ then branch_if (x = y) instr xpc s
      else if op = I_BNE then branch_if (x \<noteq> y) instr xpc s
      else if op = I_BLEZ then branch_if (x \<le>s 0) instr xpc s
      else if op = I_BGTZ then branch_if (0 <s x) instr xpc s
      else if op = I_ADDI then put (x + im)
      else if op = I_ADDIU then put (x + im)
      else if op = I_SLTI then put (if x <s im then 1 else 0)
      else if op = I_SLTIU then put (if x < im then 1 else 0)
      else if op = I_ANDI then put (x AND im)
      else if op = I_ORI then put (x OR im)
      else if op = I_XORI then put (x XOR im)
      else if op = I_LUI then put (push_bit 16 instr)
      else i_memory b instr s)"

text \<open>One round of the loop of runprogram, with the instruction that was fetched.\<close>

definition i_round :: "hostsys \<Rightarrow> build \<Rightarrow> 32 word \<Rightarrow> Interp \<Rightarrow> Interp ires" where
  "i_round os b instr s =
     (let xpc = i_pc s; s1 = put_reg 0 0 (s\<lparr>i_pc := i_npc s, i_npc := i_npc s + 4\<rparr>) in
      if instr \<noteq> 0 then i_switch os b instr xpc s1 else Inr s1)"

definition i_step :: "hostsys \<Rightarrow> build \<Rightarrow> Interp \<Rightarrow> Interp ires" where
  "i_step os b s = bind_res (fetch b (i_pc s) s) (\<lambda>instr. i_round os b instr s)"

text \<open>What runprogram does before the loop: stack pointer, argument count, argument strings and their addresses.\<close>

definition copy_string :: "32 word \<Rightarrow> byte list \<Rightarrow> Interp \<Rightarrow> Interp ires" where
  "copy_string addr str s =
     bind_res (i_index addr (length str + 1)) (\<lambda>a.
     Inr (s\<lparr>i_mem := (\<lambda>i. if a \<le> i \<and> i < a + length str + 1 then (str @ [0]) ! (i - a) else i_mem s i)\<rparr>))"

fun put_args :: "build \<Rightarrow> byte list list \<Rightarrow> 32 word \<Rightarrow> 32 word \<Rightarrow> Interp \<Rightarrow> Interp ires" where
  "put_args b [] aci ai s = Inr s"
| "put_args b (str # argv) aci ai s =
     bind_res (copy_string ai str s) (\<lambda>s1.
     bind_res (istore b aci ai s1) (\<lambda>s2. put_args b argv (aci + 4) (ai + of_nat (length str) + 1) s2))"

definition i_start :: "build \<Rightarrow> 32 word \<Rightarrow> byte list list \<Rightarrow> Interp \<Rightarrow> Interp ires" where
  "i_start b startpc argv s =
     (let i = word_of_int (int MEMSIZE - 1024 + memoffset); s1 = put_reg 29 i (s\<lparr>i_pc := startpc, i_npc := startpc + 4\<rparr>) in
      bind_res (istore b i (of_nat (length argv)) s1) (\<lambda>s2. put_args b argv (i + 4) (i + 4 + 32) s2))"

text \<open>The loop has no end of its own; \<open>n\<close> counts its rounds.\<close>

fun i_rounds :: "hostsys \<Rightarrow> build \<Rightarrow> nat \<Rightarrow> Interp \<Rightarrow> Interp ires" where
  "i_rounds os b 0 s = Inr s"
| "i_rounds os b (Suc n) s = bind_res (i_step os b s) (i_rounds os b n)"

definition runprogram :: "hostsys \<Rightarrow> build \<Rightarrow> nat \<Rightarrow> 32 word \<Rightarrow> byte list list \<Rightarrow> Interp \<Rightarrow> Interp ires" where
  "runprogram os b n startpc argv s = bind_res (i_start b startpc argv s) (i_rounds os b n)"

definition ilog2_step :: "32 word \<Rightarrow> nat \<Rightarrow> 32 word \<times> nat \<Rightarrow> 32 word \<times> nat" where
  "ilog2_step hi n = (\<lambda>(i, l). let j = i AND hi in if j \<noteq> 0 then (j, l + n) else (i, l))"

definition ilog2 :: "32 word \<Rightarrow> nat" where
  "ilog2 i =
     (if i = 0 then 0
      else snd (ilog2_step 0xaaaaaaaa 1 (ilog2_step 0xcccccccc 2 (ilog2_step 0xf0f0f0f0 4 (ilog2_step 0xff00ff00 8
        (ilog2_step 0xffff0000 16 (i, 1)))))))"

subsection \<open>The two decoders\<close>

lemma field_bounds [simp]: "i_rd w < 32" "i_rt w < 32" "i_rs w < 32" "shamt w < 32" "i_op w < 64" "i_funct w < 64"
proof -
  have m: "unat (x AND 0x1f :: 32 word) < 32" "unat (x AND 0x3f :: 32 word) < 64" for x
    using word_and_le1 [of x "0x1f"] word_and_le1 [of x "0x3f"] by (simp_all add: word_le_nat_alt)
  show "i_rd w < 32" "i_rt w < 32" "i_rs w < 32" "shamt w < 32" "i_op w < 64" "i_funct w < 64"
    using m by (simp_all add: i_rd_def i_rt_def i_rs_def shamt_def i_op_def i_funct_def)
qed

lemma decode_fields [simp]: "rs (Decode w) = i_rs w" "rt (Decode w) = i_rt w" "rd (Decode w) = i_rd w"
  by (simp_all add: Decode_def i_rs_def i_rt_def i_rd_def Let_def split_beta)

lemma bit_low_mask: "bit (0xffff :: 32 word) n \<longleftrightarrow> n < 16" "bit (0x7fff :: 32 word) n \<longleftrightarrow> n < 15"
proof -
  have m: "(0xffff :: 32 word) = mask 16" "(0x7fff :: 32 word) = mask 15" by (simp_all add: mask_eq_exp_minus_1)
  show "bit (0xffff :: 32 word) n \<longleftrightarrow> n < 16" "bit (0x7fff :: 32 word) n \<longleftrightarrow> n < 15" unfolding m by (auto simp only: bit_mask_iff possible_bit_word) simp_all
qed

lemma and_half: "(w :: 32 word) AND 0x8000 \<noteq> 0 \<longleftrightarrow> bit w 15"
proof -
  have "(0x8000 :: 32 word) = push_bit 15 1" by simp
  then show ?thesis by (metis and_exp_eq_0_iff_not_bit push_bit_of_1)
qed

lemma extend_immed: "(let e = w AND 0xffff in if e AND 0x8000 \<noteq> 0 then e OR 0xffff0000 else e) = immed w"
proof -
  have s: "(0xffff0000 :: 32 word) = NOT 0xffff" "(- 0x8000 :: 32 word) = NOT 0x7fff" by simp_all
  have e: "bit (w AND 0xffff) 15 = bit w 15" by (simp only: bit_and_iff bit_low_mask) simp
  have m: "n < 16 \<longleftrightarrow> n < 15 \<or> n = 15" for n :: nat by auto
  show ?thesis unfolding immed_def Let_def and_half e s
    by (rule bit_word_eqI) (auto simp only: bit_or_iff bit_and_iff bit_not_iff bit_low_mask m possible_bit_word split: if_splits)
qed

lemma decode_special:
  assumes "i_op w = 0"
  shows "opCode (Decode w) = specialTable ! i_funct w" "extra (Decode w) = of_nat (shamt w)"
  using assms by (simp_all add: Decode_def i_op_def i_funct_def shamt_def Let_def split_beta opTable_def op_defs)

lemma decode_jump:
  assumes "i_op w = 2 \<or> i_op w = 3"
  shows "opCode (Decode w) = (if i_op w = 2 then OP_J else OP_JAL)" "extra (Decode w) = w AND 0x3ffffff"
  using assms by (auto simp: Decode_def i_op_def Let_def split_beta opTable_def op_defs)

lemma decode_imm:
  assumes "i_op w = k" "4 \<le> k" "k < 16"
  shows "opCode (Decode w) = fst (opTable ! k)" "extra (Decode w) = immed w"
proof -
  have "k \<in> {4, 5, 6, 7, 8, 9, 10, 11, 12, 13, 14, 15}" using assms(2,3) by (simp, presburger)
  then have "snd (opTable ! k) = IFMT" "fst (opTable ! k) \<noteq> SPECIAL" "fst (opTable ! k) \<noteq> BCOND" by (auto simp: opTable_def op_defs)
  then show "opCode (Decode w) = fst (opTable ! k)" "extra (Decode w) = immed w"
    using assms(1) extend_immed [of w] by (simp_all add: Decode_def i_op_def Let_def split_beta)
qed

lemma rt_field: "(w :: 32 word) AND 0x1f0000 = push_bit 16 (drop_bit 16 w AND 0x1f)"
proof -
  have "(0x1f0000 :: 32 word) = push_bit 16 0x1f" by simp
  then show ?thesis by (simp only: push_bit_and) (rule bit_word_eqI, auto simp only: bit_and_iff bit_push_bit_iff bit_drop_bit_eq possible_bit_word comp_def le_add_diff_inverse)
qed

lemma rt_field_eq: "w AND 0x1f0000 = of_nat (i_rt w * 65536)"
  unfolding rt_field i_rt_def by (simp add: push_bit_eq_mult)

lemma decode_bcond:
  assumes "i_op w = 1"
  shows "extra (Decode w) = immed w" "i_rt w = 0 \<Longrightarrow> opCode (Decode w) = OP_BLTZ" "i_rt w = 1 \<Longrightarrow> opCode (Decode w) = OP_BGEZ"
    "i_rt w = 16 \<Longrightarrow> opCode (Decode w) = OP_BLTZAL" "i_rt w = 17 \<Longrightarrow> opCode (Decode w) = OP_BGEZAL"
proof -
  have o: "opTable ! unat (drop_bit 26 w AND 0x3f) = (BCOND, IFMT)" using assms by (simp add: i_op_def opTable_def)
  show "extra (Decode w) = immed w" "i_rt w = 0 \<Longrightarrow> opCode (Decode w) = OP_BLTZ" "i_rt w = 1 \<Longrightarrow> opCode (Decode w) = OP_BGEZ"
    "i_rt w = 16 \<Longrightarrow> opCode (Decode w) = OP_BLTZAL" "i_rt w = 17 \<Longrightarrow> opCode (Decode w) = OP_BGEZAL"
    using extend_immed [of w] by (simp_all add: Decode_def o Let_def rt_field_eq op_defs)
qed

subsection \<open>States that agree\<close>

text \<open>Between instructions: the same registers and program counters, and no load pending in the simulator. The interpreter clears
  register 0 only when the next instruction starts.\<close>

definition same_state :: "Interp \<Rightarrow> Machine \<Rightarrow> bool" where
  "same_state s m \<longleftrightarrow> (\<forall>i. 0 < i \<and> i < 32 \<longrightarrow> Reg s i = registers m i) \<and> registers m 0 = 0 \<and>
     HI s = registers m HiReg \<and> LO s = registers m LoReg \<and> i_pc s = registers m PCReg \<and> i_npc s = registers m NextPCReg \<and>
     registers m LoadReg = 0"

text \<open>Inside an instruction: the interpreter has advanced its program counters already.\<close>

definition at_instr :: "Interp \<Rightarrow> Machine \<Rightarrow> bool" where
  "at_instr s m \<longleftrightarrow> (\<forall>i < 32. Reg s i = registers m i) \<and> HI s = registers m HiReg \<and> LO s = registers m LoReg \<and>
     i_pc s = registers m NextPCReg \<and> i_npc s = registers m NextPCReg + 4 \<and> registers m LoadReg = 0"

definition after_instr :: "Interp \<Rightarrow> Machine \<Rightarrow> 32 word \<Rightarrow> bool" where
  "after_instr s m pc \<longleftrightarrow> (\<forall>i. 0 < i \<and> i < 32 \<longrightarrow> Reg s i = registers m i) \<and> HI s = registers m HiReg \<and> LO s = registers m LoReg \<and>
     i_pc s = registers m NextPCReg \<and> i_npc s = pc \<and> registers m LoadReg = 0"

lemma put_reg_simps [simp]:
  "Reg (put_reg r v s) i = (if i = r then v else Reg s i)" "HI (put_reg r v s) = HI s" "LO (put_reg r v s) = LO s"
  "i_mem (put_reg r v s) = i_mem s" "i_pc (put_reg r v s) = i_pc s" "i_npc (put_reg r v s) = i_npc s"
  by (simp_all add: put_reg_def)

lemma at_instr_reg: "at_instr s m \<Longrightarrow> i < 32 \<Longrightarrow> Reg s i = registers m i"
  by (simp add: at_instr_def)

lemma at_start: "same_state s m \<Longrightarrow> at_instr (put_reg 0 0 (s\<lparr>i_pc := i_npc s, i_npc := i_npc s + 4\<rparr>)) m"
  by (auto simp: same_state_def at_instr_def)

lemma finish_same:
  assumes "after_instr s m pc"
  shows "\<exists>m'. finish_instruction (Continue m pc 0 0) = Inr m' \<and> same_state s m' \<and> mainMemory m' = mainMemory m"
proof -
  have l: "registers m LoadReg = 0" using assms by (simp add: after_instr_def)
  have "DelayedLoad 0 0 m = Inr (set_reg 0 0 (set_reg LoadValueReg 0 (set_reg LoadReg 0 (set_reg 0 (registers m LoadValueReg) m))))"
    using DelayedLoad_ok [of m 0 0] l by (simp add: NumTotalRegs_def)
  then show ?thesis using assms by (simp add: finish_instruction_def advance_def after_instr_def same_state_def reg_defs)
qed

text \<open>What one round of both does with the instruction \<open>w\<close>.\<close>

definition round_ok :: "hostsys \<Rightarrow> build \<Rightarrow> 32 word \<Rightarrow> Interp \<Rightarrow> Machine \<Rightarrow> bool" where
  "round_ok sys b w s m \<longleftrightarrow> (\<exists>s' m1 pc. i_switch sys b w (registers m PCReg) s = Inr s' \<and>
     execute b (Decode w) (registers m NextPCReg + 4) m = go m1 pc \<and> after_instr s' m1 pc \<and> i_mem s' = i_mem s \<and> mainMemory m1 = mainMemory m)"

lemma round_okI:
  "i_switch sys b w (registers m PCReg) s = Inr s' \<Longrightarrow> execute b (Decode w) (registers m NextPCReg + 4) m = go mm pc \<Longrightarrow> after_instr s' mm pc \<Longrightarrow>
   i_mem s' = i_mem s \<Longrightarrow> mainMemory mm = mainMemory m \<Longrightarrow> round_ok sys b w s m"
  unfolding round_ok_def by blast

lemma round_put:
  assumes "i_switch sys b w (registers m PCReg) s = Inr (put_reg r v s)" "execute b (Decode w) (registers m NextPCReg + 4) m = go (set_reg r v m) (registers m NextPCReg + 4)"
    "at_instr s m" "r < 32"
  shows "round_ok sys b w s m"
proof -
  have "after_instr (put_reg r v s) (set_reg r v m) (registers m NextPCReg + 4)"
    using assms(3,4) by (simp add: after_instr_def at_instr_def reg_defs)
  then show ?thesis by (rule round_okI [OF assms(1,2)]) simp_all
qed

lemma round_jump:
  assumes "i_switch sys b w (registers m PCReg) s = Inr (s\<lparr>i_npc := t\<rparr>)" "execute b (Decode w) (registers m NextPCReg + 4) m = go m t" "at_instr s m"
  shows "round_ok sys b w s m"
proof -
  have "after_instr (s\<lparr>i_npc := t\<rparr>) m t" using assms(3) by (simp add: after_instr_def at_instr_def)
  then show ?thesis by (rule round_okI [OF assms(1,2)]) simp_all
qed

lemma round_link:
  assumes "i_switch sys b w (registers m PCReg) s = Inr ((put_reg r v s)\<lparr>i_npc := t\<rparr>)" "execute b (Decode w) (registers m NextPCReg + 4) m = go (set_reg r v m) t"
    "at_instr s m" "r < 32"
  shows "round_ok sys b w s m"
proof -
  have "after_instr ((put_reg r v s)\<lparr>i_npc := t\<rparr>) (set_reg r v m) t" using assms(3,4) by (simp add: after_instr_def at_instr_def reg_defs)
  then show ?thesis by (rule round_okI [OF assms(1,2)]) simp_all
qed

lemma round_hilo:
  assumes "i_switch sys b w (registers m PCReg) s = Inr (s\<lparr>LO := lo, HI := hi\<rparr>)"
    "execute b (Decode w) (registers m NextPCReg + 4) m = go (set_reg HiReg hi (set_reg LoReg lo m)) (registers m NextPCReg + 4)" "at_instr s m"
  shows "round_ok sys b w s m"
proof -
  have "after_instr (s\<lparr>LO := lo, HI := hi\<rparr>) (set_reg HiReg hi (set_reg LoReg lo m)) (registers m NextPCReg + 4)"
    using assms(3) by (simp add: after_instr_def at_instr_def reg_defs)
  then show ?thesis by (rule round_okI [OF assms(1,2)]) simp_all
qed

lemma execute_op: "map_of op_switch (opCode i) = Some f \<Longrightarrow> execute b i pc m = f b i pc m"
  by (simp add: execute_def)

subsection \<open>Instruction by instruction\<close>

lemma special_execute:
  assumes "i_op w = 0" "i_funct w = k" "map_of op_switch (specialTable ! k) = Some f"
  shows "execute b (Decode w) pc m = f b (Decode w) pc m" "extra (Decode w) = of_nat (shamt w)"
  using assms decode_special [OF assms(1)] by (simp_all add: execute_op)

lemma special_put:
  assumes "i_op w = 0" "i_funct w = k" "map_of op_switch (specialTable ! k) = Some f" "at_instr s m"
    "i_special sys w (registers m PCReg) s = Inr (put_reg (i_rd w) v s)"
    "f b (Decode w) (registers m NextPCReg + 4) m = go (set_reg (i_rd w) v m) (registers m NextPCReg + 4)"
  shows "round_ok sys b w s m"
  by (rule round_put [where r = "i_rd w" and v = v, OF _ _ assms(4)]) (use assms special_execute [OF assms(1-3)] in \<open>simp_all add: i_switch_def\<close>)

lemmas spec_simps = specialTable_def op_switch_def op_defs i_special_def

lemma unat_shamt: "unat (of_nat (shamt w) :: 32 word) = shamt w"
  using field_bounds(4) [of w] less_trans [of "shamt w" 32 4294967296] by (simp add: unat_of_nat)

lemma low_mask_id: "unat (x :: 32 word) < 32 \<Longrightarrow> x AND 0x1f = x"
proof -
  assume x: "unat x < 32"
  have m: "(0x1f :: 32 word) = mask 5" by (simp add: mask_eq_exp_minus_1)
  have "x AND 0x1f = take_bit 5 x" unfolding m by (simp only: take_bit_eq_mask)
  also have "\<dots> = x" using x by (simp add: word_unat_eq_iff unsigned_take_bit_eq take_bit_nat_eq_self)
  finally show ?thesis .
qed

lemma at_instr_hilo: "at_instr s m \<Longrightarrow> HI s = registers m HiReg" "at_instr s m \<Longrightarrow> LO s = registers m LoReg"
  by (simp_all add: at_instr_def)

lemma or_absorb: "y AND NOT x = 0 \<Longrightarrow> x OR y = (x :: 32 word)"
  by (metis bit.disj_conj_distrib bit.disj_cancel_right bit.conj_one_right bit.disj_zero_right or.commute)

lemma no_overflow:
  "in_int32 (sint (registers m (rs i)) + sint (registers m (rt i))) \<Longrightarrow> do_ADD b i pc m = go (set_reg (rd i) (registers m (rs i) + registers m (rt i)) m) pc"
  "in_int32 (sint (registers m (rs i)) - sint (registers m (rt i))) \<Longrightarrow> do_SUB b i pc m = go (set_reg (rd i) (registers m (rs i) - registers m (rt i)) m) pc"
  unfolding do_ADD_def do_SUB_def Let_def add_overflow sub_overflow by simp_all

lemma no_overflow_imm:
  assumes "in_int32 (sint (registers m (rs i)) + sint (extra i))"
  shows "do_ADDI b i pc m = go (set_reg (rt i) (registers m (rs i) + extra i) m) pc"
  using add_overflow [of "extra i" "registers m (rs i)"] assms unfolding do_ADDI_def Let_def
  by (auto simp: add.commute [of "sint (extra i)"] add.commute [of "extra i"] xor.commute [of "extra i" "registers m (rs i)"])

lemma round_SLL:
  assumes "i_op w = 0" "i_funct w = I_SLL" "at_instr s m" 
  shows "round_ok sys b w s m"
  by (rule special_put [OF assms(1,2) _ assms(3), where v = "push_bit (shamt w) (registers m (i_rt w))" and f = do_SLL])
    (use assms decode_special(2) [OF assms(1)]  in \<open>simp_all add: spec_simps do_SLL_def at_instr_reg unat_shamt\<close>)

lemma round_SRA:
  assumes "i_op w = 0" "i_funct w = I_SRA" "at_instr s m" 
  shows "round_ok sys b w s m"
  by (rule special_put [OF assms(1,2) _ assms(3), where v = "signed_drop_bit (shamt w) (registers m (i_rt w))" and f = do_SRA])
    (use assms decode_special(2) [OF assms(1)]  in \<open>simp_all add: spec_simps do_SRA_def at_instr_reg unat_shamt\<close>)

lemma round_SRL:
  assumes "i_op w = 0" "i_funct w = I_SRL" "at_instr s m" "shamt w = 0 \<or> \<not> bit (registers m (i_rt w)) 31"
  shows "round_ok sys b w s m"
  by (rule special_put [OF assms(1,2) _ assms(3), where v = "drop_bit (shamt w) (registers m (i_rt w))" and f = do_SRL])
    (use assms decode_special(2) [OF assms(1)] signed_drop_bit_logical [OF field_bounds(4), of w "registers m (i_rt w)"] in \<open>simp_all add: spec_simps do_SRL_def at_instr_reg unat_shamt\<close>)

lemma round_SLLV:
  assumes "i_op w = 0" "i_funct w = I_SLLV" "at_instr s m" "unat (registers m (i_rs w)) < 32"
  shows "round_ok sys b w s m"
  by (rule special_put [OF assms(1,2) _ assms(3), where v = "push_bit (unat (registers m (i_rs w))) (registers m (i_rt w))" and f = do_SLLV])
    (use assms low_mask_id [OF assms(4)] in \<open>simp_all add: spec_simps do_SLLV_def at_instr_reg shift_by_def\<close>)

lemma round_SRAV:
  assumes "i_op w = 0" "i_funct w = I_SRAV" "at_instr s m" "unat (registers m (i_rs w)) < 32"
  shows "round_ok sys b w s m"
  by (rule special_put [OF assms(1,2) _ assms(3), where v = "signed_drop_bit (unat (registers m (i_rs w))) (registers m (i_rt w))" and f = do_SRAV])
    (use assms low_mask_id [OF assms(4)] in \<open>simp_all add: spec_simps do_SRAV_def at_instr_reg shift_by_def\<close>)

lemma round_SRLV:
  assumes "i_op w = 0" "i_funct w = I_SRLV" "at_instr s m" "unat (registers m (i_rs w)) < 32" "unat (registers m (i_rs w)) = 0 \<or> \<not> bit (registers m (i_rt w)) 31"
  shows "round_ok sys b w s m"
  by (rule special_put [OF assms(1,2) _ assms(3), where v = "drop_bit (unat (registers m (i_rs w))) (registers m (i_rt w))" and f = do_SRLV])
    (use assms low_mask_id [OF assms(4)] signed_drop_bit_logical [OF assms(4), of "registers m (i_rt w)"] in \<open>simp_all add: spec_simps do_SRLV_def at_instr_reg shift_by_def\<close>)

lemma round_MFHI:
  assumes "i_op w = 0" "i_funct w = I_MFHI" "at_instr s m" 
  shows "round_ok sys b w s m"
  by (rule special_put [OF assms(1,2) _ assms(3), where v = "registers m HiReg" and f = do_MFHI])
    (use assms  in \<open>simp_all add: spec_simps do_MFHI_def at_instr_reg at_instr_hilo\<close>)

lemma round_MFLO:
  assumes "i_op w = 0" "i_funct w = I_MFLO" "at_instr s m" 
  shows "round_ok sys b w s m"
  by (rule special_put [OF assms(1,2) _ assms(3), where v = "registers m LoReg" and f = do_MFLO])
    (use assms  in \<open>simp_all add: spec_simps do_MFLO_def at_instr_reg at_instr_hilo\<close>)

lemma round_ADDU:
  assumes "i_op w = 0" "i_funct w = I_ADDU" "at_instr s m" 
  shows "round_ok sys b w s m"
  by (rule special_put [OF assms(1,2) _ assms(3), where v = "registers m (i_rs w) + registers m (i_rt w)" and f = do_ADDU])
    (use assms  in \<open>simp_all add: spec_simps do_ADDU_def at_instr_reg \<close>)

lemma round_SUBU:
  assumes "i_op w = 0" "i_funct w = I_SUBU" "at_instr s m" 
  shows "round_ok sys b w s m"
  by (rule special_put [OF assms(1,2) _ assms(3), where v = "registers m (i_rs w) - registers m (i_rt w)" and f = do_SUBU])
    (use assms  in \<open>simp_all add: spec_simps do_SUBU_def at_instr_reg \<close>)

lemma round_AND:
  assumes "i_op w = 0" "i_funct w = I_AND" "at_instr s m" 
  shows "round_ok sys b w s m"
  by (rule special_put [OF assms(1,2) _ assms(3), where v = "registers m (i_rs w) AND registers m (i_rt w)" and f = do_AND])
    (use assms  in \<open>simp_all add: spec_simps do_AND_def at_instr_reg \<close>)

lemma round_XOR:
  assumes "i_op w = 0" "i_funct w = I_XOR" "at_instr s m" 
  shows "round_ok sys b w s m"
  by (rule special_put [OF assms(1,2) _ assms(3), where v = "registers m (i_rs w) XOR registers m (i_rt w)" and f = do_XOR])
    (use assms  in \<open>simp_all add: spec_simps do_XOR_def at_instr_reg \<close>)

lemma round_NOR:
  assumes "i_op w = 0" "i_funct w = I_NOR" "at_instr s m" 
  shows "round_ok sys b w s m"
  by (rule special_put [OF assms(1,2) _ assms(3), where v = "NOT (registers m (i_rs w) OR registers m (i_rt w))" and f = do_NOR])
    (use assms  in \<open>simp_all add: spec_simps do_NOR_def at_instr_reg \<close>)

lemma round_SLT:
  assumes "i_op w = 0" "i_funct w = I_SLT" "at_instr s m" 
  shows "round_ok sys b w s m"
  by (rule special_put [OF assms(1,2) _ assms(3), where v = "if registers m (i_rs w) <s registers m (i_rt w) then 1 else 0" and f = do_SLT])
    (use assms  in \<open>simp_all add: spec_simps do_SLT_def at_instr_reg \<close>)

lemma round_SLTU:
  assumes "i_op w = 0" "i_funct w = I_SLTU" "at_instr s m" 
  shows "round_ok sys b w s m"
  by (rule special_put [OF assms(1,2) _ assms(3), where v = "if registers m (i_rs w) < registers m (i_rt w) then 1 else 0" and f = do_SLTU])
    (use assms  in \<open>simp_all add: spec_simps do_SLTU_def at_instr_reg \<close>)

lemma round_ADD:
  assumes "i_op w = 0" "i_funct w = I_ADD" "at_instr s m" "in_int32 (sint (registers m (i_rs w)) + sint (registers m (i_rt w)))"
  shows "round_ok sys b w s m"
  by (rule special_put [OF assms(1,2) _ assms(3), where v = "registers m (i_rs w) + registers m (i_rt w)" and f = do_ADD])
    (use assms in \<open>simp_all add: spec_simps no_overflow at_instr_reg \<close>)

lemma round_SUB:
  assumes "i_op w = 0" "i_funct w = I_SUB" "at_instr s m" "in_int32 (sint (registers m (i_rs w)) - sint (registers m (i_rt w)))"
  shows "round_ok sys b w s m"
  by (rule special_put [OF assms(1,2) _ assms(3), where v = "registers m (i_rs w) - registers m (i_rt w)" and f = do_SUB])
    (use assms in \<open>simp_all add: spec_simps no_overflow at_instr_reg \<close>)

lemma round_OR:
  assumes "i_op w = 0" "i_funct w = I_OR" "at_instr s m" "registers m (i_rt w) AND NOT (registers m (i_rs w)) = 0"
  shows "round_ok sys b w s m"
  by (rule special_put [OF assms(1,2) _ assms(3), where v = "registers m (i_rs w) OR registers m (i_rt w)" and f = do_OR])
    (use assms or_absorb [OF assms(4)] in \<open>simp_all add: spec_simps do_OR_def at_instr_reg \<close>)


lemma round_JR:
  assumes "i_op w = 0" "i_funct w = I_JR" "at_instr s m"
  shows "round_ok sys b w s m"
  by (rule round_jump [where t = "registers m (i_rs w)", OF _ _ assms(3)])
    (use assms special_execute(1) [of w 8 do_JR] in \<open>simp_all add: i_switch_def spec_simps do_JR_def at_instr_reg\<close>)

lemma round_JALR:
  assumes "i_op w = 0" "i_funct w = I_JALR" "at_instr s m" "registers m NextPCReg = registers m PCReg + 4" "i_rd w \<noteq> i_rs w"
  shows "round_ok sys b w s m"
  by (rule round_link [where r = "i_rd w" and v = "registers m PCReg + 8" and t = "registers m (i_rs w)", OF _ _ assms(3)])
    (use assms special_execute(1) [of w 9 do_JALR] in \<open>simp_all add: i_switch_def spec_simps do_JALR_def do_JR_def at_instr_reg put_reg_def add.commute [of 8]\<close>)

lemma round_MTHI:
  assumes "i_op w = 0" "i_funct w = I_MTHI" "at_instr s m"
  shows "round_ok sys b w s m"
  by (rule round_okI [where s' = "s\<lparr>HI := registers m (i_rs w)\<rparr>" and mm = "set_reg HiReg (registers m (i_rs w)) m" and pc = "registers m NextPCReg + 4"])
    (use assms special_execute(1) [of w 17 do_MTHI] in \<open>simp_all add: i_switch_def spec_simps do_MTHI_def at_instr_def after_instr_def reg_defs\<close>)

lemma round_MTLO:
  assumes "i_op w = 0" "i_funct w = I_MTLO" "at_instr s m"
  shows "round_ok sys b w s m"
  by (rule round_okI [where s' = "s\<lparr>LO := registers m (i_rs w)\<rparr>" and mm = "set_reg LoReg (registers m (i_rs w)) m" and pc = "registers m NextPCReg + 4"])
    (use assms special_execute(1) [of w 19 do_MTLO] in \<open>simp_all add: i_switch_def spec_simps do_MTLO_def at_instr_def after_instr_def reg_defs\<close>)

lemma round_DIV:
  assumes "i_op w = 0" "i_funct w = I_DIV" "at_instr s m" "registers m (i_rt w) \<noteq> 0" "\<not> (registers m (i_rs w) = 0x80000000 \<and> registers m (i_rt w) = -1)"
  shows "round_ok sys b w s m"
  by (rule round_hilo [where hi = "int_mod (registers m (i_rs w)) (registers m (i_rt w))" and lo = "int_div (registers m (i_rs w)) (registers m (i_rt w))", OF _ _ assms(3)])
    (use assms special_execute(1) [of w 26 do_DIV] in \<open>simp_all add: i_switch_def spec_simps do_DIV_def at_instr_reg Let_def if_not_P [OF assms(5)]\<close>)

lemma round_DIVU:
  assumes "i_op w = 0" "i_funct w = I_DIVU" "at_instr s m" "registers m (i_rt w) \<noteq> 0"
  shows "round_ok sys b w s m"
  by (rule round_hilo [where hi = "registers m (i_rs w) mod registers m (i_rt w)" and lo = "registers m (i_rs w) div registers m (i_rt w)", OF _ _ assms(3)])
    (use assms special_execute(1) [of w 27 do_DIVU] in \<open>simp_all add: i_switch_def spec_simps do_DIVU_def at_instr_reg Let_def\<close>)

lemma imm_execute:
  assumes "i_op w = k" "4 \<le> k" "k < 16" "map_of op_switch (fst (opTable ! k)) = Some f"
  shows "execute b (Decode w) pc m = f b (Decode w) pc m" "extra (Decode w) = immed w"
  using assms decode_imm [OF assms(1-3)] by (simp_all add: execute_op)

lemma imm_put:
  assumes "i_op w = k" "4 \<le> k" "k < 16" "map_of op_switch (fst (opTable ! k)) = Some f" "at_instr s m"
    "i_switch sys b w (registers m PCReg) s = Inr (put_reg (i_rt w) v s)"
    "f b (Decode w) (registers m NextPCReg + 4) m = go (set_reg (i_rt w) v m) (registers m NextPCReg + 4)"
  shows "round_ok sys b w s m"
  by (rule round_put [OF assms(6) _ assms(5)]) (simp_all add: imm_execute(1) [OF assms(1-4)] assms(7))

lemmas imm_simps = main_ops opTable_def op_switch_def op_defs i_switch_def

lemma immed_low: "\<not> bit w 15 \<Longrightarrow> immed w AND 0xffff = immed w"
proof (rule bit_word_eqI)
  fix n assume "\<not> bit w 15" "n < LENGTH(32)"
  then have "immed w = w AND 0x7fff" by (simp add: immed_def and_half)
  then show "bit (immed w AND 0xffff) n = bit (immed w) n" by (simp only: bit_and_iff bit_low_mask) auto
qed

lemma immed_upper: "push_bit 16 (immed w) = push_bit 16 w"
proof (rule bit_word_eqI)
  fix n assume n: "n < LENGTH(32)"
  have s: "(- 0x8000 :: 32 word) = NOT 0x7fff" by simp
  have "bit (immed w) (n - 16) = bit w (n - 16)" if "16 \<le> n"
  proof (cases "n = 31")
    case True
    then show ?thesis unfolding immed_def and_half s by (auto simp only: bit_or_iff bit_and_iff bit_not_iff bit_low_mask possible_bit_word split: if_splits) simp_all
  next
    case False
    then have "n - 16 < 15" using n that by simp
    then show ?thesis unfolding immed_def and_half s by (auto simp only: bit_or_iff bit_and_iff bit_not_iff bit_low_mask possible_bit_word split: if_splits)
  qed
  then show "bit (push_bit 16 (immed w)) n = bit (push_bit 16 w) n" using n by (auto simp: bit_push_bit_iff)
qed

lemma round_ADDIU:
  assumes "i_op w = I_ADDIU" "at_instr s m" 
  shows "round_ok sys b w s m"
  by (rule imm_put [where k = 9 and v = "registers m (i_rs w) + immed w" and f = do_ADDIU])
    (use assms decode_imm(2) [of w 9]  in \<open>simp_all add: imm_simps do_ADDIU_def at_instr_reg \<close>)

lemma round_ADDI:
  assumes "i_op w = I_ADDI" "at_instr s m" "in_int32 (sint (registers m (i_rs w)) + sint (immed w))"
  shows "round_ok sys b w s m"
  by (rule imm_put [where k = 8 and v = "registers m (i_rs w) + immed w" and f = do_ADDI])
    (use assms decode_imm(2) [of w 8]  in \<open>simp_all add: imm_simps  at_instr_reg no_overflow_imm\<close>)

lemma round_SLTI:
  assumes "i_op w = I_SLTI" "at_instr s m" 
  shows "round_ok sys b w s m"
  by (rule imm_put [where k = 10 and v = "if registers m (i_rs w) <s immed w then 1 else 0" and f = do_SLTI])
    (use assms decode_imm(2) [of w 10]  in \<open>simp_all add: imm_simps do_SLTI_def at_instr_reg \<close>)

lemma round_SLTIU:
  assumes "i_op w = I_SLTIU" "at_instr s m" 
  shows "round_ok sys b w s m"
  by (rule imm_put [where k = 11 and v = "if registers m (i_rs w) < immed w then 1 else 0" and f = do_SLTIU])
    (use assms decode_imm(2) [of w 11]  in \<open>simp_all add: imm_simps do_SLTIU_def at_instr_reg \<close>)

lemma round_ANDI:
  assumes "i_op w = I_ANDI" "at_instr s m" "\<not> bit w 15"
  shows "round_ok sys b w s m"
  by (rule imm_put [where k = 12 and v = "registers m (i_rs w) AND immed w" and f = do_ANDI])
    (use assms decode_imm(2) [of w 12] immed_low [OF assms(3)] in \<open>simp_all add: imm_simps do_ANDI_def at_instr_reg \<close>)

lemma round_ORI:
  assumes "i_op w = I_ORI" "at_instr s m" "\<not> bit w 15"
  shows "round_ok sys b w s m"
  by (rule imm_put [where k = 13 and v = "registers m (i_rs w) OR immed w" and f = do_ORI])
    (use assms decode_imm(2) [of w 13] immed_low [OF assms(3)] in \<open>simp_all add: imm_simps do_ORI_def at_instr_reg \<close>)

lemma round_XORI:
  assumes "i_op w = I_XORI" "at_instr s m" "\<not> bit w 15"
  shows "round_ok sys b w s m"
  by (rule imm_put [where k = 14 and v = "registers m (i_rs w) XOR immed w" and f = do_XORI])
    (use assms decode_imm(2) [of w 14] immed_low [OF assms(3)] in \<open>simp_all add: imm_simps do_XORI_def at_instr_reg \<close>)

lemma round_LUI:
  assumes "i_op w = I_LUI" "at_instr s m" 
  shows "round_ok sys b w s m"
  by (rule imm_put [where k = 15 and v = "push_bit 16 w" and f = do_LUI])
    (use assms decode_imm(2) [of w 15]  in \<open>simp_all add: imm_simps do_LUI_def at_instr_reg immed_upper\<close>)

lemma round_branch:
  assumes "at_instr s m" "registers m NextPCReg = registers m PCReg + 4" "extra (Decode w) = immed w"
    "i_switch sys b w (registers m PCReg) s = branch_if c w (registers m PCReg) s"
    "execute b (Decode w) (registers m NextPCReg + 4) m = go m (if c then branch_target (Decode w) m else registers m NextPCReg + 4)"
  shows "round_ok sys b w s m"
proof (rule round_jump [OF _ assms(5,1)])
  show "i_switch sys b w (registers m PCReg) s = Inr (s\<lparr>i_npc := if c then branch_target (Decode w) m else registers m NextPCReg + 4\<rparr>)"
    using assms by (simp add: branch_if_def branch_target_def IndexToAddr_def at_instr_def)
qed

lemma round_branch_link:
  assumes "at_instr s m" "registers m NextPCReg = registers m PCReg + 4" "extra (Decode w) = immed w"
    "i_switch sys b w (registers m PCReg) s = branch_if c w (registers m PCReg) (put_reg 31 (registers m PCReg + 8) s)"
    "execute b (Decode w) (registers m NextPCReg + 4) m = go (set_reg 31 (registers m PCReg + 8) m) (if c then branch_target (Decode w) m else registers m NextPCReg + 4)"
  shows "round_ok sys b w s m"
proof (rule round_link [OF _ assms(5,1)])
  show "i_switch sys b w (registers m PCReg) s =
      Inr ((put_reg 31 (registers m PCReg + 8) s)\<lparr>i_npc := if c then branch_target (Decode w) m else registers m NextPCReg + 4\<rparr>)"
    using assms by (simp add: branch_if_def branch_target_def IndexToAddr_def at_instr_def put_reg_def)
qed simp

lemma round_BEQ:
  assumes "i_op w = I_BEQ" "at_instr s m" "registers m NextPCReg = registers m PCReg + 4"
  shows "round_ok sys b w s m"
  by (rule round_branch [where c = "registers m (i_rs w) = registers m (i_rt w)", OF assms(2,3)])
    (use assms decode_imm(2) [of w 4] imm_execute(1) [of w 4 do_BEQ] in \<open>simp_all add: imm_simps do_BEQ_def at_instr_reg\<close>)

lemma round_BNE:
  assumes "i_op w = I_BNE" "at_instr s m" "registers m NextPCReg = registers m PCReg + 4"
  shows "round_ok sys b w s m"
  by (rule round_branch [where c = "registers m (i_rs w) \<noteq> registers m (i_rt w)", OF assms(2,3)])
    (use assms decode_imm(2) [of w 5] imm_execute(1) [of w 5 do_BNE] in \<open>simp_all add: imm_simps do_BNE_def at_instr_reg\<close>)

lemma round_BLEZ:
  assumes "i_op w = I_BLEZ" "at_instr s m" "registers m NextPCReg = registers m PCReg + 4"
  shows "round_ok sys b w s m"
  by (rule round_branch [where c = "registers m (i_rs w) \<le>s 0", OF assms(2,3)])
    (use assms decode_imm(2) [of w 6] imm_execute(1) [of w 6 do_BLEZ] in \<open>simp_all add: imm_simps do_BLEZ_def at_instr_reg\<close>)

lemma round_BGTZ:
  assumes "i_op w = I_BGTZ" "at_instr s m" "registers m NextPCReg = registers m PCReg + 4"
  shows "round_ok sys b w s m"
  by (rule round_branch [where c = "0 <s registers m (i_rs w)", OF assms(2,3)])
    (use assms decode_imm(2) [of w 7] imm_execute(1) [of w 7 do_BGTZ] in \<open>simp_all add: imm_simps do_BGTZ_def at_instr_reg\<close>)

lemma sign_test: "(x :: 32 word) AND SIGN_BIT \<noteq> 0 \<longleftrightarrow> x <s 0" "\<not> x AND SIGN_BIT \<noteq> 0 \<longleftrightarrow> 0 \<le>s x"
  unfolding sign_bit_iff by (auto simp: word_sless_alt word_sle_eq)

lemma bcond_execute:
  assumes "i_op w = 1"
  shows "i_rt w = 0 \<Longrightarrow> execute b (Decode w) pc m = do_BLTZ b (Decode w) pc m" "i_rt w = 1 \<Longrightarrow> execute b (Decode w) pc m = do_BGEZ b (Decode w) pc m"
    "i_rt w = 16 \<Longrightarrow> execute b (Decode w) pc m = do_BLTZAL b (Decode w) pc m" "i_rt w = 17 \<Longrightarrow> execute b (Decode w) pc m = do_BGEZAL b (Decode w) pc m"
  using decode_bcond [OF assms] by (simp_all add: execute_op op_switch_def op_defs)

lemma round_BLTZ:
  assumes "i_op w = I_BCOND" "i_rt w = I_BLTZ" "at_instr s m" "registers m NextPCReg = registers m PCReg + 4"
  shows "round_ok sys b w s m"
  by (rule round_branch [where c = "registers m (i_rs w) <s 0", OF assms(3,4)])
    (use assms bcond_execute [of w] decode_bcond(1) [of w] in \<open>simp_all add: main_ops i_switch_def i_bcond_def do_BLTZ_def sign_test [symmetric] at_instr_reg del: sign_test\<close>)

lemma round_BGEZ:
  assumes "i_op w = I_BCOND" "i_rt w = I_BGEZ" "at_instr s m" "registers m NextPCReg = registers m PCReg + 4"
  shows "round_ok sys b w s m"
  by (rule round_branch [where c = "0 \<le>s registers m (i_rs w)", OF assms(3,4)])
    (use assms bcond_execute [of w] decode_bcond(1) [of w] in \<open>simp_all add: main_ops i_switch_def i_bcond_def do_BGEZ_def sign_test [symmetric] at_instr_reg del: sign_test\<close>)

lemma round_BLTZAL:
  assumes "i_op w = I_BCOND" "i_rt w = I_BLTZAL" "at_instr s m" "registers m NextPCReg = registers m PCReg + 4"
  shows "round_ok sys b w s m"
  by (rule round_branch_link [where c = "registers (set_reg 31 (registers m PCReg + 8) m) (i_rs w) <s 0", OF assms(3,4)])
    (use assms bcond_execute [of w] decode_bcond(1) [of w] in
      \<open>simp_all add: main_ops i_switch_def i_bcond_def do_BLTZAL_def do_BLTZ_def sign_test [symmetric] branch_target_def at_instr_reg R31_def NextPCReg_def add.commute [of 8]\<close>)

lemma round_BGEZAL:
  assumes "i_op w = I_BCOND" "i_rt w = I_BGEZAL" "at_instr s m" "registers m NextPCReg = registers m PCReg + 4"
  shows "round_ok sys b w s m"
  by (rule round_branch_link [where c = "0 \<le>s registers (set_reg 31 (registers m PCReg + 8) m) (i_rs w)", OF assms(3,4)])
    (use assms bcond_execute [of w] decode_bcond(1) [of w] in
      \<open>simp_all add: main_ops i_switch_def i_bcond_def do_BGEZAL_def do_BGEZ_def sign_test [symmetric] branch_target_def at_instr_reg R31_def NextPCReg_def add.commute [of 8]\<close>)

lemma jump_execute:
  "i_op w = 2 \<Longrightarrow> execute b (Decode w) pc m = do_J b (Decode w) pc m" "i_op w = 3 \<Longrightarrow> execute b (Decode w) pc m = do_JAL b (Decode w) pc m"
  using decode_jump [of w] by (simp_all add: execute_op op_switch_def op_defs)

lemma round_J:
  assumes "i_op w = I_J" "at_instr s m" "registers m NextPCReg = registers m PCReg + 4" "(registers m PCReg + 8) AND 0xf0000000 = registers m PCReg AND 0xf0000000"
  shows "round_ok sys b w s m"
  by (rule round_jump [where t = "jump_target w (registers m PCReg)", OF _ _ assms(2)])
    (use assms jump_execute(1) [of w] decode_jump(2) [of w] in \<open>simp_all add: main_ops i_switch_def do_J_def jump_target_def IndexToAddr_def add.commute [of 8]\<close>)

lemma round_JAL:
  assumes "i_op w = I_JAL" "at_instr s m" "registers m NextPCReg = registers m PCReg + 4" "(registers m PCReg + 8) AND 0xf0000000 = registers m PCReg AND 0xf0000000"
  shows "round_ok sys b w s m"
  by (rule round_link [where r = 31 and v = "registers m PCReg + 8" and t = "jump_target w (registers m PCReg)", OF _ _ assms(2)])
    (use assms jump_execute(2) [of w] decode_jump(2) [of w] in \<open>simp_all add: main_ops i_switch_def do_JAL_def do_J_def jump_target_def IndexToAddr_def R31_def add.commute [of 8]\<close>)

subsection \<open>Where the two implementations agree\<close>

text \<open>Register instructions for which both do the same. A branch, a jump with link or a jump must not be in the delay slot of another one;
  sums must not overflow, as the interpreter raises no exceptions; shift counts must be below 32; divisors must not be zero; immediate
  operands of logical instructions must not have their sign bit set; and operands must avoid the two instructions that the
  simulator has wrong.\<close>

definition agreed_special :: "32 word \<Rightarrow> Machine \<Rightarrow> bool" where
  "agreed_special w m =
     (let f = i_funct w; x = registers m (i_rs w); y = registers m (i_rt w) in
      f \<in> set [I_SLL, I_SRA, I_JR, I_MFHI, I_MTHI, I_MFLO, I_MTLO, I_ADDU, I_SUBU, I_AND, I_XOR, I_NOR, I_SLT, I_SLTU] \<or>
      f = I_SRL \<and> (shamt w = 0 \<or> \<not> bit y 31) \<or>
      f = I_SLLV \<and> unat x < 32 \<or> f = I_SRAV \<and> unat x < 32 \<or>
      f = I_SRLV \<and> unat x < 32 \<and> (unat x = 0 \<or> \<not> bit y 31) \<or>
      f = I_JALR \<and> registers m NextPCReg = registers m PCReg + 4 \<and> i_rd w \<noteq> i_rs w \<or>
      f = I_DIV \<and> y \<noteq> 0 \<and> \<not> (x = 0x80000000 \<and> y = -1) \<or> f = I_DIVU \<and> y \<noteq> 0 \<or>
      f = I_ADD \<and> in_int32 (sint x + sint y) \<or> f = I_SUB \<and> in_int32 (sint x - sint y) \<or>
      f = I_OR \<and> y AND NOT x = 0)"

definition agreed :: "32 word \<Rightarrow> Machine \<Rightarrow> bool" where
  "agreed w m =
     (let op = i_op w; straight = (registers m NextPCReg = registers m PCReg + 4) in
      op = I_SPECIAL \<and> agreed_special w m \<or>
      op = I_BCOND \<and> i_rt w \<in> set [I_BLTZ, I_BGEZ, I_BLTZAL, I_BGEZAL] \<and> straight \<or>
      op \<in> set [I_BEQ, I_BNE, I_BLEZ, I_BGTZ] \<and> straight \<or>
      op \<in> set [I_J, I_JAL] \<and> straight \<and> (registers m PCReg + 8) AND 0xf0000000 = registers m PCReg AND 0xf0000000 \<or>
      op \<in> set [I_ADDIU, I_SLTI, I_SLTIU, I_LUI] \<or>
      op = I_ADDI \<and> in_int32 (sint (registers m (i_rs w)) + sint (immed w)) \<or>
      op \<in> set [I_ANDI, I_ORI, I_XORI] \<and> \<not> bit w 15)"

lemma agreed_special_round:
  assumes "i_op w = 0" "agreed_special w m" "at_instr s m"
  shows "round_ok sys b w s m"
  using assms unfolding agreed_special_def Let_def
  by (auto intro: round_SLL round_SRA round_JR round_MFHI round_MTHI round_MFLO round_MTLO round_ADDU round_SUBU round_AND round_XOR round_NOR
    round_SLT round_SLTU round_SRL round_SLLV round_SRAV round_SRLV round_JALR round_DIV round_DIVU round_ADD round_SUB round_OR)

lemma agreed_round:
  assumes "agreed w m" "at_instr s m"
  shows "round_ok sys b w s m"
  using assms unfolding agreed_def Let_def
  by (auto intro: agreed_special_round round_BLTZ round_BGEZ round_BLTZAL round_BGEZAL round_BEQ round_BNE round_BLEZ round_BGTZ
    round_J round_JAL round_ADDIU round_SLTI round_SLTIU round_LUI round_ADDI round_ANDI round_ORI round_XORI)

text \<open>One instruction of the simulator, after it was fetched.\<close>

definition mips_round :: "build \<Rightarrow> 32 word \<Rightarrow> Machine \<Rightarrow> stop + Machine" where
  "mips_round b w m = bind_res (execute b (Decode w) (registers m NextPCReg + 4) m) finish_instruction"

lemma OneInstruction_round: "OneInstruction b m = bind_res (Machine_ReadMem b (registers m PCReg) 4 m) (\<lambda>(raw, m1). case raw of None \<Rightarrow> Inr m1 | Some w \<Rightarrow> mips_round b w m1)"
  unfolding OneInstruction_def mips_round_def ..

lemma fields_0 [simp]: "i_op 0 = 0" "i_funct 0 = 0" "i_rd 0 = 0" "shamt 0 = 0"
  by (simp_all add: i_op_def i_funct_def i_rd_def shamt_def)

lemma i_switch_0: "i_switch sys b 0 xpc s = Inr (put_reg 0 (Reg s (i_rt 0)) s)"
  by (simp add: i_switch_def i_special_def)

lemma round_agree:
  assumes "same_state s m" "agreed w m"
  obtains s' m' where "i_round sys b w s = Inr s'" "mips_round b w m = Inr m'" "same_state s' m'" "i_mem s' = i_mem s" "mainMemory m' = mainMemory m"
proof -
  let ?s = "put_reg 0 0 (s\<lparr>i_pc := i_npc s, i_npc := i_npc s + 4\<rparr>)"
  have pc: "i_pc s = registers m PCReg" using assms(1) by (simp add: same_state_def)
  obtain s' m1 pc where R: "i_switch sys b w (registers m PCReg) ?s = Inr s'" "execute b (Decode w) (registers m NextPCReg + 4) m = go m1 pc"
    "after_instr s' m1 pc" "i_mem s' = i_mem ?s" "mainMemory m1 = mainMemory m"
    using agreed_round [OF assms(2) at_start [OF assms(1)], of sys b] unfolding round_ok_def by blast
  obtain m' where F: "finish_instruction (Continue m1 pc 0 0) = Inr m'" "same_state s' m'" "mainMemory m' = mainMemory m1" using finish_same [OF R(3)] by blast
  have m: "mips_round b w m = Inr m'" using R(2) F(1) by (simp add: mips_round_def go_def)
  show thesis
  proof (cases "w = 0")
    case True
    then have "s' = put_reg 0 (Reg ?s (i_rt 0)) ?s" using R(1) by (simp add: i_switch_0)
    then have "same_state ?s m'" using F(2) by (auto simp: same_state_def)
    moreover have "i_round sys b w s = Inr ?s" using True by (simp add: i_round_def)
    ultimately show ?thesis using that m F(3) R(5) by simp
  next
    case False
    then have "i_round sys b w s = Inr s'" using R(1) pc by (simp add: i_round_def)
    then show ?thesis using that m F(2,3) R(4,5) by simp
  qed
qed

text \<open>Both on a sequence of instructions.\<close>

fun mips_rounds :: "build \<Rightarrow> 32 word list \<Rightarrow> Machine \<Rightarrow> stop + Machine" where
  "mips_rounds b [] m = Inr m"
| "mips_rounds b (w # ws) m = bind_res (mips_round b w m) (mips_rounds b ws)"

fun interp_rounds :: "hostsys \<Rightarrow> build \<Rightarrow> 32 word list \<Rightarrow> Interp \<Rightarrow> Interp ires" where
  "interp_rounds sys b [] s = Inr s"
| "interp_rounds sys b (w # ws) s = bind_res (i_round sys b w s) (interp_rounds sys b ws)"

fun all_agreed :: "build \<Rightarrow> 32 word list \<Rightarrow> Machine \<Rightarrow> bool" where
  "all_agreed b [] m = True"
| "all_agreed b (w # ws) m = (agreed w m \<and> (case mips_round b w m of Inr m' \<Rightarrow> all_agreed b ws m' | Inl _ \<Rightarrow> False))"

subsection \<open>Products and the logarithm\<close>

text \<open>The carries out of the lower half words are lost in the high word.\<close>

lemma high_word_differs: "i_mult 0x1ffff 0x1ffff = (1, 0xfffc0001)" "Mult 0x1ffff 0x1ffff True = (3, 0xfffc0001)"
  by code_simp+

text \<open>The position \<open>p\<close> of the highest bit: all bits left in \<open>i\<close> agree with it in the digits of their position seen so far.\<close>

definition digits_inv :: "nat \<Rightarrow> nat \<Rightarrow> 32 word \<times> nat \<Rightarrow> bool" where
  "digits_inv k p = (\<lambda>(i, l). bit i p \<and> (\<forall>q. bit i q \<longrightarrow> q \<le> p \<and> q div 2 ^ k = p div 2 ^ k) \<and> l = 1 + p div 2 ^ k * 2 ^ k)"

lemma digits_invI:
  assumes "bit i p" "\<And>q. bit i q \<Longrightarrow> q \<le> p \<and> q div 2 ^ k = p div 2 ^ k" "l = 1 + p div 2 ^ k * 2 ^ k"
  shows "digits_inv k p (i, l)"
  unfolding digits_inv_def prod.case using assms by blast

lemma div_digit: "q div 2 ^ Suc k = q div 2 ^ k div (2 :: nat)"
  unfolding power_Suc2 by (rule div_mult2_eq)

lemma half_eq:
  assumes "a div 2 = b div (2 :: nat)"
  shows "a = b \<longleftrightarrow> (odd a \<longleftrightarrow> odd b)" "odd a \<Longrightarrow> even b \<Longrightarrow> b < a"
  using assms by presburger+

lemma half_scale:
  "odd b \<Longrightarrow> b * n = b div 2 * (2 * n) + (n :: nat)" "even b \<Longrightarrow> b * n = b div 2 * (2 * n)"
  by (elim oddE evenE; simp add: algebra_simps)+

lemma ilog2_step_inv:
  assumes "digits_inv (Suc k) p (i, l)" "\<forall>q < 32. bit hi q \<longleftrightarrow> odd (q div 2 ^ k)"
  shows "digits_inv k p (ilog2_step hi (2 ^ k) (i, l))"
proof -
  have j: "bit i p \<and> (\<forall>q. bit i q \<longrightarrow> q \<le> p \<and> q div 2 ^ Suc k = p div 2 ^ Suc k) \<and> l = 1 + p div 2 ^ Suc k * 2 ^ Suc k"
    using assms(1) unfolding digits_inv_def prod.case .
  have i: "bit i p" "\<And>q. bit i q \<Longrightarrow> q \<le> p" "\<And>q. bit i q \<Longrightarrow> q div 2 ^ k div 2 = p div 2 ^ k div 2"
      "l = 1 + p div 2 ^ k div 2 * (2 * 2 ^ k)"
    unfolding div_digit [symmetric] power_Suc [symmetric] using j by blast+
  have lt: "q < 32" if "bit i q" for q using bit_imp_le_length [OF that] by simp
  have hi: "bit (i AND hi) q \<longleftrightarrow> bit i q \<and> odd (q div 2 ^ k)" for q using lt assms(2) by (auto simp: bit_and_iff)
  show ?thesis
  proof (cases "odd (p div 2 ^ k)")
    case True
    have "bit (i AND hi) p" using hi i(1) True by blast
    then have "i AND hi \<noteq> 0" by (metis bit_0_eq bot_apply bot_bool_def)
    then have "ilog2_step hi (2 ^ k) (i, l) = (i AND hi, l + 2 ^ k)" by (simp add: ilog2_step_def)
    moreover have "l + 2 ^ k = 1 + p div 2 ^ k * 2 ^ k" using i(4) half_scale(1) [OF True, of "2 ^ k"] by linarith
    moreover have "q \<le> p \<and> q div 2 ^ k = p div 2 ^ k" if "bit (i AND hi) q" for q using that True hi i(2,3) half_eq(1) by blast
    ultimately show ?thesis using \<open>bit (i AND hi) p\<close> by (metis digits_invI)
  next
    case False
    have e: "even (q div 2 ^ k)" if "bit i q" for q
      using half_eq(2) [OF i(3) [OF that]] False div_le_mono [OF i(2) [OF that], of "2 ^ k"] by (meson not_le)
    then have "i AND hi = 0" using hi by (intro bit_word_eqI) auto
    then have "ilog2_step hi (2 ^ k) (i, l) = (i, l)" by (simp add: ilog2_step_def)
    moreover have "l = 1 + p div 2 ^ k * 2 ^ k" using i(4) half_scale(2) [of "p div 2 ^ k" "2 ^ k"] False by linarith
    moreover have "q \<le> p \<and> q div 2 ^ k = p div 2 ^ k" if "bit i q" for q using that False e i(2,3) half_eq(1) by blast
    ultimately show ?thesis using i(1) by (metis digits_invI)
  qed
qed

lemma ilog2_masks:
  "\<forall>q < 32. bit (0xffff0000 :: 32 word) q \<longleftrightarrow> odd (q div 2 ^ 4)" "\<forall>q < 32. bit (0xff00ff00 :: 32 word) q \<longleftrightarrow> odd (q div 2 ^ 3)"
  "\<forall>q < 32. bit (0xf0f0f0f0 :: 32 word) q \<longleftrightarrow> odd (q div 2 ^ 2)" "\<forall>q < 32. bit (0xcccccccc :: 32 word) q \<longleftrightarrow> odd (q div 2 ^ 1)"
  "\<forall>q < 32. bit (0xaaaaaaaa :: 32 word) q \<longleftrightarrow> odd (q div 2 ^ 0)"
proof -
  have l: "(\<forall>q < 32. P q) = list_all P [0..<32]" for P :: "nat \<Rightarrow> bool" by (auto simp: list_all_iff)
  show "\<forall>q < 32. bit (0xffff0000 :: 32 word) q \<longleftrightarrow> odd (q div 2 ^ 4)" "\<forall>q < 32. bit (0xff00ff00 :: 32 word) q \<longleftrightarrow> odd (q div 2 ^ 3)"
    "\<forall>q < 32. bit (0xf0f0f0f0 :: 32 word) q \<longleftrightarrow> odd (q div 2 ^ 2)" "\<forall>q < 32. bit (0xcccccccc :: 32 word) q \<longleftrightarrow> odd (q div 2 ^ 1)"
    "\<forall>q < 32. bit (0xaaaaaaaa :: 32 word) q \<longleftrightarrow> odd (q div 2 ^ 0)"
    unfolding l by code_simp+
qed

text \<open>The position of the highest bit, counted from 1; the table in the comment of the source has 1 for 2 and 3 for 8.\<close>

lemma ilog2_digits:
  assumes "bit w p" "\<forall>q. bit w q \<longrightarrow> q \<le> p"
  shows "ilog2 w = p + 1"
proof -
  have p: "p < 32" using bit_imp_le_length [OF assms(1)] by simp
  then have "digits_inv 5 p (w, 1)" using assms by (auto simp: digits_inv_def dest: le_less_trans)
  then have i: "digits_inv (Suc 4) p (w, 1)" by simp
  note 1 = ilog2_step_inv [OF i ilog2_masks(1)]
  obtain i1 l1 where s1: "ilog2_step 0xffff0000 (2 ^ 4) (w, 1) = (i1, l1)" by fastforce
  have "digits_inv (Suc 3) p (i1, l1)" using 1 unfolding s1 by simp
  note 2 = ilog2_step_inv [OF this ilog2_masks(2)]
  obtain i2 l2 where s2: "ilog2_step 0xff00ff00 (2 ^ 3) (i1, l1) = (i2, l2)" by fastforce
  have "digits_inv (Suc 2) p (i2, l2)" using 2 unfolding s2 by simp
  note 3 = ilog2_step_inv [OF this ilog2_masks(3)]
  obtain i3 l3 where s3: "ilog2_step 0xf0f0f0f0 (2 ^ 2) (i2, l2) = (i3, l3)" by fastforce
  have "digits_inv (Suc 1) p (i3, l3)" using 3 unfolding s3 by (simp add: numeral_2_eq_2)
  note 4 = ilog2_step_inv [OF this ilog2_masks(4)]
  obtain i4 l4 where s4: "ilog2_step 0xcccccccc (2 ^ 1) (i3, l3) = (i4, l4)" by fastforce
  have "digits_inv (Suc 0) p (i4, l4)" using 4 unfolding s4 by simp
  note 5 = ilog2_step_inv [OF this ilog2_masks(5)]
  have "w \<noteq> 0" using assms(1) by auto
  then have "ilog2 w = snd (ilog2_step 0xaaaaaaaa (2 ^ 0) (i4, l4))" using s1 s2 s3 s4 by (simp add: ilog2_def)
  then show ?thesis using 5 by (auto simp: digits_inv_def split: prod.splits)
qed

subsection \<open>Properties\<close>

text \<open>C19. The interpreter of the tools and the simulator of the machine are two implementations of the same instructions: from states with the same
  registers, on any sequence of register instructions, branches and jumps that avoids the listed differences, both go through, end with the same registers
  and program counters, and leave memory alone.\<close>

theorem interpreters_agree:
  assumes "same_state s m" "all_agreed b ws m"
  shows "\<exists>s' m'. interp_rounds sys b ws s = Inr s' \<and> mips_rounds b ws m = Inr m' \<and> same_state s' m' \<and> i_mem s' = i_mem s \<and> mainMemory m' = mainMemory m"
  using assms
proof (induction ws arbitrary: s m)
  case (Cons w ws)
  obtain s1 m1 where R: "i_round sys b w s = Inr s1" "mips_round b w m = Inr m1" "same_state s1 m1" "i_mem s1 = i_mem s" "mainMemory m1 = mainMemory m"
    by (rule round_agree [OF Cons.prems(1), of w sys b]) (use Cons.prems(2) in simp)
  then show ?case using Cons.IH [OF R(3)] Cons.prems(2) by simp
qed simp

text \<open>Three instructions: load 5 into register 8, double it into register 9, compare the two.\<close>

definition demo_words :: "32 word list" where
  "demo_words = [0x24080005, 0x01084821, 0x0109502a]"

definition demo_interp :: Interp where
  "demo_interp = \<lparr>Reg = (\<lambda>_. 0), HI = 0, LO = 0, i_mem = (\<lambda>_. 0), i_pc = 0, i_npc = 4, i_calls = []\<rparr>"

definition demo_mips :: Machine where
  "demo_mips = mach0\<lparr>registers := (\<lambda>_. 0)(NextPCReg := 4)\<rparr>"

lemma interpreters_agree_witness:
  "\<exists>s' m'. interp_rounds (\<lambda>h c m. (0, m)) \<lparr>USE_TLB = False, TLB_LRU = False, HOST_IS_BIG_ENDIAN = False\<rparr> demo_words demo_interp = Inr s' \<and>
     mips_rounds \<lparr>USE_TLB = False, TLB_LRU = False, HOST_IS_BIG_ENDIAN = False\<rparr> demo_words demo_mips = Inr m' \<and> same_state s' m'"
proof -
  have "same_state demo_interp demo_mips" by (simp add: same_state_def demo_interp_def demo_mips_def reg_defs)
  moreover have "all_agreed \<lparr>USE_TLB = False, TLB_LRU = False, HOST_IS_BIG_ENDIAN = False\<rparr> demo_words demo_mips" by code_simp
  ultimately show ?thesis using interpreters_agree [of demo_interp demo_mips _ demo_words "\<lambda>h c m. (0, m)"] by blast
qed

end
