(* ===== verification/Nachos_Kernel.thy ===== *)
theory Nachos_Kernel
  imports Nachos_List Nachos_Bitmap
begin

text \<open>
  The thread system: threads (threads/thread.h, thread.cc), the scheduler (scheduler.h, scheduler.cc),
  the interrupt simulation with its clock (machine/interrupt.h, interrupt.cc, timer.cc, stats.h), the
  synchronization primitives (synch.h, synch.cc) and synchronized lists (synchlist.cc).

  A thread's C++ stack is a list of frames. A frame is a call that is still to be made or the rest
  of a routine that called something which may switch threads; the only such places are the
  calls of SWITCH inside Sleep and Yield. Code between two of them runs in one step, because
  nothing else can run meanwhile. Lists of threads and of pending interrupts are sequences of
  (item, key) pairs with the operations of \<open>spec_call\<close>, which the pointer code of list.cc refines.
  The clock, the tick counters and the values of semaphores are \<open>int\<close>s of 32 bits: the additions that make them
  grow are checked, and one that leaves the range, which C++ leaves undefined, is the error \<open>Overflow\<close>.
\<close>

subsection \<open>Data\<close>

datatype IntStatus = IntOff | IntOn
datatype IntType = TimerInt | DiskInt | ConsoleWriteInt | ConsoleReadInt | ElevatorInt | NetworkSendInt | NetworkRecvInt
datatype ThreadStatus = JUST_CREATED | RUNNING | READY | BLOCKED

type_synonym tid = nat        \<comment> \<open>the address of a thread object\<close>

text \<open>The semaphores of clients and the one inside each lock; the locks of clients and the one
  inside each synchronized list; likewise the condition variables.\<close>

datatype lid = ULock nat | SLock nat
datatype sid = USem nat | LSem lid
datatype cid = UCond nat | SCond nat

text \<open>Interrupt handlers: the timer's, and the completion routines of the devices (disk, console,
  network), each of which marks the device idle and calls V on the semaphore its driver waits for.\<close>

datatype handler = TimerHandler | DeviceDone nat

record PendingInterrupt =
  p_handler :: handler
  p_when :: int
  p_type :: IntType

text \<open>Frames. The first group are calls a thread's code makes; the second the rest of a routine after
  a call that may switch threads.\<close>

datatype frame =
    CP nat | CV nat | CAcquire lid | CRelease lid | CWait cid lid | CSignal cid lid | CBroadcast cid lid
  | CYield | CFork int "frame list" | CFinish | CSetLevel IntStatus | COneTick
  | CListAppend nat nat | CListRemove nat
  | CRequest nat int IntType       \<comment> \<open>start a device operation that takes the given time\<close>
  | PLoop sid IntStatus            \<comment> \<open>Semaphore::P from its while on\<close>
  | AcquireTail lid IntStatus      \<comment> \<open>Lock::Acquire after lock->P()\<close>
  | WaitTail cid IntStatus         \<comment> \<open>Condition::Wait after Acquire\<close>
  | SleepLoop                      \<comment> \<open>Thread::Sleep from its while on\<close>
  | RunTail                        \<comment> \<open>Scheduler::Run after SWITCH\<close>
  | TickTail MachineStatus         \<comment> \<open>Interrupt::OneTick after Yield\<close>
  | ListPut nat nat                \<comment> \<open>SynchList::Append after Acquire\<close>
  | ListLoop nat                   \<comment> \<open>SynchList::Remove from its while on\<close>

definition STACK_FENCEPOST :: "32 word" where "STACK_FENCEPOST = 0xdeadbeef"

record Thread =
  status :: ThreadStatus
  priority :: "int option"         \<comment> \<open>None: never assigned\<close>
  threadId :: int
  stack :: "32 word option"        \<comment> \<open>None: NULL; otherwise the word at the end of the stack\<close>
  frames :: "frame list"
  received :: "nat list"           \<comment> \<open>the results of its calls of SynchList::Remove, latest first\<close>

record Semaphore =
  sem_value :: int
  sem_queue :: "(tid \<times> int) list"

record Kernel =
  threads :: "tid \<Rightarrow> Thread option"
  next_tid :: tid
  currentThread :: tid
  threadToBeDestroyed :: "tid option"
  threadIds :: "bool list"
  readyList :: "(tid \<times> int) list"
  lastSwitchTick :: int
  level :: IntStatus
  pending :: "(PendingInterrupt \<times> int) list"
  inHandler :: bool
  yieldOnReturn :: bool
  int_status :: MachineStatus
  totalTicks :: int
  idleTicks :: int
  systemTicks :: int
  userTicks :: int
  sems :: "sid \<Rightarrow> Semaphore"
  owner :: "lid \<Rightarrow> tid option"
  conds :: "cid \<Rightarrow> (tid \<times> int) list"
  slists :: "nat \<Rightarrow> nat list"       \<comment> \<open>the items of each synchronized list\<close>
  busy :: "nat \<Rightarrow> bool"             \<comment> \<open>a device is in the middle of an operation\<close>
  randomize :: bool
  random :: "nat \<Rightarrow> nat"            \<comment> \<open>the results of the calls of Random()\<close>
  random_calls :: nat

text \<open>The scheduling policy is chosen at compile time.\<close>

record kbuild = SCHED_PRIORITY :: bool

datatype kstop = KFault nerr | KHalted Kernel

fun klift :: "'a res \<Rightarrow> kstop + 'a" where
  "klift (Inl e) = Inl (KFault e)"
| "klift (Inr x) = Inr x"

definition SystemTick :: int where "SystemTick = 10"
definition UserTick :: int where "UserTick = 1"
definition TimerTicks :: int where "TimerTicks = 10"
definition maxThreadsCount :: nat where "maxThreadsCount = 128"

subsection \<open>Access to threads\<close>

definition get_thread :: "tid \<Rightarrow> Kernel \<Rightarrow> Thread res" where
  "get_thread t k = (case threads k t of None \<Rightarrow> Inl BadPointer | Some th \<Rightarrow> Inr th)"

definition put_thread :: "tid \<Rightarrow> Thread \<Rightarrow> Kernel \<Rightarrow> Kernel" where
  "put_thread t th k = k\<lparr>threads := (threads k)(t \<mapsto> th)\<rparr>"

definition set_status :: "tid \<Rightarrow> ThreadStatus \<Rightarrow> Kernel \<Rightarrow> Kernel res" where
  "set_status t st k = bind_res (get_thread t k) (\<lambda>th. Inr (put_thread t (th\<lparr>status := st\<rparr>) k))"

text \<open>Putting frames on the stack of the current thread.\<close>

definition push :: "frame list \<Rightarrow> Kernel \<Rightarrow> Kernel res" where
  "push fs k = bind_res (get_thread (currentThread k) k) (\<lambda>th.
     Inr (put_thread (currentThread k) (th\<lparr>frames := fs @ frames th\<rparr>) k))"

subsection \<open>Scheduler (scheduler.cc)\<close>

definition getPriority :: "tid \<Rightarrow> Kernel \<Rightarrow> int res" where
  "getPriority t k = bind_res (get_thread t k) (\<lambda>th.
     case priority th of None \<Rightarrow> Inl Uninitialised | Some p \<Rightarrow> Inr p)"

definition ReadyToRun :: "kbuild \<Rightarrow> tid \<Rightarrow> Kernel \<Rightarrow> Kernel res" where
  "ReadyToRun b t k =
     bind_res (set_status t READY k) (\<lambda>k1.
       if SCHED_PRIORITY b
       then bind_res (getPriority t k1) (\<lambda>p. Inr (k1\<lparr>readyList := ins_sorted t p (readyList k1)\<rparr>))
       else Inr (k1\<lparr>readyList := readyList k1 @ [(t, 0)]\<rparr>))"

definition FindNextToRun :: "kbuild \<Rightarrow> bool \<Rightarrow> Kernel \<Rightarrow> (tid option \<times> Kernel) res" where
  "FindNextToRun b bySleep k =
     (if bySleep
      then let k1 = k\<lparr>lastSwitchTick := systemTicks k\<rparr> in
        (case readyList k1 of
           [] \<Rightarrow> Inr (None, k1)
         | (t, _) # rest \<Rightarrow> Inr (Some t, k1\<lparr>readyList := rest\<rparr>))
      else
        (case readyList k of
           [] \<Rightarrow> Inr (None, k)
         | (t, _) # rest \<Rightarrow>
             if SCHED_PRIORITY b
             then bind_res (getPriority t k) (\<lambda>p.
                  bind_res (getPriority (currentThread k) k) (\<lambda>q.
                  if p < q then Inr (Some t, k\<lparr>readyList := rest, lastSwitchTick := systemTicks k\<rparr>)
                  else Inr (None, k\<lparr>readyList := ins_sorted t p rest\<rparr>)))
             else Inr (Some t, k\<lparr>readyList := rest, lastSwitchTick := systemTicks k\<rparr>)))"

definition CheckOverflow :: "tid \<Rightarrow> Kernel \<Rightarrow> unit res" where
  "CheckOverflow t k = bind_res (get_thread t k) (\<lambda>th.
     case stack th of None \<Rightarrow> Inr () | Some w \<Rightarrow> ASSERT (w = STACK_FENCEPOST))"

text \<open>Run up to and including SWITCH: the rest of Run stays on the old thread's stack.\<close>

definition Scheduler_Run :: "tid \<Rightarrow> Kernel \<Rightarrow> Kernel res" where
  "Scheduler_Run nextThread k =
     bind_res (push [RunTail] k) (\<lambda>k1.
     bind_res (CheckOverflow (currentThread k1) k1) (\<lambda>_.
     set_status nextThread RUNNING (k1\<lparr>currentThread := nextThread\<rparr>)))"

text \<open>The destructor of a thread, and the rest of Run after SWITCH.\<close>

definition Thread_destroy :: "tid \<Rightarrow> Kernel \<Rightarrow> Kernel res" where
  "Thread_destroy t k =
     bind_res (get_thread t k) (\<lambda>th.
     bind_res (if threadId th < 0 then Inl OutOfBounds
               else arr_set (threadIds k) (nat (threadId th)) False) (\<lambda>ids.
     bind_res (ASSERT (t \<noteq> currentThread k)) (\<lambda>_.
     Inr (k\<lparr>threadIds := ids, threads := (threads k)(t := None)\<rparr>))))"

definition Run_tail :: "Kernel \<Rightarrow> Kernel res" where
  "Run_tail k =
     (case threadToBeDestroyed k of
        None \<Rightarrow> Inr k
      | Some t \<Rightarrow> bind_res (Thread_destroy t k) (\<lambda>k1. Inr (k1\<lparr>threadToBeDestroyed := None\<rparr>)))"

subsection \<open>Interrupts (interrupt.cc, timer.cc)\<close>

definition Interrupt_Schedule :: "handler \<Rightarrow> int \<Rightarrow> IntType \<Rightarrow> Kernel \<Rightarrow> Kernel res" where
  "Interrupt_Schedule h fromNow ty k =
     bind_res (int_add (totalTicks k) fromNow) (\<lambda>t.
     let toOccur = \<lparr>p_handler = h, p_when = t, p_type = ty\<rparr>
     in bind_res (ASSERT (fromNow > 0)) (\<lambda>_.
        Inr (k\<lparr>pending := ins_sorted toOccur t (pending k)\<rparr>)))"

definition TimeOfNextInterrupt :: "Kernel \<Rightarrow> int \<times> Kernel" where
  "TimeOfNextInterrupt k =
     (if randomize k
      then (1 + int (random k (random_calls k)) mod (TimerTicks * 2), k\<lparr>random_calls := random_calls k + 1\<rparr>)
      else (TimerTicks, k))"

definition YieldOnReturn :: "Kernel \<Rightarrow> Kernel res" where
  "YieldOnReturn k = bind_res (ASSERT (inHandler k)) (\<lambda>_. Inr (k\<lparr>yieldOnReturn := True\<rparr>))"

definition TimerInterruptHandler :: "Kernel \<Rightarrow> Kernel res" where
  "TimerInterruptHandler k = (if int_status k \<noteq> IdleMode then YieldOnReturn k else Inr k)"

definition TimerExpired :: "Kernel \<Rightarrow> Kernel res" where
  "TimerExpired k =
     (let (d, k1) = TimeOfNextInterrupt k in
      bind_res (Interrupt_Schedule TimerHandler d TimerInt k1) TimerInterruptHandler)"

text \<open>SetLevel when it cannot advance the clock: to turn interrupts off, or to set back a level
  that was off. Turning them on is the frame \<open>CSetLevel IntOn\<close>.\<close>

definition SetLevel_off :: "Kernel \<Rightarrow> IntStatus \<times> Kernel" where
  "SetLevel_off k = (level k, k\<lparr>level := IntOff\<rparr>)"

subsection \<open>Semaphores, locks and conditions (synch.cc), as far as they run without a switch\<close>

text \<open>The body of V with interrupts off.\<close>

definition V_body :: "kbuild \<Rightarrow> sid \<Rightarrow> Kernel \<Rightarrow> Kernel res" where
  "V_body b s k =
     (let sem = sems k s in
      bind_res (case sem_queue sem of
          [] \<Rightarrow> Inr k
        | (t, _) # rest \<Rightarrow> ReadyToRun b t (k\<lparr>sems := (sems k)(s := sem\<lparr>sem_queue := rest\<rparr>)\<rparr>)) (\<lambda>k1.
      bind_res (int_add (sem_value (sems k1 s)) 1) (\<lambda>v.
      Inr (k1\<lparr>sems := (sems k1)(s := (sems k1 s)\<lparr>sem_value := v\<rparr>)\<rparr>))))"

text \<open>An interrupt handler runs with interrupts off; V sets the level back to off at its end.\<close>

definition run_handler :: "kbuild \<Rightarrow> handler \<Rightarrow> Kernel \<Rightarrow> Kernel res" where
  "run_handler b h k =
     (case h of TimerHandler \<Rightarrow> TimerExpired k
      | DeviceDone s \<Rightarrow> V_body b (USem s) (k\<lparr>busy := (busy k)(s := False)\<rparr>))"

text \<open>With nothing to run, the clock jumps to the time of the next interrupt.\<close>

definition advance_idle :: "int \<Rightarrow> Kernel \<Rightarrow> Kernel res" where
  "advance_idle t k =
     bind_res (int_sub t (totalTicks k)) (\<lambda>d. bind_res (int_add (idleTicks k) d) (\<lambda>i.
     Inr (k\<lparr>idleTicks := i, totalTicks := t\<rparr>)))"

definition CheckIfDue :: "kbuild \<Rightarrow> bool \<Rightarrow> Kernel \<Rightarrow> (bool \<times> Kernel) res" where
  "CheckIfDue b advanceClock k =
     bind_res (ASSERT (level k = IntOff)) (\<lambda>_.
     case pending k of
       [] \<Rightarrow> Inr (False, k)
     | (toOccur, t) # rest \<Rightarrow>
         if \<not> advanceClock \<and> t > totalTicks k
         then Inr (False, k\<lparr>pending := ins_sorted toOccur t rest\<rparr>)
         else
           let k1 = k\<lparr>pending := rest\<rparr> in
           bind_res (if advanceClock \<and> t > totalTicks k1 then advance_idle t k1 else Inr k1) (\<lambda>k2.
           if int_status k2 = IdleMode \<and> p_type toOccur = TimerInt \<and> rest = []
           then Inr (False, k2\<lparr>pending := ins_sorted toOccur t []\<rparr>)
           else bind_res (run_handler b (p_handler toOccur) (k2\<lparr>inHandler := True, int_status := SystemMode\<rparr>)) (\<lambda>k3.
             Inr (True, k3\<lparr>int_status := int_status k, inHandler := False\<rparr>))))"

text \<open>The loops \<open>while (CheckIfDue(FALSE))\<close>.\<close>

partial_function (option) check_loop :: "kbuild \<Rightarrow> Kernel \<Rightarrow> Kernel res option" where
  "check_loop b k =
     (case CheckIfDue b False k of Inl e \<Rightarrow> Some (Inl e)
      | Inr (fired, k1) \<Rightarrow> (if fired then check_loop b k1 else Some (Inr k1)))"

definition Interrupt_Idle :: "kbuild \<Rightarrow> Kernel \<Rightarrow> kstop + Kernel" where
  "Interrupt_Idle b k =
     bind_res (klift (CheckIfDue b True (k\<lparr>int_status := IdleMode\<rparr>))) (\<lambda>(fired, k1).
       if fired
       then bind_res (klift (returns (check_loop b k1))) (\<lambda>k2.
              Inr (k2\<lparr>yieldOnReturn := False, int_status := SystemMode\<rparr>))
       else Inl (KHalted k1))"

subsection \<open>Threads (thread.cc)\<close>

fun first_free :: "nat \<Rightarrow> bool list \<Rightarrow> nat option" where
  "first_free i [] = None"
| "first_free i (u # us) = (if \<not> u then Some i else first_free (i + 1) us)"

definition allocatedThreadID :: "bool list \<Rightarrow> (int \<times> bool list) res" where
  "allocatedThreadID ids =
     (case first_free 0 ids of None \<Rightarrow> Inr (-1, ids) | Some i \<Rightarrow> Inr (int i, ids[i := True]))"

text \<open>The constructor: a priority outside 0..10 is corrected in the parameter only.\<close>

definition Thread_Thread :: "int \<Rightarrow> Kernel \<Rightarrow> (tid \<times> Kernel) res" where
  "Thread_Thread pri k =
     bind_res (allocatedThreadID (threadIds k)) (\<lambda>(tid, ids).
     bind_res (ASSERT (tid \<noteq> -1)) (\<lambda>_.
       let th = \<lparr>status = JUST_CREATED, priority = (if pri < 0 then None else if pri > 10 then None else Some pri),
                 threadId = tid, stack = None, frames = [], received = []\<rparr>
       in Inr (next_tid k, k\<lparr>threads := (threads k)(next_tid k \<mapsto> th), next_tid := next_tid k + 1,
                             threadIds := ids\<rparr>)))"

text \<open>The stack of a new thread: ThreadRoot enables interrupts, calls the procedure, then Finish.\<close>

definition StackAllocate :: "tid \<Rightarrow> frame list \<Rightarrow> Kernel \<Rightarrow> Kernel res" where
  "StackAllocate t body k = bind_res (get_thread t k) (\<lambda>th.
     Inr (put_thread t (th\<lparr>stack := Some STACK_FENCEPOST, frames := CSetLevel IntOn # body @ [CFinish]\<rparr>) k))"

definition Thread_Fork :: "kbuild \<Rightarrow> tid \<Rightarrow> frame list \<Rightarrow> Kernel \<Rightarrow> Kernel res" where
  "Thread_Fork b t body k =
     bind_res (StackAllocate t body k) (\<lambda>k1.
     let (oldLevel, k2) = SetLevel_off k1 in
     bind_res (ReadyToRun b t k2) (\<lambda>k3. push [CSetLevel oldLevel] k3))"

definition Thread_Sleep :: "Kernel \<Rightarrow> Kernel res" where
  "Thread_Sleep k =
     bind_res (ASSERT (level k = IntOff)) (\<lambda>_.
     bind_res (set_status (currentThread k) BLOCKED k) (\<lambda>k1. push [SleepLoop] k1))"

definition Sleep_loop :: "kbuild \<Rightarrow> Kernel \<Rightarrow> kstop + Kernel" where
  "Sleep_loop b k =
     bind_res (klift (FindNextToRun b True k)) (\<lambda>(nextThread, k1).
       case nextThread of
         None \<Rightarrow> bind_res (Interrupt_Idle b k1) (\<lambda>k2. klift (push [SleepLoop] k2))
       | Some t \<Rightarrow> klift (Scheduler_Run t k1))"

definition Thread_Finish :: "Kernel \<Rightarrow> Kernel res" where
  "Thread_Finish k =
     (let (_, k1) = SetLevel_off k
      in Thread_Sleep (k1\<lparr>threadToBeDestroyed := Some (currentThread k1)\<rparr>))"

definition Thread_Yield :: "kbuild \<Rightarrow> Kernel \<Rightarrow> Kernel res" where
  "Thread_Yield b k =
     (let (oldLevel, k1) = SetLevel_off k in
      bind_res (FindNextToRun b False k1) (\<lambda>(nextThread, k2).
        case nextThread of
          None \<Rightarrow> push [CSetLevel oldLevel] k2
        | Some t \<Rightarrow> bind_res (ReadyToRun b (currentThread k2) k2) (\<lambda>k3.
                    bind_res (push [CSetLevel oldLevel] k3) (Scheduler_Run t))))"

subsection \<open>The clock\<close>

definition Interrupt_SetLevel :: "IntStatus \<Rightarrow> Kernel \<Rightarrow> Kernel res" where
  "Interrupt_SetLevel now k =
     bind_res (ASSERT (now = IntOff \<or> \<not> inHandler k)) (\<lambda>_.
     let old = level k; k1 = k\<lparr>level := now\<rparr> in
     if now = IntOn \<and> old = IntOff then push [COneTick] k1 else Inr k1)"

definition advance_time :: "Kernel \<Rightarrow> Kernel res" where
  "advance_time k =
     (if int_status k = SystemMode
      then bind_res (int_add (totalTicks k) SystemTick) (\<lambda>t. bind_res (int_add (systemTicks k) SystemTick) (\<lambda>s.
           Inr (k\<lparr>totalTicks := t, systemTicks := s\<rparr>)))
      else bind_res (int_add (totalTicks k) UserTick) (\<lambda>t. bind_res (int_add (userTicks k) UserTick) (\<lambda>u.
           Inr (k\<lparr>totalTicks := t, userTicks := u\<rparr>))))"

definition Interrupt_OneTick :: "kbuild \<Rightarrow> Kernel \<Rightarrow> Kernel res" where
  "Interrupt_OneTick b k =
     (let old = int_status k in
      bind_res (advance_time k) (\<lambda>k1.
      bind_res (returns (check_loop b (k1\<lparr>level := IntOff\<rparr>))) (\<lambda>k2.
      let k3 = k2\<lparr>level := IntOn\<rparr> in
      if yieldOnReturn k3
      then push [CYield, TickTail old] (k3\<lparr>yieldOnReturn := False, int_status := SystemMode\<rparr>)
      else Inr k3)))"

subsection \<open>Synchronization (synch.cc)\<close>

text \<open>P from its while loop on; interrupts are off. The value only goes down when it is not zero.\<close>

definition P_loop :: "sid \<Rightarrow> IntStatus \<Rightarrow> Kernel \<Rightarrow> Kernel res" where
  "P_loop s oldLevel k =
     (let sem = sems k s in
      if sem_value sem = 0
      then bind_res (push [PLoop s oldLevel]
             (k\<lparr>sems := (sems k)(s := sem\<lparr>sem_queue := sem_queue sem @ [(currentThread k, 0)]\<rparr>)\<rparr>)) Thread_Sleep
      else push [CSetLevel oldLevel] (k\<lparr>sems := (sems k)(s := sem\<lparr>sem_value := sem_value sem - 1\<rparr>)\<rparr>))"

definition Semaphore_P :: "sid \<Rightarrow> Kernel \<Rightarrow> Kernel res" where
  "Semaphore_P s k = (let (oldLevel, k1) = SetLevel_off k in P_loop s oldLevel k1)"

definition Semaphore_V :: "kbuild \<Rightarrow> sid \<Rightarrow> Kernel \<Rightarrow> Kernel res" where
  "Semaphore_V b s k =
     (let (oldLevel, k1) = SetLevel_off k in bind_res (V_body b s k1) (push [CSetLevel oldLevel]))"

definition isHeldByCurrentThread :: "lid \<Rightarrow> Kernel \<Rightarrow> bool" where
  "isHeldByCurrentThread l k \<longleftrightarrow> owner k l = Some (currentThread k)"

definition Lock_Acquire :: "lid \<Rightarrow> Kernel \<Rightarrow> Kernel res" where
  "Lock_Acquire l k =
     (let (prev, k1) = SetLevel_off k
      in bind_res (push [AcquireTail l prev] k1) (Semaphore_P (LSem l)))"

definition Acquire_tail :: "lid \<Rightarrow> IntStatus \<Rightarrow> Kernel \<Rightarrow> Kernel res" where
  "Acquire_tail l prev k = push [CSetLevel prev] (k\<lparr>owner := (owner k)(l := Some (currentThread k))\<rparr>)"

text \<open>The body of Release with interrupts off: the assertion, V on the semaphore, no owner.\<close>

definition Release_body :: "kbuild \<Rightarrow> lid \<Rightarrow> Kernel \<Rightarrow> Kernel res" where
  "Release_body b l k =
     bind_res (ASSERT (owner k l = Some (currentThread k))) (\<lambda>_.
     bind_res (V_body b (LSem l) k) (\<lambda>k1. Inr (k1\<lparr>owner := (owner k1)(l := None)\<rparr>)))"

definition Lock_Release :: "kbuild \<Rightarrow> lid \<Rightarrow> Kernel \<Rightarrow> Kernel res" where
  "Lock_Release b l k =
     (let (prev, k1) = SetLevel_off k in bind_res (Release_body b l k1) (push [CSetLevel prev]))"

definition Condition_Wait :: "kbuild \<Rightarrow> cid \<Rightarrow> lid \<Rightarrow> Kernel \<Rightarrow> Kernel res" where
  "Condition_Wait b c l k =
     (let (prev, k1) = SetLevel_off k in
      bind_res (ASSERT (isHeldByCurrentThread l k1)) (\<lambda>_.
      bind_res (Release_body b l k1) (\<lambda>k2.
      bind_res (push [CAcquire l, WaitTail c prev]
        (k2\<lparr>conds := (conds k2)(c := conds k2 c @ [(currentThread k2, 0)])\<rparr>)) Thread_Sleep)))"

definition Signal_body :: "kbuild \<Rightarrow> cid \<Rightarrow> lid \<Rightarrow> Kernel \<Rightarrow> Kernel res" where
  "Signal_body b c l k =
     bind_res (ASSERT (isHeldByCurrentThread l k)) (\<lambda>_.
     case conds k c of
       [] \<Rightarrow> Inr k
     | (t, _) # rest \<Rightarrow> ReadyToRun b t (k\<lparr>conds := (conds k)(c := rest)\<rparr>))"

definition Condition_Signal :: "kbuild \<Rightarrow> cid \<Rightarrow> lid \<Rightarrow> Kernel \<Rightarrow> Kernel res" where
  "Condition_Signal b c l k =
     (let (prev, k1) = SetLevel_off k in bind_res (Signal_body b c l k1) (push [CSetLevel prev]))"

text \<open>The loop of Broadcast; each round takes one thread off the queue, so as many rounds as the queue is
  long are enough.\<close>

fun broadcast_loop :: "nat \<Rightarrow> kbuild \<Rightarrow> cid \<Rightarrow> lid \<Rightarrow> Kernel \<Rightarrow> Kernel res" where
  "broadcast_loop 0 b c l k = (if conds k c = [] then Inr k else Inl Diverges)"
| "broadcast_loop (Suc n) b c l k =
     (if conds k c = [] then Inr k else bind_res (Signal_body b c l k) (broadcast_loop n b c l))"

definition Condition_Broadcast :: "kbuild \<Rightarrow> cid \<Rightarrow> lid \<Rightarrow> Kernel \<Rightarrow> Kernel res" where
  "Condition_Broadcast b c l k =
     (let (prev, k1) = SetLevel_off k in
      bind_res (ASSERT (isHeldByCurrentThread l k1)) (\<lambda>_.
      bind_res (broadcast_loop (length (conds k1 c)) b c l k1) (push [CSetLevel prev])))"

subsection \<open>Synchronized lists (synchlist.cc)\<close>

text \<open>Items are addresses, 0 is NULL. Remove returns the item to its caller, the current thread.\<close>

definition receive :: "nat \<Rightarrow> Kernel \<Rightarrow> Kernel res" where
  "receive x k = bind_res (get_thread (currentThread k) k) (\<lambda>th.
     Inr (put_thread (currentThread k) (th\<lparr>received := x # received th\<rparr>) k))"

definition SynchList_Append :: "nat \<Rightarrow> nat \<Rightarrow> Kernel \<Rightarrow> Kernel res" where
  "SynchList_Append n x k =
     push [CAcquire (SLock n), ListPut n x, CSignal (SCond n) (SLock n), CRelease (SLock n)] k"

definition List_put :: "nat \<Rightarrow> nat \<Rightarrow> Kernel \<Rightarrow> Kernel res" where
  "List_put n x k = Inr (k\<lparr>slists := (slists k)(n := slists k n @ [x])\<rparr>)"

definition SynchList_Remove :: "nat \<Rightarrow> Kernel \<Rightarrow> Kernel res" where
  "SynchList_Remove n k = push [CAcquire (SLock n), ListLoop n] k"

definition List_loop :: "nat \<Rightarrow> Kernel \<Rightarrow> Kernel res" where
  "List_loop n k =
     (case slists k n of
        [] \<Rightarrow> push [CWait (SCond n) (SLock n), ListLoop n] k
      | x # rest \<Rightarrow>
          bind_res (ASSERT (x \<noteq> 0)) (\<lambda>_.
          bind_res (push [CRelease (SLock n)] (k\<lparr>slists := (slists k)(n := rest)\<rparr>)) (receive x)))"

subsection \<open>Requests to devices\<close>

text \<open>Starting an operation of a device (disk.cc, console.cc, network.cc): the device must be idle, and an
  interrupt is scheduled for the end of the operation.\<close>

definition Device_Request :: "nat \<Rightarrow> int \<Rightarrow> IntType \<Rightarrow> Kernel \<Rightarrow> Kernel res" where
  "Device_Request n ticks ty k =
     bind_res (ASSERT (\<not> busy k n)) (\<lambda>_.
     Interrupt_Schedule (DeviceDone n) ticks ty (k\<lparr>busy := (busy k)(n := True)\<rparr>))"

subsection \<open>One step of the system\<close>

definition exec_frame :: "kbuild \<Rightarrow> frame \<Rightarrow> Kernel \<Rightarrow> kstop + Kernel" where
  "exec_frame b f k =
     (case f of
        CP n \<Rightarrow> klift (Semaphore_P (USem n) k)
      | CV n \<Rightarrow> klift (Semaphore_V b (USem n) k)
      | CAcquire l \<Rightarrow> klift (Lock_Acquire l k)
      | CRelease l \<Rightarrow> klift (Lock_Release b l k)
      | CWait c l \<Rightarrow> klift (Condition_Wait b c l k)
      | CSignal c l \<Rightarrow> klift (Condition_Signal b c l k)
      | CBroadcast c l \<Rightarrow> klift (Condition_Broadcast b c l k)
      | CYield \<Rightarrow> klift (Thread_Yield b k)
      | CFork pri body \<Rightarrow> klift (bind_res (Thread_Thread pri k) (\<lambda>(t, k1). Thread_Fork b t body k1))
      | CFinish \<Rightarrow> klift (Thread_Finish k)
      | CSetLevel now \<Rightarrow> klift (Interrupt_SetLevel now k)
      | COneTick \<Rightarrow> klift (Interrupt_OneTick b k)
      | CListAppend n x \<Rightarrow> klift (SynchList_Append n x k)
      | CListRemove n \<Rightarrow> klift (SynchList_Remove n k)
      | CRequest n ticks ty \<Rightarrow> klift (Device_Request n ticks ty k)
      | PLoop s oldLevel \<Rightarrow> klift (P_loop s oldLevel k)
      | AcquireTail l prev \<Rightarrow> klift (Acquire_tail l prev k)
      | WaitTail c prev \<Rightarrow> klift (push [CSetLevel prev] k)
      | SleepLoop \<Rightarrow> Sleep_loop b k
      | RunTail \<Rightarrow> klift (Run_tail k)
      | TickTail old \<Rightarrow> Inr (k\<lparr>int_status := old\<rparr>)
      | ListPut n x \<Rightarrow> klift (List_put n x k)
      | ListLoop n \<Rightarrow> klift (List_loop n k))"

text \<open>The processor takes the next frame off the stack of the current thread.\<close>

definition kstep :: "kbuild \<Rightarrow> Kernel \<Rightarrow> kstop + Kernel" where
  "kstep b k =
     bind_res (klift (get_thread (currentThread k) k)) (\<lambda>th.
       case frames th of
         [] \<Rightarrow> Inl (KFault BadPointer)
       | f # fs \<Rightarrow> exec_frame b f (put_thread (currentThread k) (th\<lparr>frames := fs\<rparr>) k))"

subsection \<open>Start of the system (system.cc)\<close>

definition Semaphore_Semaphore :: "int \<Rightarrow> Semaphore" where
  "Semaphore_Semaphore initialValue = \<lparr>sem_value = initialValue, sem_queue = []\<rparr>"

definition Timer_Timer :: "bool \<Rightarrow> Kernel \<Rightarrow> Kernel res" where
  "Timer_Timer doRandom k =
     (let (d, k1) = TimeOfNextInterrupt (k\<lparr>randomize := doRandom\<rparr>)
      in Interrupt_Schedule TimerHandler d TimerInt k1)"

text \<open>The semaphores of clients have the given initial values; the one inside a lock starts at 1.\<close>

definition initial_sems :: "(nat \<Rightarrow> int) \<Rightarrow> sid \<Rightarrow> Semaphore" where
  "initial_sems initialValue s =
     (case s of USem n \<Rightarrow> Semaphore_Semaphore (initialValue n) | LSem l \<Rightarrow> Semaphore_Semaphore 1)"

text \<open>Initialize, and main with the given calls as its body; it ends in Finish.\<close>

definition Initialize :: "bool \<Rightarrow> (nat \<Rightarrow> nat) \<Rightarrow> (nat \<Rightarrow> int) \<Rightarrow> frame list \<Rightarrow> Kernel res" where
  "Initialize randomYield rnd initialValue body =
     (let k0 = \<lparr>threads = (\<lambda>_. None), next_tid = 0, currentThread = 0, threadToBeDestroyed = None,
           threadIds = replicate maxThreadsCount False, readyList = [], lastSwitchTick = 0,
           level = IntOff, pending = [], inHandler = False, yieldOnReturn = False, int_status = SystemMode,
           totalTicks = 0, idleTicks = 0, systemTicks = 0, userTicks = 0,
           sems = initial_sems initialValue, owner = (\<lambda>_. None), conds = (\<lambda>_. []), slists = (\<lambda>_. []),
           busy = (\<lambda>_. False), randomize = False, random = rnd, random_calls = 0\<rparr>
      in bind_res (if randomYield then Timer_Timer randomYield k0 else Inr k0) (\<lambda>k1.
         bind_res (Thread_Thread 6 k1) (\<lambda>(t, k2).
         bind_res (set_status t RUNNING (k2\<lparr>currentThread := t\<rparr>)) (\<lambda>k3.
         push (CSetLevel IntOn # body @ [CFinish]) k3))))"

end
