(* ===== verification/Nachos_KernelInv.thy ===== *)
theory Nachos_KernelInv
  imports Nachos_Kernel
begin

text \<open>
  The invariant of the thread system and the proof that every step of \<open>kstep\<close> keeps it: each thread is in
  exactly the list its status and its stack say, semaphores never go below zero, the semaphore inside a
  lock is taken exactly while the lock has an owner, thread numbers are unique, pending interrupts are
  in the order of their time.
\<close>

section \<open>Invariants of the thread system\<close>

subsection \<open>Where a thread waits\<close>

datatype wpoint = WSem sid | WCond cid

fun wait_of :: "frame list \<Rightarrow> wpoint option" where
  "wait_of [] = None"
| "wait_of (f # fs) =
     (case f of
        SleepLoop \<Rightarrow> wait_of fs
      | RunTail \<Rightarrow> wait_of fs
      | PLoop s old \<Rightarrow> Some (WSem s)
      | CAcquire l \<Rightarrow> (case fs of WaitTail c prev # _ \<Rightarrow> Some (WCond c) | _ \<Rightarrow> None)
      | _ \<Rightarrow> None)"

definition queue :: "Kernel \<Rightarrow> wpoint \<Rightarrow> (tid \<times> int) list" where
  "queue k w = (case w of WSem s \<Rightarrow> sem_queue (sems k s) | WCond c \<Rightarrow> conds k c)"

text \<open>A property of each thread object, as a map.\<close>

definition view :: "(Thread \<Rightarrow> 'a) \<Rightarrow> Kernel \<Rightarrow> tid \<Rightarrow> 'a option" where
  "view f k t = map_option f (threads k t)"

abbreviation stat :: "Kernel \<Rightarrow> tid \<Rightarrow> ThreadStatus option" where
  "stat \<equiv> view status"

abbreviation wait_at :: "Kernel \<Rightarrow> tid \<Rightarrow> wpoint option option" where
  "wait_at \<equiv> view (\<lambda>th. wait_of (frames th))"

abbreviation tids :: "(tid \<times> int) list \<Rightarrow> tid set" where
  "tids q \<equiv> fst ` set q"

text \<open>The ready list holds the READY threads, every wait queue the BLOCKED threads whose stack
  says they wait there; each thread is in its list once. Threads in \<open>T\<close> are on the way from one
  list to another.\<close>

definition placed_out :: "tid set \<Rightarrow> Kernel \<Rightarrow> bool" where
  "placed_out T k \<longleftrightarrow>
     distinct (map fst (readyList k)) \<and>
     (\<forall>t. t \<in> tids (readyList k) \<longleftrightarrow> t \<notin> T \<and> stat k t = Some READY) \<and>
     (\<forall>w. distinct (map fst (queue k w)) \<and>
        (\<forall>t. t \<in> tids (queue k w) \<longleftrightarrow> t \<notin> T \<and> stat k t = Some BLOCKED \<and> wait_at k t = Some (Some w)))"

subsection \<open>Shapes of stacks\<close>

text \<open>The calls the code of a thread may consist of.\<close>

fun user_call :: "frame \<Rightarrow> bool" where
  "user_call (CFork pri body) = list_all user_call body"
| "user_call (CP n) = True"
| "user_call (CV n) = True"
| "user_call (CAcquire l) = True"
| "user_call (CRelease l) = True"
| "user_call (CWait c l) = True"
| "user_call (CSignal c l) = True"
| "user_call (CBroadcast c l) = True"
| "user_call CYield = True"
| "user_call CFinish = True"
| "user_call (CListAppend n x) = True"
| "user_call (CListRemove n) = True"
| "user_call (CRequest n ticks ty) = True"
| "user_call _ = False"

text \<open>The lock whose semaphore the current thread has taken without being its owner yet.\<close>

fun acquiring :: "frame list \<Rightarrow> lid set" where
  "acquiring [] = {}"
| "acquiring (f # fs) =
     (case f of AcquireTail l prev \<Rightarrow> {l}
      | CSetLevel now \<Rightarrow> (case now of IntOff \<Rightarrow> (case fs of AcquireTail l prev # _ \<Rightarrow> {l} | _ \<Rightarrow> {}) | IntOn \<Rightarrow> {})
      | _ \<Rightarrow> {})"

fun at_acquire :: "frame list \<Rightarrow> bool" where
  "at_acquire [] = False"
| "at_acquire (f # fs) = (case f of AcquireTail l prev \<Rightarrow> True | _ \<Rightarrow> False)"

fun at_wait :: "frame list \<Rightarrow> bool" where
  "at_wait [] = False"
| "at_wait (f # fs) = (case f of WaitTail c prev \<Rightarrow> True | _ \<Rightarrow> False)"

text \<open>\<open>stk l fs\<close>: the stack \<open>fs\<close> may run with the interrupt level \<open>l\<close>. Every routine puts the
  level back that it found; what runs with interrupts off is between a SetLevel and the one that undoes it.\<close>

fun stk :: "IntStatus \<Rightarrow> frame list \<Rightarrow> bool" where
  "stk l [] \<longleftrightarrow> False"
| "stk l (f # fs) \<longleftrightarrow>
     (case f of
        CSetLevel now \<Rightarrow> l = IntOff \<and> stk now fs \<and> (now = IntOff \<longrightarrow> at_acquire fs \<or> at_wait fs)
      | PLoop s old \<Rightarrow> l = IntOff \<and> stk old fs \<and>
          (case s of USem n \<Rightarrow> old = IntOn | LSem x \<Rightarrow> old = IntOff \<and> (\<exists>prev r. fs = AcquireTail x prev # r))
      | AcquireTail x prev \<Rightarrow> l = IntOff \<and> stk prev fs \<and> (prev = IntOff \<longrightarrow> at_wait fs)
      | WaitTail c prev \<Rightarrow> l = IntOff \<and> prev = IntOn \<and> stk IntOn fs
      | RunTail \<Rightarrow> l = IntOff \<and> stk IntOff fs \<and> acquiring fs = {}
      | SleepLoop \<Rightarrow> False
      | CAcquire x \<Rightarrow> stk l fs \<and> (l = IntOff \<longrightarrow> at_wait fs)
      | CFork pri body \<Rightarrow> l = IntOn \<and> list_all user_call body \<and> stk IntOn fs
      | CFinish \<Rightarrow> l = IntOn \<and> wait_of fs = None
      | _ \<Rightarrow> l = IntOn \<and> stk IntOn fs)"

lemma stk_on_acquiring [simp]: "stk IntOn fs \<Longrightarrow> acquiring fs = {}"
  by (cases fs) (auto split: frame.splits)

lemma at_wait_acquiring: "at_wait fs \<Longrightarrow> acquiring fs = {}"
  by (cases fs) (auto split: frame.splits)

lemma stk_on_wait [simp]: "stk IntOn fs \<Longrightarrow> wait_of fs = None"
  by (cases fs) (auto split: frame.splits list.splits)

lemma stk_body:
  "list_all user_call fs \<Longrightarrow> stk IntOn rest \<Longrightarrow> stk IntOn (fs @ rest)"
proof (induction fs)
  case (Cons f fs)
  then have IH: "stk IntOn (fs @ rest)" and u: "user_call f" by simp_all
  from u IH show ?case by (cases f) simp_all
qed simp

subsection \<open>The invariant\<close>

definition zombie :: "Thread \<Rightarrow> bool" where
  "zombie th \<longleftrightarrow> status th = BLOCKED \<and> wait_of (frames th) = None"

text \<open>A thread that is not running: it stopped in Run, or has not started; unless it has finished, it can go
  on with interrupts off.\<close>

definition resting :: "Thread \<Rightarrow> bool" where
  "resting th \<longleftrightarrow> status th \<in> {READY, BLOCKED} \<and>
     (\<exists>fs. frames th = RunTail # fs \<or> frames th = CSetLevel IntOn # fs) \<and> (stk IntOff (frames th) \<or> zombie th)"

text \<open>The current thread runs, or looks for another one to run in Sleep.\<close>

definition running :: "IntStatus \<Rightarrow> Thread \<Rightarrow> bool" where
  "running l th \<longleftrightarrow> status th = RUNNING \<and> stk l (frames th) \<or>
     (\<exists>fs. frames th = SleepLoop # fs \<and> l = IntOff \<and> status th \<in> {READY, BLOCKED} \<and>
        (stk IntOff fs \<and> acquiring fs = {} \<or> zombie th))"

definition thread_wf :: "kbuild \<Rightarrow> Thread \<Rightarrow> bool" where
  "thread_wf b th \<longleftrightarrow> stack th \<in> {None, Some STACK_FENCEPOST} \<and> (SCHED_PRIORITY b \<longrightarrow> priority th \<noteq> None)"

definition ids_ok :: "bool list \<Rightarrow> (tid \<Rightarrow> int option) \<Rightarrow> tid \<Rightarrow> bool" where
  "ids_ok ids f n \<longleftrightarrow> length ids = maxThreadsCount \<and>
     (\<forall>t i. f t = Some i \<longrightarrow> 0 \<le> i \<and> nat i < maxThreadsCount \<and> t < n) \<and>
     (\<forall>t t' i. f t = Some i \<and> f t' = Some i \<longrightarrow> t = t') \<and>
     (\<forall>i < maxThreadsCount. ids ! i \<longleftrightarrow> (\<exists>t. f t = Some (int i)))"

text \<open>The interrupts are in the order of their times, and every tick is idle, system or user time.\<close>

definition clock_ok :: "Kernel \<Rightarrow> bool" where
  "clock_ok k \<longleftrightarrow> sorted (map snd (pending k)) \<and> (\<forall>(p, w) \<in> set (pending k). p_when p = w) \<and>
     0 \<le> idleTicks k \<and> 0 \<le> systemTicks k \<and> 0 \<le> userTicks k \<and> totalTicks k = idleTicks k + systemTicks k + userTicks k"

text \<open>A semaphore is not negative. A thread queues only when the value is zero and each V removes one
  thread, so while threads are queued the value stays below the number of threads.\<close>

definition sem_ok :: "Semaphore \<Rightarrow> bool" where
  "sem_ok sem \<longleftrightarrow> 0 \<le> sem_value sem \<and>
     (sem_queue sem \<noteq> [] \<longrightarrow> sem_value sem + int (length (sem_queue sem)) \<le> int maxThreadsCount)"

definition ready_sorted :: "(tid \<times> int) list \<Rightarrow> (tid \<Rightarrow> int option option) \<Rightarrow> bool" where
  "ready_sorted q f \<longleftrightarrow> sorted (map snd q) \<and> (\<forall>(t, p) \<in> set q. f t = Some (Some p))"

definition base_out :: "tid set \<Rightarrow> kbuild \<Rightarrow> Kernel \<Rightarrow> bool" where
  "base_out T b k \<longleftrightarrow>
     placed_out T k \<and>
     (\<forall>t th. threads k t = Some th \<longrightarrow> thread_wf b th) \<and>
     (\<forall>t th. threads k t = Some th \<and> t \<noteq> currentThread k \<and> t \<notin> T \<longrightarrow> resting th) \<and>
     (\<forall>s. sem_ok (sems k s)) \<and>
     ids_ok (threadIds k) (view threadId k) (next_tid k) \<and>
     (\<forall>t. threadToBeDestroyed k = Some t \<longrightarrow> (\<exists>th. threads k t = Some th \<and> zombie th)) \<and>
     clock_ok k \<and>
     (SCHED_PRIORITY b \<longrightarrow> ready_sorted (readyList k) (view priority k))"

abbreviation base :: "kbuild \<Rightarrow> Kernel \<Rightarrow> bool" where
  "base \<equiv> base_out {}"

definition locks :: "Kernel \<Rightarrow> lid set \<Rightarrow> bool" where
  "locks k X \<longleftrightarrow> (\<forall>l. sem_value (sems k (LSem l)) = (if owner k l = None \<and> l \<notin> X then 1 else 0)) \<and>
     (\<forall>l \<in> X. owner k l = None)"

definition kernel_inv :: "kbuild \<Rightarrow> Kernel \<Rightarrow> bool" where
  "kernel_inv b k \<longleftrightarrow> base b k \<and> \<not> inHandler k \<and>
     (\<exists>th. threads k (currentThread k) = Some th \<and> running (level k) th \<and> locks k (acquiring (frames th)))"

subsection \<open>What the invariant depends on\<close>

lemma view_put [simp]: "view f (put_thread t th k) = (view f k)(t := Some (f th))"
  by (auto simp: view_def put_thread_def)

lemma view_updates [simp]:
  "view f (k\<lparr>readyList := a0\<rparr>) = view f k" "view f (k\<lparr>level := a1\<rparr>) = view f k"
  "view f (k\<lparr>sems := a2\<rparr>) = view f k" "view f (k\<lparr>conds := a3\<rparr>) = view f k"
  "view f (k\<lparr>pending := a4\<rparr>) = view f k" "view f (k\<lparr>currentThread := a5\<rparr>) = view f k"
  "view f (k\<lparr>threadIds := a6\<rparr>) = view f k" "view f (k\<lparr>next_tid := a7\<rparr>) = view f k"
  "view f (k\<lparr>lastSwitchTick := a8\<rparr>) = view f k" "view f (k\<lparr>threadToBeDestroyed := a9\<rparr>) = view f k"
  "view f (k\<lparr>inHandler := a10\<rparr>) = view f k" "view f (k\<lparr>yieldOnReturn := a11\<rparr>) = view f k"
  "view f (k\<lparr>int_status := a12\<rparr>) = view f k" "view f (k\<lparr>totalTicks := a13\<rparr>) = view f k"
  "view f (k\<lparr>idleTicks := a14\<rparr>) = view f k" "view f (k\<lparr>systemTicks := a15\<rparr>) = view f k"
  "view f (k\<lparr>userTicks := a16\<rparr>) = view f k" "view f (k\<lparr>owner := a17\<rparr>) = view f k"
  "view f (k\<lparr>slists := a18\<rparr>) = view f k" "view f (k\<lparr>random_calls := a19\<rparr>) = view f k"
  "view f (k\<lparr>busy := a20\<rparr>) = view f k"
  by (simp_all add: view_def fun_eq_iff)

lemma queue_updates [simp]:
  "queue (put_thread t th k) = queue k" "queue (k\<lparr>readyList := a0\<rparr>) = queue k"
  "queue (k\<lparr>level := a1\<rparr>) = queue k" "queue (k\<lparr>pending := a2\<rparr>) = queue k"
  "queue (k\<lparr>currentThread := a3\<rparr>) = queue k" "queue (k\<lparr>threadIds := a4\<rparr>) = queue k"
  "queue (k\<lparr>next_tid := a5\<rparr>) = queue k" "queue (k\<lparr>lastSwitchTick := a6\<rparr>) = queue k"
  "queue (k\<lparr>threadToBeDestroyed := a7\<rparr>) = queue k" "queue (k\<lparr>inHandler := a8\<rparr>) = queue k"
  "queue (k\<lparr>yieldOnReturn := a9\<rparr>) = queue k" "queue (k\<lparr>int_status := a10\<rparr>) = queue k"
  "queue (k\<lparr>totalTicks := a11\<rparr>) = queue k" "queue (k\<lparr>idleTicks := a12\<rparr>) = queue k"
  "queue (k\<lparr>systemTicks := a13\<rparr>) = queue k" "queue (k\<lparr>userTicks := a14\<rparr>) = queue k"
  "queue (k\<lparr>owner := a15\<rparr>) = queue k" "queue (k\<lparr>slists := a16\<rparr>) = queue k"
  "queue (k\<lparr>random_calls := a17\<rparr>) = queue k" "queue (k\<lparr>threads := a18\<rparr>) = queue k"
  "queue (k\<lparr>busy := a20\<rparr>) = queue k"
  by (simp_all add: queue_def put_thread_def fun_eq_iff split: wpoint.split)

lemma queue_sems [simp]:
  "queue (k\<lparr>sems := (sems k)(s := x)\<rparr>) = (queue k)(WSem s := sem_queue x)"
  by (auto simp: queue_def fun_eq_iff split: wpoint.splits)

lemma queue_conds [simp]:
  "queue (k\<lparr>conds := (conds k)(c := x)\<rparr>) = (queue k)(WCond c := x)"
  by (auto simp: queue_def fun_eq_iff split: wpoint.splits)

lemma put_thread_simps [simp]:
  "threads (put_thread t th k) = (threads k)(t \<mapsto> th)" "currentThread (put_thread t th k) = currentThread k"
  "sems (put_thread t th k) = sems k" "owner (put_thread t th k) = owner k" "conds (put_thread t th k) = conds k"
  "level (put_thread t th k) = level k" "readyList (put_thread t th k) = readyList k"
  "threadIds (put_thread t th k) = threadIds k" "next_tid (put_thread t th k) = next_tid k"
  "threadToBeDestroyed (put_thread t th k) = threadToBeDestroyed k" "pending (put_thread t th k) = pending k"
  "inHandler (put_thread t th k) = inHandler k" "totalTicks (put_thread t th k) = totalTicks k"
  "yieldOnReturn (put_thread t th k) = yieldOnReturn k" "slists (put_thread t th k) = slists k"
  "int_status (put_thread t th k) = int_status k" "systemTicks (put_thread t th k) = systemTicks k"
  "idleTicks (put_thread t th k) = idleTicks k" "userTicks (put_thread t th k) = userTicks k"
  by (simp_all add: put_thread_def)

lemma base_updates [simp]:
  "base_out T b (k\<lparr>level := a1\<rparr>) = base_out T b k" "base_out T b (k\<lparr>lastSwitchTick := a2\<rparr>) = base_out T b k"
  "base_out T b (k\<lparr>inHandler := a3\<rparr>) = base_out T b k" "base_out T b (k\<lparr>yieldOnReturn := a4\<rparr>) = base_out T b k"
  "base_out T b (k\<lparr>int_status := a5\<rparr>) = base_out T b k" "base_out T b (k\<lparr>owner := a10\<rparr>) = base_out T b k"
  "base_out T b (k\<lparr>busy := a13\<rparr>) = base_out T b k"
  "base_out T b (k\<lparr>slists := a11\<rparr>) = base_out T b k" "base_out T b (k\<lparr>random_calls := a12\<rparr>) = base_out T b k"
  by (simp_all add: base_out_def placed_out_def clock_ok_def)

lemma locks_updates [simp]:
  "locks (k\<lparr>level := a1\<rparr>) X = locks k X" "locks (k\<lparr>lastSwitchTick := a2\<rparr>) X = locks k X"
  "locks (k\<lparr>readyList := a3\<rparr>) X = locks k X" "locks (k\<lparr>pending := a4\<rparr>) X = locks k X"
  "locks (put_thread t th k) X = locks k X" "locks (k\<lparr>conds := a5\<rparr>) X = locks k X"
  "locks (k\<lparr>threadToBeDestroyed := a6\<rparr>) X = locks k X" "locks (k\<lparr>currentThread := a7\<rparr>) X = locks k X"
  "locks (k\<lparr>slists := a8\<rparr>) X = locks k X" "locks (k\<lparr>int_status := a9\<rparr>) X = locks k X"
  "locks (k\<lparr>yieldOnReturn := a10\<rparr>) X = locks k X" "locks (k\<lparr>busy := a11\<rparr>) X = locks k X"
  by (simp_all add: locks_def put_thread_def)

subsection \<open>Access\<close>

lemma get_thread_Some [simp]: "threads k t = Some th \<Longrightarrow> get_thread t k = Inr th"
  by (simp add: get_thread_def)

lemma set_status_Some [simp]:
  "threads k t = Some th \<Longrightarrow> set_status t st k = Inr (put_thread t (th\<lparr>status := st\<rparr>) k)"
  by (simp add: set_status_def)

lemma push_Some [simp]:
  "threads k (currentThread k) = Some th \<Longrightarrow>
   push fs k = Inr (put_thread (currentThread k) (th\<lparr>frames := fs @ frames th\<rparr>) k)"
  by (simp add: push_def)

lemma view_Some: "threads k t = Some th \<Longrightarrow> view f k t = Some (f th)"
  by (simp add: view_def)

lemma view_same: "threads k t = Some th \<Longrightarrow> f th' = f th \<Longrightarrow> (view f k)(t := Some (f th')) = view f k"
  by (auto simp: view_def)

lemma tids_ins_sorted [simp]: "tids (ins_sorted t p xs) = insert t (tids xs)"
proof -
  have "set (ins_sorted t p xs) = insert (t, p) (set xs)"
    using mset_ins_sorted [of t p xs] by (metis set_mset_add_mset_insert set_mset_mset)
  then show ?thesis by simp
qed

lemma set_ins_sorted [simp]: "set (ins_sorted t p xs) = insert (t, p) (set xs)"
  using mset_ins_sorted [of t p xs] by (metis set_mset_add_mset_insert set_mset_mset)

lemma distinct_ins_sorted:
  "distinct (map fst (ins_sorted t p xs)) \<longleftrightarrow> distinct (map fst xs) \<and> t \<notin> tids xs"
proof -
  have "mset (map fst (ins_sorted t p xs)) = mset (t # map fst xs)"
    by (metis image_mset_add_mset mset.simps(2) fst_conv list.simps(9) mset_ins_sorted mset_map)
  then show ?thesis
    using mset_eq_imp_distinct_iff [of "map fst (ins_sorted t p xs)" "t # map fst xs"] by auto
qed

subsection \<open>Moving a thread between lists\<close>

lemma placed_outD:
  assumes "placed_out T k"
  shows "distinct (map fst (readyList k))" "distinct (map fst (queue k w))"
    "t \<in> tids (readyList k) \<longleftrightarrow> t \<notin> T \<and> stat k t = Some READY"
    "t \<in> tids (queue k w) \<longleftrightarrow> t \<notin> T \<and> stat k t = Some BLOCKED \<and> wait_at k t = Some (Some w)"
  using assms by (simp_all add: placed_out_def)

lemma placed_outI:
  assumes "distinct (map fst (readyList k))" "\<And>w. distinct (map fst (queue k w))"
    "\<And>t. t \<in> tids (readyList k) \<longleftrightarrow> t \<notin> T \<and> stat k t = Some READY"
    "\<And>w t. t \<in> tids (queue k w) \<longleftrightarrow> t \<notin> T \<and> stat k t = Some BLOCKED \<and> wait_at k t = Some (Some w)"
  shows "placed_out T k"
  using assms by (simp add: placed_out_def)

lemma placed_dequeue:
  assumes "placed_out {} k" "queue k w = (t, x) # rest"
    "queue k' = (queue k)(w := rest)" "readyList k' = readyList k" "threads k' = threads k"
  shows "placed_out {t} k'" "stat k t = Some BLOCKED" "wait_at k t = Some (Some w)"
proof -
  note D = placed_outD [OF assms(1)]
  have v: "view f k' = view f k" for f by (simp add: view_def assms(5) fun_eq_iff)
  have t: "stat k t = Some BLOCKED" "wait_at k t = Some (Some w)"
    using D(4) [of t w] assms(2) by simp_all
  then show "stat k t = Some BLOCKED" "wait_at k t = Some (Some w)" .
  have q: "t \<notin> tids rest" "distinct (map fst rest)"
    using D(2) [of w] assms(2) by (simp_all add: image_iff)
  show "placed_out {t} k'"
  proof (rule placed_outI)
    show "distinct (map fst (queue k' w'))" for w' using D(2) [of w'] q assms(3) by simp
    show "u \<in> tids (queue k' w') \<longleftrightarrow> u \<notin> {t} \<and> stat k' u = Some BLOCKED \<and> wait_at k' u = Some (Some w')" for w' u
      using D(4) [of u w'] q t assms(2,3) by (auto simp: v)
  qed (use D(1,3) t in \<open>auto simp: assms(4) v\<close>)
qed

lemma placed_ready:
  assumes "placed_out (insert t T) k" "tids rl = insert t (tids (readyList k))" "distinct (map fst rl)" "t \<notin> T"
  shows "placed_out T ((put_thread t (th\<lparr>status := READY\<rparr>) k)\<lparr>readyList := rl\<rparr>)"
  using assms by (auto simp: placed_out_def)

lemma placed_runs:
  assumes "placed_out {t} k"
  shows "placed_out {} (put_thread t (th\<lparr>status := RUNNING\<rparr>) k)"
  using assms by (auto simp: placed_out_def)

lemma placed_leaves:
  assumes "placed_out {} k" "stat k t = Some RUNNING"
  shows "placed_out {t} k"
  using assms by (auto simp: placed_out_def)

lemma placed_frames:
  assumes "placed_out T k" "threads k t = Some th" "status th = RUNNING"
  shows "placed_out T (put_thread t (th\<lparr>frames := fs\<rparr>) k)"
  using assms by (auto simp: placed_out_def view_Some)

text \<open>The running thread goes to sleep in the queue \<open>w\<close>.\<close>

lemma placed_sleeps:
  assumes "placed_out {} k" "threads k t = Some th" "status th = RUNNING"
    and "queue k' = (queue k)(w := queue k w @ [(t, x)])" "readyList k' = readyList k"
    "threads k' = (threads k)(t \<mapsto> th')" "status th' = BLOCKED" "wait_of (frames th') = Some w"
  shows "placed_out {} k'"
proof -
  note D = placed_outD [OF assms(1)]
  have v: "view f k' = (view f k)(t := Some (f th'))" for f by (simp add: view_def assms(6) fun_eq_iff)
  have t: "stat k t = Some RUNNING" by (simp add: view_Some assms)
  show ?thesis
  proof (rule placed_outI)
    show "distinct (map fst (queue k' w'))" for w'
      using D(2) [of w'] D(4) [of t w] t by (auto simp: assms(4))
    show "u \<in> tids (queue k' w') \<longleftrightarrow> u \<notin> {} \<and> stat k' u = Some BLOCKED \<and> wait_at k' u = Some (Some w')" for w' u
      using D(4) [of u w'] t by (auto simp: assms(4,7,8) v)
  qed (use D(1,3) t in \<open>auto simp: assms(5,7) v\<close>)
qed

text \<open>The running thread finishes.\<close>

lemma placed_finishes:
  assumes "placed_out {} k" "threads k t = Some th" "status th = RUNNING"
    and "status th' = BLOCKED" "wait_of (frames th') = None"
  shows "placed_out {} (put_thread t th' k)"
  using assms by (auto simp: placed_out_def view_Some)

text \<open>A finished thread is freed.\<close>

lemma placed_freed:
  assumes "placed_out {} k" "threads k t = Some th" "zombie th"
  shows "placed_out {} (k\<lparr>threads := (threads k)(t := None)\<rparr>)"
proof -
  have v: "view f (k\<lparr>threads := (threads k)(t := None)\<rparr>) = (view f k)(t := None)" for f
    by (auto simp: view_def)
  show ?thesis
    using assms by (auto simp: placed_out_def v view_Some zombie_def)
qed

text \<open>The first ready thread leaves the ready list.\<close>

lemma placed_next:
  assumes "placed_out {} k" "readyList k = (t, p) # rest"
  shows "placed_out {t} (k\<lparr>readyList := rest\<rparr>)" "stat k t = Some READY"
proof -
  note D = placed_outD [OF assms(1)]
  show t: "stat k t = Some READY" using D(3) [of t] assms(2) by simp
  have q: "t \<notin> tids rest" "distinct (map fst rest)"
    using D(1) assms(2) by (simp_all add: image_iff)
  show "placed_out {t} (k\<lparr>readyList := rest\<rparr>)"
  proof (rule placed_outI)
    show "u \<in> tids (readyList (k\<lparr>readyList := rest\<rparr>)) \<longleftrightarrow> u \<notin> {t} \<and> stat (k\<lparr>readyList := rest\<rparr>) u = Some READY" for u
      using D(3) [of u] q assms(2) by auto
    show "u \<in> tids (queue (k\<lparr>readyList := rest\<rparr>) w) \<longleftrightarrow>
        u \<notin> {t} \<and> stat (k\<lparr>readyList := rest\<rparr>) u = Some BLOCKED \<and> wait_at (k\<lparr>readyList := rest\<rparr>) u = Some (Some w)" for u w
      using D(4) [of u w] t by auto
  qed (use q D(2) in simp_all)
qed

subsection \<open>Steps of the scheduler\<close>

lemma base_outD:
  assumes "base_out T b k"
  shows "placed_out T k" "threads k t = Some th \<Longrightarrow> thread_wf b th"
    "threads k t = Some th \<Longrightarrow> t \<noteq> currentThread k \<Longrightarrow> t \<notin> T \<Longrightarrow> resting th"
    "sem_ok (sems k s)" "ids_ok (threadIds k) (view threadId k) (next_tid k)"
    "threadToBeDestroyed k = Some t \<Longrightarrow> \<exists>th. threads k t = Some th \<and> zombie th"
    "clock_ok k" "SCHED_PRIORITY b \<Longrightarrow> ready_sorted (readyList k) (view priority k)"
  using assms by (simp_all add: base_out_def)

lemma base_put:
  assumes B: "base_out T b k" and t: "threads k t = Some th" and P: "placed_out T' (put_thread t th' k)"
    and same: "priority th' = priority th" "threadId th' = threadId th" "stack th' = stack th"
    and rest: "t \<noteq> currentThread k \<Longrightarrow> t \<notin> T' \<Longrightarrow> resting th'"
    and doom: "threadToBeDestroyed k = Some t \<Longrightarrow> zombie th'" and T: "T - {t} \<subseteq> T'"
  shows "base_out T' b (put_thread t th' k)"
proof -
  note D = base_outD [OF B]
  have wf: "thread_wf b th'" using D(2) [OF t] same by (simp add: thread_wf_def)
  have v: "(view threadId k)(t := Some (threadId th')) = view threadId k"
    "(view priority k)(t := Some (priority th')) = view priority k"
    by (rule view_same [where f = threadId, OF t same(2)], rule view_same [where f = priority, OF t same(1)])
  show ?thesis
    unfolding base_out_def
  proof (intro conjI allI impI)
    show "placed_out T' (put_thread t th' k)" by (rule P)
    show "thread_wf b th''" if "threads (put_thread t th' k) u = Some th''" for u th''
      using that wf D(2) [of u th''] by (auto split: if_splits)
    show "resting th''" if "threads (put_thread t th' k) u = Some th'' \<and> u \<noteq> currentThread (put_thread t th' k) \<and> u \<notin> T'" for u th''
      using that rest D(3) [of u th''] T by (auto split: if_splits)
    show "\<exists>th''. threads (put_thread t th' k) u = Some th'' \<and> zombie th''" if "threadToBeDestroyed (put_thread t th' k) = Some u" for u
      using that doom D(6) [of u] by auto
    show "clock_ok (put_thread t th' k)" using D(7) by (simp add: clock_ok_def)
  qed (use D(4,5,8) v in \<open>simp_all\<close>)
qed

lemma base_readyList:
  assumes B: "base_out T b k" and P: "placed_out T' (k\<lparr>readyList := rl\<rparr>)"
    and R: "SCHED_PRIORITY b \<Longrightarrow> ready_sorted rl (view priority k)"
    and T: "\<And>t th. threads k t = Some th \<Longrightarrow> t \<noteq> currentThread k \<Longrightarrow> t \<in> T \<Longrightarrow> t \<notin> T' \<Longrightarrow> resting th"
  shows "base_out T' b (k\<lparr>readyList := rl\<rparr>)"
proof -
  have "resting th" if "threads k t = Some th" "t \<noteq> currentThread k" "t \<notin> T'" for t th
    using base_outD(3) [OF B that(1,2)] T [OF that(1,2)] that(3) by blast
  then show ?thesis
    using B P R by (auto simp: base_out_def clock_ok_def)
qed

lemma ReadyToRun_base:
  assumes B: "base_out (insert t T) b k" and T: "t \<notin> T" and t: "threads k t = Some th"
    and f: "t \<noteq> currentThread k \<Longrightarrow> \<exists>fs. frames th = RunTail # fs \<or> frames th = CSetLevel IntOn # fs"
    and s: "t \<noteq> currentThread k \<Longrightarrow> stk IntOff (frames th)"
    and d: "threadToBeDestroyed k \<noteq> Some t"
  obtains rl where "ReadyToRun b t k = Inr ((put_thread t (th\<lparr>status := READY\<rparr>) k)\<lparr>readyList := rl\<rparr>)"
    "base_out T b ((put_thread t (th\<lparr>status := READY\<rparr>) k)\<lparr>readyList := rl\<rparr>)"
    "rl = (if SCHED_PRIORITY b then ins_sorted t (the (priority th)) (readyList k) else readyList k @ [(t, 0)])"
proof -
  define rl where "rl = (if SCHED_PRIORITY b then ins_sorted t (the (priority th)) (readyList k) else readyList k @ [(t, 0)])"
  let ?k = "put_thread t (th\<lparr>status := READY\<rparr>) k"
  note D = base_outD [OF B]
  have nt: "t \<notin> tids (readyList k)" using placed_outD(3) [OF D(1), of t] by simp
  have pr: "SCHED_PRIORITY b \<Longrightarrow> \<exists>p. priority th = Some p"
    using D(2) [OF t] by (auto simp: thread_wf_def)
  have R: "ReadyToRun b t k = Inr (?k\<lparr>readyList := rl\<rparr>)"
    using t pr by (auto simp: ReadyToRun_def getPriority_def rl_def)
  have ti: "tids rl = insert t (tids (readyList k))" "distinct (map fst rl)"
    using placed_outD(1) [OF D(1)] nt by (auto simp: rl_def distinct_ins_sorted)
  have P: "placed_out T (?k\<lparr>readyList := rl\<rparr>)"
    by (rule placed_ready [OF D(1) ti T])
  have P': "placed_out (insert t T) ?k"
    using D(1) t by (auto simp: placed_out_def)
  have B': "base_out (insert t T) b ?k"
    by (rule base_put [OF B t P']) (use d in auto)
  have v: "(view priority k)(t \<mapsto> priority th) = view priority k"
    by (rule view_same [OF t refl])
  have "ready_sorted rl (view priority k)" if "SCHED_PRIORITY b"
    using D(8) [OF that] pr [OF that] that sorted_ins_sorted [of "readyList k"] t
    by (auto simp: ready_sorted_def rl_def view_Some)
  then have "base_out T b (?k\<lparr>readyList := rl\<rparr>)"
    using f s by (intro base_readyList [OF B' P]) (auto simp: v resting_def)
  then show thesis using that R rl_def by blast
qed

text \<open>What running other code in between leaves of a state: threads that waited may have become ready.\<close>

definition evolves :: "Kernel \<Rightarrow> Kernel \<Rightarrow> bool" where
  "evolves k k' \<longleftrightarrow> currentThread k' = currentThread k \<and> owner k' = owner k \<and> level k' = level k \<and>
     threadToBeDestroyed k' = threadToBeDestroyed k \<and> slists k' = slists k \<and> dom (threads k') = dom (threads k) \<and>
     (\<forall>t th. threads k t = Some th \<longrightarrow> threads k' t = Some th \<or>
        (status th = BLOCKED \<and> wait_of (frames th) \<noteq> None \<and> threads k' t = Some (th\<lparr>status := READY\<rparr>)))"

lemma evolves_refl [simp]: "evolves k k"
  by (simp add: evolves_def)

lemma evolves_trans:
  assumes "evolves k k1" "evolves k1 k2"
  shows "evolves k k2"
proof -
  have "threads k2 t = Some th \<or>
        (status th = BLOCKED \<and> wait_of (frames th) \<noteq> None \<and> threads k2 t = Some (th\<lparr>status := READY\<rparr>))"
    if "threads k t = Some th" for t th
    using assms that unfolding evolves_def by fastforce
  then show ?thesis using assms by (simp add: evolves_def)
qed

lemma evolves_runs:
  assumes "evolves k k'" "threads k t = Some th" "status th \<noteq> BLOCKED \<or> wait_of (frames th) = None"
  shows "threads k' t = Some th"
  using assms unfolding evolves_def by blast

lemma evolves_updates [simp]:
  "evolves k (k'\<lparr>pending := a1\<rparr>) = evolves k k'" "evolves k (k'\<lparr>sems := a2\<rparr>) = evolves k k'"
  "evolves k (k'\<lparr>conds := a3\<rparr>) = evolves k k'" "evolves k (k'\<lparr>readyList := a4\<rparr>) = evolves k k'"
  "evolves k (k'\<lparr>inHandler := a5\<rparr>) = evolves k k'" "evolves k (k'\<lparr>yieldOnReturn := a6\<rparr>) = evolves k k'"
  "evolves k (k'\<lparr>int_status := a7\<rparr>) = evolves k k'" "evolves k (k'\<lparr>totalTicks := a8\<rparr>) = evolves k k'"
  "evolves k (k'\<lparr>idleTicks := a9\<rparr>) = evolves k k'" "evolves k (k'\<lparr>random_calls := a10\<rparr>) = evolves k k'"
  "evolves k (k'\<lparr>lastSwitchTick := a11\<rparr>) = evolves k k'"
  by (simp_all add: evolves_def)

lemma evolves_wake:
  assumes "threads k t = Some th" "status th = BLOCKED" "wait_of (frames th) \<noteq> None"
  shows "evolves k (put_thread t (th\<lparr>status := READY\<rparr>) k)"
  using assms by (auto simp: evolves_def)

lemma base_queues:
  assumes "base_out {} b k" "placed_out T (k\<lparr>sems := f, conds := g\<rparr>)" "\<And>s. sem_ok (f s)"
  shows "base_out T b (k\<lparr>sems := f, conds := g\<rparr>)"
  using assms by (auto simp: base_out_def clock_ok_def)

text \<open>Waking the first thread of a queue.\<close>

lemma wake_base:
  assumes B: "base b k" and q: "queue k w = (t, x) # rest"
    and k1: "k1 = k\<lparr>sems := f, conds := g\<rparr>" "queue k1 = (queue k)(w := rest)" "\<And>s. sem_ok (f s)"
  obtains th rl where "threads k t = Some th" "status th = BLOCKED" "wait_of (frames th) = Some w"
    "ReadyToRun b t k1 = Inr ((put_thread t (th\<lparr>status := READY\<rparr>) k1)\<lparr>readyList := rl\<rparr>)"
    "base b ((put_thread t (th\<lparr>status := READY\<rparr>) k1)\<lparr>readyList := rl\<rparr>)"
    "rl = (if SCHED_PRIORITY b then ins_sorted t (the (priority th)) (readyList k) else readyList k @ [(t, 0)])"
proof -
  note D = base_outD [OF B]
  have P: "placed_out {t} k1" "stat k t = Some BLOCKED" "wait_at k t = Some (Some w)"
    using placed_dequeue [OF D(1) q k1(2)] by (simp_all add: k1(1))
  then obtain th where t: "threads k t = Some th" "status th = BLOCKED" "wait_of (frames th) = Some w"
    by (auto simp: view_def)
  have B1: "base_out {t} b k1"
    using base_queues [OF B _ k1(3)] P(1) k1(1) by simp
  have t1: "threads k1 t = Some th" by (simp add: k1(1) t)
  have z: "\<not> zombie th" using t by (simp add: zombie_def)
  then have d: "threadToBeDestroyed k1 \<noteq> Some t" using D(6) [of t] t by (auto simp: k1(1))
  have r: "t \<noteq> currentThread k1 \<Longrightarrow> resting th" using D(3) [OF t(1)] by (simp add: k1(1))
  have rk: "readyList k1 = readyList k" by (simp add: k1(1))
  show thesis
  proof (rule ReadyToRun_base [OF B1 _ t1 _ _ d])
    fix rl
    assume "ReadyToRun b t k1 = Inr ((put_thread t (th\<lparr>status := READY\<rparr>) k1)\<lparr>readyList := rl\<rparr>)"
      "base b ((put_thread t (th\<lparr>status := READY\<rparr>) k1)\<lparr>readyList := rl\<rparr>)"
      "rl = (if SCHED_PRIORITY b then ins_sorted t (the (priority th)) (readyList k1) else readyList k1 @ [(t, 0)])"
    then show thesis by (rule that [OF t, unfolded rk [symmetric]])
  qed (use r z in \<open>auto simp: resting_def\<close>)
qed

lemma base_value:
  assumes "base b k" "sem_ok ((sems k s)\<lparr>sem_value := v\<rparr>)"
  shows "base b (k\<lparr>sems := (sems k)(s := (sems k s)\<lparr>sem_value := v\<rparr>)\<rparr>)"
proof -
  let ?k = "k\<lparr>sems := (sems k)(s := (sems k s)\<lparr>sem_value := v\<rparr>)\<rparr>"
  have "queue ?k = queue k" by (simp add: queue_def fun_eq_iff split: wpoint.splits)
  then show ?thesis using assms by (auto simp: base_out_def placed_out_def clock_ok_def)
qed

lemma sem_ok_pop: "sem_ok sem \<Longrightarrow> sem_queue sem = e # rest \<Longrightarrow> sem_ok (sem\<lparr>sem_queue := rest\<rparr>)"
  by (simp add: sem_ok_def)

lemma sem_ok_V:
  assumes "sem_ok sem" "sem_queue sem = e # rest"
  shows "sem_ok (sem\<lparr>sem_queue := rest, sem_value := sem_value sem + 1\<rparr>)" "is_int (sem_value sem + 1)"
  using assms by (simp_all add: sem_ok_def is_int_def maxThreadsCount_def)

text \<open>V fails only on a semaphore without waiting threads whose value is the greatest \<open>int\<close>.\<close>

lemma V_body_base:
  assumes B: "base b k"
  obtains (full) "V_body b s k = Inl Overflow" "2 ^ 31 \<le> sem_value (sems k s) + 1" "sem_queue (sems k s) = []"
  | (woken) k' where "V_body b s k = Inr k'" "base b k'" "evolves k k'"
    "\<And>s'. sem_value (sems k' s') = sem_value (sems k s') + (if s' = s then 1 else 0)"
    "pending k' = pending k" "totalTicks k' = totalTicks k" "inHandler k' = inHandler k" "int_status k' = int_status k"
    "conds k' = conds k"
proof (cases "sem_queue (sems k s)")
  case Nil
  let ?k = "k\<lparr>sems := (sems k)(s := (sems k s)\<lparr>sem_value := sem_value (sems k s) + 1\<rparr>)\<rparr>"
  have z: "0 \<le> sem_value (sems k s)" using base_outD(4) [OF B, of s] by (simp add: sem_ok_def)
  have "base b ?k" by (rule base_value [OF B]) (use z Nil in \<open>simp add: sem_ok_def\<close>)
  moreover have "V_body b s k = (if is_int (sem_value (sems k s) + 1) then Inr ?k else Inl Overflow)"
    using Nil by (simp add: V_body_def Let_def)
  ultimately show thesis
    using Nil z by (cases "is_int (sem_value (sems k s) + 1)") (rule woken [of ?k], auto intro!: full simp: is_int_def)
next
  case (Cons e rest)
  obtain t x where e: "e = (t, x)" by fastforce
  let ?f = "(sems k)(s := (sems k s)\<lparr>sem_queue := rest\<rparr>)"
  let ?k1 = "k\<lparr>sems := ?f\<rparr>"
  have q: "queue k (WSem s) = (t, x) # rest" using Cons e by (simp add: queue_def)
  note V1 = sem_ok_V [OF base_outD(4) [OF B] Cons]
  have k1: "?k1 = k\<lparr>sems := ?f, conds := conds k\<rparr>" "queue ?k1 = (queue k)(WSem s := rest)" "\<And>s'. sem_ok (?f s')"
    using base_outD(4) [OF B] sem_ok_pop [OF base_outD(4) [OF B] Cons] by simp_all
  show thesis
  proof (rule wake_base [OF B q k1])
    fix th rl
    assume t: "threads k t = Some th" "status th = BLOCKED" "wait_of (frames th) = Some (WSem s)"
      and R: "ReadyToRun b t ?k1 = Inr ((put_thread t (th\<lparr>status := READY\<rparr>) ?k1)\<lparr>readyList := rl\<rparr>)"
      and B2: "base b ((put_thread t (th\<lparr>status := READY\<rparr>) ?k1)\<lparr>readyList := rl\<rparr>)"
    let ?k2 = "(put_thread t (th\<lparr>status := READY\<rparr>) ?k1)\<lparr>readyList := rl\<rparr>"
    let ?k3 = "?k2\<lparr>sems := (sems ?k2)(s := (sems ?k2 s)\<lparr>sem_value := sem_value (sems ?k2 s) + 1\<rparr>)\<rparr>"
    have B3: "base b ?k3"
      by (rule base_value [OF B2]) (use V1(1) in simp)
    have V: "V_body b s k = Inr ?k3"
      using Cons e R V1(2) by (simp add: V_body_def Let_def)
    have "evolves k (put_thread t (th\<lparr>status := READY\<rparr>) k)" by (rule evolves_wake) (use t in simp_all)
    then have E: "evolves k ?k3" by (simp add: evolves_def)
    show thesis
      by (rule woken [OF V B3 E]) simp_all
  qed
qed

subsection \<open>Interrupts\<close>

text \<open>The effect of handling interrupts on what the current thread relies on.\<close>

definition quiet :: "Kernel \<Rightarrow> Kernel \<Rightarrow> bool" where
  "quiet k k' \<longleftrightarrow> evolves k k' \<and> (\<forall>l. sem_value (sems k' (LSem l)) = sem_value (sems k (LSem l))) \<and>
     totalTicks k \<le> totalTicks k'"

lemma quiet_refl [simp]: "quiet k k"
  by (simp add: quiet_def)

lemma quiet_trans: "quiet k k1 \<Longrightarrow> quiet k1 k2 \<Longrightarrow> quiet k k2"
  by (auto simp: quiet_def intro: evolves_trans)

lemma quiet_updates [simp]:
  "quiet k (k'\<lparr>pending := a1\<rparr>) = quiet k k'" "quiet k (k'\<lparr>inHandler := a2\<rparr>) = quiet k k'"
  "quiet k (k'\<lparr>yieldOnReturn := a3\<rparr>) = quiet k k'" "quiet k (k'\<lparr>int_status := a4\<rparr>) = quiet k k'"
  "quiet k (k'\<lparr>idleTicks := a5\<rparr>) = quiet k k'" "quiet k (k'\<lparr>random_calls := a6\<rparr>) = quiet k k'"
  "quiet k (k'\<lparr>lastSwitchTick := a7\<rparr>) = quiet k k'" "quiet k (k'\<lparr>readyList := a8\<rparr>) = quiet k k'"
  by (simp_all add: quiet_def)

lemma quiet_locks: "quiet k k' \<Longrightarrow> locks k' X = locks k X"
  by (simp add: quiet_def locks_def evolves_def)

definition due :: "Kernel \<Rightarrow> nat" where
  "due k = length (filter (\<lambda>(p, w). w \<le> totalTicks k) (pending k))"

lemma due_updates [simp]:
  "due (k\<lparr>inHandler := a2\<rparr>) = due k" "due (k\<lparr>yieldOnReturn := a3\<rparr>) = due k"
  "due (k\<lparr>int_status := a4\<rparr>) = due k" "due (k\<lparr>idleTicks := a5\<rparr>) = due k" "due (k\<lparr>level := a6\<rparr>) = due k"
  "due (k\<lparr>systemTicks := a7\<rparr>) = due k" "due (k\<lparr>userTicks := a8\<rparr>) = due k"
  by (simp_all add: due_def)

lemma base_pending:
  assumes "base_out T b k" "sorted (map snd q)" "\<forall>(p, w) \<in> set q. p_when p = w"
  shows "base_out T b (k\<lparr>pending := q\<rparr>)"
  using assms by (simp add: base_out_def placed_out_def clock_ok_def)

lemma base_pending_ins:
  assumes "base_out T b k" "p_when p = w"
  shows "base_out T b (k\<lparr>pending := ins_sorted p w (pending k)\<rparr>)"
  using base_outD(7) [OF assms(1)] assms(2)
  by (intro base_pending [OF assms(1)] sorted_ins_sorted) (auto simp: clock_ok_def)

lemma due_ins:
  "t < w \<Longrightarrow> length (filter (\<lambda>(p, w). w \<le> t) (ins_sorted p w q)) = length (filter (\<lambda>(p, w). w \<le> (t::int)) q)"
proof -
  assume w: "t < w"
  have "mset (filter (\<lambda>(p, w). w \<le> t) (ins_sorted p w q)) = mset (filter (\<lambda>(p, w). w \<le> t) q)"
    using w by (simp add: mset_filter)
  then show ?thesis by (rule mset_eq_length)
qed

text \<open>What the value of the semaphore of a device comes to when all its pending requests complete, and when
  handling the interrupts due at a time can leave the range of \<open>int\<close>: a timer interrupt schedules the next one at most
  20 ticks later, and a device adds one to its semaphore.\<close>

definition dev_load :: "nat \<Rightarrow> Kernel \<Rightarrow> int" where
  "dev_load n k = sem_value (sems k (USem n)) + int (length (filter (\<lambda>(p, w). p_handler p = DeviceDone n) (pending k)))"

definition crowded :: "int \<Rightarrow> Kernel \<Rightarrow> bool" where
  "crowded t k \<longleftrightarrow> 2 ^ 31 \<le> t + 2 * TimerTicks \<or> (\<exists>n. 2 ^ 31 \<le> dev_load n k)"

lemma dev_load_updates [simp]:
  "dev_load n (k\<lparr>inHandler := a2\<rparr>) = dev_load n k" "dev_load n (k\<lparr>yieldOnReturn := a3\<rparr>) = dev_load n k"
  "dev_load n (k\<lparr>int_status := a4\<rparr>) = dev_load n k" "dev_load n (k\<lparr>idleTicks := a5\<rparr>) = dev_load n k" "dev_load n (k\<lparr>level := a6\<rparr>) = dev_load n k"
  "dev_load n (k\<lparr>systemTicks := a7\<rparr>) = dev_load n k" "dev_load n (k\<lparr>userTicks := a8\<rparr>) = dev_load n k" "dev_load n (k\<lparr>totalTicks := a9\<rparr>) = dev_load n k"
  "dev_load n (k\<lparr>lastSwitchTick := a10\<rparr>) = dev_load n k" "dev_load n (k\<lparr>random_calls := a11\<rparr>) = dev_load n k" "dev_load n (k\<lparr>busy := a12\<rparr>) = dev_load n k"
  "dev_load n (put_thread t th k) = dev_load n k"
  by (simp_all add: dev_load_def)

lemma dev_load_ins:
  "length (filter (\<lambda>(p, w). p_handler p = h) (ins_sorted p w q)) = length (filter (\<lambda>(p, w). p_handler p = h) ((p, w) # q))"
proof -
  have "mset (filter (\<lambda>(p, w). p_handler p = h) (ins_sorted p w q)) = mset (filter (\<lambda>(p, w). p_handler p = h) ((p, w) # q))"
    by (simp add: mset_filter)
  then show ?thesis by (rule mset_eq_length)
qed

lemma crowded_mono: "crowded t k1 \<Longrightarrow> (\<And>n. dev_load n k1 \<le> dev_load n k) \<Longrightarrow> crowded t k"
  unfolding crowded_def by (meson order_trans)

lemma crowded_later: "crowded t k \<Longrightarrow> t \<le> u \<Longrightarrow> crowded u k"
  by (auto simp: crowded_def)

lemma clock_okD:
  assumes "clock_ok k"
  shows "0 \<le> totalTicks k" "idleTicks k \<le> totalTicks k" "systemTicks k \<le> totalTicks k" "userTicks k \<le> totalTicks k"
    "0 \<le> idleTicks k" "0 \<le> systemTicks k" "0 \<le> userTicks k"
  using assms by (simp_all add: clock_ok_def)

lemma TimerExpired_base:
  assumes B: "base b k" and h: "inHandler k"
  obtains (full) "TimerExpired k = Inl Overflow" "2 ^ 31 \<le> totalTicks k + 2 * TimerTicks"
  | (handled) k' where "TimerExpired k = Inr k'" "base b k'" "quiet k k'" "due k' = due k"
    "totalTicks k' = totalTicks k" "int_status k' = int_status k" "conds k' = conds k" "\<And>n. dev_load n k' = dev_load n k"
proof -
  obtain d k1 where d: "TimeOfNextInterrupt k = (d, k1)" by fastforce
  have d0: "0 < d" and k1: "k1 = k \<or> k1 = k\<lparr>random_calls := random_calls k + 1\<rparr>"
    using d by (auto simp: TimeOfNextInterrupt_def TimerTicks_def split: if_splits)
  have "d \<le> 20"
    using d pos_mod_bound [of 20 "int (random k (random_calls k))"] by (auto simp: TimeOfNextInterrupt_def TimerTicks_def split: if_splits)
  then have d20: "d \<le> 2 * TimerTicks" by (simp add: TimerTicks_def)
  note c0 = clock_okD(1) [OF base_outD(7) [OF B]]
  let ?p = "\<lparr>p_handler = TimerHandler, p_when = totalTicks k + d, p_type = TimerInt\<rparr>"
  let ?k2 = "k1\<lparr>pending := ins_sorted ?p (totalTicks k + d) (pending k)\<rparr>"
  have eq: "pending k1 = pending k" "totalTicks k1 = totalTicks k" "inHandler k1" "int_status k1 = int_status k" "conds k1 = conds k"
      "sems k1 = sems k" and B1: "base b k1" and Q: "quiet k k1"
    using k1 h B by auto
  have B2: "base b ?k2" using base_pending_ins [OF B1, of ?p "totalTicks k + d"] by (simp add: eq)
  have D: "due ?k2 = due k" using d0 by (simp add: due_def eq due_ins)
  have L: "dev_load n ?k2 = dev_load n k" for n by (simp add: dev_load_def dev_load_ins eq)
  show thesis
  proof (cases "is_int (totalTicks k + d)")
    case True
    then have T: "TimerExpired k = Inr (if int_status k \<noteq> IdleMode then ?k2\<lparr>yieldOnReturn := True\<rparr> else ?k2)"
      using d d0 eq by (simp add: TimerExpired_def Interrupt_Schedule_def ASSERT_def TimerInterruptHandler_def YieldOnReturn_def Let_def)
    show thesis
      by (rule handled [OF T]) (use B2 D Q L in \<open>simp_all add: eq\<close>)
  next
    case False
    then have "TimerExpired k = Inl Overflow" using d eq by (simp add: TimerExpired_def Interrupt_Schedule_def)
    then show thesis using False c0 d0 d20 by (intro full) (auto simp: is_int_def)
  qed
qed

lemma run_handler_base:
  assumes B: "base b k" and h: "inHandler k"
  obtains (full) "run_handler b h k = Inl Overflow"
    "h = TimerHandler \<and> 2 ^ 31 \<le> totalTicks k + 2 * TimerTicks \<or> (\<exists>n. h = DeviceDone n \<and> 2 ^ 31 \<le> dev_load n k + 1)"
  | (handled) k' where "run_handler b h k = Inr k'" "base b k'" "quiet k k'" "due k' = due k"
    "totalTicks k' = totalTicks k" "int_status k' = int_status k" "conds k' = conds k"
    "\<And>n. dev_load n k' = dev_load n k + (if h = DeviceDone n then 1 else 0)"
proof (cases h)
  case TimerHandler
  then show thesis by (rule_tac TimerExpired_base [OF assms]) (auto simp: run_handler_def intro: full handled)
next
  case (DeviceDone s)
  let ?k = "k\<lparr>busy := (busy k)(s := False)\<rparr>"
  have B1: "base b ?k" using B by simp
  show thesis
  proof (rule V_body_base [OF B1, of "USem s"])
    assume "V_body b (USem s) ?k = Inl Overflow" "2 ^ 31 \<le> sem_value (sems ?k (USem s)) + 1"
    then show thesis by (intro full) (simp_all add: run_handler_def DeviceDone dev_load_def)
  next
    fix k'
    assume V: "V_body b (USem s) ?k = Inr k'" "base b k'" "evolves ?k k'"
      "\<And>s'. sem_value (sems k' s') = sem_value (sems ?k s') + (if s' = USem s then 1 else 0)"
      "pending k' = pending ?k" "totalTicks k' = totalTicks ?k" "int_status k' = int_status ?k" "conds k' = conds ?k"
    have "evolves k k'" using V(3) by (simp add: evolves_def)
    then show thesis
      using V by (intro handled [of k']) (simp_all add: run_handler_def DeviceDone quiet_def due_def dev_load_def)
  qed
qed

text \<open>The clock jumps to the time of the next interrupt without an error if that time is an \<open>int\<close>.\<close>

lemma advance_idle_base:
  assumes B: "base b k" and t: "totalTicks k < t"
  obtains (full) "advance_idle t k = Inl Overflow" "2 ^ 31 \<le> t"
  | (moved) "advance_idle t k = Inr (k\<lparr>idleTicks := idleTicks k + (t - totalTicks k), totalTicks := t\<rparr>)"
    "base b (k\<lparr>idleTicks := idleTicks k + (t - totalTicks k), totalTicks := t\<rparr>)"
proof (cases "t < 2 ^ 31")
  case True
  note c = clock_okD [OF base_outD(7) [OF B]]
  have "base b (k\<lparr>idleTicks := idleTicks k + (t - totalTicks k), totalTicks := t\<rparr>)"
    using B t by (auto simp: base_out_def placed_out_def clock_ok_def)
  moreover have "is_int (t - totalTicks k)" "is_int (idleTicks k + (t - totalTicks k))"
    using True t c(1,2,5) by (simp_all add: is_int_def)
  ultimately show thesis by (intro moved) (simp_all add: advance_idle_def int_sub_def)
next
  case False
  show thesis
  proof (cases "is_int (t - totalTicks k) \<and> is_int (idleTicks k + (t - totalTicks k))")
    case True
    have "base b (k\<lparr>idleTicks := idleTicks k + (t - totalTicks k), totalTicks := t\<rparr>)"
      using B t by (auto simp: base_out_def placed_out_def clock_ok_def)
    then show thesis using True by (intro moved) (simp_all add: advance_idle_def int_sub_def)
  next
    case nb: False
    then have "advance_idle t k = Inl Overflow" by (auto simp: advance_idle_def int_sub_def int_add_def)
    then show thesis using False by (intro full) simp_all
  qed
qed

text \<open>The time at which a round of CheckIfDue handles an interrupt.\<close>

definition due_time :: "bool \<Rightarrow> Kernel \<Rightarrow> int" where
  "due_time adv k = (if adv \<and> pending k \<noteq> [] then max (totalTicks k) (snd (hd (pending k))) else totalTicks k)"

text \<open>One round of CheckIfDue fails only when a counter leaves the range of \<open>int\<close>. Without advancing the clock it fires an
  interrupt that is due, or there is none left (the last timer interrupt may stay when the machine is idle).\<close>

lemma CheckIfDue_base:
  assumes B: "base b k" and l: "level k = IntOff" and h: "\<not> inHandler k"
  obtains (full) "CheckIfDue b adv k = Inl Overflow" "crowded (due_time adv k) k"
  | (checked) fired k' where "CheckIfDue b adv k = Inr (fired, k')" "base b k'" "quiet k k'" "\<not> inHandler k'"
    "int_status k' = int_status k" "conds k' = conds k" "\<And>n. dev_load n k' \<le> dev_load n k" "totalTicks k' = due_time adv k \<or> \<not> fired"
    "\<not> adv \<Longrightarrow> totalTicks k' = totalTicks k" "\<not> adv \<Longrightarrow> fired \<Longrightarrow> due k' < due k"
    "\<not> adv \<Longrightarrow> \<not> fired \<Longrightarrow> int_status k \<noteq> IdleMode \<Longrightarrow> due k' = 0"
proof (cases "pending k")
  case Nil
  then show thesis
    using B h l by (intro checked [of False k]) (simp_all add: CheckIfDue_def ASSERT_def due_def)
next
  case (Cons e rest)
  obtain p w where e: "e = (p, w)" by fastforce
  have cl: "sorted (map snd ((p, w) # rest))" "p_when p = w" "\<forall>(p, w) \<in> set rest. p_when p = w"
    using base_outD(7) [OF B] Cons e by (auto simp: clock_ok_def)
  have put: "base b (k'\<lparr>pending := ins_sorted p w q\<rparr>)" if "base b k'" "q \<in> {rest, []}" for k' q
    using base_pending [OF that(1), of q] base_pending_ins [of "{}" b "k'\<lparr>pending := q\<rparr>" p w] cl that(2) by auto
  show thesis
  proof (cases "\<not> adv \<and> w > totalTicks k")
    case True
    let ?k = "k\<lparr>pending := ins_sorted p w rest\<rparr>"
    have "due ?k = 0"
      using True cl(1) by (auto simp: due_def due_ins filter_empty_conv)
    moreover have "dev_load n ?k \<le> dev_load n k" for n by (simp add: dev_load_def dev_load_ins Cons e)
    ultimately show thesis
      using True B h l put by (intro checked [of False ?k]) (simp_all add: CheckIfDue_def ASSERT_def Cons e)
  next
    case ndue: False
    let ?k1 = "k\<lparr>pending := rest\<rparr>"
    let ?adv = "if adv \<and> w > totalTicks ?k1 then advance_idle w ?k1 else Inr ?k1"
    have B1: "base b ?k1" using base_pending [OF B, of rest] cl by simp
    have C0: "CheckIfDue b adv k = bind_res ?adv (\<lambda>k2.
        if int_status k2 = IdleMode \<and> p_type p = TimerInt \<and> rest = []
        then Inr (False, k2\<lparr>pending := ins_sorted p w []\<rparr>)
        else bind_res (run_handler b (p_handler p) (k2\<lparr>inHandler := True, int_status := SystemMode\<rparr>)) (\<lambda>k3.
             Inr (True, k3\<lparr>int_status := int_status k, inHandler := False\<rparr>)))"
      using l ndue by (auto simp: CheckIfDue_def ASSERT_def Cons e Let_def)
    have dt: "due_time adv k = (if adv \<and> w > totalTicks k then w else totalTicks k)"
      using ndue by (auto simp: due_time_def Cons e)
    consider (over) "?adv = Inl Overflow" "2 ^ 31 \<le> due_time adv k"
      | (go) k2 where "?adv = Inr k2" "base b k2" "totalTicks k2 = due_time adv k" "int_status k2 = int_status k"
        "pending k2 = rest" "conds k2 = conds k" "inHandler k2 = inHandler k" "quiet k k2" "sems k2 = sems k"
    proof (cases "adv \<and> w > totalTicks k")
      case True
      let ?k2 = "?k1\<lparr>idleTicks := idleTicks ?k1 + (w - totalTicks ?k1), totalTicks := w\<rparr>"
      have t: "totalTicks ?k1 < w" using True by simp
      show thesis
      proof (rule advance_idle_base [OF B1 t])
        assume "advance_idle w ?k1 = Inl Overflow" "2 ^ 31 \<le> w"
        then show thesis using True dt by (intro over) simp_all
      next
        assume "advance_idle w ?k1 = Inr ?k2" "base b ?k2"
        then show thesis using True dt by (intro go [of ?k2]) (simp_all add: quiet_def)
      qed
    next
      case False
      then show thesis by (intro go [of ?k1]) (use B1 dt in auto)
    qed
    then show thesis
    proof cases
      case over
      then show thesis using C0 by (intro full) (auto simp: crowded_def TimerTicks_def)
    next
      case (go k2)
      show thesis
      proof (cases "int_status k = IdleMode \<and> p_type p = TimerInt \<and> rest = []")
        case True
        let ?k = "k2\<lparr>pending := ins_sorted p w []\<rparr>"
        have C: "CheckIfDue b adv k = Inr (False, ?k)" unfolding C0 go(1) using True go(4) by simp
        show thesis
          by (rule checked [OF C]) (use True go h put dt in \<open>simp_all add: dev_load_def dev_load_ins Cons e\<close>)
      next
        case nidle: False
        let ?k = "k2\<lparr>inHandler := True, int_status := SystemMode\<rparr>"
        have C: "CheckIfDue b adv k = bind_res (run_handler b (p_handler p) ?k) (\<lambda>k3.
             Inr (True, k3\<lparr>int_status := int_status k, inHandler := False\<rparr>))"
          unfolding C0 go(1) using nidle go(4) by auto
        have L: "dev_load n k = dev_load n ?k + (if p_handler p = DeviceDone n then 1 else 0)" for n
          by (simp add: dev_load_def go Cons e)
        have B2: "base b ?k" "inHandler ?k" using go(2) by simp_all
        show thesis
        proof (rule run_handler_base [OF B2, of "p_handler p"])
          assume "run_handler b (p_handler p) ?k = Inl Overflow" and F: "p_handler p = TimerHandler \<and> 2 ^ 31 \<le> totalTicks ?k + 2 * TimerTicks \<or>
            (\<exists>n. p_handler p = DeviceDone n \<and> 2 ^ 31 \<le> dev_load n ?k + 1)"
          then have "CheckIfDue b adv k = Inl Overflow" using C by simp
          moreover have "crowded (due_time adv k) k" using F L go(3) by (auto simp: crowded_def)
          ultimately show thesis by (rule full)
        next
          fix k'
          assume R: "run_handler b (p_handler p) ?k = Inr k'" "base b k'" "quiet ?k k'" "due k' = due ?k"
            "totalTicks k' = totalTicks ?k" "conds k' = conds ?k"
            "\<And>n. dev_load n k' = dev_load n ?k + (if p_handler p = DeviceDone n then 1 else 0)"
          let ?k3 = "k'\<lparr>int_status := int_status k, inHandler := False\<rparr>"
          have C1: "CheckIfDue b adv k = Inr (True, ?k3)" using C R(1) by simp
          have Q: "quiet k k'"
            by (rule quiet_trans [of _ ?k]) (use go(8) R(3) in simp_all)
          have "due k' < due k" if "\<not> adv" using R(4) ndue that go(3,5) dt by (simp add: due_def Cons e)
          moreover have "dev_load n k' \<le> dev_load n k" for n using R(7) L by simp
          moreover have "totalTicks k' = due_time adv k" using R(5) go(3) by simp
          ultimately show thesis using R Q go dt by (intro checked [OF C1]) auto
        qed
      qed
    qed
  qed
qed

text \<open>The loop over CheckIfDue ends, with no interrupt due, or because a counter leaves the range of \<open>int\<close>.\<close>

lemma check_loop_base:
  assumes "base b k" "level k = IntOff" "\<not> inHandler k"
  obtains (full) "check_loop b k = Some (Inl Overflow)" "crowded (totalTicks k) k"
  | (checked) k' where "check_loop b k = Some (Inr k')" "base b k'" "quiet k k'" "\<not> inHandler k'" "int_status k' = int_status k"
    "conds k' = conds k" "totalTicks k' = totalTicks k" "int_status k \<noteq> IdleMode \<Longrightarrow> due k' = 0"
  using assms
proof (induction "due k" arbitrary: k thesis rule: less_induct)
  case less
  have dt: "due_time False k = totalTicks k" by (simp add: due_time_def)
  show ?case
  proof (rule CheckIfDue_base [OF less.prems(3-5), of False])
    assume "CheckIfDue b False k = Inl Overflow" "crowded (due_time False k) k"
    then show ?case by (intro less.prems(1)) (simp_all add: check_loop.simps dt)
  next
    fix fired k1
    assume C: "CheckIfDue b False k = Inr (fired, k1)" "base b k1" "quiet k k1" "\<not> inHandler k1"
      "int_status k1 = int_status k" "conds k1 = conds k" "\<And>n. dev_load n k1 \<le> dev_load n k"
      "\<not> False \<Longrightarrow> totalTicks k1 = totalTicks k" "\<not> False \<Longrightarrow> fired \<Longrightarrow> due k1 < due k"
      "\<not> False \<Longrightarrow> \<not> fired \<Longrightarrow> int_status k \<noteq> IdleMode \<Longrightarrow> due k1 = 0"
    have l1: "level k1 = IntOff" using C(3) less.prems(4) by (simp add: quiet_def evolves_def)
    show ?case
    proof (cases fired)
      case True
      have u: "check_loop b k = check_loop b k1" using C(1) True by (simp add: check_loop.simps)
      show ?thesis
      proof (rule less.hyps [OF C(9) [OF _ True] _ _ C(2) l1 C(4)])
        assume "check_loop b k1 = Some (Inl Overflow)" "crowded (totalTicks k1) k1"
        then show ?thesis using C(7,8) u by (intro less.prems(1)) (auto intro: crowded_mono)
      next
        fix k'
        assume k': "check_loop b k1 = Some (Inr k')" "base b k'" "quiet k1 k'" "\<not> inHandler k'" "int_status k' = int_status k1"
          "conds k' = conds k1" "totalTicks k' = totalTicks k1" "int_status k1 \<noteq> IdleMode \<Longrightarrow> due k' = 0"
        show ?thesis
          by (rule less.prems(2) [of k']) (use k' C u quiet_trans [OF C(3) k'(3)] in simp_all)
      qed simp
    next
      case False
      then show ?thesis
        by (intro less.prems(2) [of k1]) (use C in \<open>simp_all add: check_loop.simps\<close>)
    qed
  qed
qed

subsection \<open>Every step keeps the invariant\<close>

text \<open>The state inside a step: the frame that runs has left the stack of the running thread \<open>th\<close>.\<close>

definition inside :: "kbuild \<Rightarrow> Kernel \<Rightarrow> Thread \<Rightarrow> bool" where
  "inside b k th \<longleftrightarrow> base b k \<and> \<not> inHandler k \<and> threads k (currentThread k) = Some th \<and> status th = RUNNING"

lemma insideD:
  assumes "inside b k th"
  shows "base b k" "\<not> inHandler k" "threads k (currentThread k) = Some th" "status th = RUNNING"
  using assms by (simp_all add: inside_def)

lemma inside_updates [simp]:
  "inside b (k\<lparr>level := a1\<rparr>) th = inside b k th" "inside b (k\<lparr>lastSwitchTick := a2\<rparr>) th = inside b k th"
  "inside b (k\<lparr>yieldOnReturn := a3\<rparr>) th = inside b k th" "inside b (k\<lparr>int_status := a4\<rparr>) th = inside b k th"
  "inside b (k\<lparr>owner := a8\<rparr>) th = inside b k th"
  "inside b (k\<lparr>slists := a9\<rparr>) th = inside b k th" "inside b (k\<lparr>busy := a10\<rparr>) th = inside b k th"
  by (simp_all add: inside_def)

lemma not_doomed: "inside b k th \<Longrightarrow> threadToBeDestroyed k \<noteq> Some (currentThread k)"
  using base_outD(6) [of "{}" b k "currentThread k"] by (auto simp: inside_def zombie_def)

lemma inside_put:
  assumes I: "inside b k th" and th': "th' = th\<lparr>frames := fs\<rparr> \<or> th' = th\<lparr>frames := fs, received := r\<rparr>"
  shows "inside b (put_thread (currentThread k) th' k) th'"
proof -
  note D = insideD [OF I]
  have P: "placed_out {} (put_thread (currentThread k) th' k)"
    using base_outD(1) [OF D(1)] D(3,4) th' by (auto simp: placed_out_def view_Some)
  have "base b (put_thread (currentThread k) th' k)"
    by (rule base_put [OF D(1,3) P]) (use not_doomed [OF I] th' in auto)
  then show ?thesis using D th' by (auto simp: inside_def)
qed

lemma push_inside:
  assumes "inside b k th"
  shows "inside b (put_thread (currentThread k) (th\<lparr>frames := fs\<rparr>) k) (th\<lparr>frames := fs\<rparr>)"
  by (rule inside_put [OF assms, of _ fs]) simp

lemma stay_inv:
  assumes "inside b k th" "stk (level k) (frames th)" "locks k (acquiring (frames th))"
  shows "kernel_inv b k"
  using assms by (auto simp: kernel_inv_def running_def inside_def)

lemma push_inv:
  assumes I: "inside b k th" and s: "stk (level k) (fs @ frames th)" and L: "locks k (acquiring (fs @ frames th))"
  shows "\<exists>k'. push fs k = Inr k' \<and> kernel_inv b k'"
proof -
  have "kernel_inv b (put_thread (currentThread k) (th\<lparr>frames := fs @ frames th\<rparr>) k)"
    by (rule stay_inv [OF push_inside [OF I]]) (use s L in simp_all)
  then show ?thesis using insideD(3) [OF I] by simp
qed

lemma wait_acquiring: "wait_of fs = Some w \<Longrightarrow> acquiring fs = {}"
  by (cases fs) (auto split: frame.splits)

text \<open>The running thread goes to sleep, in a queue or for good.\<close>

lemma ids_ok_card:
  assumes "ids_ok ids f n" "set ts \<subseteq> dom f" "distinct ts"
  shows "length ts \<le> maxThreadsCount"
proof -
  have "inj_on (nat \<circ> the \<circ> f) (set ts)"
  proof (rule inj_onI)
    fix t u assume a: "t \<in> set ts" "u \<in> set ts" and e: "(nat \<circ> the \<circ> f) t = (nat \<circ> the \<circ> f) u"
    obtain i j where ij: "f t = Some i" "f u = Some j" using a assms(2) by blast
    then have "0 \<le> i" "0 \<le> j" using assms(1) by (auto simp: ids_ok_def)
    then have "i = j" using e ij by simp
    then show "t = u" using assms(1) ij unfolding ids_ok_def by blast
  qed
  moreover have "(nat \<circ> the \<circ> f) ` set ts \<subseteq> {..<maxThreadsCount}"
  proof
    fix j assume "j \<in> (nat \<circ> the \<circ> f) ` set ts"
    then obtain t i where t: "f t = Some i" "j = nat i" using assms(2) by force
    then show "j \<in> {..<maxThreadsCount}" using assms(1) unfolding ids_ok_def by blast
  qed
  ultimately have "card (set ts) \<le> card {..<maxThreadsCount}" by (rule card_inj_on_le) simp
  then show ?thesis using distinct_card [OF assms(3)] by simp
qed

lemma queue_bound:
  assumes P: "placed_out {} k" and I: "ids_ok (threadIds k) (view threadId k) (next_tid k)"
  shows "length (queue k w) \<le> maxThreadsCount"
proof -
  have "tids (queue k w) \<subseteq> dom (view threadId k)"
  proof
    fix t assume "t \<in> tids (queue k w)"
    then have "stat k t = Some BLOCKED" using placed_outD(4) [OF P, of t w] by simp
    then show "t \<in> dom (view threadId k)" by (auto simp: view_def)
  qed
  then have "length (map fst (queue k w)) \<le> maxThreadsCount"
    using placed_outD(2) [OF P, of w] by (intro ids_ok_card [OF I]) auto
  then show ?thesis by simp
qed

lemma sleep_inv:
  assumes I: "inside b k th" and fs: "stk IntOff fs" "wait_of fs = Some w" and l: "level k = IntOff"
    and k1: "k1 = k\<lparr>sems := f, conds := g\<rparr>" "queue k1 = (queue k)(w := queue k w @ [(currentThread k, x)])"
      "\<And>s. sem_value (f s) = sem_value (sems k s)" "\<And>s. sem_value (f s) = 0 \<or> sem_queue (f s) = sem_queue (sems k s)"
    and L: "locks k {}"
  shows "\<exists>k'. Thread_Sleep (put_thread (currentThread k) (th\<lparr>frames := fs\<rparr>) k1) = Inr k' \<and> kernel_inv b k'"
proof -
  note D = insideD [OF I]
  let ?th = "th\<lparr>status := BLOCKED, frames := SleepLoop # fs\<rparr>"
  let ?k = "put_thread (currentThread k) ?th k1"
  have T: "Thread_Sleep (put_thread (currentThread k) (th\<lparr>frames := fs\<rparr>) k1) = Inr ?k"
    using l by (simp add: Thread_Sleep_def ASSERT_def k1(1) put_thread_def)
  have P: "placed_out {} ?k"
    by (rule placed_sleeps [OF base_outD(1) [OF D(1)] D(3,4), where w = w and x = x and th' = ?th])
      (use k1(2) fs(2) in \<open>simp_all add: k1(1)\<close>)
  note B = base_outD [OF D(1)]
  have wf: "thread_wf b ?th" using B(2) [OF D(3)] by (simp add: thread_wf_def)
  have v: "(view threadId k)(currentThread k \<mapsto> threadId th) = view threadId k"
    "(view priority k)(currentThread k \<mapsto> priority th) = view priority k"
    by (rule view_same [OF D(3) refl])+
  have "base b ?k"
    unfolding base_out_def
  proof (intro conjI allI impI)
    show "thread_wf b th'" if "threads ?k t = Some th'" for t th'
      using that wf B(2) [of t th'] by (auto simp: k1(1) split: if_splits)
    show "resting th'" if "threads ?k t = Some th' \<and> t \<noteq> currentThread ?k \<and> t \<notin> {}" for t th'
      using that B(3) [of t th'] by (auto simp: k1(1) split: if_splits)
    show "\<exists>th'. threads ?k t = Some th' \<and> zombie th'" if "threadToBeDestroyed ?k = Some t" for t
      using that not_doomed [OF I] B(6) [of t] by (auto simp: k1(1))
    show "clock_ok ?k" using B(7) by (simp add: clock_ok_def k1(1))
    show ids: "ids_ok (threadIds ?k) (view threadId ?k) (next_tid ?k)" using B(5) v by (simp add: k1(1))
    show "sem_ok (sems ?k s)" for s
    proof (cases "sem_queue (f s) = sem_queue (sems k s)")
      case True
      then show ?thesis using B(4) [of s] k1(3) [of s] by (simp add: sem_ok_def k1(1))
    next
      case False
      have "sem_queue (f s) = queue ?k (WSem s)" by (simp add: queue_def k1(1))
      then show ?thesis using False k1(4) [of s] queue_bound [OF P ids, of "WSem s"] by (simp add: sem_ok_def k1(1))
    qed
  qed (use P B(8) v in \<open>simp_all add: k1(1)\<close>)
  moreover have "locks ?k {}" using L k1(3) by (simp add: locks_def k1(1))
  ultimately have "kernel_inv b ?k"
    using D(2) l fs(1) wait_acquiring [OF fs(2)] by (auto simp: kernel_inv_def running_def k1(1))
  with T show ?thesis by blast
qed

lemma CFinish_inv:
  assumes I: "inside b k th" and w: "wait_of (frames th) = None" and L: "locks k {}"
  shows "\<exists>k'. Thread_Finish k = Inr k' \<and> kernel_inv b k'"
proof -
  note D = insideD [OF I]
  let ?th = "th\<lparr>status := BLOCKED, frames := SleepLoop # frames th\<rparr>"
  let ?k = "put_thread (currentThread k) ?th (k\<lparr>level := IntOff, threadToBeDestroyed := Some (currentThread k)\<rparr>)"
  have T: "Thread_Finish k = Inr ?k"
    using D(3) by (simp add: Thread_Finish_def Thread_Sleep_def SetLevel_off_def ASSERT_def put_thread_def)
  have P: "placed_out {} (put_thread (currentThread k) ?th k)"
    by (rule placed_finishes [OF base_outD(1) [OF D(1)] D(3,4)]) (use w in simp_all)
  have B: "base b (put_thread (currentThread k) ?th k)"
    by (rule base_put [OF D(1,3) P]) (use w in \<open>simp_all add: zombie_def\<close>)
  have z: "zombie ?th" using w by (simp add: zombie_def)
  have "base b ?k" using B z by (simp add: base_out_def clock_ok_def placed_out_def)
  then have "kernel_inv b ?k"
    using D(2) L z by (auto simp: kernel_inv_def running_def)
  with T show ?thesis by blast
qed

text \<open>Semaphores.\<close>

lemma P_loop_inv:
  assumes I: "inside b k th" and l: "level k = IntOff" and L: "locks k {}"
    and st: "stk IntOff (PLoop s old # frames th)"
  shows "\<exists>k'. P_loop s old k = Inr k' \<and> kernel_inv b k'"
proof (cases "sem_value (sems k s) = 0")
  case True
  let ?f = "(sems k)(s := (sems k s)\<lparr>sem_queue := sem_queue (sems k s) @ [(currentThread k, 0)]\<rparr>)"
  have q: "queue (k\<lparr>sems := ?f, conds := conds k\<rparr>) = (queue k)(WSem s := queue k (WSem s) @ [(currentThread k, 0)])"
    by (auto simp: queue_def fun_eq_iff split: wpoint.splits)
  have "\<exists>k'. Thread_Sleep (put_thread (currentThread k) (th\<lparr>frames := PLoop s old # frames th\<rparr>)
      (k\<lparr>sems := ?f, conds := conds k\<rparr>)) = Inr k' \<and> kernel_inv b k'"
    by (rule sleep_inv [OF I st _ l refl q _ _ L]) (simp_all add: True)
  then show ?thesis using True insideD(3) [OF I] by (simp add: P_loop_def Let_def)
next
  case False
  let ?k = "k\<lparr>sems := (sems k)(s := (sems k s)\<lparr>sem_value := sem_value (sems k s) - 1\<rparr>)\<rparr>"
  have "sem_ok ((sems k s)\<lparr>sem_value := sem_value (sems k s) - 1\<rparr>)"
    using base_outD(4) [OF insideD(1) [OF I], of s] False by (auto simp: sem_ok_def)
  then have I': "inside b ?k th"
    using base_value [OF insideD(1) [OF I]] insideD [OF I] by (simp add: inside_def)
  have L': "locks ?k (acquiring (CSetLevel old # frames th))"
    using L st False by (cases s) (auto simp: locks_def split: if_splits)
  have "\<exists>k'. push [CSetLevel old] ?k = Inr k' \<and> kernel_inv b k'"
    by (rule push_inv [OF I']) (use st l L' in \<open>auto split: sid.splits\<close>)
  then show ?thesis using False by (simp add: P_loop_def Let_def)
qed

lemma CP_inv:
  assumes "inside b k th" "level k = IntOn" "locks k {}" "stk IntOn (frames th)"
  shows "\<exists>k'. Semaphore_P (USem n) k = Inr k' \<and> kernel_inv b k'"
  using P_loop_inv [of b "k\<lparr>level := IntOff\<rparr>" th "USem n" IntOn] assms
  by (simp add: Semaphore_P_def SetLevel_off_def)

lemma CAcquire_inv:
  assumes I: "inside b k th" and L: "locks k {}" and st: "stk (level k) (CAcquire l # frames th)"
  shows "\<exists>k'. Lock_Acquire l k = Inr k' \<and> kernel_inv b k'"
proof -
  let ?th = "th\<lparr>frames := AcquireTail l (level k) # frames th\<rparr>"
  let ?k = "put_thread (currentThread k) ?th (k\<lparr>level := IntOff\<rparr>)"
  have I': "inside b (?k\<lparr>level := IntOff\<rparr>) ?th"
    using push_inside [of b "k\<lparr>level := IntOff\<rparr>" th] I by simp
  have "\<exists>k'. P_loop (LSem l) IntOff (?k\<lparr>level := IntOff\<rparr>) = Inr k' \<and> kernel_inv b k'"
    by (rule P_loop_inv [OF I']) (use L st in auto)
  then show ?thesis
    using insideD(3) [OF I] by (simp add: Lock_Acquire_def Semaphore_P_def SetLevel_off_def)
qed

lemma AcquireTail_inv:
  assumes I: "inside b k th" and L: "locks k {l}" and st: "stk (level k) (AcquireTail l prev # frames th)"
  shows "\<exists>k'. Acquire_tail l prev k = Inr k' \<and> kernel_inv b k'"
  unfolding Acquire_tail_def
proof (rule push_inv)
  show "inside b (k\<lparr>owner := (owner k)(l := Some (currentThread k))\<rparr>) th" using I by simp
  have "acquiring (CSetLevel prev # frames th) = {}"
    using st at_wait_acquiring [of "frames th"]
    by (cases prev; cases "frames th") (auto split: frame.splits)
  then show "locks (k\<lparr>owner := (owner k)(l := Some (currentThread k))\<rparr>) (acquiring ([CSetLevel prev] @ frames th))"
    using L by (auto simp: locks_def)
qed (use st in auto)

text \<open>Waking threads leaves the running thread and the locks alone.\<close>

lemma inside_evolves:
  assumes "inside b k th" "base b k'" "evolves k k'" "inHandler k' = inHandler k"
  shows "inside b k' th"
  using assms evolves_runs [OF assms(3), of "currentThread k" th] by (auto simp: inside_def evolves_def)

lemma V_body_inside:
  assumes I: "inside b k th"
  obtains (full) "V_body b s k = Inl Overflow" "2 ^ 31 \<le> sem_value (sems k s) + 1" "sem_queue (sems k s) = []"
  | (woken) k' where "V_body b s k = Inr k'" "inside b k' th" "evolves k k'"
    "\<And>s'. sem_value (sems k' s') = sem_value (sems k s') + (if s' = s then 1 else 0)"
    "conds k' = conds k"
  by (rule V_body_base [OF insideD(1) [OF I], of s]) (use full in \<open>blast intro: woken inside_evolves [OF I]\<close>)+

lemma evolves_level: "evolves k k' \<Longrightarrow> level k' = level k" "evolves k k' \<Longrightarrow> currentThread k' = currentThread k"
  "evolves k k' \<Longrightarrow> owner k' = owner k"
  by (simp_all add: evolves_def)

lemma CV_inv:
  assumes I: "inside b k th" and l: "level k = IntOn" and L: "locks k {}" and st: "stk IntOn (frames th)"
  shows "(\<exists>k'. Semaphore_V b (USem n) k = Inr k' \<and> kernel_inv b k') \<or>
    Semaphore_V b (USem n) k = Inl Overflow \<and> 2 ^ 31 \<le> sem_value (sems k (USem n)) + 1 \<and> sem_queue (sems k (USem n)) = []"
proof -
  have I1: "inside b (k\<lparr>level := IntOff\<rparr>) th" using I by simp
  show ?thesis
  proof (rule V_body_inside [OF I1, of "USem n"])
    assume "V_body b (USem n) (k\<lparr>level := IntOff\<rparr>) = Inl Overflow" "2 ^ 31 \<le> sem_value (sems (k\<lparr>level := IntOff\<rparr>) (USem n)) + 1"
      "sem_queue (sems (k\<lparr>level := IntOff\<rparr>) (USem n)) = []"
    then show ?thesis by (simp add: Semaphore_V_def SetLevel_off_def)
  next
    fix k'
    assume V: "V_body b (USem n) (k\<lparr>level := IntOff\<rparr>) = Inr k'" "inside b k' th" "evolves (k\<lparr>level := IntOff\<rparr>) k'"
      "\<And>s'. sem_value (sems k' s') = sem_value (sems (k\<lparr>level := IntOff\<rparr>) s') + (if s' = USem n then 1 else 0)"
    have "\<exists>k''. push [CSetLevel IntOn] k' = Inr k'' \<and> kernel_inv b k''"
      by (rule push_inv [OF V(2)]) (use V st L evolves_level [OF V(3)] in \<open>simp_all add: locks_def\<close>)
    then show ?thesis using V(1) l by (simp add: Semaphore_V_def SetLevel_off_def)
  qed
qed

text \<open>Locks and conditions. The only failure is the assertion that the caller holds the lock.\<close>

lemma Release_body_inside:
  assumes I: "inside b k th" and L: "locks k {}" and own: "owner k l = Some (currentThread k)"
  obtains k' where "Release_body b l k = Inr k'" "inside b k' th" "locks k' {}" "level k' = level k"
    "currentThread k' = currentThread k" "conds k' = conds k" "owner k' = (owner k)(l := None)"
proof -
  obtain k1 where V: "V_body b (LSem l) k = Inr k1" "inside b k1 th" "evolves k k1"
    "\<And>s'. sem_value (sems k1 s') = sem_value (sems k s') + (if s' = LSem l then 1 else 0)" "conds k1 = conds k"
    by (rule V_body_inside [OF I, of "LSem l"]) (use L own in \<open>auto simp: locks_def\<close>)
  note e = evolves_level [OF V(3)]
  show thesis
    by (rule that [of "k1\<lparr>owner := (owner k1)(l := None)\<rparr>"])
      (use V L own e in \<open>auto simp: Release_body_def ASSERT_def locks_def\<close>)
qed

lemma CRelease_inv:
  assumes I: "inside b k th" and l: "level k = IntOn" and L: "locks k {}" and st: "stk IntOn (frames th)"
  shows "if owner k x = Some (currentThread k) then \<exists>k'. Lock_Release b x k = Inr k' \<and> kernel_inv b k'
    else Lock_Release b x k = Inl AssertFailed"
proof (cases "owner k x = Some (currentThread k)")
  case True
  obtain k' where R: "Release_body b x (k\<lparr>level := IntOff\<rparr>) = Inr k'" "inside b k' th" "locks k' {}" "level k' = IntOff"
    by (rule Release_body_inside [of b "k\<lparr>level := IntOff\<rparr>" th x]) (use I L True in auto)
  have "\<exists>k''. push [CSetLevel IntOn] k' = Inr k'' \<and> kernel_inv b k''"
    by (rule push_inv [OF R(2)]) (use R st in simp_all)
  then show ?thesis using R(1) True l by (simp add: Lock_Release_def SetLevel_off_def)
qed (simp add: Lock_Release_def SetLevel_off_def Release_body_def ASSERT_def)

lemma CWait_inv:
  assumes I: "inside b k th" and l: "level k = IntOn" and L: "locks k {}" and st: "stk IntOn (frames th)"
  shows "if owner k x = Some (currentThread k) then \<exists>k'. Condition_Wait b c x k = Inr k' \<and> kernel_inv b k'
    else Condition_Wait b c x k = Inl AssertFailed"
proof (cases "owner k x = Some (currentThread k)")
  case True
  obtain k' where R: "Release_body b x (k\<lparr>level := IntOff\<rparr>) = Inr k'" "inside b k' th" "locks k' {}" "level k' = IntOff"
    "currentThread k' = currentThread k" "conds k' = conds k"
    by (rule Release_body_inside [of b "k\<lparr>level := IntOff\<rparr>" th x]) (use I L True in auto)
  let ?g = "(conds k')(c := conds k' c @ [(currentThread k', 0)])"
  let ?fs = "CAcquire x # WaitTail c IntOn # frames th"
  have q: "queue (k'\<lparr>sems := sems k', conds := ?g\<rparr>) = (queue k')(WCond c := queue k' (WCond c) @ [(currentThread k', 0)])"
    by (auto simp: queue_def fun_eq_iff split: wpoint.splits)
  have "\<exists>k''. Thread_Sleep (put_thread (currentThread k') (th\<lparr>frames := ?fs\<rparr>) (k'\<lparr>sems := sems k', conds := ?g\<rparr>)) = Inr k'' \<and> kernel_inv b k''"
    by (rule sleep_inv [OF R(2) _ _ R(4) refl q _ _ R(3)]) (use st in simp_all)
  then show ?thesis
    using R(1,5) True l insideD(3) [OF R(2)]
    by (simp add: Condition_Wait_def SetLevel_off_def ASSERT_def isHeldByCurrentThread_def)
qed (simp add: Condition_Wait_def SetLevel_off_def ASSERT_def isHeldByCurrentThread_def)

lemma Signal_body_inside:
  assumes I: "inside b k th" and own: "owner k x = Some (currentThread k)"
  obtains k' where "Signal_body b c x k = Inr k'" "inside b k' th" "evolves k k'" "sems k' = sems k"
    "conds k' = (conds k)(c := tl (conds k c))"
proof (cases "conds k c")
  case Nil
  then have "(conds k)(c := tl (conds k c)) = conds k" by (auto simp: fun_eq_iff)
  with Nil show thesis
    using I own by (intro that [of k]) (simp_all add: Signal_body_def isHeldByCurrentThread_def ASSERT_def)
next
  case (Cons e rest)
  obtain t y where e: "e = (t, y)" by fastforce
  let ?k1 = "k\<lparr>conds := (conds k)(c := rest)\<rparr>"
  have q: "queue k (WCond c) = (t, y) # rest" using Cons e by (simp add: queue_def)
  have k1: "?k1 = k\<lparr>sems := sems k, conds := (conds k)(c := rest)\<rparr>" "queue ?k1 = (queue k)(WCond c := rest)"
    "\<And>s'. sem_ok (sems k s')"
    using base_outD(4) [OF insideD(1) [OF I]] by simp_all
  obtain t' rl where t: "threads k t = Some t'" "status t' = BLOCKED" "wait_of (frames t') = Some (WCond c)"
    and R: "ReadyToRun b t ?k1 = Inr ((put_thread t (t'\<lparr>status := READY\<rparr>) ?k1)\<lparr>readyList := rl\<rparr>)"
    and B: "base b ((put_thread t (t'\<lparr>status := READY\<rparr>) ?k1)\<lparr>readyList := rl\<rparr>)"
    by (rule wake_base [OF insideD(1) [OF I] q k1]) blast
  let ?k2 = "(put_thread t (t'\<lparr>status := READY\<rparr>) ?k1)\<lparr>readyList := rl\<rparr>"
  have E: "evolves k ?k2"
    using evolves_wake [OF t(1,2)] t(3) by (simp add: evolves_def)
  show thesis
    by (rule that [of ?k2]) (use R Cons e own inside_evolves [OF I B E] E in
      \<open>simp_all add: Signal_body_def isHeldByCurrentThread_def ASSERT_def\<close>)
qed

lemma CSignal_inv:
  assumes I: "inside b k th" and l: "level k = IntOn" and L: "locks k {}" and st: "stk IntOn (frames th)"
  shows "if owner k x = Some (currentThread k) then \<exists>k'. Condition_Signal b c x k = Inr k' \<and> kernel_inv b k'
    else Condition_Signal b c x k = Inl AssertFailed"
proof (cases "owner k x = Some (currentThread k)")
  case True
  obtain k' where R: "Signal_body b c x (k\<lparr>level := IntOff\<rparr>) = Inr k'" "inside b k' th" "evolves (k\<lparr>level := IntOff\<rparr>) k'" "sems k' = sems k"
    by (rule Signal_body_inside [of b "k\<lparr>level := IntOff\<rparr>" th x c]) (use I True in auto)
  have "\<exists>k''. push [CSetLevel IntOn] k' = Inr k'' \<and> kernel_inv b k''"
    by (rule push_inv [OF R(2)]) (use R st L evolves_level [OF R(3)] in \<open>simp_all add: locks_def\<close>)
  then show ?thesis using R(1) True l by (simp add: Condition_Signal_def SetLevel_off_def)
qed (simp add: Condition_Signal_def SetLevel_off_def Signal_body_def isHeldByCurrentThread_def ASSERT_def)

lemma broadcast_inside:
  assumes "inside b k th" "owner k x = Some (currentThread k)" "length (conds k c) = n"
  obtains k' where "broadcast_loop n b c x k = Inr k'" "inside b k' th" "evolves k k'" "sems k' = sems k"
    "conds k' = (conds k)(c := [])"
  using assms
proof (induction n arbitrary: k thesis)
  case 0
  then have "(conds k)(c := []) = conds k" by (auto simp: fun_eq_iff)
  with 0 show ?case by simp
next
  case (Suc n)
  obtain k1 where S: "Signal_body b c x k = Inr k1" "inside b k1 th" "evolves k k1" "sems k1 = sems k"
    "conds k1 = (conds k)(c := tl (conds k c))"
    by (rule Signal_body_inside [OF Suc.prems(2,3), of c]) blast
  have o: "owner k1 x = Some (currentThread k1)" "length (conds k1 c) = n"
    using S(5) evolves_level [OF S(3)] Suc.prems(3,4) by simp_all
  obtain k' where R: "broadcast_loop n b c x k1 = Inr k'" "inside b k' th" "evolves k1 k'" "sems k' = sems k1"
    "conds k' = (conds k1)(c := [])"
    by (rule Suc.IH [OF _ S(2) o]) blast
  show ?case
    by (rule Suc.prems(1) [of k']) (use R S Suc.prems(4) evolves_trans [OF S(3) R(3)] in auto)
qed

lemma CBroadcast_inv:
  assumes I: "inside b k th" and l: "level k = IntOn" and L: "locks k {}" and st: "stk IntOn (frames th)"
  shows "if owner k x = Some (currentThread k) then \<exists>k'. Condition_Broadcast b c x k = Inr k' \<and> kernel_inv b k'
    else Condition_Broadcast b c x k = Inl AssertFailed"
proof (cases "owner k x = Some (currentThread k)")
  case True
  obtain k' where R: "broadcast_loop (length (conds k c)) b c x (k\<lparr>level := IntOff\<rparr>) = Inr k'" "inside b k' th"
    "evolves (k\<lparr>level := IntOff\<rparr>) k'" "sems k' = sems k"
    by (rule broadcast_inside [of b "k\<lparr>level := IntOff\<rparr>" th x c "length (conds k c)"]) (use I True in auto)
  have "\<exists>k''. push [CSetLevel IntOn] k' = Inr k'' \<and> kernel_inv b k''"
    by (rule push_inv [OF R(2)]) (use R st L evolves_level [OF R(3)] in \<open>simp_all add: locks_def\<close>)
  then show ?thesis
    using R(1) True l by (simp add: Condition_Broadcast_def SetLevel_off_def ASSERT_def isHeldByCurrentThread_def)
qed (simp add: Condition_Broadcast_def SetLevel_off_def isHeldByCurrentThread_def ASSERT_def)

text \<open>Yield and the end of Sleep: another thread becomes the current one.\<close>

lemma base_current:
  assumes B: "base_out {t} b k" and c: "threads k (currentThread k) = Some th" "currentThread k \<noteq> t \<Longrightarrow> resting th"
  shows "base_out {t} b (k\<lparr>currentThread := t\<rparr>)"
proof -
  have "resting th'" if "threads k u = Some th'" "u \<noteq> t" for u th'
    using base_outD(3) [OF B that(1)] c that by (cases "u = currentThread k") auto
  then have "\<forall>u th'. threads k u = Some th' \<and> u \<noteq> t \<longrightarrow> resting th'" by blast
  then show ?thesis using B by (simp add: base_out_def placed_out_def clock_ok_def)
qed

lemma Run_inv:
  assumes B: "base_out {t} b k" and h: "\<not> inHandler k" and c: "threads k (currentThread k) = Some th"
    and t: "threads k t = Some t'" "status t' = READY"
    and r: "status th \<in> {READY, BLOCKED}" "stk IntOff (frames th) \<and> acquiring (frames th) = {} \<or> zombie th"
    and rt: "t \<noteq> currentThread k \<Longrightarrow> resting t'"
    and L: "locks k {}" and l: "level k = IntOff"
  shows "\<exists>k'. Scheduler_Run t k = Inr k' \<and> kernel_inv b k' \<and> currentThread k' = t"
proof -
  let ?th = "th\<lparr>frames := RunTail # frames th\<rparr>"
  let ?k1 = "put_thread (currentThread k) ?th k"
  have z: "zombie ?th = zombie th" by (simp add: zombie_def)
  have rest: "resting ?th" using r z by (auto simp: resting_def)
  have P1: "placed_out {t} ?k1"
    using base_outD(1) [OF B] c by (auto simp: placed_out_def view_Some)
  have d: "zombie ?th" if "threadToBeDestroyed k = Some (currentThread k)"
    using base_outD(6) [OF B that] c z by auto
  have B1: "base_out {t} b ?k1"
    by (rule base_put [OF B c P1]) (use rest d in auto)
  have B2: "base_out {t} b (?k1\<lparr>currentThread := t\<rparr>)"
    by (rule base_current [OF B1]) (use rest in auto)
  have o: "CheckOverflow (currentThread k) ?k1 = Inr ()"
    using base_outD(2) [OF B1, of "currentThread k" ?th]
    by (auto simp: CheckOverflow_def thread_wf_def ASSERT_def)
  define t2 where "t2 = (if t = currentThread k then ?th else t')"
  have t2: "threads (?k1\<lparr>currentThread := t\<rparr>) t = Some t2" using t by (simp add: t2_def)
  let ?k2 = "put_thread t (t2\<lparr>status := RUNNING\<rparr>) (?k1\<lparr>currentThread := t\<rparr>)"
  have R: "Scheduler_Run t k = Inr ?k2"
    using c o t2 by (simp add: Scheduler_Run_def)
  have P2: "placed_out {} ?k2" by (rule placed_runs [OF base_outD(1) [OF B2]])
  have nd: "threadToBeDestroyed k \<noteq> Some t"
    using base_outD(6) [OF B, of t] t by (auto simp: zombie_def)
  have B3: "base b ?k2"
    by (rule base_put [OF B2 t2 P2]) (use nd in auto)
  have nz: "\<not> zombie th" if "t = currentThread k"
    using that c t by (auto simp: zombie_def)
  have "stk IntOff (frames t2) \<and> acquiring (frames t2) = {}"
    using r nz rt t(2) by (auto simp: t2_def resting_def zombie_def)
  then have "kernel_inv b ?k2"
    using B3 h L l by (auto simp: kernel_inv_def running_def)
  then show ?thesis using R by simp
qed

text \<open>Taking the next thread off the ready list.\<close>

lemma next_base:
  assumes B: "base b k" and q: "readyList k = (t, p) # rest"
  obtains t' where "base_out {t} b (k\<lparr>readyList := rest\<rparr>)" "threads k t = Some t'" "status t' = READY"
    "t \<noteq> currentThread k \<Longrightarrow> resting t'" "SCHED_PRIORITY b \<Longrightarrow> priority t' = Some p"
proof -
  note P = placed_next [OF base_outD(1) [OF B] q]
  obtain t' where t: "threads k t = Some t'" "status t' = READY" using P(2) by (auto simp: view_def)
  have rs: "SCHED_PRIORITY b \<Longrightarrow> ready_sorted rest (view priority k)" "SCHED_PRIORITY b \<Longrightarrow> priority t' = Some p"
    using base_outD(8) [OF B] q t by (auto simp: ready_sorted_def view_Some)
  have "base_out {t} b (k\<lparr>readyList := rest\<rparr>)"
    by (rule base_readyList [OF B P(1)]) (use rs in auto)
  then show thesis using t rs base_outD(3) [OF B t(1)] that by auto
qed

lemma base_frames:
  assumes B: "base_out T b k" and t: "threads k t = Some th" and s: "status th \<noteq> BLOCKED" and c: "t = currentThread k"
  shows "base_out T b (put_thread t (th\<lparr>frames := fs\<rparr>) k)"
proof (rule base_put [OF B t])
  show "placed_out T (put_thread t (th\<lparr>frames := fs\<rparr>) k)"
    using base_outD(1) [OF B] t s by (auto simp: placed_out_def view_Some)
  show "zombie (th\<lparr>frames := fs\<rparr>)" if "threadToBeDestroyed k = Some t"
    using base_outD(6) [OF B that] t s by (simp add: zombie_def)
qed (use c in auto)

lemma switch_inv:
  assumes I: "inside b k th" and l: "level k = IntOff" and L: "locks k {}" and st: "stk IntOn (frames th)"
    and q: "readyList k = (t, p) # rest"
  shows "\<exists>k'. bind_res (ReadyToRun b (currentThread k) (k\<lparr>readyList := rest, lastSwitchTick := x\<rparr>)) (\<lambda>k3.
      bind_res (push [CSetLevel IntOn] k3) (Scheduler_Run t)) = Inr k' \<and> kernel_inv b k' \<and> currentThread k' = t"
proof -
  note D = insideD [OF I]
  obtain t' where N: "base_out {t} b (k\<lparr>readyList := rest\<rparr>)" "threads k t = Some t'" "status t' = READY"
    "t \<noteq> currentThread k \<Longrightarrow> resting t'"
    by (rule next_base [OF D(1) q]) blast
  have ne: "currentThread k \<noteq> t" using D N by auto
  let ?c = "currentThread k"
  let ?k2 = "k\<lparr>readyList := rest, lastSwitchTick := x\<rparr>"
  have B2: "base_out {t} b ?k2" using N(1) by simp
  have "placed_out (insert ?c {t}) ?k2"
    using base_outD(1) [OF B2] D(3,4) by (auto simp: placed_out_def view_Some)
  then have B2': "base_out (insert ?c {t}) b ?k2"
    using B2 unfolding base_out_def by auto
  obtain rl where R: "ReadyToRun b ?c ?k2 = Inr ((put_thread ?c (th\<lparr>status := READY\<rparr>) ?k2)\<lparr>readyList := rl\<rparr>)"
    "base_out {t} b ((put_thread ?c (th\<lparr>status := READY\<rparr>) ?k2)\<lparr>readyList := rl\<rparr>)"
    by (rule ReadyToRun_base [OF B2', of th]) (use ne D not_doomed [OF I] in auto)
  let ?k3 = "(put_thread ?c (th\<lparr>status := READY\<rparr>) ?k2)\<lparr>readyList := rl\<rparr>"
  let ?th = "th\<lparr>status := READY, frames := CSetLevel IntOn # frames th\<rparr>"
  let ?k4 = "put_thread ?c ?th ?k3"
  have B4: "base_out {t} b ?k4"
    using base_frames [OF R(2), of ?c "th\<lparr>status := READY\<rparr>" "CSetLevel IntOn # frames th"] by simp
  have P: "push [CSetLevel IntOn] ?k3 = Inr ?k4" by simp
  have "\<exists>k'. Scheduler_Run t ?k4 = Inr k' \<and> kernel_inv b k' \<and> currentThread k' = t"
    by (rule Run_inv [OF B4, where th = ?th and t' = t']) (use ne N D l L st in simp_all)
  then show ?thesis using R(1) P by simp
qed

lemma rotate_inside:
  assumes I: "inside b k th" and q: "readyList k = (t, p) # rest" and pr: "SCHED_PRIORITY b"
  shows "inside b (k\<lparr>readyList := ins_sorted t p rest\<rparr>) th"
proof -
  note D = insideD [OF I]
  have m: "mset (map fst (ins_sorted t p rest)) = mset (map fst ((t, p) # rest))" "set (ins_sorted t p rest) = set ((t, p) # rest)"
    by (metis mset_ins_sorted mset.simps(2) mset_map) simp
  have "placed_out {} (k\<lparr>readyList := ins_sorted t p rest\<rparr>)"
    using base_outD(1) [OF D(1)] mset_eq_imp_distinct_iff [OF m(1)] q by (simp add: placed_out_def)
  moreover have "ready_sorted (ins_sorted t p rest) (view priority k)"
    using base_outD(8) [OF D(1) pr] q sorted_ins_sorted [of rest t p] by (auto simp: ready_sorted_def)
  ultimately have "base b (k\<lparr>readyList := ins_sorted t p rest\<rparr>)"
    by (intro base_readyList [OF D(1)]) auto
  then show ?thesis using D by (simp add: inside_def)
qed

lemma getPriority_inside:
  assumes "base b k" "threads k t = Some t'" "SCHED_PRIORITY b"
  obtains p where "getPriority t k = Inr p" "priority t' = Some p"
  using base_outD(2) [OF assms(1,2)] assms(2,3) by (auto simp: getPriority_def thread_wf_def)

lemma CYield_inv:
  assumes I: "inside b k th" and l: "level k = IntOn" and L: "locks k {}" and st: "stk IntOn (frames th)"
  shows "\<exists>k'. Thread_Yield b k = Inr k' \<and> kernel_inv b k'"
proof -
  let ?k = "k\<lparr>level := IntOff\<rparr>"
  have I': "inside b ?k th" "level ?k = IntOff" "locks ?k {}" using I L by simp_all
  have stay: "\<exists>k'. push [CSetLevel IntOn] k1 = Inr k' \<and> kernel_inv b k'" if "inside b k1 th" "level k1 = IntOff" "locks k1 {}" for k1
    by (rule push_inv [OF that(1)]) (use that st in simp_all)
  have Y: "Thread_Yield b k = bind_res (FindNextToRun b False ?k) (\<lambda>(nextThread, k2).
        case nextThread of None \<Rightarrow> push [CSetLevel IntOn] k2
        | Some t \<Rightarrow> bind_res (ReadyToRun b (currentThread k2) k2) (\<lambda>k3. bind_res (push [CSetLevel IntOn] k3) (Scheduler_Run t)))"
    by (simp add: Thread_Yield_def SetLevel_off_def l)
  show ?thesis
  proof (cases "readyList k")
    case Nil
    then show ?thesis using stay [OF I'] by (simp add: Y FindNextToRun_def)
  next
    case (Cons e rest)
    obtain t p where q: "readyList k = (t, p) # rest" using Cons by (cases e) simp
    have S: "\<exists>k'. bind_res (ReadyToRun b (currentThread ?k) (?k\<lparr>readyList := rest, lastSwitchTick := systemTicks ?k\<rparr>)) (\<lambda>k3.
      bind_res (push [CSetLevel IntOn] k3) (Scheduler_Run t)) = Inr k' \<and> kernel_inv b k' \<and> currentThread k' = t"
      by (rule switch_inv [OF I' st, of t p rest]) (use q in simp)
    show ?thesis
    proof (cases "SCHED_PRIORITY b")
      case False
      then show ?thesis using S q by (auto simp: Y FindNextToRun_def)
    next
      case True
      obtain t' where t: "threads k t = Some t'" "priority t' = Some p"
        by (rule next_base [OF insideD(1) [OF I] q]) (use True in auto)
      obtain c where c: "priority th = Some c"
        by (rule getPriority_inside [OF insideD(1,3) [OF I] True])
      have G: "getPriority t ?k = Inr p" "getPriority (currentThread k) ?k = Inr c"
        using t c insideD(3) [OF I] by (simp_all add: getPriority_def)
      have R: "inside b (?k\<lparr>readyList := ins_sorted t p rest\<rparr>) th"
        by (rule rotate_inside [OF I'(1) _ True]) (use q in simp)
      show ?thesis
        using S q G True stay [OF R] I' by (auto simp: Y FindNextToRun_def)
    qed
  qed
qed

text \<open>Sleep, from its loop on.\<close>

lemma Idle_base:
  assumes B: "base b k" and l: "level k = IntOff" and h: "\<not> inHandler k"
  shows "(\<exists>k'. Interrupt_Idle b k = Inr k' \<and> base b k' \<and> quiet k k' \<and> \<not> inHandler k') \<or>
    (\<exists>k'. Interrupt_Idle b k = Inl (KHalted k') \<and> base b k' \<and> quiet k k') \<or>
    Interrupt_Idle b k = Inl (KFault Overflow) \<and> crowded (due_time True k) k"
proof -
  let ?k = "k\<lparr>int_status := IdleMode\<rparr>"
  have B': "base b ?k" "level ?k = IntOff" "\<not> inHandler ?k" using B l h by simp_all
  have cr: "crowded (due_time True ?k) ?k = crowded (due_time True k) k" by (simp add: crowded_def due_time_def)
  show ?thesis
  proof (rule CheckIfDue_base [OF B', of True])
    assume "CheckIfDue b True ?k = Inl Overflow" "crowded (due_time True ?k) ?k"
    then show ?thesis using cr by (simp add: Interrupt_Idle_def)
  next
    fix fired k1
    assume C: "CheckIfDue b True ?k = Inr (fired, k1)" "base b k1" "quiet ?k k1" "\<not> inHandler k1"
      "\<And>n. dev_load n k1 \<le> dev_load n ?k" "totalTicks k1 = due_time True ?k \<or> \<not> fired"
    have Q: "quiet k k1" using C(3) by (simp add: quiet_def evolves_def)
    have l1: "level k1 = IntOff" using Q l by (simp add: quiet_def evolves_def)
    show ?thesis
    proof (cases fired)
      case False
      then show ?thesis using C Q by (simp add: Interrupt_Idle_def)
    next
      case True
      show ?thesis
      proof (rule check_loop_base [OF C(2) l1 C(4)])
        assume K: "check_loop b k1 = Some (Inl Overflow)" "crowded (totalTicks k1) k1"
        have "crowded (due_time True ?k) ?k" using crowded_mono [OF K(2) C(5)] C(6) True by simp
        then show ?thesis using K(1) C(1) True cr by (simp add: Interrupt_Idle_def)
      next
        fix k2
        assume K: "check_loop b k1 = Some (Inr k2)" "base b k2" "quiet k1 k2" "\<not> inHandler k2"
        then show ?thesis
          using True C(1) quiet_trans [OF Q K(3)] by (simp add: Interrupt_Idle_def)
      qed
    qed
  qed
qed

lemma SleepLoop_pop:
  assumes K: "kernel_inv b k" and c: "threads k (currentThread k) = Some th" "frames th = SleepLoop # fs"
  shows "base b (put_thread (currentThread k) (th\<lparr>frames := fs\<rparr>) k)" "\<not> inHandler k" "level k = IntOff" "locks k {}"
    "status th \<in> {READY, BLOCKED}" "stk IntOff fs \<and> acquiring fs = {} \<or> zombie (th\<lparr>frames := fs\<rparr>)"
proof -
  have r: "running (level k) th" and L: "locks k {}" and B: "base b k" and h: "\<not> inHandler k"
    using K c by (auto simp: kernel_inv_def)
  have w: "wait_of (frames th) = wait_of fs" using c by simp
  have z: "zombie (th\<lparr>frames := fs\<rparr>) = zombie th" using w by (simp add: zombie_def)
  show "\<not> inHandler k" "locks k {}" by (rule h, rule L)
  show "level k = IntOff" "status th \<in> {READY, BLOCKED}" "stk IntOff fs \<and> acquiring fs = {} \<or> zombie (th\<lparr>frames := fs\<rparr>)"
    using r c z by (auto simp: running_def)
  have P: "placed_out {} (put_thread (currentThread k) (th\<lparr>frames := fs\<rparr>) k)"
    using base_outD(1) [OF B] c w by (auto simp: placed_out_def view_Some)
  show "base b (put_thread (currentThread k) (th\<lparr>frames := fs\<rparr>) k)"
    by (rule base_put [OF B c(1) P]) (use base_outD(6) [OF B, of "currentThread k"] c z in auto)
qed

lemma SleepLoop_push:
  assumes B: "base b k" and h: "\<not> inHandler k" and l: "level k = IntOff" and L: "locks k {}"
    and c: "threads k (currentThread k) = Some th" and s: "status th \<in> {READY, BLOCKED}"
    and r: "stk IntOff (frames th) \<and> acquiring (frames th) = {} \<or> zombie th"
  shows "\<exists>k'. push [SleepLoop] k = Inr k' \<and> kernel_inv b k'"
proof -
  let ?th = "th\<lparr>frames := SleepLoop # frames th\<rparr>"
  have z: "zombie ?th = zombie th" by (simp add: zombie_def)
  have P: "placed_out {} (put_thread (currentThread k) ?th k)"
    using base_outD(1) [OF B] c by (auto simp: placed_out_def view_Some)
  have "base b (put_thread (currentThread k) ?th k)"
    by (rule base_put [OF B c P]) (use base_outD(6) [OF B, of "currentThread k"] c z in auto)
  then show ?thesis using c h l L s r z by (auto simp: kernel_inv_def running_def)
qed

lemma SleepLoop_inv:
  assumes K: "kernel_inv b k" and c: "threads k (currentThread k) = Some th" "frames th = SleepLoop # fs"
  shows "case Sleep_loop b (put_thread (currentThread k) (th\<lparr>frames := fs\<rparr>) k) of
      Inr k' \<Rightarrow> kernel_inv b k' | Inl (KHalted k') \<Rightarrow> readyList k = []
      | Inl (KFault e) \<Rightarrow> e = Overflow \<and> readyList k = [] \<and> crowded (due_time True k) k"
proof -
  let ?c = "currentThread k" and ?th = "th\<lparr>frames := fs\<rparr>"
  let ?k = "(put_thread ?c ?th k)\<lparr>lastSwitchTick := systemTicks k\<rparr>"
  note P = SleepLoop_pop [OF K c]
  have B: "base b ?k" using P(1) by simp
  have dt: "crowded (due_time True ?k) ?k = crowded (due_time True k) k" by (simp add: due_time_def crowded_def)
  show ?thesis
  proof (cases "readyList k")
    case Nil
    have F: "FindNextToRun b True (put_thread ?c ?th k) = Inr (None, ?k)" using Nil by (simp add: FindNextToRun_def)
    consider k' where "Interrupt_Idle b ?k = Inr k'" "base b k'" "quiet ?k k'" "\<not> inHandler k'"
      | k' where "Interrupt_Idle b ?k = Inl (KHalted k')"
      | "Interrupt_Idle b ?k = Inl (KFault Overflow)" "crowded (due_time True k) k"
      using Idle_base [OF B] P(2,3) dt by auto
    then show ?thesis
    proof cases
      case 1
      have e: "currentThread k' = ?c" "level k' = IntOff" using 1(3) P(3) by (auto simp: quiet_def evolves_def)
      have L: "locks k' {}" using quiet_locks [OF 1(3)] P(4) by simp
      have "threads ?k ?c = Some ?th" by simp
      then have "threads k' ?c = Some ?th \<or> status ?th = BLOCKED \<and> wait_of (frames ?th) \<noteq> None \<and> threads k' ?c = Some (?th\<lparr>status := READY\<rparr>)"
        using 1(3) unfolding quiet_def evolves_def by blast
      then obtain th' where th': "threads k' (currentThread k') = Some th'" "status th' \<in> {READY, BLOCKED}"
        "stk IntOff (frames th') \<and> acquiring (frames th') = {} \<or> zombie th'"
        using P(5,6) e by (auto simp: zombie_def)
      have "\<exists>k''. push [SleepLoop] k' = Inr k'' \<and> kernel_inv b k''"
        by (rule SleepLoop_push [OF 1(2,4) e(2) L th'])
      then show ?thesis using F 1(1) by (auto simp: Sleep_loop_def)
    next
      case 2
      then show ?thesis using F Nil by (simp add: Sleep_loop_def)
    next
      case 3
      then show ?thesis using F Nil by (simp add: Sleep_loop_def)
    qed
  next
    case (Cons e rest)
    obtain t p where q: "readyList k = (t, p) # rest" using Cons by (cases e) simp
    have F: "FindNextToRun b True (put_thread ?c ?th k) = Inr (Some t, ?k\<lparr>readyList := rest\<rparr>)"
      using q by (simp add: FindNextToRun_def)
    obtain t' where N: "base_out {t} b (?k\<lparr>readyList := rest\<rparr>)" "threads ?k t = Some t'" "status t' = READY"
      "t \<noteq> currentThread ?k \<Longrightarrow> resting t'"
      by (rule next_base [OF B, of t p rest]) (use q in auto)
    have "\<exists>k'. Scheduler_Run t (?k\<lparr>readyList := rest\<rparr>) = Inr k' \<and> kernel_inv b k' \<and> currentThread k' = t"
      by (rule Run_inv [OF N(1), where th = ?th and t' = t']) (use N P in simp_all)
    then show ?thesis using F by (auto simp: Sleep_loop_def)
  qed
qed

text \<open>Run after SWITCH: the thread that finished last is freed, together with its number.\<close>

lemma ids_ok_free:
  assumes "ids_ok ids f n" "f t = Some i"
  shows "0 \<le> i" "nat i < length ids" "ids_ok (ids[nat i := False]) (f(t := None)) n"
proof -
  have i: "0 \<le> i" "nat i < maxThreadsCount" "length ids = maxThreadsCount" using assms by (auto simp: ids_ok_def)
  then show "0 \<le> i" "nat i < length ids" by simp_all
  have "(ids[nat i := False]) ! j \<longleftrightarrow> (\<exists>u. (f(t := None)) u = Some (int j))" if "j < maxThreadsCount" for j
  proof (cases "j = nat i")
    case True
    then have "\<not> (\<exists>u. (f(t := None)) u = Some (int j))" using assms i by (auto simp: ids_ok_def)
    then show ?thesis using True i by simp
  next
    case False
    then have "f u = Some (int j) \<Longrightarrow> u \<noteq> t" for u using assms(2) i by auto
    then have "(\<exists>u. (f(t := None)) u = Some (int j)) \<longleftrightarrow> (\<exists>u. f u = Some (int j))" by auto
    then show ?thesis using False that assms(1) i by (simp add: ids_ok_def)
  qed
  then show "ids_ok (ids[nat i := False]) (f(t := None)) n"
    using assms(1) by (auto simp: ids_ok_def split: if_splits)
qed

lemma RunTail_inv:
  assumes I: "inside b k th" and L: "locks k (acquiring (frames th))" and st: "stk (level k) (frames th)"
  shows "\<exists>k'. Run_tail k = Inr k' \<and> kernel_inv b k'"
proof (cases "threadToBeDestroyed k")
  case None
  then show ?thesis using stay_inv [OF I st L] by (simp add: Run_tail_def)
next
  case (Some t)
  note D = insideD [OF I]
  note B = base_outD [OF D(1)]
  obtain t' where t: "threads k t = Some t'" "zombie t'" using B(6) [OF Some] by blast
  have ne: "t \<noteq> currentThread k" using not_doomed [OF I] Some by blast
  have "view threadId k t = Some (threadId t')" using t by (simp add: view_Some)
  note F = ids_ok_free [OF B(5) this]
  let ?k1 = "k\<lparr>threadIds := (threadIds k)[nat (threadId t') := False], threads := (threads k)(t := None)\<rparr>"
  let ?k = "?k1\<lparr>threadToBeDestroyed := None\<rparr>"
  have R: "Run_tail k = Inr ?k"
    using Some t ne F(1,2) by (simp add: Run_tail_def Thread_destroy_def arr_set_def ASSERT_def)
  have v: "view f ?k = (view f k)(t := None)" for f by (auto simp: view_def)
  have P: "placed_out {} ?k"
    using placed_freed [OF B(1) t] by (simp add: placed_out_def v view_def)
  have nr: "t \<notin> tids (readyList k)" using placed_outD(3) [OF B(1), of t] t by (simp add: view_Some zombie_def)
  have "base b ?k"
    unfolding base_out_def
  proof (intro conjI allI impI)
    show "ready_sorted (readyList ?k) (view priority ?k)" if "SCHED_PRIORITY b"
      using B(8) [OF that] nr unfolding v by (force simp: ready_sorted_def)
    show "clock_ok ?k" using B(7) by (simp add: clock_ok_def)
    show "ids_ok (threadIds ?k) (view threadId ?k) (next_tid ?k)" using F(3) unfolding v by simp
  qed (use P B(2,3,4) in \<open>auto split: if_splits\<close>)
  then have "inside b ?k th" using D ne by (simp add: inside_def)
  then have "kernel_inv b ?k" by (rule stay_inv) (use st L in \<open>simp_all add: locks_def\<close>)
  with R show ?thesis by blast
qed

text \<open>The clock.\<close>

lemma CSetLevel_inv:
  assumes I: "inside b k th" and L: "locks k (acquiring (CSetLevel now # frames th))" and st: "stk (level k) (CSetLevel now # frames th)"
  shows "\<exists>k'. Interrupt_SetLevel now k = Inr k' \<and> kernel_inv b k'"
proof (cases now)
  case IntOn
  have "\<exists>k'. push [COneTick] (k\<lparr>level := IntOn\<rparr>) = Inr k' \<and> kernel_inv b k'"
    by (rule push_inv [of b _ th]) (use I L st IntOn in simp_all)
  then show ?thesis
    using insideD(2) [OF I] st IntOn by (simp add: Interrupt_SetLevel_def ASSERT_def)
next
  case IntOff
  have a: "acquiring (CSetLevel now # frames th) = acquiring (frames th)"
    using st IntOff by (cases "frames th") (auto split: frame.splits)
  have "kernel_inv b (k\<lparr>level := IntOff\<rparr>)"
    by (rule stay_inv [of b _ th]) (use I L st IntOff a in auto)
  then show ?thesis using IntOff by (simp add: Interrupt_SetLevel_def ASSERT_def Let_def)
qed

definition ticked :: "Kernel \<Rightarrow> Kernel" where
  "ticked k = (if int_status k = SystemMode
      then k\<lparr>totalTicks := totalTicks k + SystemTick, systemTicks := systemTicks k + SystemTick\<rparr>
      else k\<lparr>totalTicks := totalTicks k + UserTick, userTicks := userTicks k + UserTick\<rparr>)"

lemma advance_time_base:
  assumes B: "base b k"
  obtains (full) "advance_time k = Inl Overflow" "2 ^ 31 \<le> totalTicks (ticked k)"
  | (ticked) "advance_time k = Inr (ticked k)" "base b (ticked k)"
proof (cases "totalTicks (ticked k) < 2 ^ 31")
  case True
  note c = clock_okD [OF base_outD(7) [OF B]]
  have "base b (ticked k)"
    using B by (auto simp: ticked_def base_out_def placed_out_def clock_ok_def SystemTick_def UserTick_def)
  moreover have "advance_time k = Inr (ticked k)"
    using True c by (auto simp: advance_time_def ticked_def is_int_def int_add_def SystemTick_def UserTick_def split: if_splits)
  ultimately show thesis by (intro ticked)
next
  case False
  then have "advance_time k = Inl Overflow"
    by (auto simp: advance_time_def ticked_def is_int_def int_add_def split: if_splits)
  then show thesis using False by (intro full) simp_all
qed

text \<open>The tick up to the end of the loop over CheckIfDue.\<close>

lemma tick_base:
  assumes I: "inside b k th"
  obtains (full) "Interrupt_OneTick b k = Inl Overflow" "crowded (totalTicks (ticked k)) k"
  | (checked) k2 where "Interrupt_OneTick b k = (if yieldOnReturn k2
        then push [CYield, TickTail (int_status k)] (k2\<lparr>level := IntOn, yieldOnReturn := False, int_status := SystemMode\<rparr>)
        else Inr (k2\<lparr>level := IntOn\<rparr>))"
    "inside b k2 th" "quiet k (k2\<lparr>level := level k\<rparr>)" "totalTicks k2 = totalTicks (ticked k)" "int_status k \<noteq> IdleMode \<Longrightarrow> due k2 = 0"
proof (rule advance_time_base [OF insideD(1) [OF I]])
  assume "advance_time k = Inl Overflow" "2 ^ 31 \<le> totalTicks (ticked k)"
  then show thesis by (intro full) (simp_all add: Interrupt_OneTick_def crowded_def TimerTicks_def)
next
  let ?k = "(ticked k)\<lparr>level := IntOff\<rparr>"
  assume T: "advance_time k = Inr (ticked k)" "base b (ticked k)"
  have same: "threads (ticked k) = threads k" "currentThread (ticked k) = currentThread k" "inHandler (ticked k) = inHandler k"
    "int_status (ticked k) = int_status k" "\<And>n. dev_load n (ticked k) = dev_load n k" "totalTicks k \<le> totalTicks (ticked k)"
    by (simp_all add: ticked_def SystemTick_def UserTick_def)
  have q: "quiet k ((ticked k)\<lparr>level := level k\<rparr>)"
    by (auto simp: ticked_def quiet_def evolves_def SystemTick_def UserTick_def)
  have I1: "inside b ?k th" using T(2) insideD [OF I] same by (simp add: inside_def)
  have B1: "base b ?k" "level ?k = IntOff" "\<not> inHandler ?k" using T(2) insideD(2) [OF I] same by simp_all
  show thesis
  proof (rule check_loop_base [OF B1])
    assume "check_loop b ?k = Some (Inl Overflow)" "crowded (totalTicks ?k) ?k"
    then show thesis using T same by (intro full) (simp_all add: Interrupt_OneTick_def crowded_def)
  next
    fix k2
    assume C: "check_loop b ?k = Some (Inr k2)" "base b k2" "quiet ?k k2" "\<not> inHandler k2" "totalTicks k2 = totalTicks ?k"
      "int_status ?k \<noteq> IdleMode \<Longrightarrow> due k2 = 0"
    have I2: "inside b k2 th"
      by (rule inside_evolves [OF I1 C(2)]) (use C B1 in \<open>simp_all add: quiet_def\<close>)
    have "quiet ((ticked k)\<lparr>level := level k\<rparr>) (k2\<lparr>level := level k\<rparr>)"
      using C(3) by (simp add: quiet_def evolves_def)
    then have "quiet k (k2\<lparr>level := level k\<rparr>)" by (rule quiet_trans [OF q])
    then show thesis using C I2 T same by (intro checked) (simp_all add: Interrupt_OneTick_def Let_def)
  qed
qed

lemma COneTick_inv:
  assumes I: "inside b k th" and l: "level k = IntOn" and L: "locks k {}" and st: "stk IntOn (frames th)"
  shows "(\<exists>k'. Interrupt_OneTick b k = Inr k' \<and> kernel_inv b k') \<or>
    Interrupt_OneTick b k = Inl Overflow \<and> crowded (totalTicks (ticked k)) k"
proof (rule tick_base [OF I])
  fix k2
  assume T: "Interrupt_OneTick b k = (if yieldOnReturn k2
      then push [CYield, TickTail (int_status k)] (k2\<lparr>level := IntOn, yieldOnReturn := False, int_status := SystemMode\<rparr>)
      else Inr (k2\<lparr>level := IntOn\<rparr>))" and I2: "inside b k2 th" and Q: "quiet k (k2\<lparr>level := level k\<rparr>)"
  have L2: "locks k2 {}" using quiet_locks [OF Q] L by simp
  have "\<exists>k'. push [CYield, TickTail (int_status k)] (k2\<lparr>level := IntOn, yieldOnReturn := False, int_status := SystemMode\<rparr>) = Inr k' \<and> kernel_inv b k'"
    by (rule push_inv [of b _ th]) (use I2 L2 st in simp_all)
  moreover have "kernel_inv b (k2\<lparr>level := IntOn\<rparr>)"
    by (rule stay_inv [of b _ th]) (use I2 L2 st in simp_all)
  ultimately show ?thesis using T by auto
qed simp

text \<open>Creating a thread.\<close>

lemma first_free_None: "first_free i ids = None \<longleftrightarrow> (\<forall>u \<in> set ids. u)"
  by (induction ids arbitrary: i) auto

lemma first_free_Some:
  "first_free i ids = Some j \<Longrightarrow> i \<le> j \<and> j < i + length ids \<and> \<not> ids ! (j - i)"
  by (induction ids arbitrary: i) (fastforce simp: nth_Cons' split: if_splits)+

lemma ids_ok_new:
  assumes "ids_ok ids f n" "first_free 0 ids = Some i"
  shows "ids_ok (ids[i := True]) (f(n := Some (int i))) (n + 1)" "f n = None"
proof -
  have i: "i < maxThreadsCount" "\<not> ids ! i" "length ids = maxThreadsCount"
    using first_free_Some [OF assms(2)] assms(1) by (auto simp: ids_ok_def)
  then have ni: "f t \<noteq> Some (int i)" for t using assms(1) by (auto simp: ids_ok_def)
  show n: "f n = None" using assms(1) by (fastforce simp: ids_ok_def)
  have "(ids[i := True]) ! j \<longleftrightarrow> (\<exists>u. (f(n := Some (int i))) u = Some (int j))" if "j < maxThreadsCount" for j
  proof (cases "j = i")
    case True
    then show ?thesis using i by auto
  next
    case False
    have "f u = Some (int j) \<Longrightarrow> u \<noteq> n" for u using n by auto
    then have "(\<exists>u. (f(n := Some (int i))) u = Some (int j)) \<longleftrightarrow> (\<exists>u. f u = Some (int j))"
      using False by auto
    then show ?thesis using False that assms(1) i by (simp add: ids_ok_def)
  qed
  moreover have "\<forall>t j. f t = Some j \<longrightarrow> 0 \<le> j \<and> nat j < maxThreadsCount \<and> t < n + 1"
    using assms(1) by (fastforce simp: ids_ok_def)
  ultimately show "ids_ok (ids[i := True]) (f(n := Some (int i))) (n + 1)"
    using assms(1) i ni unfolding ids_ok_def by auto
qed

lemma base_new:
  assumes B: "base b k" and i: "first_free 0 (threadIds k) = Some i" and wf: "thread_wf b t'" "threadId t' = int i"
    and k1: "k1 = k\<lparr>next_tid := next_tid k + 1, threadIds := (threadIds k)[i := True], threads := (threads k)(next_tid k \<mapsto> t')\<rparr>"
  shows "base_out {next_tid k} b k1" "threads k (currentThread k) \<noteq> None \<Longrightarrow> next_tid k \<noteq> currentThread k"
    "threadToBeDestroyed k \<noteq> Some (next_tid k)"
proof -
  note D = base_outD [OF B]
  note N = ids_ok_new [OF D(5) i]
  have n: "threads k (next_tid k) = None" using N(2) by (simp add: view_def)
  then show "threads k (currentThread k) \<noteq> None \<Longrightarrow> next_tid k \<noteq> currentThread k" "threadToBeDestroyed k \<noteq> Some (next_tid k)"
    using D(6) [of "next_tid k"] by auto
  have v: "view f k1 = (view f k)(next_tid k := Some (f t'))" for f by (auto simp: view_def k1)
  have q: "queue k1 = queue k" "readyList k1 = readyList k" by (simp_all add: k1)
  have s: "stat k (next_tid k) = None" using n by (simp add: view_def)
  have nr: "next_tid k \<notin> tids (readyList k)" using placed_outD(3) [OF D(1), of "next_tid k"] s by simp
  show "base_out {next_tid k} b k1"
    unfolding base_out_def
  proof (intro conjI allI impI)
    show "placed_out {next_tid k} k1"
    proof (rule placed_outI)
      show "t \<in> tids (readyList k1) \<longleftrightarrow> t \<notin> {next_tid k} \<and> stat k1 t = Some READY" for t
        using placed_outD(3) [OF D(1), of t] s by (auto simp: v q)
      show "t \<in> tids (queue k1 w) \<longleftrightarrow> t \<notin> {next_tid k} \<and> stat k1 t = Some BLOCKED \<and> wait_at k1 t = Some (Some w)" for t w
        using placed_outD(4) [OF D(1), of t w] s by (auto simp: v q)
    qed (use placed_outD(1,2) [OF D(1)] in \<open>simp_all add: k1\<close>)
    show "ready_sorted (readyList k1) (view priority k1)" if "SCHED_PRIORITY b"
      using D(8) [OF that] nr unfolding v q by (force simp: ready_sorted_def)
    show "ids_ok (threadIds k1) (view threadId k1) (next_tid k1)" using N(1) wf(2) unfolding v by (simp add: k1)
    show "thread_wf b th" if "threads k1 t = Some th" for t th
      using that wf(1) D(2) [of t th] by (auto simp: k1 split: if_splits)
    show "resting th" if "threads k1 t = Some th \<and> t \<noteq> currentThread k1 \<and> t \<notin> {next_tid k}" for t th
      using that D(3) [of t th] by (auto simp: k1 split: if_splits)
    show "\<exists>th. threads k1 t = Some th \<and> zombie th" if "threadToBeDestroyed k1 = Some t" for t
      using that D(6) [of t] n by (auto simp: k1)
    show "clock_ok k1" using D(7) by (simp add: clock_ok_def k1)
    show "sem_ok (sems k1 s)" for s using D(4) by (simp add: k1)
  qed
qed

text \<open>Why a step may fail: what a thread does, or a counter that would leave the range of \<open>int\<close>.\<close>

definition misuse :: "kbuild \<Rightarrow> Kernel \<Rightarrow> frame \<Rightarrow> nerr \<Rightarrow> bool" where
  "misuse b k f e \<longleftrightarrow>
     (case f of
        CRelease l \<Rightarrow> e = AssertFailed \<and> owner k l \<noteq> Some (currentThread k)
      | CWait c l \<Rightarrow> e = AssertFailed \<and> owner k l \<noteq> Some (currentThread k)
      | CSignal c l \<Rightarrow> e = AssertFailed \<and> owner k l \<noteq> Some (currentThread k)
      | CBroadcast c l \<Rightarrow> e = AssertFailed \<and> owner k l \<noteq> Some (currentThread k)
      | CFork pri body \<Rightarrow> e = AssertFailed \<and> (\<forall>u \<in> set (threadIds k). u) \<or>
          e = Uninitialised \<and> SCHED_PRIORITY b \<and> (pri < 0 \<or> 10 < pri)
      | ListLoop n \<Rightarrow> e = AssertFailed \<and> (\<exists>rest. slists k n = 0 # rest)
      | CRequest n ticks ty \<Rightarrow> e = AssertFailed \<and> (busy k n \<or> ticks \<le> 0)
      | _ \<Rightarrow> False)"

definition at_limit :: "Kernel \<Rightarrow> frame \<Rightarrow> nerr \<Rightarrow> bool" where
  "at_limit k f e \<longleftrightarrow> e = Overflow \<and>
     (case f of
        CV n \<Rightarrow> 2 ^ 31 \<le> sem_value (sems k (USem n)) + 1 \<and> sem_queue (sems k (USem n)) = []
      | CRequest n ticks ty \<Rightarrow> \<not> is_int (totalTicks k + ticks)
      | COneTick \<Rightarrow> crowded (totalTicks (ticked k)) k
      | SleepLoop \<Rightarrow> readyList k = [] \<and> crowded (due_time True k) k
      | _ \<Rightarrow> False)"

lemma CFork_inv:
  assumes I: "inside b k th" and l: "level k = IntOn" and L: "locks k {}" and st: "stk IntOn (frames th)"
    and u: "list_all user_call body"
  shows "case bind_res (Thread_Thread pri k) (\<lambda>(t, k1). Thread_Fork b t body k1) of
      Inr k' \<Rightarrow> kernel_inv b k' | Inl e \<Rightarrow> misuse b k (CFork pri body) e"
proof (cases "first_free 0 (threadIds k)")
  case None
  then have "bind_res (Thread_Thread pri k) (\<lambda>(t, k1). Thread_Fork b t body k1) = Inl AssertFailed"
    by (simp add: Thread_Thread_def allocatedThreadID_def ASSERT_def)
  then show ?thesis using None by (simp add: misuse_def first_free_None)
next
  case (Some i)
  note D = insideD [OF I]
  let ?n = "next_tid k" and ?pr = "if pri < 0 then None else if pri > 10 then None else Some pri"
  let ?t = "\<lparr>status = JUST_CREATED, priority = ?pr, threadId = int i, stack = Some STACK_FENCEPOST,
    frames = CSetLevel IntOn # body @ [CFinish], received = []\<rparr>"
  let ?k0 = "\<lambda>x. k\<lparr>next_tid := ?n + 1, threadIds := (threadIds k)[i := True], threads := (threads k)(?n \<mapsto> x)\<rparr>"
  let ?k1 = "(?k0 ?t)\<lparr>level := IntOff\<rparr>"
  have E: "bind_res (Thread_Thread pri k) (\<lambda>(t, k1). Thread_Fork b t body k1) =
      bind_res (ReadyToRun b ?n ?k1) (push [CSetLevel IntOn])"
    by (simp add: Thread_Thread_def allocatedThreadID_def Some ASSERT_def Let_def Thread_Fork_def StackAllocate_def
      get_thread_def put_thread_def SetLevel_off_def l)
  show ?thesis
  proof (cases "SCHED_PRIORITY b \<and> ?pr = None")
    case True
    then have "ReadyToRun b ?n ?k1 = Inl Uninitialised"
      by (auto simp: ReadyToRun_def getPriority_def put_thread_def)
    then show ?thesis unfolding E using True by (auto simp: misuse_def split: if_splits)
  next
    case False
    have wf: "thread_wf b ?t" using False by (auto simp: thread_wf_def)
    note B = base_new [OF D(1) Some wf _ refl]
    have B1: "base_out (insert ?n {}) b ?k1" and ne: "?n \<noteq> currentThread k" "threadToBeDestroyed k \<noteq> Some ?n"
      using B D(3) by simp_all
    have s: "stk IntOff (frames ?t)" using stk_body [OF u, of "[CFinish]"] by simp
    obtain rl where R: "ReadyToRun b ?n ?k1 = Inr ((put_thread ?n (?t\<lparr>status := READY\<rparr>) ?k1)\<lparr>readyList := rl\<rparr>)"
      "base b ((put_thread ?n (?t\<lparr>status := READY\<rparr>) ?k1)\<lparr>readyList := rl\<rparr>)"
      by (rule ReadyToRun_base [OF B1 _, of ?t]) (use s ne in auto)
    let ?k2 = "(put_thread ?n (?t\<lparr>status := READY\<rparr>) ?k1)\<lparr>readyList := rl\<rparr>"
    have I2: "inside b ?k2 th" using R(2) D ne by (simp add: inside_def)
    have "\<exists>k'. push [CSetLevel IntOn] ?k2 = Inr k' \<and> kernel_inv b k'"
      by (rule push_inv [OF I2]) (use st L in \<open>simp_all add: locks_def\<close>)
    then show ?thesis unfolding E using R(1) by auto
  qed
qed

end
