(* ===== verification/Nachos_KernelRun.thy ===== *)
theory Nachos_KernelRun
  imports Nachos_KernelInv
begin

text \<open>
  Runs of the thread system: every step of \<open>kstep\<close> keeps the invariant, so it holds in every state a run
  from \<open>Initialize\<close> reaches; what follows for threads, locks, scheduling, time and halting.
\<close>

lemma CListAppend_inv:
  assumes "inside b k th" "level k = IntOn" "locks k {}" "stk IntOn (frames th)"
  shows "\<exists>k'. SynchList_Append n x k = Inr k' \<and> kernel_inv b k'"
  unfolding SynchList_Append_def by (rule push_inv [OF assms(1)]) (use assms in simp_all)

lemma CListRemove_inv:
  assumes "inside b k th" "level k = IntOn" "locks k {}" "stk IntOn (frames th)"
  shows "\<exists>k'. SynchList_Remove n k = Inr k' \<and> kernel_inv b k'"
  unfolding SynchList_Remove_def by (rule push_inv [OF assms(1)]) (use assms in simp_all)

lemma ListLoop_inv:
  assumes I: "inside b k th" and l: "level k = IntOn" and L: "locks k {}" and st: "stk IntOn (frames th)"
  shows "case List_loop n k of Inr k' \<Rightarrow> kernel_inv b k' | Inl e \<Rightarrow> misuse b k (ListLoop n) e"
proof (cases "slists k n")
  case Nil
  have "\<exists>k'. push [CWait (SCond n) (SLock n), ListLoop n] k = Inr k' \<and> kernel_inv b k'"
    by (rule push_inv [OF I]) (use l L st in simp_all)
  then show ?thesis using Nil by (auto simp: List_loop_def)
next
  case (Cons x rest)
  show ?thesis
  proof (cases "x = 0")
    case True
    then show ?thesis using Cons by (simp add: List_loop_def ASSERT_def misuse_def)
  next
    case False
    let ?k = "k\<lparr>slists := (slists k)(n := rest)\<rparr>" and ?fs = "CRelease (SLock n) # frames th"
    let ?th = "th\<lparr>frames := ?fs, received := x # received th\<rparr>"
    have "inside b (put_thread (currentThread ?k) ?th ?k) ?th"
      by (rule inside_put [of _ _ th _ ?fs "x # received th"]) (use I in simp_all)
    then have "kernel_inv b (put_thread (currentThread ?k) ?th ?k)"
      by (rule stay_inv) (use l L st in simp_all)
    then show ?thesis
      using Cons False insideD(3) [OF I] by (simp add: List_loop_def ASSERT_def receive_def put_thread_def)
  qed
qed

lemma CRequest_inv:
  assumes I: "inside b k th" and l: "level k = IntOn" and L: "locks k {}" and st: "stk IntOn (frames th)"
  shows "case Device_Request n ticks ty k of Inr k' \<Rightarrow> kernel_inv b k'
    | Inl e \<Rightarrow> misuse b k (CRequest n ticks ty) e \<or> at_limit k (CRequest n ticks ty) e"
proof (cases "busy k n \<or> ticks \<le> 0 \<or> \<not> is_int (totalTicks k + ticks)")
  case True
  then show ?thesis
    by (auto simp: Device_Request_def Interrupt_Schedule_def ASSERT_def int_add_def misuse_def at_limit_def)
next
  case False
  let ?k = "k\<lparr>busy := (busy k)(n := True)\<rparr>"
  let ?p = "\<lparr>p_handler = DeviceDone n, p_when = totalTicks k + ticks, p_type = ty\<rparr>"
  let ?k' = "?k\<lparr>pending := ins_sorted ?p (totalTicks k + ticks) (pending k)\<rparr>"
  have R: "Device_Request n ticks ty k = Inr ?k'"
    using False by (simp add: Device_Request_def Interrupt_Schedule_def ASSERT_def Let_def)
  have "base b ?k'"
    using base_pending_ins [of "{}" b ?k ?p "totalTicks k + ticks"] insideD(1) [OF I] by simp
  then have "inside b ?k' th" using insideD [OF I] by (simp add: inside_def)
  then have "kernel_inv b ?k'" by (rule stay_inv) (use l L st in simp_all)
  with R show ?thesis by simp
qed

lemma misuse_put [simp]: "misuse b (put_thread t th k) f e = misuse b k f e"
  by (simp add: misuse_def put_thread_def split: frame.splits)

lemma at_limit_put [simp]: "at_limit (put_thread t th k) f e = at_limit k f e"
  by (simp add: at_limit_def crowded_def ticked_def due_time_def split: frame.splits)

lemma klift_Inr [simp]: "klift r = Inr x \<longleftrightarrow> r = Inr x"
  by (cases r) auto

text \<open>A step of a kernel in the invariant keeps it, or stops the machine, or fails because of the
  calls the threads make or because a counter is at its limit.\<close>

lemma kernel_inv_frames:
  assumes "kernel_inv b k"
  obtains th f fs where "threads k (currentThread k) = Some th" "frames th = f # fs"
    "f = SleepLoop \<or> status th = RUNNING \<and> stk (level k) (f # fs) \<and> locks k (acquiring (f # fs))"
proof -
  obtain th where th: "threads k (currentThread k) = Some th" "running (level k) th" "locks k (acquiring (frames th))"
    using assms by (auto simp: kernel_inv_def)
  then obtain f fs where "frames th = f # fs" by (cases "frames th") (auto simp: running_def)
  with th show thesis using that by (auto simp: running_def)
qed

lemma exec_frame_inv:
  assumes I: "inside b k th" and st: "stk (level k) (f # frames th)" and L: "locks k (acquiring (f # frames th))"
  shows "case exec_frame b f k of Inr k' \<Rightarrow> kernel_inv b k' | Inl (KFault e) \<Rightarrow> misuse b k f e \<or> at_limit k f e
    | Inl (KHalted k') \<Rightarrow> False"
proof (cases f)
  case (CP n)
  then show ?thesis using CP_inv [OF I, of n] st L by (auto simp: exec_frame_def)
next
  case (CV n)
  then show ?thesis using CV_inv [OF I, of n] st L by (auto simp: exec_frame_def at_limit_def)
next
  case (CAcquire l)
  then show ?thesis using CAcquire_inv [OF I, of l] st L by (auto simp: exec_frame_def)
next
  case (CRelease l)
  then show ?thesis using CRelease_inv [OF I, of l] st L by (auto simp: exec_frame_def misuse_def split: if_splits)
next
  case (CWait c l)
  then show ?thesis using CWait_inv [OF I, of l c] st L by (auto simp: exec_frame_def misuse_def split: if_splits)
next
  case (CSignal c l)
  then show ?thesis using CSignal_inv [OF I, of l c] st L by (auto simp: exec_frame_def misuse_def split: if_splits)
next
  case (CBroadcast c l)
  then show ?thesis using CBroadcast_inv [OF I, of l c] st L by (auto simp: exec_frame_def misuse_def split: if_splits)
next
  case CYield
  then show ?thesis using CYield_inv [OF I] st L by (auto simp: exec_frame_def)
next
  case (CFork pri body)
  have "case bind_res (Thread_Thread pri k) (\<lambda>(t, k1). Thread_Fork b t body k1) of
      Inr k' \<Rightarrow> kernel_inv b k' | Inl e \<Rightarrow> misuse b k (CFork pri body) e"
    by (rule CFork_inv [OF I]) (use st L CFork in simp_all)
  then show ?thesis using CFork by (auto simp: exec_frame_def split: sum.splits)
next
  case CFinish
  then show ?thesis using CFinish_inv [OF I] st L by (auto simp: exec_frame_def)
next
  case (CSetLevel now)
  then show ?thesis using CSetLevel_inv [OF I, of now] st L by (auto simp: exec_frame_def)
next
  case COneTick
  then show ?thesis using COneTick_inv [OF I] st L by (auto simp: exec_frame_def at_limit_def)
next
  case (CListAppend n x)
  then show ?thesis using CListAppend_inv [OF I, of n x] st L by (auto simp: exec_frame_def)
next
  case (CListRemove n)
  then show ?thesis using CListRemove_inv [OF I, of n] st L by (auto simp: exec_frame_def)
next
  case (CRequest n d ty)
  then show ?thesis using CRequest_inv [OF I, of n d ty] st L by (auto simp: exec_frame_def split: sum.splits)
next
  case (PLoop s old)
  then show ?thesis using P_loop_inv [OF I, of s old] st L by (auto simp: exec_frame_def)
next
  case (AcquireTail l prev)
  then show ?thesis using AcquireTail_inv [OF I, of l prev] st L by (auto simp: exec_frame_def)
next
  case (WaitTail c prev)
  have "\<exists>k'. push [CSetLevel prev] k = Inr k' \<and> kernel_inv b k'"
    by (rule push_inv [OF I]) (use st L WaitTail in auto)
  then show ?thesis using WaitTail by (auto simp: exec_frame_def)
next
  case SleepLoop
  then show ?thesis using st by simp
next
  case RunTail
  then show ?thesis using RunTail_inv [OF I] st L by (auto simp: exec_frame_def)
next
  case (TickTail old)
  have "kernel_inv b (k\<lparr>int_status := old\<rparr>)"
    by (rule stay_inv [of b _ th]) (use I st L TickTail in auto)
  then show ?thesis using TickTail by (simp add: exec_frame_def)
next
  case (ListPut n x)
  have "kernel_inv b (k\<lparr>slists := (slists k)(n := slists k n @ [x])\<rparr>)"
    by (rule stay_inv [of b _ th]) (use I st L ListPut in auto)
  then show ?thesis using ListPut by (simp add: exec_frame_def List_put_def)
next
  case (ListLoop n)
  then show ?thesis using ListLoop_inv [OF I, of n] st L by (auto simp: exec_frame_def split: sum.splits)
qed

lemma kstep_inv:
  assumes K: "kernel_inv b k" and c: "threads k (currentThread k) = Some th" "frames th = f # fs"
  shows "case kstep b k of Inr k' \<Rightarrow> kernel_inv b k' | Inl (KFault e) \<Rightarrow> misuse b k f e \<or> at_limit k f e
    | Inl (KHalted k') \<Rightarrow> f = SleepLoop \<and> readyList k = []"
proof -
  let ?k = "put_thread (currentThread k) (th\<lparr>frames := fs\<rparr>) k"
  have S: "kstep b k = exec_frame b f ?k" using c by (simp add: kstep_def)
  show ?thesis
  proof (cases "f = SleepLoop")
    case True
    then show ?thesis
      using SleepLoop_inv [OF K c(1), of fs] c unfolding S
      by (auto simp: exec_frame_def at_limit_def split: sum.splits kstop.splits)
  next
    case False
    have r: "status th = RUNNING" "stk (level k) (f # fs)" "locks k (acquiring (f # fs))"
      using K c False by (auto simp: kernel_inv_def running_def)
    then have I0: "inside b k th" using K c by (auto simp: kernel_inv_def inside_def)
    note I = push_inside [OF I0, of fs]
    show ?thesis
      unfolding S using exec_frame_inv [OF I, of f] r by (auto split: sum.splits kstop.splits)
  qed
qed

subsection \<open>Runs of the system\<close>

text \<open>What is true at the start and kept by every step is true in every state of a run.\<close>

locale safe_system =
  fixes start :: "'s \<Rightarrow> bool" and move :: "'s \<Rightarrow> 's \<Rightarrow> bool" and good :: "'s \<Rightarrow> bool"
  assumes start_good: "start s \<Longrightarrow> good s"
    and move_good: "good s \<Longrightarrow> move s s' \<Longrightarrow> good s'"
begin

lemma run_good: "move\<^sup>*\<^sup>* s s' \<Longrightarrow> start s \<Longrightarrow> good s'"
  by (induction rule: rtranclp_induct) (auto intro: start_good move_good)

end

definition kmove :: "kbuild \<Rightarrow> Kernel \<Rightarrow> Kernel \<Rightarrow> bool" where
  "kmove b k k' \<longleftrightarrow> kstep b k = Inr k'"

text \<open>A system whose main program consists of calls, with semaphores that start at zero or above.\<close>

definition booted :: "Kernel \<Rightarrow> bool" where
  "booted k \<longleftrightarrow> (\<exists>randomYield rnd initialValue body.
     Initialize randomYield rnd initialValue body = Inr k \<and> list_all user_call body \<and> (\<forall>n. 0 \<le> initialValue n))"

lemma Initialize_inv:
  assumes "Initialize randomYield rnd initialValue body = Inr k" "list_all user_call body" "\<forall>n. 0 \<le> initialValue n"
  shows "kernel_inv b k"
proof -
  define k0 where "k0 = \<lparr>threads = (\<lambda>_. None), next_tid = 0, currentThread = 0, threadToBeDestroyed = None,
           threadIds = replicate maxThreadsCount False, readyList = [], lastSwitchTick = 0,
           level = IntOff, pending = [], inHandler = False, yieldOnReturn = False, int_status = SystemMode,
           totalTicks = 0, idleTicks = 0, systemTicks = 0, userTicks = 0,
           sems = initial_sems initialValue, owner = (\<lambda>_. None), conds = (\<lambda>_. []), slists = (\<lambda>_. []),
           busy = (\<lambda>_. False), randomize = False, random = rnd, random_calls = 0\<rparr>"
  have B0: "base b (k0\<lparr>randomize := r\<rparr>)" for r
    using assms(3)
    by (auto simp: k0_def base_out_def placed_out_def queue_def view_def initial_sems_def Semaphore_Semaphore_def
        ids_ok_def clock_ok_def ready_sorted_def sem_ok_def split: wpoint.splits sid.splits)
  have L0: "locks k0 {}" by (simp add: locks_def k0_def initial_sems_def Semaphore_Semaphore_def)
  have p0: "pending k0 = []" by (simp add: k0_def)
  obtain k1 where k1: "(if randomYield then Timer_Timer randomYield k0 else Inr k0) = Inr k1" "base b k1"
    "threads k1 = threads k0" "next_tid k1 = 0" "threadIds k1 = threadIds k0" "sems k1 = sems k0" "owner k1 = owner k0"
    "\<not> inHandler k1" "level k1 = IntOff" "threadToBeDestroyed k1 = None" "readyList k1 = []"
    "currentThread k1 = 0"
  proof (cases randomYield)
    case False
    then show thesis using B0 [of "randomize k0"] by (intro that [of k0]) (simp_all add: k0_def)
  next
    case True
    let ?d = "1 + int (rnd 0) mod (TimerTicks * 2)"
    let ?p = "\<lparr>p_handler = TimerHandler, p_when = ?d, p_type = TimerInt\<rparr>"
    let ?k = "k0\<lparr>randomize := True, random_calls := 1\<rparr>"
    have d: "0 < ?d" by (simp add: TimerTicks_def add_pos_nonneg)
    have i: "is_int ?d" using pos_mod_bound [of 20 "int (rnd 0)"] d by (simp add: is_int_def TimerTicks_def)
    have "Timer_Timer True k0 = Inr (?k\<lparr>pending := ins_sorted ?p ?d []\<rparr>)"
      using d i by (simp add: Timer_Timer_def TimeOfNextInterrupt_def Interrupt_Schedule_def ASSERT_def k0_def Let_def)
    moreover have "base b (?k\<lparr>pending := ins_sorted ?p ?d []\<rparr>)"
      using base_pending_ins [of "{}" b ?k ?p ?d] B0 [of True] p0 by simp
    ultimately show thesis
      using True by (intro that [of "?k\<lparr>pending := ins_sorted ?p ?d []\<rparr>"]) (simp_all add: k0_def)
  qed
  let ?t = "\<lparr>status = RUNNING, priority = Some 6, threadId = 0, stack = None, frames = CSetLevel IntOn # body @ [CFinish], received = []\<rparr>"
  let ?k2 = "k1\<lparr>next_tid := 1, threadIds := (threadIds k1)[0 := True], threads := (threads k1)(0 \<mapsto> ?t)\<rparr>"
  have ff: "first_free 0 (threadIds k1) = Some 0"
    by (simp add: k1 k0_def maxThreadsCount_def numeral_eq_Suc)
  have k: "k = ?k2"
    using assms(1) ff k1(4,12)
    unfolding Initialize_def Let_def k0_def [symmetric] k1(1)
    by (cases k1) (simp add: Thread_Thread_def allocatedThreadID_def ASSERT_def Let_def put_thread_def)
  have B2: "base_out {0} b k"
    using base_new(1) [OF k1(2) ff, of ?t, OF _ _ refl] k1(4) by (simp add: k thread_wf_def)
  have c: "currentThread k = 0" "threads k 0 = Some ?t" using k1(12) by (simp_all add: k)
  have "placed_out {} k"
    using base_outD(1) [OF B2] c by (auto simp: placed_out_def view_Some)
  then have "base b k" using B2 c(1) unfolding base_out_def by auto
  moreover have "locks k {}" using L0 k1(6,7) by (simp add: locks_def k)
  moreover have "stk IntOff (frames ?t)" using stk_body [OF assms(2), of "[CFinish]"] by simp
  ultimately show ?thesis
    using c k1(8,9) by (auto simp: kernel_inv_def running_def k)
qed

interpretation ks: safe_system booted "kmove b" "kernel_inv b" for b
proof
  show "kernel_inv b k" if "booted k" for k
    using that Initialize_inv by (auto simp: booted_def)
  show "kernel_inv b k'" if "kernel_inv b k" "kmove b k k'" for k k'
  proof -
    note K = that
    obtain th f fs where c: "threads k (currentThread k) = Some th" "frames th = f # fs"
      using kernel_inv_frames [OF K(1)] by blast
    show ?thesis using kstep_inv [OF K(1) c] K(2) by (simp add: kmove_def)
  qed
qed

fun krun :: "kbuild \<Rightarrow> nat \<Rightarrow> Kernel \<Rightarrow> kstop + Kernel" where
  "krun b 0 k = Inr k"
| "krun b (Suc n) k = bind_res (kstep b k) (krun b n)"

lemma krun_reaches: "krun b n k = Inr k' \<Longrightarrow> (kmove b)\<^sup>*\<^sup>* k k'"
proof (induction n arbitrary: k)
  case (Suc n)
  then obtain k1 where "kstep b k = Inr k1" "krun b n k1 = Inr k'" by (cases "kstep b k") auto
  then show ?case using Suc.IH [of k1] by (meson converse_rtranclp_into_rtranclp kmove_def)
qed simp

lemma reach_inv: "booted k0 \<Longrightarrow> (kmove b)\<^sup>*\<^sup>* k0 k \<Longrightarrow> kernel_inv b k"
  by (rule ks.run_good)

subsection \<open>Who changes the owner of a lock\<close>

lemma push_owner: "push fs k = Inr k' \<Longrightarrow> owner k' = owner k"
  by (auto simp: push_def get_thread_def split: option.splits)

lemma set_status_owner: "set_status t st k = Inr k' \<Longrightarrow> owner k' = owner k"
  by (auto simp: set_status_def get_thread_def split: option.splits)

lemma bind_InrE:
  assumes "bind_res r f = Inr y"
  obtains x where "r = Inr x" "f x = Inr y"
  using assms by (cases r) auto

lemma ReadyToRun_owner: "ReadyToRun b t k = Inr k' \<Longrightarrow> owner k' = owner k"
  by (auto simp: ReadyToRun_def dest!: set_status_owner elim!: bind_InrE split: if_splits)

lemma Run_owner: "Scheduler_Run t k = Inr k' \<Longrightarrow> owner k' = owner k"
  by (fastforce simp: Scheduler_Run_def dest!: set_status_owner push_owner elim!: bind_InrE)

lemma Sleep_owner: "Thread_Sleep k = Inr k' \<Longrightarrow> owner k' = owner k"
  by (auto simp: Thread_Sleep_def dest!: set_status_owner push_owner elim!: bind_InrE)

lemma V_body_owner: "V_body b s k = Inr k' \<Longrightarrow> owner k' = owner k"
  by (auto simp: V_body_def Let_def dest!: ReadyToRun_owner elim!: bind_InrE split: list.splits)

lemma P_loop_owner: "P_loop s old k = Inr k' \<Longrightarrow> owner k' = owner k"
  by (auto simp: P_loop_def Let_def dest!: push_owner Sleep_owner elim!: bind_InrE split: if_splits)

lemma Signal_owner: "Signal_body b c l k = Inr k' \<Longrightarrow> owner k' = owner k"
  by (auto simp: Signal_body_def dest!: ReadyToRun_owner elim!: bind_InrE split: list.splits)

lemma broadcast_owner: "broadcast_loop n b c l k = Inr k' \<Longrightarrow> owner k' = owner k"
  by (induction n arbitrary: k) (fastforce dest!: Signal_owner elim!: bind_InrE split: if_splits)+

lemma FindNext_owner: "FindNextToRun b s k = Inr (t, k') \<Longrightarrow> owner k' = owner k \<and> currentThread k' = currentThread k"
  by (auto simp: FindNextToRun_def Let_def elim!: bind_InrE split: if_splits list.splits)

lemmas owner_dests = push_owner set_status_owner ReadyToRun_owner Run_owner Sleep_owner V_body_owner P_loop_owner
  Signal_owner broadcast_owner FindNext_owner

lemma Yield_owner: "Thread_Yield b k = Inr k' \<Longrightarrow> owner k' = owner k"
  by (auto simp: Thread_Yield_def SetLevel_off_def dest!: owner_dests elim!: bind_InrE split: option.splits)

lemma Fork_owner: "bind_res (Thread_Thread pri k) (\<lambda>(t, k1). Thread_Fork b t body k1) = Inr k' \<Longrightarrow> owner k' = owner k"
  by (auto simp: Thread_Thread_def Thread_Fork_def StackAllocate_def SetLevel_off_def Let_def get_thread_def
      dest!: owner_dests elim!: bind_InrE split: option.splits)

lemma SleepLoop_owner:
  assumes K: "kernel_inv b k" and c: "threads k (currentThread k) = Some th" "frames th = SleepLoop # fs"
    and S: "Sleep_loop b (put_thread (currentThread k) (th\<lparr>frames := fs\<rparr>) k) = Inr k'"
  shows "owner k' = owner k"
proof -
  let ?k = "put_thread (currentThread k) (th\<lparr>frames := fs\<rparr>) k"
  note P = SleepLoop_pop [OF K c]
  obtain n k1 where F: "FindNextToRun b True ?k = Inr (n, k1)"
    using S by (cases "FindNextToRun b True ?k") (auto simp: Sleep_loop_def)
  have k1: "owner k1 = owner k" using FindNext_owner [OF F] by simp
  show ?thesis
  proof (cases n)
    case None
    then have e: "k1 = ?k\<lparr>lastSwitchTick := systemTicks ?k\<rparr>"
      using F by (auto simp: FindNextToRun_def Let_def split: list.splits)
    obtain k2 where k2: "Interrupt_Idle b k1 = Inr k2" "push [SleepLoop] k2 = Inr k'"
      using S F None by (auto simp: Sleep_loop_def elim!: bind_InrE)
    have "quiet k1 k2" using Idle_base [of b k1] k2(1) P e by auto
    then show ?thesis using push_owner [OF k2(2)] k1 by (simp add: quiet_def evolves_def)
  next
    case (Some t)
    then have "klift (Scheduler_Run t k1) = Inr k'" using S F by (simp add: Sleep_loop_def)
    then show ?thesis using Run_owner [of t k1 k'] k1 by (cases "Scheduler_Run t k1") auto
  qed
qed

lemma OneTick_owner:
  assumes I: "inside b k th" and T: "Interrupt_OneTick b k = Inr k'"
  shows "owner k' = owner k"
proof (rule tick_base [OF I])
  fix k2
  assume C: "Interrupt_OneTick b k = (if yieldOnReturn k2
      then push [CYield, TickTail (int_status k)] (k2\<lparr>level := IntOn, yieldOnReturn := False, int_status := SystemMode\<rparr>)
      else Inr (k2\<lparr>level := IntOn\<rparr>))" and Q: "quiet k (k2\<lparr>level := level k\<rparr>)"
  have "owner k2 = owner k" using Q by (simp add: quiet_def evolves_def)
  then show ?thesis
    using T [unfolded C] by (auto dest!: push_owner split: if_splits)
qed (use T in simp)

lemma kstep_owner:
  assumes K: "kernel_inv b k" and c: "threads k (currentThread k) = Some th" "frames th = f # fs" and S: "kstep b k = Inr k'"
  shows "owner k' l = owner k l \<or>
    (\<exists>prev. f = AcquireTail l prev) \<and> owner k l = None \<and> owner k' l = Some (currentThread k) \<or>
    (f = CRelease l \<or> (\<exists>c. f = CWait c l)) \<and> owner k l = Some (currentThread k) \<and> owner k' l = None"
proof (cases "f = SleepLoop")
  case True
  then show ?thesis using SleepLoop_owner [OF K c(1), of fs k'] S c by (simp add: kstep_def exec_frame_def)
next
  case False
  let ?k = "put_thread (currentThread k) (th\<lparr>frames := fs\<rparr>) k"
  have r: "status th = RUNNING" "stk (level k) (f # fs)" "locks k (acquiring (f # fs))"
    using K c False by (auto simp: kernel_inv_def running_def)
  then have I0: "inside b k th" using K c by (auto simp: kernel_inv_def inside_def)
  have T: "Interrupt_OneTick b ?k = Inr k' \<Longrightarrow> owner k' = owner k"
    using OneTick_owner [OF push_inside [OF I0, of fs]] by simp
  have A: "owner k l = None" if "f = AcquireTail l prev" for prev
    using r(3) that by (simp add: locks_def)
  have E: "exec_frame b f ?k = Inr k'" using S c by (simp add: kstep_def)
  show ?thesis
  proof (cases f)
    case CYield
    then show ?thesis using E Yield_owner [of b ?k k'] by (auto simp: exec_frame_def)
  next
    case (CFork pri body)
    then show ?thesis using E Fork_owner [of pri ?k b body k'] by (auto simp: exec_frame_def)
  next
    case COneTick
    then show ?thesis using E T by (auto simp: exec_frame_def)
  qed (use E A False in \<open>auto simp: exec_frame_def SetLevel_off_def Semaphore_P_def Semaphore_V_def Lock_Acquire_def
      Lock_Release_def Release_body_def Condition_Wait_def Condition_Signal_def Condition_Broadcast_def
      Thread_Finish_def Interrupt_SetLevel_def SynchList_Append_def SynchList_Remove_def Device_Request_def
      Interrupt_Schedule_def Acquire_tail_def Run_tail_def Thread_destroy_def List_put_def List_loop_def receive_def
      ASSERT_def Let_def get_thread_def isHeldByCurrentThread_def
      dest!: owner_dests elim!: bind_InrE split: if_splits option.splits list.splits\<close>)
qed

subsection \<open>Scheduling\<close>

lemma ready_head_least:
  assumes B: "base b k" and pr: "SCHED_PRIORITY b" and q: "readyList k = (t, p) # rest"
    and u: "threads k u = Some th" "status th = READY"
  obtains x where "priority th = Some x" "p \<le> x"
proof -
  have "u \<in> fst ` set (readyList k)" using placed_outD(3) [OF base_outD(1) [OF B], of u] u by (simp add: view_Some)
  then obtain x where x: "(u, x) \<in> set (readyList k)" by auto
  have "view priority k u = Some (Some x)" "sorted (map snd (readyList k))"
    using base_outD(8) [OF B pr] x by (auto simp: ready_sorted_def)
  moreover have "p \<le> x" using calculation(2) x q by auto
  ultimately show thesis using that u by (simp add: view_Some)
qed

lemma Run_current: "Scheduler_Run t k = Inr k' \<Longrightarrow> currentThread k' = t"
  by (auto simp: Scheduler_Run_def set_status_def elim!: bind_InrE)

lemma push_current: "push fs k = Inr k' \<Longrightarrow> currentThread k' = currentThread k"
  by (auto simp: push_def elim!: bind_InrE)

lemma Yield_priority:
  assumes I: "inside b k th" and pr: "SCHED_PRIORITY b" "priority th = Some c"
    and Y: "Thread_Yield b k = Inr k'"
  shows "if currentThread k' = currentThread k
    then (\<forall>u th' x. threads k u = Some th' \<and> status th' = READY \<and> priority th' = Some x \<longrightarrow> c \<le> x)
    else (\<exists>t' p. threads k (currentThread k') = Some t' \<and> status t' = READY \<and> priority t' = Some p \<and> p < c \<and>
      (\<forall>u th' x. threads k u = Some th' \<and> status th' = READY \<and> priority th' = Some x \<longrightarrow> p \<le> x))"
proof (cases "readyList k")
  case Nil
  then have "stat k u \<noteq> Some READY" for u
    using placed_outD(3) [OF base_outD(1) [OF insideD(1) [OF I]], of u] by simp
  then have nr: "threads k u = Some th' \<Longrightarrow> status th' \<noteq> READY" for u th' by (auto simp: view_def)
  have "currentThread k' = currentThread k"
    using Y Nil by (auto simp: Thread_Yield_def SetLevel_off_def FindNextToRun_def dest!: push_current)
  then show ?thesis using nr by auto
next
  case (Cons e rest)
  obtain t p where q: "readyList k = (t, p) # rest" using Cons by (cases e) simp
  obtain t' where t: "threads k t = Some t'" "status t' = READY" "priority t' = Some p"
    by (rule next_base [OF insideD(1) [OF I] q]) (use pr(1) in auto)
  have least: "p \<le> x" if "threads k u = Some th'" "status th' = READY" "priority th' = Some x" for u th' x
    by (rule ready_head_least [OF insideD(1) [OF I] pr(1) q that(1,2)]) (use that(3) in auto)
  have ne: "t \<noteq> currentThread k" using insideD(3,4) [OF I] t by auto
  have G: "getPriority t (k\<lparr>level := IntOff\<rparr>) = Inr p" "getPriority (currentThread k) (k\<lparr>level := IntOff\<rparr>) = Inr c"
    using t pr insideD(3) [OF I] by (simp_all add: getPriority_def)
  show ?thesis
  proof (cases "p < c")
    case True
    then have "currentThread k' = t"
      using Y q G pr(1) by (auto simp: Thread_Yield_def SetLevel_off_def FindNextToRun_def dest!: Run_current elim!: bind_InrE)
    then show ?thesis using True ne t least by auto
  next
    case False
    then have "currentThread k' = currentThread k"
      using Y q G pr(1) by (auto simp: Thread_Yield_def SetLevel_off_def FindNextToRun_def dest!: push_current)
    then show ?thesis using False least by fastforce
  qed
qed

lemma Idle_halts:
  assumes B: "base b k" and l: "level k = IntOff" and h: "\<not> inHandler k" and H: "Interrupt_Idle b k = Inl (KHalted k')"
  shows "pending k = [] \<or> (\<exists>p w. pending k = [(p, w)] \<and> p_type p = TimerInt)"
proof (cases "pending k")
  case (Cons e rest)
  obtain p w where e: "e = (p, w)" by fastforce
  let ?k = "k\<lparr>int_status := IdleMode\<rparr>"
  have B': "base b ?k" "level ?k = IntOff" "\<not> inHandler ?k" using B l h by simp_all
  show ?thesis
  proof (rule CheckIfDue_base [OF B', of True])
    assume "CheckIfDue b True ?k = Inl Overflow"
    then show ?thesis using H by (simp add: Interrupt_Idle_def)
  next
    fix fired k1
    assume C: "CheckIfDue b True ?k = Inr (fired, k1)" "base b k1" "quiet ?k k1" "\<not> inHandler k1"
    have l1: "level k1 = IntOff" using C(3) l by (simp add: quiet_def evolves_def)
    have "\<not> fired"
    proof
      assume fired
      then show False
        using H C(1) by (rule_tac check_loop_base [OF C(2) l1 C(4)]) (simp_all add: Interrupt_Idle_def)
    qed
    then have "p_type p = TimerInt \<and> rest = []"
      using C(1) Cons e l by (auto simp: CheckIfDue_def ASSERT_def Let_def advance_idle_def elim!: bind_InrE split: if_splits)
    then show ?thesis using Cons e by auto
  qed
qed simp

lemma due_none: "due k = 0 \<Longrightarrow> (p, w) \<in> set (pending k) \<Longrightarrow> totalTicks k < w"
  by (auto simp: due_def filter_empty_conv)

lemma inside_step:
  assumes K: "kernel_inv b k" and c: "threads k (currentThread k) = Some th" "frames th = f # fs" and f: "f \<noteq> SleepLoop"
  shows "inside b (put_thread (currentThread k) (th\<lparr>frames := fs\<rparr>) k) (th\<lparr>frames := fs\<rparr>)" "inside b k th"
    "stk (level k) (f # fs)" "locks k (acquiring (f # fs))"
    "kstep b k = exec_frame b f (put_thread (currentThread k) (th\<lparr>frames := fs\<rparr>) k)"
proof -
  have r: "status th = RUNNING" "stk (level k) (f # fs)" "locks k (acquiring (f # fs))"
    using K c f by (auto simp: kernel_inv_def running_def)
  then show I0: "inside b k th" using K c by (auto simp: kernel_inv_def inside_def)
  show "inside b (put_thread (currentThread k) (th\<lparr>frames := fs\<rparr>) k) (th\<lparr>frames := fs\<rparr>)"
    by (rule push_inside [OF I0])
  show "stk (level k) (f # fs)" "locks k (acquiring (f # fs))" by (rule r(2), rule r(3))
  show "kstep b k = exec_frame b f (put_thread (currentThread k) (th\<lparr>frames := fs\<rparr>) k)"
    using c by (simp add: kstep_def)
qed

subsection \<open>Properties\<close>

text \<open>C4. In every state the system can reach from its start, whatever calls the threads make and whenever
  interrupts occur, each thread is exactly where its status says: the ready list holds the READY
  threads, each once; the queue of a semaphore or condition holds, each once, the BLOCKED threads whose stack
  waits in P or Wait there; only the current thread can be RUNNING; and no semaphore is negative. A V that would take the value of a semaphore
  past the greatest \<open>int\<close> is the error \<open>Overflow\<close> and ends the run, so the values do not wrap around.\<close>

theorem threads_where_they_belong:
  assumes "booted k0" "(kmove b)\<^sup>*\<^sup>* k0 k"
  shows "distinct (map fst (readyList k)) \<and> (\<forall>t. t \<in> fst ` set (readyList k) \<longleftrightarrow> stat k t = Some READY) \<and>
    (\<forall>w. distinct (map fst (queue k w)) \<and>
      (\<forall>t. t \<in> fst ` set (queue k w) \<longleftrightarrow> stat k t = Some BLOCKED \<and> wait_at k t = Some (Some w))) \<and>
    (\<forall>t. stat k t = Some RUNNING \<longrightarrow> t = currentThread k) \<and> (\<forall>s. 0 \<le> sem_value (sems k s))"
proof -
  have B: "base b k" using reach_inv [OF assms] by (simp add: kernel_inv_def)
  have "t = currentThread k" if "stat k t = Some RUNNING" for t
    using that base_outD(3) [OF B, of t] by (cases "t = currentThread k") (auto simp: view_def resting_def)
  then show ?thesis using base_outD(1,4) [OF B] by (simp add: placed_out_def sem_ok_def)
qed

text \<open>C5. Mutual exclusion. In every reachable state the semaphore inside a lock is 0 or 1, and 0 while the
  lock has an owner. In every step the owner of a lock stays the same, except that the current thread becomes the
  owner at the end of its Acquire, and then the lock had no owner, or that the current thread, being the owner,
  gives the lock up in Release or Wait.\<close>

theorem lock_mutual_exclusion:
  assumes "booted k0" "(kmove b)\<^sup>*\<^sup>* k0 k" "kmove b k k'"
  shows "sem_value (sems k (LSem l)) \<in> {0, 1} \<and> (owner k l \<noteq> None \<longrightarrow> sem_value (sems k (LSem l)) = 0) \<and>
    (owner k' l = owner k l \<or>
     owner k l = None \<and> owner k' l = Some (currentThread k) \<and>
       (\<exists>th prev fs. threads k (currentThread k) = Some th \<and> frames th = AcquireTail l prev # fs) \<or>
     owner k l = Some (currentThread k) \<and> owner k' l = None \<and>
       (\<exists>th fs c. threads k (currentThread k) = Some th \<and> (frames th = CRelease l # fs \<or> frames th = CWait c l # fs)))"
proof -
  have K: "kernel_inv b k" by (rule reach_inv [OF assms(1,2)])
  obtain th f fs where c: "threads k (currentThread k) = Some th" "frames th = f # fs"
    by (rule kernel_inv_frames [OF K])
  have "locks k (acquiring (frames th))" using K c by (auto simp: kernel_inv_def)
  then have "sem_value (sems k (LSem l)) \<in> {0, 1} \<and> (owner k l \<noteq> None \<longrightarrow> sem_value (sems k (LSem l)) = 0)"
    by (simp add: locks_def)
  moreover have "kstep b k = Inr k'" using assms(3) by (simp add: kmove_def)
  ultimately show ?thesis using kstep_owner [OF K c, of k' l] c by auto
qed

text \<open>C11. A step of a reachable state fails only because of how the threads use the kernel or because a counter is at the
  end of the range of \<open>int\<close>. The misuses are: Release, Wait, Signal or Broadcast by a thread that does not hold the lock, Fork when
  all 128 thread numbers are in use or, in a build with priorities, with a priority outside 0 to 10, a NULL item in a
  synchronized list, or a request to a busy device or for no time. The limits are: V on a semaphore whose value is \<open>2 ^ 31 - 1\<close>,
  a request whose time is not an \<open>int\<close>, and a tick or a jump of the clock of the idle machine to a time less
  than 20 ticks before \<open>2 ^ 31\<close> or with as many requests to a device pending as its semaphore has no room for; they fail with
  \<open>Overflow\<close>. Otherwise no step follows a dangling or null pointer, leaves the bounds of an array
  or runs forever, and no assertion of the scheduler, the thread or the interrupt code fails.\<close>

theorem kernel_faults_are_misuse:
  assumes "booted k0" "(kmove b)\<^sup>*\<^sup>* k0 k" "kstep b k = Inl (KFault e)"
  shows "\<exists>th f fs. threads k (currentThread k) = Some th \<and> frames th = f # fs \<and> (misuse b k f e \<or> at_limit k f e)"
proof -
  have K: "kernel_inv b k" by (rule reach_inv [OF assms(1,2)])
  obtain th f fs where c: "threads k (currentThread k) = Some th" "frames th = f # fs"
    by (rule kernel_inv_frames [OF K])
  then show ?thesis using kstep_inv [OF K c] assms(3) by auto
qed

text \<open>C24. A tick of the clock, when the machine is not idle, completes: OneTick advances the time by one system or user
  tick, delivers every interrupt that has become due, however many there are, and leaves none pending whose time has
  come. The one exception is a counter at the end of the range of \<open>int\<close>: the tick may then fail with \<open>Overflow\<close>, and
  only when the clock is within 30 ticks of \<open>2 ^ 31\<close> or the semaphore of a device would reach \<open>2 ^ 31\<close> if all its
  pending requests completed.\<close>

theorem tick_delivers_due_interrupts:
  assumes "booted k0" "(kmove b)\<^sup>*\<^sup>* k0 k" "threads k (currentThread k) = Some th" "frames th = COneTick # fs"
    and "int_status k \<noteq> IdleMode"
  shows "(\<exists>k'. kstep b k = Inr k' \<and> totalTicks k' = totalTicks k + (if int_status k = SystemMode then 10 else 1) \<and>
      (\<forall>(p, w) \<in> set (pending k'). totalTicks k' < w) \<and> level k' = IntOn) \<or>
    kstep b k = Inl (KFault Overflow) \<and> (2 ^ 31 \<le> totalTicks k + 30 \<or> (\<exists>n. 2 ^ 31 \<le> dev_load n k))"
proof -
  note S = inside_step [OF reach_inv [OF assms(1,2)] assms(3,4)]
  let ?k = "put_thread (currentThread k) (th\<lparr>frames := fs\<rparr>) k"
  have K: "kstep b k = klift (Interrupt_OneTick b ?k)" using S(5) by (simp add: exec_frame_def)
  have t: "totalTicks (ticked ?k) = totalTicks k + (if int_status k = SystemMode then 10 else 1)"
    by (simp add: ticked_def SystemTick_def UserTick_def)
  have I: "inside b ?k (th\<lparr>frames := fs\<rparr>)" by (rule S(1)) simp
  show ?thesis
  proof (rule tick_base [OF I])
    assume T: "Interrupt_OneTick b ?k = Inl Overflow" "crowded (totalTicks (ticked ?k)) ?k"
    then have "2 ^ 31 \<le> totalTicks k + 30 \<or> (\<exists>n. 2 ^ 31 \<le> dev_load n k)"
      unfolding t by (auto simp: crowded_def TimerTicks_def split: if_splits)
    then show ?thesis using K T(1) by simp
  next
    fix k2
    assume C: "Interrupt_OneTick b ?k = (if yieldOnReturn k2
        then push [CYield, TickTail (int_status ?k)] (k2\<lparr>level := IntOn, yieldOnReturn := False, int_status := SystemMode\<rparr>)
        else Inr (k2\<lparr>level := IntOn\<rparr>))" "inside b k2 (th\<lparr>frames := fs\<rparr>)" "totalTicks k2 = totalTicks (ticked ?k)"
      "int_status ?k \<noteq> IdleMode \<Longrightarrow> due k2 = 0"
    have "due k2 = 0" using C(4) assms(5) by simp
    note d = due_none [OF this]
    show ?thesis
      unfolding K C(1) by (rule disjI1) (use insideD(3) [OF C(2)] d C(3) t in auto)
  qed
qed

text \<open>C31. Scheduling by priority. When a thread yields in a build with priorities, the processor goes to a READY
  thread of the most urgent priority if that is more urgent than the thread's own, and otherwise stays
  with the thread; then no READY thread is more urgent.\<close>

theorem yield_by_priority:
  assumes "booted k0" "(kmove b)\<^sup>*\<^sup>* k0 k" "threads k (currentThread k) = Some th" "frames th = CYield # fs"
    and "SCHED_PRIORITY b"
  shows "\<exists>c k'. priority th = Some c \<and> kstep b k = Inr k' \<and>
    (if currentThread k' = currentThread k
     then (\<forall>u th' x. threads k u = Some th' \<and> status th' = READY \<and> priority th' = Some x \<longrightarrow> c \<le> x)
     else (\<exists>t' p. threads k (currentThread k') = Some t' \<and> status t' = READY \<and> priority t' = Some p \<and> p < c \<and>
       (\<forall>u th' x. threads k u = Some th' \<and> status th' = READY \<and> priority th' = Some x \<longrightarrow> p \<le> x)))"
proof -
  note S = inside_step [OF reach_inv [OF assms(1,2)] assms(3,4)]
  let ?k = "put_thread (currentThread k) (th\<lparr>frames := fs\<rparr>) k"
  obtain c where c: "priority th = Some c"
    by (rule getPriority_inside [OF insideD(1) [OF S(2)] assms(3,5)]) auto
  have st: "status th = RUNNING" using insideD(3,4) [OF S(2)] assms(3) by simp
  obtain k' where Y: "Thread_Yield b ?k = Inr k'"
    using CYield_inv [OF S(1)] S(3,4) by auto
  have E: "kstep b k = Inr k'" using S(5) Y by (simp add: exec_frame_def)
  have R: "threads ?k u = Some th' \<and> status th' = READY \<longleftrightarrow> threads k u = Some th' \<and> status th' = READY" for u th'
    using st assms(3) by auto
  have R': "threads ?k u = Some th' \<and> status th' = READY \<and> Q \<longleftrightarrow> threads k u = Some th' \<and> status th' = READY \<and> Q" for u th' Q
    using R [of u th'] by blast
  show ?thesis
    using Yield_priority [OF S(1) assms(5) _ Y, unfolded R', of c] c E by simp
qed

text \<open>C32. Nachos stops by itself only when nothing can happen any more: the current thread sleeps or has finished, no
  thread is ready, and no interrupt is pending except at most one of the timer.\<close>

theorem halts_only_when_idle:
  assumes "booted k0" "(kmove b)\<^sup>*\<^sup>* k0 k" "kstep b k = Inl (KHalted k')"
  shows "readyList k = [] \<and> (pending k = [] \<or> (\<exists>p w. pending k = [(p, w)] \<and> p_type p = TimerInt)) \<and>
    (\<exists>th fs. threads k (currentThread k) = Some th \<and> status th = BLOCKED \<and> frames th = SleepLoop # fs)"
proof -
  have K: "kernel_inv b k" by (rule reach_inv [OF assms(1,2)])
  obtain th f fs where c: "threads k (currentThread k) = Some th" "frames th = f # fs"
    by (rule kernel_inv_frames [OF K])
  have f: "f = SleepLoop" "readyList k = []" using kstep_inv [OF K c] assms(3) by auto
  note P = SleepLoop_pop [OF K c(1) c(2) [unfolded f]]
  let ?k = "put_thread (currentThread k) (th\<lparr>frames := fs\<rparr>) k"
  have "kstep b k = Sleep_loop b ?k" using c f by (simp add: kstep_def exec_frame_def)
  then have "Interrupt_Idle b (?k\<lparr>lastSwitchTick := systemTicks k\<rparr>) = Inl (KHalted k')"
    using assms(3) f(2) by (cases "Interrupt_Idle b (?k\<lparr>lastSwitchTick := systemTicks k\<rparr>)")
      (auto simp: Sleep_loop_def FindNextToRun_def push_def get_thread_def split: option.splits)
  then have "pending ?k = [] \<or> (\<exists>p w. pending ?k = [(p, w)] \<and> p_type p = TimerInt)"
    using Idle_halts [of b "?k\<lparr>lastSwitchTick := systemTicks k\<rparr>" k'] P by simp
  moreover have "status th = BLOCKED"
    using P(5) c f(2) placed_outD(3) [OF base_outD(1), of "{}" b k "currentThread k"] K
    by (auto simp: kernel_inv_def view_Some)
  ultimately show ?thesis using c f by auto
qed

text \<open>C28. Thread numbers: in every reachable state the threads that exist have different numbers between 0 and 127, and the table
  of numbers in use marks exactly these.\<close>

theorem thread_numbers_unique:
  assumes "booted k0" "(kmove b)\<^sup>*\<^sup>* k0 k"
  shows "(\<forall>t th. threads k t = Some th \<longrightarrow> 0 \<le> threadId th \<and> threadId th < 128) \<and>
    (\<forall>t t' th th'. threads k t = Some th \<and> threads k t' = Some th' \<and> threadId th = threadId th' \<longrightarrow> t = t') \<and>
    length (threadIds k) = 128 \<and> (\<forall>i < 128. threadIds k ! i \<longleftrightarrow> (\<exists>t th. threads k t = Some th \<and> threadId th = int i))"
proof -
  have "base b k" using reach_inv [OF assms] by (simp add: kernel_inv_def)
  then have ids: "ids_ok (threadIds k) (view threadId k) (next_tid k)" by (rule base_outD(5))
  have v: "view threadId k t = Some i \<longleftrightarrow> (\<exists>th. threads k t = Some th \<and> threadId th = i)" for t i
    by (auto simp: view_def)
  have "0 \<le> i \<and> i < 128" if "view threadId k t = Some i" for t i
  proof -
    have "0 \<le> i" "nat i < 128" using ids that unfolding ids_ok_def maxThreadsCount_def by blast+
    then show ?thesis by linarith
  qed
  moreover have "t = t'" if "view threadId k t = Some i" "view threadId k t' = Some i" for t t' i
    using ids that unfolding ids_ok_def by blast
  moreover have "length (threadIds k) = 128" "\<forall>i < 128. threadIds k ! i \<longleftrightarrow> (\<exists>t. view threadId k t = Some (int i))"
    using ids by (simp_all add: ids_ok_def maxThreadsCount_def)
  ultimately show ?thesis unfolding v by (intro conjI) blast+
qed

text \<open>C23. Semaphores wake the thread that has waited longest: V takes exactly the first thread off the queue,
  makes it READY and no other, keeps the order of the rest and adds one to the value; and a thread that finds the
  value zero in P goes to the end of the queue and sleeps.\<close>

theorem semaphore_fifo:
  assumes "booted k0" "(kmove b)\<^sup>*\<^sup>* k0 k" "threads k (currentThread k) = Some th"
  shows "(\<forall>n fs t x rest. frames th = CV n # fs \<and> sem_queue (sems k (USem n)) = (t, x) # rest \<longrightarrow>
      (\<exists>k'. kstep b k = Inr k' \<and> sems k' = (sems k)(USem n := \<lparr>sem_value = sem_value (sems k (USem n)) + 1, sem_queue = rest\<rparr>) \<and>
        stat k' = (stat k)(t := Some READY))) \<and>
    (\<forall>n fs. frames th = CP n # fs \<and> sem_value (sems k (USem n)) = 0 \<longrightarrow>
      (\<exists>k'. kstep b k = Inr k' \<and> stat k' = (stat k)(currentThread k := Some BLOCKED) \<and>
        sem_queue (sems k' (USem n)) = sem_queue (sems k (USem n)) @ [(currentThread k, 0)]))"
proof (intro conjI allI impI; elim conjE)
  fix n fs t x rest
  assume f: "frames th = CV n # fs" and q: "sem_queue (sems k (USem n)) = (t, x) # rest"
  note S = inside_step [OF reach_inv [OF assms(1,2)] assms(3) f]
  let ?k = "(put_thread (currentThread k) (th\<lparr>frames := fs\<rparr>) k)\<lparr>level := IntOff\<rparr>"
  let ?f = "(sems k)(USem n := (sems k (USem n))\<lparr>sem_queue := rest\<rparr>)"
  have B: "base b ?k" using insideD(1) S(1) by simp
  have ok: "sem_ok (sems k s)" for s using base_outD(4) [OF B, of s] by simp
  note V1 = sem_ok_pop [OF ok q] sem_ok_V(2) [OF ok q]
  have q': "queue ?k (WSem (USem n)) = (t, x) # rest" using q by (simp add: queue_def)
  have q1: "queue (?k\<lparr>sems := ?f\<rparr>) = (queue ?k)(WSem (USem n) := rest)"
    by (auto simp: queue_def fun_eq_iff split: wpoint.splits)
  obtain t' rl where W: "threads ?k t = Some t'" "status t' = BLOCKED"
    "ReadyToRun b t (?k\<lparr>sems := ?f\<rparr>) = Inr ((put_thread t (t'\<lparr>status := READY\<rparr>) (?k\<lparr>sems := ?f\<rparr>))\<lparr>readyList := rl\<rparr>)"
    by (rule wake_base [OF B q', where f = ?f and g = "conds ?k" and ?k1.0 = "?k\<lparr>sems := ?f\<rparr>", OF _ q1])
      (use ok V1(1) in auto)
  have ne: "t \<noteq> currentThread k" using W(1,2) insideD(4) [OF S(1)] by auto
  have st: "(stat k)(t \<mapsto> READY, currentThread k \<mapsto> status th) = (stat k)(t \<mapsto> READY)"
    using ne assms(3) by (auto simp: fun_eq_iff view_Some)
  have sm: "(sems k (USem n))\<lparr>sem_queue := rest, sem_value := y\<rparr> = \<lparr>sem_value = y, sem_queue = rest\<rparr>" for y
    by (cases "sems k (USem n)") simp
  have l: "level k = IntOn" using S(3) by simp
  show "\<exists>k'. kstep b k = Inr k' \<and> sems k' = (sems k)(USem n := \<lparr>sem_value = sem_value (sems k (USem n)) + 1, sem_queue = rest\<rparr>) \<and>
        stat k' = (stat k)(t := Some READY)"
    using S(5) W q ne l st sm insideD(3) [OF S(1)] V1(2)
    by (simp add: exec_frame_def Semaphore_V_def SetLevel_off_def V_body_def Let_def)
next
  fix n fs
  assume f: "frames th = CP n # fs" and v: "sem_value (sems k (USem n)) = 0"
  note S = inside_step [OF reach_inv [OF assms(1,2)] assms(3) f]
  show "\<exists>k'. kstep b k = Inr k' \<and> stat k' = (stat k)(currentThread k := Some BLOCKED) \<and>
        sem_queue (sems k' (USem n)) = sem_queue (sems k (USem n)) @ [(currentThread k, 0)]"
    using S(5) v by (simp add: exec_frame_def Semaphore_P_def SetLevel_off_def P_loop_def Let_def Thread_Sleep_def ASSERT_def)
qed

subsection \<open>Witnesses\<close>

declare check_loop.simps [code]

text \<open>A program of two threads: main forks a more urgent thread, takes a lock, yields to it, and signals the semaphore it
  waits for.\<close>

definition demo_body :: "frame list" where
  "demo_body = [CFork 3 [CP 0, CAcquire (ULock 0)], CAcquire (ULock 0), CYield, CV 0, CRelease (ULock 0)]"

definition demo :: "frame list \<Rightarrow> nat \<Rightarrow> kstop + Kernel" where
  "demo body n = bind_res (klift (Initialize False (\<lambda>_. 0) (\<lambda>_. 0) body)) (krun \<lparr>SCHED_PRIORITY = True\<rparr> n)"

definition demo_top :: "frame list \<Rightarrow> nat \<Rightarrow> frame option" where
  "demo_top body n = (case demo body n of Inl _ \<Rightarrow> None
     | Inr k \<Rightarrow> (case threads k (currentThread k) of None \<Rightarrow> None | Some th \<Rightarrow> (case frames th of [] \<Rightarrow> None | f # _ \<Rightarrow> Some f)))"

lemma demo_reach:
  assumes "demo_top body n = Some f" "list_all user_call body"
  obtains k0 k th fs where "booted k0" "(kmove \<lparr>SCHED_PRIORITY = True\<rparr>)\<^sup>*\<^sup>* k0 k" "demo body n = Inr k"
    "threads k (currentThread k) = Some th" "frames th = f # fs"
proof -
  obtain k where k: "demo body n = Inr k"
    using assms(1) by (cases "demo body n") (auto simp: demo_top_def)
  then obtain k0 where k0: "Initialize False (\<lambda>_. 0) (\<lambda>_. 0) body = Inr k0" "krun \<lparr>SCHED_PRIORITY = True\<rparr> n k0 = Inr k"
    by (auto simp: demo_def elim!: bind_InrE)
  then have "booted k0" using assms(2) by (auto simp: booted_def)
  moreover obtain th fs where "threads k (currentThread k) = Some th" "frames th = f # fs"
    using assms(1) k by (auto simp: demo_top_def split: option.splits list.splits)
  ultimately show thesis using that k krun_reaches [OF k0(2)] by blast
qed

lemma demo_body_calls: "list_all user_call demo_body"
  by (simp add: demo_body_def)

lemma threads_where_they_belong_witness:
  "\<exists>k. demo demo_body 15 = Inr k \<and> distinct (map fst (readyList k)) \<and>
     (\<forall>t. t \<in> fst ` set (queue k (WSem (USem 0))) \<longleftrightarrow> stat k t = Some BLOCKED \<and> wait_at k t = Some (Some (WSem (USem 0))))"
proof -
  have "demo_top demo_body 15 = Some RunTail" by code_simp
  from demo_reach [OF this demo_body_calls] show ?thesis
    using threads_where_they_belong by metis
qed

lemma lock_mutual_exclusion_witness:
  "\<exists>k k'. demo demo_body 7 = Inr k \<and> kstep \<lparr>SCHED_PRIORITY = True\<rparr> k = Inr k' \<and> sem_value (sems k (LSem (ULock 0))) \<in> {0, 1} \<and>
     (owner k' (ULock 0) = owner k (ULock 0) \<or> owner k (ULock 0) = None \<or> owner k' (ULock 0) = None)"
proof -
  have t: "demo_top demo_body 7 = Some (AcquireTail (ULock 0) IntOn)" by code_simp
  obtain k0 k th fs where D: "booted k0" "(kmove \<lparr>SCHED_PRIORITY = True\<rparr>)\<^sup>*\<^sup>* k0 k" "demo demo_body 7 = Inr k"
    "threads k (currentThread k) = Some th" "frames th = AcquireTail (ULock 0) IntOn # fs"
    by (rule demo_reach [OF t demo_body_calls])
  then obtain k' where "kstep \<lparr>SCHED_PRIORITY = True\<rparr> k = Inr k'"
    by (auto simp: kstep_def exec_frame_def Acquire_tail_def)
  then show ?thesis
    using lock_mutual_exclusion [OF D(1,2), of k' "ULock 0"] D(3) by (auto simp: kmove_def)
qed

lemma kernel_faults_are_misuse_witness:
  "\<exists>k. demo [CRelease (ULock 0)] 2 = Inr k \<and> kstep \<lparr>SCHED_PRIORITY = True\<rparr> k = Inl (KFault AssertFailed) \<and>
     (\<exists>th f fs. threads k (currentThread k) = Some th \<and> frames th = f # fs \<and> misuse \<lparr>SCHED_PRIORITY = True\<rparr> k f AssertFailed)"
proof -
  have t: "demo_top [CRelease (ULock 0)] 2 = Some (CRelease (ULock 0))" by code_simp
  have o: "(case demo [CRelease (ULock 0)] 2 of Inr k \<Rightarrow> owner k (ULock 0) = None | Inl _ \<Rightarrow> False)" by code_simp
  obtain k0 k th fs where D: "booted k0" "(kmove \<lparr>SCHED_PRIORITY = True\<rparr>)\<^sup>*\<^sup>* k0 k" "demo [CRelease (ULock 0)] 2 = Inr k"
    "threads k (currentThread k) = Some th" "frames th = CRelease (ULock 0) # fs"
    by (rule demo_reach [OF t]) simp
  then have "kstep \<lparr>SCHED_PRIORITY = True\<rparr> k = Inl (KFault AssertFailed)"
    using o by (simp add: kstep_def exec_frame_def Lock_Release_def SetLevel_off_def Release_body_def ASSERT_def)
  then show ?thesis using kernel_faults_are_misuse [OF D(1,2)] D(3) by (fastforce simp: at_limit_def)
qed

lemma demo_sems:
  assumes "demo body 1 = Inr k"
  shows "sems k = initial_sems (\<lambda>_. 0)"
proof -
  obtain k0 where k0: "Initialize False (\<lambda>_. 0) (\<lambda>_. 0) body = Inr k0" "kstep \<lparr>SCHED_PRIORITY = True\<rparr> k0 = Inr k"
    using assms by (auto simp: demo_def elim!: bind_InrE)
  obtain th where th: "sems k0 = initial_sems (\<lambda>_. 0)" "threads k0 (currentThread k0) = Some th" "frames th = CSetLevel IntOn # body @ [CFinish]"
    using k0(1) by (auto simp: Initialize_def Let_def Thread_Thread_def set_status_def push_def get_thread_def put_thread_def
        elim!: bind_InrE split: option.splits)
  then show ?thesis
    using k0(2) by (auto simp: kstep_def exec_frame_def Interrupt_SetLevel_def Let_def push_def get_thread_def put_thread_def
        elim!: bind_InrE split: option.splits if_splits)
qed

lemma tick_delivers_due_interrupts_witness:
  "\<exists>k k'. demo demo_body 1 = Inr k \<and> kstep \<lparr>SCHED_PRIORITY = True\<rparr> k = Inr k' \<and> totalTicks k' = totalTicks k + 10"
proof -
  have t: "demo_top demo_body 1 = Some COneTick" by code_simp
  have o: "(case demo demo_body 1 of Inr k \<Rightarrow> int_status k = SystemMode \<and> totalTicks k = 0 \<and> length (pending k) = 0 | Inl _ \<Rightarrow> False)"
    by code_simp
  obtain k0 k th fs where D: "booted k0" "(kmove \<lparr>SCHED_PRIORITY = True\<rparr>)\<^sup>*\<^sup>* k0 k" "demo demo_body 1 = Inr k"
    "threads k (currentThread k) = Some th" "frames th = COneTick # fs"
    by (rule demo_reach [OF t demo_body_calls])
  have s: "int_status k = SystemMode" "pending k = []" "totalTicks k = 0" "sem_value (sems k (USem n)) = 0" for n
    using o D(3) demo_sems [OF D(3)] by (simp_all add: initial_sems_def Semaphore_Semaphore_def)
  then show ?thesis using tick_delivers_due_interrupts [OF D(1,2,4,5)] D(3) by (auto simp: dev_load_def)
qed

lemma yield_by_priority_witness:
  "\<exists>k k' th c. demo demo_body 10 = Inr k \<and> kstep \<lparr>SCHED_PRIORITY = True\<rparr> k = Inr k' \<and> currentThread k' \<noteq> currentThread k \<and>
     threads k (currentThread k) = Some th \<and> priority th = Some c \<and>
     (\<exists>t' p. threads k (currentThread k') = Some t' \<and> priority t' = Some p \<and> p < c)"
proof -
  have t: "demo_top demo_body 10 = Some CYield" by code_simp
  have o: "(case demo demo_body 10 of Inr k \<Rightarrow> (case kstep \<lparr>SCHED_PRIORITY = True\<rparr> k of Inr k' \<Rightarrow> currentThread k' \<noteq> currentThread k
      | Inl _ \<Rightarrow> False) | Inl _ \<Rightarrow> False)" by code_simp
  obtain k0 k th fs where D: "booted k0" "(kmove \<lparr>SCHED_PRIORITY = True\<rparr>)\<^sup>*\<^sup>* k0 k" "demo demo_body 10 = Inr k"
    "threads k (currentThread k) = Some th" "frames th = CYield # fs"
    by (rule demo_reach [OF t demo_body_calls])
  from yield_by_priority [OF D(1,2,4,5)] o D(3,4) show ?thesis by (auto split: if_splits)
qed

lemma halts_only_when_idle_witness:
  "\<exists>k k'. demo [] 3 = Inr k \<and> kstep \<lparr>SCHED_PRIORITY = True\<rparr> k = Inl (KHalted k') \<and> readyList k = []"
proof -
  have t: "demo_top [] 3 = Some SleepLoop" by code_simp
  have o: "(case demo [] 3 of Inr k \<Rightarrow> (case kstep \<lparr>SCHED_PRIORITY = True\<rparr> k of Inl (KHalted k') \<Rightarrow> True | _ \<Rightarrow> False) | Inl _ \<Rightarrow> False)"
    by code_simp
  obtain k0 k th fs where D: "booted k0" "(kmove \<lparr>SCHED_PRIORITY = True\<rparr>)\<^sup>*\<^sup>* k0 k" "demo [] 3 = Inr k"
    by (rule demo_reach [OF t]) auto
  obtain k' where "kstep \<lparr>SCHED_PRIORITY = True\<rparr> k = Inl (KHalted k')"
    using o D(3) by (auto split: sum.splits kstop.splits)
  then show ?thesis using halts_only_when_idle [OF D(1,2)] D(3) by blast
qed

lemma thread_numbers_unique_witness:
  "\<exists>k. demo demo_body 6 = Inr k \<and>
     (\<forall>t t' th th'. threads k t = Some th \<and> threads k t' = Some th' \<and> threadId th = threadId th' \<longrightarrow> t = t')"
proof -
  have t: "demo_top demo_body 6 = Some (CSetLevel IntOff)" by code_simp
  obtain k0 k where D: "booted k0" "(kmove \<lparr>SCHED_PRIORITY = True\<rparr>)\<^sup>*\<^sup>* k0 k" "demo demo_body 6 = Inr k"
    by (rule demo_reach [OF t demo_body_calls]) auto
  from thread_numbers_unique [OF D(1,2)] D(3) show ?thesis by blast
qed

lemma semaphore_fifo_witness:
  "\<exists>k k' t. demo demo_body 18 = Inr k \<and> kstep \<lparr>SCHED_PRIORITY = True\<rparr> k = Inr k' \<and> stat k' = (stat k)(t := Some READY)"
proof -
  have t: "demo_top demo_body 18 = Some (CV 0)" by code_simp
  have o: "(case demo demo_body 18 of Inr k \<Rightarrow> sem_queue (sems k (USem 0)) = [(1, 0)] | Inl _ \<Rightarrow> False)" by code_simp
  obtain k0 k th fs where D: "booted k0" "(kmove \<lparr>SCHED_PRIORITY = True\<rparr>)\<^sup>*\<^sup>* k0 k" "demo demo_body 18 = Inr k"
    "threads k (currentThread k) = Some th" "frames th = CV 0 # fs"
    by (rule demo_reach [OF t demo_body_calls])
  have "sem_queue (sems k (USem 0)) = (1, 0) # []" using o D(3) by simp
  then show ?thesis using semaphore_fifo [OF D(1,2,4)] D(3,5) by blast
qed

end
