(* ===== verification/Nachos_CLib.thy ===== *)
theory Nachos_CLib
  imports Nachos_Prelude "HOL-Library.Signed_Division"
begin

text \<open>
  The parts of C the file system relies on: 32-bit integers that wrap around, the
  division macros of threads/utility.h on signed arguments, strings in byte arrays (strncpy, strncmp),
  copies between buffers (bcopy), the layout of integers in memory, the output of printf for the
  conversions the code uses, and the contents of memory that was just allocated.
\<close>

subsection \<open>Integers\<close>

text \<open>An operand converted to \<open>int\<close> or to \<open>unsigned\<close> is taken modulo \<open>2 ^ 32\<close>.\<close>

definition s32 :: "int \<Rightarrow> int" where
  "s32 i = signed_take_bit 31 i"

definition u32 :: "int \<Rightarrow> int" where
  "u32 i = take_bit 32 i"

text \<open>The division macros on signed operands: C rounds towards zero.\<close>

definition idivRoundDown :: "int \<Rightarrow> int \<Rightarrow> int" where
  "idivRoundDown n s = n sdiv s"

definition idivRoundUp :: "int \<Rightarrow> int \<Rightarrow> int" where
  "idivRoundUp n s = n sdiv s + (if n smod s > 0 then 1 else 0)"

subsection \<open>Memory\<close>

text \<open>What new memory holds; the code allocates memory for four kinds of objects.\<close>

datatype allocation = NewBitMap | NewFileHeader | NewDirectoryEntry | NewBuffer

type_synonym memory = "allocation \<Rightarrow> nat \<Rightarrow> byte"

definition new_bytes :: "memory \<Rightarrow> allocation \<Rightarrow> nat \<Rightarrow> byte list" where
  "new_bytes mem a n = map (mem a) [0..<n]"

definition int_bytes :: "int \<Rightarrow> byte list" where
  "int_bytes i = int_to_bytes (word_of_int i)"

definition bytes_int :: "byte list \<Rightarrow> int" where
  "bytes_int bs = sint (bytes_to_int bs)"

text \<open>An array of words and its bytes.\<close>

definition words_bytes :: "32 word list \<Rightarrow> byte list" where
  "words_bytes ws = concat (map int_to_bytes ws)"

fun bytes_words :: "byte list \<Rightarrow> 32 word list" where
  "bytes_words (a # b # c # d # bs) = bytes_to_int [a, b, c, d] # bytes_words bs"
| "bytes_words bs = []"

text \<open>Copying into a buffer from an index on, and a part of a buffer.\<close>

definition put_bytes :: "int \<Rightarrow> byte list \<Rightarrow> byte list \<Rightarrow> byte list res" where
  "put_bytes i bs buf =
     (if 0 \<le> i \<and> nat i + length bs \<le> length buf
      then Inr (take (nat i) buf @ bs @ drop (nat i + length bs) buf) else Inl OutOfBounds)"

definition get_bytes :: "int \<Rightarrow> int \<Rightarrow> byte list \<Rightarrow> byte list res" where
  "get_bytes i n buf =
     (if 0 \<le> i \<and> 0 \<le> n \<and> nat i + nat n \<le> length buf then Inr (take (nat n) (drop (nat i) buf)) else Inl OutOfBounds)"

subsection \<open>Strings\<close>

text \<open>A string in memory ends at the first zero byte; a list without one stands for itself with the zero behind it.\<close>

definition cstr :: "nat \<Rightarrow> byte list \<Rightarrow> byte list" where
  "cstr n s = takeWhile (\<lambda>c. c \<noteq> 0) (take n s)"

fun first_char :: "byte list \<Rightarrow> byte" where
  "first_char [] = 0"
| "first_char (c # cs) = c"

text \<open>\<open>strncmp (a, b, n) == 0\<close>.\<close>

fun strncmp_eq :: "byte list \<Rightarrow> byte list \<Rightarrow> nat \<Rightarrow> bool" where
  "strncmp_eq a b 0 = True"
| "strncmp_eq a b (Suc n) =
     (first_char a = first_char b \<and> (first_char a = 0 \<or> strncmp_eq (tl a) (tl b) n))"

definition strncpy :: "byte list \<Rightarrow> byte list \<Rightarrow> nat \<Rightarrow> byte list" where
  "strncpy dst src n = cstr n src @ replicate (n - length (cstr n src)) 0 @ drop n dst"

definition bzero :: "byte list \<Rightarrow> nat \<Rightarrow> byte list" where
  "bzero dst n = replicate n 0 @ drop n dst"

definition bytes :: "string \<Rightarrow> byte list" where
  "bytes s = map of_char s"

subsection \<open>Output\<close>

text \<open>The conversions \<open>%d\<close>, \<open>%02d\<close> and \<open>%x\<close>.\<close>

fun digits :: "nat \<Rightarrow> byte list" where
  "digits n = (if n < 10 then [48 + of_nat n] else digits (n div 10) @ [48 + of_nat (n mod 10)])"

declare digits.simps [simp del]

definition print_d :: "int \<Rightarrow> byte list" where
  "print_d i = (if i < 0 then 45 # digits (nat (- i)) else digits (nat i))"

definition print_02d :: "int \<Rightarrow> byte list" where
  "print_02d i = (if length (print_d i) < 2 then 48 # print_d i else print_d i)"

definition hex_digit :: "nat \<Rightarrow> byte" where
  "hex_digit n = (if n < 10 then 48 + of_nat n else 87 + of_nat n)"

definition print_x :: "byte \<Rightarrow> byte list" where
  "print_x b = (if unat b < 16 then [hex_digit (unat b)] else [hex_digit (unat b div 16), hex_digit (unat b mod 16)])"

subsection \<open>Lemmas on integers and memory\<close>

declare bytes_to_int.simps [simp del]

lemma s32_id [simp]: "is_int i \<Longrightarrow> s32 i = i"
  unfolding s32_def is_int_def by (rule signed_take_bit_int_eq_self) simp_all

lemma is_int_s32 [simp]: "is_int (s32 i)"
  using signed_take_bit_int_greater_eq_minus_exp [of 31 i] signed_take_bit_int_less_exp [of 31 i]
  by (simp add: s32_def is_int_def)

lemma u32_id [simp]: "0 \<le> i \<Longrightarrow> i < 2 ^ 32 \<Longrightarrow> u32 i = i"
  by (simp add: u32_def take_bit_int_eq_self)

lemma sdiv_pos: "0 \<le> a \<Longrightarrow> 0 < b \<Longrightarrow> a sdiv b = (a::int) div b"
  by (cases "0 < a") (simp_all add: signed_divide_int_def)

lemma smod_pos: "0 \<le> a \<Longrightarrow> 0 < b \<Longrightarrow> a smod b = (a::int) mod b"
  by (cases "0 < a") (simp_all add: signed_modulo_int_def)

lemma idivRoundUp_nat: "0 < s \<Longrightarrow> idivRoundUp (int n) (int s) = int (divRoundUp n s)"
  by (simp add: idivRoundUp_def divRoundUp_def sdiv_pos smod_pos zdiv_int flip: zmod_int)

lemma length_new_bytes [simp]: "length (new_bytes mem a n) = n"
  by (simp add: new_bytes_def)

lemma length_int_bytes [simp]: "length (int_bytes i) = 4"
  by (simp add: int_bytes_def)

lemma bytes_int_bytes [simp]: "is_int i \<Longrightarrow> bytes_int (int_bytes i) = i"
  using s32_id [of i] by (simp add: bytes_int_def int_bytes_def signed_of_int s32_def)

lemma is_int_bytes_int [simp]: "is_int (bytes_int bs)"
  using sint_greater_eq [of "bytes_to_int bs"] sint_less [of "bytes_to_int bs"] by (simp add: bytes_int_def is_int_def)

lemma int_bytes_bytes_int: "length bs = 4 \<Longrightarrow> int_bytes (bytes_int bs) = bs"
  by (simp add: bytes_int_def int_bytes_def int_to_bytes_to_int)

lemma length_words_bytes [simp]: "length (words_bytes ws) = 4 * length ws"
  by (induction ws) (simp_all add: words_bytes_def)

lemma bytes_words_step: "bytes_words (int_to_bytes w @ bs) = w # bytes_words bs"
proof -
  obtain a b c d where w: "int_to_bytes w = [a, b, c, d]" unfolding int_to_bytes_def by blast
  then show ?thesis using bytes_to_int_to_bytes [of w] by simp
qed

lemma bytes_words_bytes [simp]: "bytes_words (words_bytes ws) = ws"
  by (induction ws) (simp_all add: words_bytes_def bytes_words_step)

lemma words_bytes_words:
  assumes "length bs = 4 * n"
  obtains ws where "bs = words_bytes ws" "length ws = n"
proof -
  have "\<exists>ws. bs = words_bytes ws \<and> length ws = n"
    using assms
  proof (induction n arbitrary: bs)
    case (Suc n)
    then have "length (drop 4 bs) = 4 * n" by simp
    from Suc.IH [OF this] obtain ws where ws: "drop 4 bs = words_bytes ws" "length ws = n" by blast
    have "bs = take 4 bs @ drop 4 bs" by simp
    also have "take 4 bs = int_to_bytes (bytes_to_int (take 4 bs))"
      using Suc.prems by (simp add: int_to_bytes_to_int)
    finally have "bs = words_bytes (bytes_to_int (take 4 bs) # ws)"
      using ws(1) by (simp add: words_bytes_def)
    then show ?case using ws(2) by (intro exI [of _ "bytes_to_int (take 4 bs) # ws"]) simp
  qed (simp add: words_bytes_def)
  then show thesis using that by blast
qed

lemma put_bytes_ok [simp]:
  "0 \<le> i \<Longrightarrow> nat i + length bs \<le> length buf \<Longrightarrow>
   put_bytes i bs buf = Inr (take (nat i) buf @ bs @ drop (nat i + length bs) buf)"
  by (simp add: put_bytes_def)

lemma get_bytes_ok [simp]:
  "0 \<le> i \<Longrightarrow> 0 \<le> n \<Longrightarrow> nat i + nat n \<le> length buf \<Longrightarrow> get_bytes i n buf = Inr (take (nat n) (drop (nat i) buf))"
  by (simp add: get_bytes_def)

subsection \<open>Lemmas on strings\<close>

lemma length_cstr: "length (cstr n s) \<le> n"
  unfolding cstr_def by (rule le_trans [OF length_takeWhile_le]) simp

lemma strncmp_eq_iff: "strncmp_eq a b n \<longleftrightarrow> cstr n a = cstr n b"
proof (induction a b n rule: strncmp_eq.induct)
  case (2 a b n)
  then show ?case by (cases a; cases b) (auto simp: cstr_def)
qed (simp add: cstr_def)

lemma length_strncpy [simp]: "n \<le> length dst \<Longrightarrow> length (strncpy dst src n) = length dst"
  using length_cstr [of n src] by (simp add: strncpy_def)

lemma cstr_strncpy [simp]: "cstr n (strncpy dst src n) = cstr n src"
proof -
  have "\<forall>c \<in> set (cstr n src). c \<noteq> 0" by (auto simp: cstr_def dest: set_takeWhileD)
  moreover have "take n (strncpy dst src n) = cstr n src @ replicate (n - length (cstr n src)) 0"
    using length_cstr [of n src] by (simp add: strncpy_def)
  ultimately show ?thesis
    by (simp add: cstr_def [of n "strncpy dst src n"] takeWhile_append2 takeWhile_replicate)
qed

lemma length_bzero [simp]: "n \<le> length dst \<Longrightarrow> length (bzero dst n) = length dst"
  by (simp add: bzero_def)

lemma cstr_cstr [simp]: "cstr n (cstr n s) = cstr n s"
proof -
  have "\<forall>c \<in> set (cstr n s). c \<noteq> 0" by (auto simp: cstr_def dest: set_takeWhileD)
  then show ?thesis using length_cstr [of n s] by (simp add: cstr_def [of n "cstr n s"])
qed

subsection \<open>Lemmas on loops\<close>

lemma fold_res_append: "fold_res f (xs @ ys) s = bind_res (fold_res f xs s) (fold_res f ys)"
proof (induction xs arbitrary: s)
  case (Cons x xs)
  then show ?case by (cases "f x s") simp_all
qed simp

end
