(* ===== verification/Nachos_Disk.thy ===== *)
theory Nachos_Disk
  imports Nachos_CLib Nachos_Machine Nachos_Kernel
begin

text \<open>
  The disk (machine/disk.h, disk.cc), its UNIX file (machine/sysdep.cc) and the synchronous interface to it
  (filesys/synchdisk.cc). The raw disk accepts one request at a time and computes how long it takes; a thread that
  calls ReadSector or WriteSector sleeps until the interrupt, so for the caller the operation is done in
  one piece. Other clients of the disk wait for the lock meanwhile; the kernel's view of the same calls
  is \<open>SynchDisk_calls\<close>. Host files: a write past the end extends the file with zeros, as in POSIX.
  The clock \<open>now\<close> and the counts of requests have no upper bound here: the model is that of the time before they reach \<open>2 ^ 31\<close>.
\<close>

subsection \<open>Constants\<close>

definition SectorsPerTrack :: nat where "SectorsPerTrack = 32"
definition NumTracks :: nat where "NumTracks = 32"
definition NumSectors :: nat where "NumSectors = SectorsPerTrack * NumTracks"
definition MagicNumber :: "32 word" where "MagicNumber = 0x456789ab"
definition MagicSize :: nat where "MagicSize = 4"
definition DiskSize :: nat where "DiskSize = MagicSize + (NumSectors * SectorSize)"
definition RotationTime :: int where "RotationTime = 500"
definition SeekTime :: int where "SeekTime = 500"

lemmas disk_defs = SectorsPerTrack_def NumTracks_def NumSectors_def MagicSize_def DiskSize_def SectorSize_def

subsection \<open>Files of the host\<close>

record unix_file =
  content :: "nat \<Rightarrow> byte"
  fsize :: nat

definition empty_file :: unix_file where
  "empty_file = \<lparr>content = (\<lambda>_. 0), fsize = 0\<rparr>"

definition unix_read :: "nat \<Rightarrow> nat \<Rightarrow> unix_file \<Rightarrow> byte list res" where
  "unix_read pos n f = bind_res (ASSERT (pos + n \<le> fsize f)) (\<lambda>_. Inr (map (content f) [pos..<pos + n]))"

definition unix_write :: "nat \<Rightarrow> byte list \<Rightarrow> unix_file \<Rightarrow> unix_file" where
  "unix_write pos bs f =
     f\<lparr>content := (\<lambda>i. if pos \<le> i \<and> i < pos + length bs then bs ! (i - pos) else content f i),
       fsize := max (fsize f) (pos + length bs)\<rparr>"

subsection \<open>The raw disk\<close>

record Disk =
  fileno :: unix_file
  active :: bool
  lastSector :: int
  bufferInit :: int
  now :: int                       \<comment> \<open>stats->totalTicks\<close>
  numDiskReads :: int
  numDiskWrites :: int

definition Disk_Disk :: "unix_file option \<Rightarrow> int \<Rightarrow> Disk res" where
  "Disk_Disk existing time =
     bind_res (case existing of
         Some f \<Rightarrow> bind_res (unix_read 0 MagicSize f) (\<lambda>magicNum.
           bind_res (ASSERT (bytes_to_int magicNum = MagicNumber)) (\<lambda>_. Inr f))
       | None \<Rightarrow> Inr (unix_write (DiskSize - 4) (int_to_bytes 0) (unix_write 0 (int_to_bytes MagicNumber) empty_file))) (\<lambda>f.
     Inr \<lparr>fileno = f, active = False, lastSector = 0, bufferInit = 0, now = time, numDiskReads = 0, numDiskWrites = 0\<rparr>)"

text \<open>Time: the arm moves one track per SeekTime, the disk turns one sector per RotationTime.\<close>

definition TimeToSeek :: "int \<Rightarrow> Disk \<Rightarrow> int \<times> int" where
  "TimeToSeek newSector d =
     (let newTrack = newSector sdiv int SectorsPerTrack;
          oldTrack = lastSector d sdiv int SectorsPerTrack;
          seek = \<bar>newTrack - oldTrack\<bar> * SeekTime;
          over = (now d + seek) smod RotationTime
      in (seek, if over > 0 then RotationTime - over else 0))"

definition ModuloDiff :: "int \<Rightarrow> int \<Rightarrow> int" where
  "ModuloDiff to from =
     (let toOffset = to smod int SectorsPerTrack;
          fromOffset = from smod int SectorsPerTrack
      in ((toOffset - fromOffset) + int SectorsPerTrack) smod int SectorsPerTrack)"

definition ComputeLatency :: "int \<Rightarrow> bool \<Rightarrow> Disk \<Rightarrow> int" where
  "ComputeLatency newSector writing d =
     (let (seek, rotation) = TimeToSeek newSector d;
          timeAfter = now d + seek + rotation
      in if \<not> writing \<and> seek = 0 \<and>
            ((timeAfter - bufferInit d) sdiv RotationTime) > ModuloDiff newSector (bufferInit d sdiv RotationTime)
         then RotationTime
         else seek + (rotation + ModuloDiff newSector (timeAfter sdiv RotationTime) * RotationTime) + RotationTime)"

definition UpdateLast :: "int \<Rightarrow> Disk \<Rightarrow> Disk" where
  "UpdateLast newSector d =
     (let (seek, rotate) = TimeToSeek newSector d;
          d1 = (if seek \<noteq> 0 then d\<lparr>bufferInit := now d + seek + rotate\<rparr> else d)
      in d1\<lparr>lastSector := newSector\<rparr>)"

text \<open>A request returns how long it takes; the data is transferred at once.\<close>

definition ReadRequest :: "int \<Rightarrow> Disk \<Rightarrow> (byte list \<times> int \<times> Disk) res" where
  "ReadRequest sectorNumber d =
     (let ticks = ComputeLatency sectorNumber False d in
      bind_res (ASSERT (\<not> active d)) (\<lambda>_.
      bind_res (ASSERT (0 \<le> sectorNumber \<and> sectorNumber < int NumSectors)) (\<lambda>_.
      bind_res (unix_read (SectorSize * nat sectorNumber + MagicSize) SectorSize (fileno d)) (\<lambda>data.
      let d1 = UpdateLast sectorNumber (d\<lparr>active := True\<rparr>)
      in Inr (data, ticks, d1\<lparr>numDiskReads := numDiskReads d1 + 1\<rparr>)))))"

definition WriteRequest :: "int \<Rightarrow> byte list \<Rightarrow> Disk \<Rightarrow> (int \<times> Disk) res" where
  "WriteRequest sectorNumber data d =
     (let ticks = ComputeLatency sectorNumber True d in
      bind_res (ASSERT (\<not> active d)) (\<lambda>_.
      bind_res (ASSERT (0 \<le> sectorNumber \<and> sectorNumber < int NumSectors)) (\<lambda>_.
      if length data < SectorSize then Inl OutOfBounds else
      let f = unix_write (SectorSize * nat sectorNumber + MagicSize) (take SectorSize data) (fileno d);
          d1 = UpdateLast sectorNumber (d\<lparr>fileno := f, active := True\<rparr>)
      in Inr (ticks, d1\<lparr>numDiskWrites := numDiskWrites d1 + 1\<rparr>))))"

definition Disk_HandleInterrupt :: "Disk \<Rightarrow> Disk" where
  "Disk_HandleInterrupt d = d\<lparr>active := False\<rparr>"

subsection \<open>The synchronous disk\<close>

text \<open>The caller sleeps in P until the interrupt, which comes when the time of the request has passed.\<close>

definition SynchDisk_ReadSector :: "int \<Rightarrow> Disk \<Rightarrow> (byte list \<times> Disk) res" where
  "SynchDisk_ReadSector sectorNumber d =
     bind_res (ReadRequest sectorNumber d) (\<lambda>(data, ticks, d1).
     bind_res (ASSERT (ticks > 0)) (\<lambda>_.
     Inr (data, Disk_HandleInterrupt (d1\<lparr>now := now d1 + ticks\<rparr>))))"

definition SynchDisk_WriteSector :: "int \<Rightarrow> byte list \<Rightarrow> Disk \<Rightarrow> Disk res" where
  "SynchDisk_WriteSector sectorNumber data d =
     bind_res (WriteRequest sectorNumber data d) (\<lambda>(ticks, d1).
     bind_res (ASSERT (ticks > 0)) (\<lambda>_.
     Inr (Disk_HandleInterrupt (d1\<lparr>now := now d1 + ticks\<rparr>))))"

text \<open>What ReadSector and WriteSector do as calls of the kernel; \<open>n\<close> names the lock, the semaphore and the disk.\<close>

definition SynchDisk_calls :: "nat \<Rightarrow> int \<Rightarrow> frame list" where
  "SynchDisk_calls n ticks = [CAcquire (ULock n), CRequest n ticks DiskInt, CP n, CRelease (ULock n)]"

subsection \<open>The contents of the disk\<close>

definition sector :: "Disk \<Rightarrow> nat \<Rightarrow> byte list" where
  "sector d s = map (content (fileno d)) [SectorSize * s + MagicSize..<SectorSize * s + MagicSize + SectorSize]"

text \<open>A disk at rest: its file is complete and carries the magic number, the arm is on the disk.\<close>

definition disk_ok :: "Disk \<Rightarrow> bool" where
  "disk_ok d \<longleftrightarrow> \<not> active d \<and> DiskSize \<le> fsize (fileno d) \<and>
     map (content (fileno d)) [0..<MagicSize] = int_to_bytes MagicNumber \<and>
     0 \<le> lastSector d \<and> lastSector d < int NumSectors \<and> 0 \<le> now d \<and> 0 \<le> bufferInit d"

lemma length_sector [simp]: "length (sector d s) = SectorSize"
  by (simp add: sector_def)

lemma ModuloDiff_bounds:
  assumes "0 \<le> a" "0 \<le> b"
  shows "0 \<le> ModuloDiff a b" "ModuloDiff a b \<le> 31"
proof -
  have m: "0 \<le> a mod 32" "a mod 32 < 32" "0 \<le> b mod 32" "b mod 32 < 32" by simp_all
  then have "ModuloDiff a b = (a mod 32 - b mod 32 + 32) mod 32"
    using assms by (simp add: ModuloDiff_def SectorsPerTrack_def smod_pos)
  then show "0 \<le> ModuloDiff a b" "ModuloDiff a b \<le> 31" by simp_all
qed

lemma TimeToSeek_bounds:
  assumes "disk_ok d" "0 \<le> s" "s < int NumSectors" "TimeToSeek s d = (seek, rot)"
  shows "0 \<le> seek" "seek \<le> 31 * 500" "0 \<le> rot" "rot < 500"
proof -
  have t: "s sdiv 32 = s div 32" "lastSector d sdiv 32 = lastSector d div 32"
    using assms by (simp_all add: disk_ok_def sdiv_pos)
  have b: "0 \<le> s div 32" "s div 32 \<le> 31" "0 \<le> lastSector d div 32" "lastSector d div 32 \<le> 31"
    using assms by (auto simp: disk_ok_def disk_defs)
  have e: "seek = \<bar>s div 32 - lastSector d div 32\<bar> * 500"
    "rot = (let over = (now d + seek) smod 500 in if over > 0 then 500 - over else 0)"
    using assms(4) t by (auto simp: TimeToSeek_def Let_def SectorsPerTrack_def SeekTime_def RotationTime_def)
  moreover have "\<bar>s div 32 - lastSector d div 32\<bar> \<le> 31" using b by (simp add: abs_le_iff)
  ultimately show s: "0 \<le> seek" "seek \<le> 31 * 500" by simp_all
  have "(now d + seek) smod 500 = (now d + seek) mod 500"
    using assms(1) s(1) by (auto simp: smod_pos disk_ok_def)
  then show "0 \<le> rot" "rot < 500" using e(2) by (auto simp: Let_def less_imp_le)
qed

lemma ComputeLatency_bounds:
  assumes "disk_ok d" "0 \<le> s" "s < int NumSectors"
  shows "500 \<le> ComputeLatency s w d" "ComputeLatency s w d < 32000" "ComputeLatency s False d \<le> ComputeLatency s True d"
proof -
  obtain seek rot where t: "TimeToSeek s d = (seek, rot)" by fastforce
  note B = TimeToSeek_bounds [OF assms t]
  have "0 \<le> (now d + seek + rot) sdiv 500" using assms(1) B by (auto simp: disk_ok_def sdiv_pos)
  note M = ModuloDiff_bounds [OF assms(2) this]
  have e: "ComputeLatency s w d = 500 \<or>
      ComputeLatency s w d = seek + (rot + ModuloDiff s ((now d + seek + rot) sdiv 500) * 500) + 500" for w
    using t by (auto simp: ComputeLatency_def Let_def RotationTime_def)
  have e': "ComputeLatency s True d = seek + (rot + ModuloDiff s ((now d + seek + rot) sdiv 500) * 500) + 500"
    using t by (auto simp: ComputeLatency_def Let_def RotationTime_def)
  show "500 \<le> ComputeLatency s w d" using e [of w] B M by auto
  show "ComputeLatency s w d < 32000" using e [of w] B M by auto
  show "ComputeLatency s False d \<le> ComputeLatency s True d" using e [of False] e' B M by auto
qed

lemma unix_write_content:
  "pos + length bs \<le> i \<or> i < pos \<Longrightarrow> content (unix_write pos bs f) i = content f i"
  by (auto simp: unix_write_def)

lemma unix_write_read: "map (content (unix_write pos bs f)) [pos..<pos + length bs] = bs"
  by (rule nth_equalityI) (simp_all add: unix_write_def)

lemma unix_read_ok: "pos + n \<le> fsize f \<Longrightarrow> unix_read pos n f = Inr (map (content f) [pos..<pos + n])"
  by (simp add: unix_read_def)

lemma UpdateLast_simps [simp]:
  "fileno (UpdateLast s d) = fileno d" "active (UpdateLast s d) = active d" "lastSector (UpdateLast s d) = s"
  "now (UpdateLast s d) = now d"
  by (simp_all add: UpdateLast_def Let_def split: prod.split)

lemma UpdateLast_buffer:
  assumes "disk_ok d" "0 \<le> s" "s < int NumSectors"
  shows "0 \<le> bufferInit (UpdateLast s (d\<lparr>fileno := f, active := a\<rparr>))"
proof -
  obtain seek rot where t: "TimeToSeek s d = (seek, rot)" by fastforce
  note B = TimeToSeek_bounds [OF assms t]
  have "TimeToSeek s (d\<lparr>fileno := f, active := a\<rparr>) = (seek, rot)" using t by (simp add: TimeToSeek_def)
  then show ?thesis using assms(1) B by (simp add: UpdateLast_def disk_ok_def)
qed

lemma SynchDisk_read:
  assumes d: "disk_ok d" and s: "0 \<le> s" "s < int NumSectors"
  obtains d' where "SynchDisk_ReadSector s d = Inr (sector d (nat s), d')" "disk_ok d'" "fileno d' = fileno d"
proof -
  note L = ComputeLatency_bounds [OF d s]
  have r: "unix_read (SectorSize * nat s + MagicSize) SectorSize (fileno d) = Inr (sector d (nat s))"
    using d s by (subst unix_read_ok) (auto simp: sector_def disk_ok_def disk_defs)
  have u: "0 \<le> bufferInit (UpdateLast s (d\<lparr>active := True\<rparr>))"
    using UpdateLast_buffer [OF d s, where f = "fileno d" and a = True] by simp
  let ?t = "ComputeLatency s False d"
  let ?d1 = "UpdateLast s (d\<lparr>active := True\<rparr>)"
  let ?d = "Disk_HandleInterrupt (?d1\<lparr>numDiskReads := numDiskReads ?d1 + 1, now := now d + ?t\<rparr>)"
  have "SynchDisk_ReadSector s d = Inr (sector d (nat s), ?d)"
    using d s r L(1) [of False] by (simp add: SynchDisk_ReadSector_def ReadRequest_def disk_ok_def Let_def)
  moreover have "disk_ok ?d"
    using d s u L(1) [of False] by (simp add: disk_ok_def Disk_HandleInterrupt_def)
  ultimately show thesis using that by (simp add: Disk_HandleInterrupt_def)
qed

lemma SynchDisk_write:
  assumes d: "disk_ok d" and s: "0 \<le> s" "s < int NumSectors" and b: "length bs = SectorSize"
  obtains d' where "SynchDisk_WriteSector s bs d = Inr d'" "disk_ok d'" "sector d' = (sector d)(nat s := bs)"
proof -
  note L = ComputeLatency_bounds [OF d s]
  let ?f = "unix_write (SectorSize * nat s + MagicSize) bs (fileno d)"
  let ?t = "ComputeLatency s True d"
  let ?d1 = "UpdateLast s (d\<lparr>fileno := ?f, active := True\<rparr>)"
  let ?d = "Disk_HandleInterrupt (?d1\<lparr>numDiskWrites := numDiskWrites ?d1 + 1, now := now d + ?t\<rparr>)"
  have W: "SynchDisk_WriteSector s bs d = Inr ?d"
    using d s b L(1) [of True] by (simp add: SynchDisk_WriteSector_def WriteRequest_def disk_ok_def Let_def)
  have m: "map (content ?f) [0..<MagicSize] = map (content (fileno d)) [0..<MagicSize]"
    by (auto simp: unix_write_content)
  have o: "disk_ok ?d"
    using d s L(1) [of True] m UpdateLast_buffer [OF d s, where f = ?f and a = True]
    by (auto simp: disk_ok_def Disk_HandleInterrupt_def unix_write_def)
  have "sector ?d t = ((sector d)(nat s := bs)) t" for t
  proof (cases "t = nat s")
    case True
    then show ?thesis using unix_write_read [of "SectorSize * nat s + MagicSize" bs "fileno d"] b
      by (simp add: sector_def Disk_HandleInterrupt_def)
  next
    case False
    have "content ?f i = content (fileno d) i" if "SectorSize * t + MagicSize \<le> i" "i < SectorSize * t + MagicSize + SectorSize" for i
    proof (rule unix_write_content)
      consider "Suc t \<le> nat s" | "Suc (nat s) \<le> t" using False by linarith
      then show "SectorSize * nat s + MagicSize + length bs \<le> i \<or> i < SectorSize * nat s + MagicSize"
        using that b by (cases) (auto simp: SectorSize_def)
    qed
    then show ?thesis using False by (simp add: sector_def Disk_HandleInterrupt_def)
  qed
  then show thesis using that W o by blast
qed

lemma SynchDisk_bad:
  assumes "disk_ok d" "\<not> (0 \<le> s \<and> s < int NumSectors)"
  shows "SynchDisk_ReadSector s d = Inl AssertFailed" "SynchDisk_WriteSector s bs d = Inl AssertFailed"
  using assms by (auto simp: SynchDisk_ReadSector_def SynchDisk_WriteSector_def ReadRequest_def WriteRequest_def disk_ok_def Let_def)

subsection \<open>A store of sectors\<close>

text \<open>What clients rely on: numbered sectors of a fixed size, read and written one at a time.\<close>

locale block_device =
  fixes ok :: "'d \<Rightarrow> bool" and sect :: "'d \<Rightarrow> nat \<Rightarrow> byte list" and nsect ssize :: nat
    and rd :: "int \<Rightarrow> 'd \<Rightarrow> (byte list \<times> 'd) res" and wr :: "int \<Rightarrow> byte list \<Rightarrow> 'd \<Rightarrow> 'd res"
  assumes sect_size: "length (sect d t) = ssize"
    and rd_ok: "ok d \<Longrightarrow> 0 \<le> s \<Longrightarrow> s < int nsect \<Longrightarrow> \<exists>d'. rd s d = Inr (sect d (nat s), d') \<and> ok d' \<and> sect d' = sect d"
    and wr_ok: "ok d \<Longrightarrow> 0 \<le> s \<Longrightarrow> s < int nsect \<Longrightarrow> length bs = ssize \<Longrightarrow>
      \<exists>d'. wr s bs d = Inr d' \<and> ok d' \<and> sect d' = (sect d)(nat s := bs)"
    and rd_bad: "ok d \<Longrightarrow> \<not> (0 \<le> s \<and> s < int nsect) \<Longrightarrow> rd s d = Inl AssertFailed"
    and wr_bad: "ok d \<Longrightarrow> \<not> (0 \<le> s \<and> s < int nsect) \<Longrightarrow> wr s bs d = Inl AssertFailed"
begin

lemma rd_after_wr:
  assumes "ok d" "0 \<le> s" "s < int nsect" "length bs = ssize"
  shows "\<exists>d1 d2. wr s bs d = Inr d1 \<and> rd s d1 = Inr (bs, d2) \<and> ok d2 \<and> sect d2 = (sect d)(nat s := bs)"
  using wr_ok [OF assms] rd_ok [of _ s] assms by fastforce

text \<open>Reading a list of sectors.\<close>

lemma rd_list:
  assumes "ok d" "\<forall>s \<in> set ss. 0 \<le> s \<and> s < int nsect"
  shows "\<exists>d'. fold_res (\<lambda>s (buf, d). bind_res (rd s d) (\<lambda>(bs, d1). Inr (buf @ bs, d1))) ss (acc, d) =
      Inr (acc @ concat (map (sect d) (map nat ss)), d') \<and> ok d' \<and> sect d' = sect d"
  using assms
proof (induction ss arbitrary: acc d)
  case (Cons s ss)
  obtain d1 where d1: "rd s d = Inr (sect d (nat s), d1)" "ok d1" "sect d1 = sect d"
    using rd_ok [of d s] Cons.prems by auto
  show ?case using Cons.IH [of d1 "acc @ sect d (nat s)"] Cons.prems d1 by auto
qed simp

text \<open>Writing a list of sectors, each with its own data.\<close>

lemma wr_list:
  assumes "ok d" "\<forall>(s, bs) \<in> set ws. 0 \<le> s \<and> s < int nsect \<and> length bs = ssize" "distinct (map fst ws)"
  shows "\<exists>d'. fold_res (\<lambda>(s, bs). wr s bs) ws d = Inr d' \<and> ok d' \<and>
      (\<forall>(s, bs) \<in> set ws. sect d' (nat s) = bs) \<and> (\<forall>t. int t \<notin> fst ` set ws \<longrightarrow> sect d' t = sect d t)"
  using assms
proof (induction ws arbitrary: d)
  case (Cons w ws)
  obtain s bs where w: "w = (s, bs)" by fastforce
  have s: "0 \<le> s" "s < int nsect" "length bs = ssize" using Cons.prems w by auto
  obtain d1 where d1: "wr s bs d = Inr d1" "ok d1" "sect d1 = (sect d)(nat s := bs)"
    using wr_ok [OF Cons.prems(1) s] by auto
  obtain d' where d': "fold_res (\<lambda>(s, bs). wr s bs) ws d1 = Inr d'" "ok d'"
    "\<forall>(s, bs) \<in> set ws. sect d' (nat s) = bs" "\<forall>t. int t \<notin> fst ` set ws \<longrightarrow> sect d' t = sect d1 t"
    using Cons.IH [OF d1(2)] Cons.prems w by auto
  have "int (nat s) \<notin> fst ` set ws" using Cons.prems w s by (auto simp: image_iff)
  then have "sect d' (nat s) = bs" using d'(4) d1(3) by simp
  moreover have "sect d' t = sect d t" if "int t \<notin> fst ` set (w # ws)" for t
    using that d'(4) d1(3) w s by auto
  ultimately show ?case using d' d1 w by auto
qed simp

end

interpretation bd: block_device disk_ok sector NumSectors SectorSize SynchDisk_ReadSector SynchDisk_WriteSector
proof
  show "\<exists>d'. SynchDisk_ReadSector s d = Inr (sector d (nat s), d') \<and> disk_ok d' \<and> sector d' = sector d"
    if "disk_ok d" "0 \<le> s" "s < int NumSectors" for d s
    by (rule SynchDisk_read [OF that]) (auto simp: sector_def)
  show "\<exists>d'. SynchDisk_WriteSector s bs d = Inr d' \<and> disk_ok d' \<and> sector d' = (sector d)(nat s := bs)"
    if "disk_ok d" "0 \<le> s" "s < int NumSectors" "length bs = SectorSize" for d s bs
    by (rule SynchDisk_write [OF that]) auto
qed (use SynchDisk_bad in auto)

lemma wr_any_list:
  assumes "disk_ok d" "\<forall>(s, bs) \<in> set ws. 0 \<le> s \<and> s < int NumSectors \<and> length bs = SectorSize"
  shows "\<exists>d'. fold_res (\<lambda>(s, bs). SynchDisk_WriteSector s bs) ws d = Inr d' \<and> disk_ok d' \<and>
      (\<forall>t. sector d' t = (case map_of (rev ws) (int t) of Some bs \<Rightarrow> bs | None \<Rightarrow> sector d t))"
  using assms
proof (induction ws arbitrary: d)
  case (Cons w ws)
  obtain s bs where w: "w = (s, bs)" by fastforce
  obtain d1 where d1: "SynchDisk_WriteSector s bs d = Inr d1" "disk_ok d1" "sector d1 = (sector d)(nat s := bs)"
    using SynchDisk_write [of d s bs] Cons.prems w by auto
  obtain d' where d': "fold_res (\<lambda>(s, bs). SynchDisk_WriteSector s bs) ws d1 = Inr d'" "disk_ok d'"
    "\<And>t. sector d' t = (case map_of (rev ws) (int t) of Some bs \<Rightarrow> bs | None \<Rightarrow> sector d1 t)"
    using Cons.IH [OF d1(2)] Cons.prems by auto
  have s: "0 \<le> s" using Cons.prems w by simp
  have "sector d' t = (case map_of (rev (w # ws)) (int t) of Some bs \<Rightarrow> bs | None \<Rightarrow> sector d t)" for t
    using d'(3) [of t] d1(3) w s by (auto simp: map_add_def split: option.splits)
  then show ?case using d' d1 w by auto
qed simp

lemma Disk_reopen:
  assumes "disk_ok d" "0 \<le> time"
  obtains d' where "Disk_Disk (Some (fileno d)) time = Inr d'" "disk_ok d'" "sector d' = sector d"
proof -
  have "unix_read 0 MagicSize (fileno d) = Inr (int_to_bytes MagicNumber)"
    using assms(1) by (subst unix_read_ok) (auto simp: disk_ok_def DiskSize_def)
  then have "Disk_Disk (Some (fileno d)) time =
      Inr \<lparr>fileno = fileno d, active = False, lastSector = 0, bufferInit = 0, now = time, numDiskReads = 0, numDiskWrites = 0\<rparr>"
    by (simp add: Disk_Disk_def)
  then show thesis
    by (rule that) (use assms in \<open>auto simp: disk_ok_def sector_def NumSectors_def SectorsPerTrack_def NumTracks_def\<close>)
qed

lemma Disk_new:
  assumes "0 \<le> time"
  obtains d where "Disk_Disk None time = Inr d" "disk_ok d" "\<And>s. s < NumSectors \<Longrightarrow> sector d s = replicate SectorSize 0"
proof -
  let ?f = "unix_write (DiskSize - 4) (int_to_bytes 0) (unix_write 0 (int_to_bytes MagicNumber) empty_file)"
  let ?d = "\<lparr>fileno = ?f, active = False, lastSector = 0, bufferInit = 0, now = time, numDiskReads = 0, numDiskWrites = 0\<rparr>"
  have z: "content ?f i = 0" if "4 \<le> i" for i
    using that by (auto simp: unix_write_def empty_file_def int_to_bytes_def nth_Cons')
  have m: "map (content ?f) [0..<MagicSize] = int_to_bytes MagicNumber"
  proof -
    have "map (content ?f) [0..<MagicSize] = map (content (unix_write 0 (int_to_bytes MagicNumber) empty_file)) [0..<MagicSize]"
      by (rule map_cong [OF refl]) (auto simp: unix_write_content disk_defs)
    also have "\<dots> = int_to_bytes MagicNumber"
      using unix_write_read [of 0 "int_to_bytes MagicNumber" empty_file] by (simp add: MagicSize_def)
    finally show ?thesis .
  qed
  have "DiskSize \<le> fsize ?f" by (simp add: unix_write_def DiskSize_def NumSectors_def SectorsPerTrack_def NumTracks_def MagicSize_def SectorSize_def)
  then have "disk_ok ?d"
    using assms m by (simp add: disk_ok_def NumSectors_def SectorsPerTrack_def NumTracks_def)
  moreover have "sector ?d s = replicate SectorSize 0" for s
    using z by (intro nth_equalityI) (simp_all add: sector_def MagicSize_def)
  moreover have "Disk_Disk None time = Inr ?d" by (simp add: Disk_Disk_def)
  ultimately show thesis using that by blast
qed

subsection \<open>Properties\<close>

text \<open>The time of a disk request: for a sector on the disk, at any moment and wherever the arm is, a request takes at
  least one rotation by a sector and less than 32000 ticks, so its interrupt is always scheduled in the future; and the
  track buffer never makes a read slower than a write to the same place.\<close>

theorem disk_latency_bounds:
  assumes "disk_ok d" "0 \<le> s" "s < int NumSectors"
  shows "RotationTime \<le> ComputeLatency s writing d \<and> ComputeLatency s writing d < 32000 \<and>
    ComputeLatency s False d \<le> ComputeLatency s True d"
  using ComputeLatency_bounds [OF assms] by (simp add: RotationTime_def)

text \<open>C21. The disk keeps what is written to it: after any sequence of WriteSector calls, and after Nachos is started again on the same
  UNIX file, the magic number is accepted and ReadSector returns for every sector what was written to it last, or what it held
  before. Requests for a sector that does not exist fail the assertion.\<close>

theorem disk_keeps_what_is_written:
  assumes "disk_ok d" "\<forall>(s, bs) \<in> set ws. 0 \<le> s \<and> s < int NumSectors \<and> length bs = SectorSize" "0 \<le> time"
  shows "\<exists>d1 d2. fold_res (\<lambda>(s, bs). SynchDisk_WriteSector s bs) ws d = Inr d1 \<and>
    Disk_Disk (Some (fileno d1)) time = Inr d2 \<and> disk_ok d2 \<and>
    (\<forall>s. if 0 \<le> s \<and> s < int NumSectors
      then (\<exists>d3. SynchDisk_ReadSector s d2 =
        Inr (case map_of (rev ws) s of Some bs \<Rightarrow> bs | None \<Rightarrow> sector d (nat s), d3) \<and> sector d3 = sector d2)
      else SynchDisk_ReadSector s d2 = Inl AssertFailed)"
proof -
  obtain d1 where d1: "fold_res (\<lambda>(s, bs). SynchDisk_WriteSector s bs) ws d = Inr d1" "disk_ok d1"
    "\<And>t. sector d1 t = (case map_of (rev ws) (int t) of Some bs \<Rightarrow> bs | None \<Rightarrow> sector d t)"
    using wr_any_list [OF assms(1,2)] by blast
  obtain d2 where d2: "Disk_Disk (Some (fileno d1)) time = Inr d2" "disk_ok d2" "sector d2 = sector d1"
    by (rule Disk_reopen [OF d1(2) assms(3)])
  have "\<exists>d3. SynchDisk_ReadSector s d2 =
        Inr (case map_of (rev ws) s of Some bs \<Rightarrow> bs | None \<Rightarrow> sector d (nat s), d3) \<and> sector d3 = sector d2"
    if "0 \<le> s" "s < int NumSectors" for s
    using bd.rd_ok [OF d2(2) that] d2(3) d1(3) [of "nat s"] that(1) by auto
  then show ?thesis using d1(1) d2 SynchDisk_bad(1) [OF d2(2)] by auto
qed

subsection \<open>Witnesses\<close>

lemma disk_latency_bounds_witness:
  "\<exists>d. Disk_Disk None 0 = Inr d \<and> ComputeLatency 1023 True d < 32000"
proof -
  obtain d where d: "Disk_Disk None 0 = Inr d" "disk_ok d" by (rule Disk_new [of 0]) auto
  then show ?thesis
    using disk_latency_bounds [OF d(2), of 1023 True] by (simp add: NumSectors_def SectorsPerTrack_def NumTracks_def)
qed

lemma disk_keeps_what_is_written_witness:
  "\<exists>d d1 d2 d3. Disk_Disk None 0 = Inr d \<and>
    fold_res (\<lambda>(s, bs). SynchDisk_WriteSector s bs) [(5, replicate 128 7), (5, replicate 128 9)] d = Inr d1 \<and>
    Disk_Disk (Some (fileno d1)) 0 = Inr d2 \<and> SynchDisk_ReadSector 5 d2 = Inr (replicate 128 9, d3)"
proof -
  let ?ws = "[(5, replicate 128 7), (5, replicate 128 9)] :: (int \<times> byte list) list"
  obtain d where d: "Disk_Disk None 0 = Inr d" "disk_ok d" by (rule Disk_new [of 0]) auto
  have "\<forall>(s, bs) \<in> set ?ws. 0 \<le> s \<and> s < int NumSectors \<and> length bs = SectorSize"
    by (simp add: NumSectors_def SectorsPerTrack_def NumTracks_def SectorSize_def)
  from disk_keeps_what_is_written [OF d(2) this, of 0] obtain d1 d2 where D:
    "fold_res (\<lambda>(s, bs). SynchDisk_WriteSector s bs) ?ws d = Inr d1" "Disk_Disk (Some (fileno d1)) 0 = Inr d2"
    "\<forall>s. if 0 \<le> s \<and> s < int NumSectors
      then (\<exists>d3. SynchDisk_ReadSector s d2 =
        Inr (case map_of (rev ?ws) s of Some bs \<Rightarrow> bs | None \<Rightarrow> sector d (nat s), d3) \<and> sector d3 = sector d2)
      else SynchDisk_ReadSector s d2 = Inl AssertFailed" by auto
  from D(3) [rule_format, of 5] show ?thesis
    using d(1) D(1,2) by (auto simp: NumSectors_def SectorsPerTrack_def NumTracks_def)
qed

end
