(* ===== verification/Nachos_FileHdr.thy ===== *)
theory Nachos_FileHdr
  imports Nachos_CLib Nachos_Bitmap Nachos_Disk
begin

text \<open>
  File headers (filesys/filehdr.h, filehdr.cc): where on the disk the data of a file is. A header has fourteen direct
  sector numbers and one for a sector of further numbers; it fills exactly one sector itself. The date stamps come from
  getFormatDate (filesys/fstest.cc), with the broken-down local time of the host as an argument. Comparisons with NumDirect
  are unsigned in the code, and the numbers in the index sector are read through a \<open>char\<close> pointer.
\<close>

subsection \<open>Date stamps\<close>

definition DateLength :: nat where "DateLength = 20"

text \<open>The fields of \<open>struct tm\<close> the code reads.\<close>

record tm =
  tm_year :: int
  tm_mon :: int
  tm_mday :: int
  tm_hour :: int
  tm_min :: int
  tm_sec :: int

definition format_date :: "tm \<Rightarrow> byte list" where
  "format_date t =
     print_d (tm_year t + 1900) @ bytes ''-'' @ print_02d (tm_mon t + 1) @ bytes ''-'' @ print_02d (tm_mday t) @ bytes '' '' @
     print_02d (tm_hour t) @ bytes '':'' @ print_02d (tm_min t) @ bytes '':'' @ print_02d (tm_sec t)"

text \<open>snprintf keeps what fits beside the final zero; the copy leaves the last byte of \<open>out\<close> alone.\<close>

definition getFormatDate :: "tm \<Rightarrow> byte list \<Rightarrow> byte list" where
  "getFormatDate t out =
     (let szTime = strncpy (replicate DateLength 0) (format_date t) (DateLength - 1)
      in strncpy out szTime (DateLength - 1))"

subsection \<open>The header\<close>

definition NumFirst :: nat where "NumFirst = 1"
definition NumDirect :: nat where "NumDirect = (SectorSize - 2 * 4 - 3 * DateLength * 1) div 4 - NumFirst"
definition MaxFileSize :: nat where "MaxFileSize = (NumDirect + NumFirst * SectorSize div 4) * SectorSize"

record FileHeader =
  numBytes :: int
  numSectors :: int
  createTime :: "byte list"
  updateTime :: "byte list"
  accessTime :: "byte list"
  dataSectors :: "int list"

text \<open>The bytes of a header in memory, which are what is on the disk.\<close>

definition hdr_bytes :: "FileHeader \<Rightarrow> byte list" where
  "hdr_bytes h = int_bytes (numBytes h) @ int_bytes (numSectors h) @ createTime h @ updateTime h @ accessTime h @
     words_bytes (map word_of_int (dataSectors h))"

definition hdr_of_bytes :: "byte list \<Rightarrow> FileHeader" where
  "hdr_of_bytes bs =
     \<lparr>numBytes = bytes_int (take 4 bs), numSectors = bytes_int (take 4 (drop 4 bs)),
      createTime = take DateLength (drop 8 bs), updateTime = take DateLength (drop (8 + DateLength) bs),
      accessTime = take DateLength (drop (8 + 2 * DateLength) bs),
      dataSectors = map sint (bytes_words (drop (8 + 3 * DateLength) bs))\<rparr>"

text \<open>\<open>new FileHeader\<close>: the date stamps are cleared, the rest is what the memory held.\<close>

definition new_FileHeader :: "memory \<Rightarrow> FileHeader" where
  "new_FileHeader mem = (hdr_of_bytes (new_bytes mem NewFileHeader SectorSize))
     \<lparr>createTime := replicate DateLength 0, updateTime := replicate DateLength 0, accessTime := replicate DateLength 0\<rparr>"

definition setCreateTime :: "tm \<Rightarrow> FileHeader \<Rightarrow> FileHeader" where
  "setCreateTime t h = h\<lparr>createTime := getFormatDate t (createTime h)\<rparr>"

definition setUpdateTime :: "tm \<Rightarrow> FileHeader \<Rightarrow> FileHeader" where
  "setUpdateTime t h = h\<lparr>updateTime := getFormatDate t (updateTime h)\<rparr>"

definition setAccessTime :: "tm \<Rightarrow> FileHeader \<Rightarrow> FileHeader" where
  "setAccessTime t h = h\<lparr>accessTime := getFormatDate t (accessTime h)\<rparr>"

subsection \<open>Allocation\<close>

definition too_big :: "FileHeader \<Rightarrow> bool" where
  "too_big h \<longleftrightarrow> u32 (numSectors h) > int NumDirect"

definition needDirect :: "FileHeader \<Rightarrow> int" where
  "needDirect h = (if too_big h then int NumDirect else numSectors h)"

text \<open>The number of entries used in the index sector; an unsigned difference.\<close>

definition needFirst :: "FileHeader \<Rightarrow> int" where
  "needFirst h = u32 (numSectors h - int NumDirect)"

text \<open>The loops \<open>a[i] = freeMap->Find()\<close>.\<close>

definition find_sectors :: "nat \<Rightarrow> int list \<Rightarrow> BitMap \<Rightarrow> (int list \<times> BitMap) res" where
  "find_sectors n a freeMap =
     fold_res (\<lambda>i (a, freeMap). bind_res (BitMap_Find freeMap) (\<lambda>(s, freeMap).
       bind_res (arr_set a i s) (\<lambda>a. Inr (a, freeMap)))) [0..<n] (a, freeMap)"

definition FileHeader_Allocate ::
    "tm \<Rightarrow> int \<Rightarrow> FileHeader \<Rightarrow> BitMap \<Rightarrow> Disk \<Rightarrow> (bool \<times> FileHeader \<times> BitMap \<times> Disk) res" where
  "FileHeader_Allocate t fileSize h freeMap d =
     (let h1 = h\<lparr>numBytes := fileSize, numSectors := idivRoundUp fileSize (int SectorSize)\<rparr> in
      bind_res (BitMap_NumClear freeMap) (\<lambda>clear.
      if clear < numSectors h1 then Inr (False, h1, freeMap, d)
      else bind_res (find_sectors (nat (needDirect h1)) (dataSectors h1) freeMap) (\<lambda>(ds, freeMap1).
        if too_big h1
        then bind_res (BitMap_Find freeMap1) (\<lambda>(s, freeMap2).
             bind_res (arr_set ds NumDirect s) (\<lambda>ds1.
             bind_res (find_sectors (nat (needFirst h1)) (replicate (SectorSize div 4) 0) freeMap2) (\<lambda>(direct_first, freeMap3).
             bind_res (SynchDisk_WriteSector s (words_bytes (map word_of_int direct_first)) d) (\<lambda>d1.
             Inr (True, setCreateTime t (h1\<lparr>dataSectors := ds1\<rparr>), freeMap3, d1)))))
        else Inr (True, setCreateTime t (h1\<lparr>dataSectors := ds\<rparr>), freeMap1, d))))"

definition release_sector :: "int res \<Rightarrow> BitMap \<Rightarrow> BitMap res" where
  "release_sector which freeMap =
     bind_res which (\<lambda>s. bind_res (BitMap_Test s freeMap) (\<lambda>marked.
     bind_res (ASSERT marked) (\<lambda>_. BitMap_Clear s freeMap)))"

text \<open>\<open>(int) direct_first[i * 4]\<close> for a \<open>char\<close> pointer: one byte, with its sign.\<close>

definition first_entry :: "byte list \<Rightarrow> nat \<Rightarrow> int res" where
  "first_entry direct_first i = bind_res (arr_get direct_first (i * 4)) (\<lambda>b. Inr (char_to_int b))"

definition FileHeader_Deallocate :: "FileHeader \<Rightarrow> BitMap \<Rightarrow> Disk \<Rightarrow> (BitMap \<times> Disk) res" where
  "FileHeader_Deallocate h freeMap d =
     bind_res (fold_res (\<lambda>i. release_sector (arr_get (dataSectors h) i)) [0..<nat (needDirect h)] freeMap) (\<lambda>freeMap1.
     if too_big h
     then bind_res (arr_get (dataSectors h) NumDirect) (\<lambda>s.
          bind_res (SynchDisk_ReadSector s d) (\<lambda>(direct_first, d1).
          bind_res (fold_res (\<lambda>i. release_sector (first_entry direct_first i)) [0..<nat (needFirst h)] freeMap1) (\<lambda>freeMap2.
          bind_res (release_sector (Inr s) freeMap2) (\<lambda>freeMap3.
          Inr (freeMap3, d1)))))
     else Inr (freeMap1, d))"

subsection \<open>Reading and writing the header\<close>

definition FileHeader_FetchFrom :: "int \<Rightarrow> Disk \<Rightarrow> (FileHeader \<times> Disk) res" where
  "FileHeader_FetchFrom sec d = bind_res (SynchDisk_ReadSector sec d) (\<lambda>(bs, d1). Inr (hdr_of_bytes bs, d1))"

definition FileHeader_WriteBack :: "FileHeader \<Rightarrow> int \<Rightarrow> Disk \<Rightarrow> Disk res" where
  "FileHeader_WriteBack h sec d = SynchDisk_WriteSector sec (hdr_bytes h) d"

definition ByteToSector :: "FileHeader \<Rightarrow> int \<Rightarrow> Disk \<Rightarrow> (int \<times> Disk) res" where
  "ByteToSector h offset d =
     (if u32 offset \<le> int (NumDirect * SectorSize)
      then bind_res (arr_get (dataSectors h) (nat (offset sdiv int SectorSize))) (\<lambda>s. Inr (s, d))
      else let pos = u32 (offset - int (NumDirect * SectorSize)) div int SectorSize in
        bind_res (arr_get (dataSectors h) NumDirect) (\<lambda>s.
        bind_res (SynchDisk_ReadSector s d) (\<lambda>(direct_first, d1).
        bind_res (first_entry direct_first (nat pos)) (\<lambda>s. Inr (s, d1)))))"

definition FileLength :: "FileHeader \<Rightarrow> int" where
  "FileLength h = numBytes h"

subsection \<open>Printing\<close>

definition print_byte :: "byte \<Rightarrow> byte list" where
  "print_byte b = (if 32 \<le> char_to_int b \<and> char_to_int b \<le> 126 then [b] else bytes [CHR 0x5C] @ print_x b)"

text \<open>The inner loop: at most one sector, and no byte behind the end of the file.\<close>

definition print_sector :: "FileHeader \<Rightarrow> byte list \<Rightarrow> int \<Rightarrow> byte list \<times> int" where
  "print_sector h data k =
     (let n = min SectorSize (nat (numBytes h - k)) in (concat (map print_byte (take n data)), k + int n))"

definition print_direct :: "FileHeader \<Rightarrow> nat \<Rightarrow> byte list \<times> int \<times> Disk \<Rightarrow> (byte list \<times> int \<times> Disk) res" where
  "print_direct h i = (\<lambda>(out, k, d).
     bind_res (arr_get (dataSectors h) i) (\<lambda>s.
     bind_res (SynchDisk_ReadSector s d) (\<lambda>(data, d1).
     let (txt, k1) = print_sector h data k in Inr (out @ txt @ [10], k1, d1))))"

definition print_indirect ::
    "FileHeader \<Rightarrow> byte list \<Rightarrow> nat \<Rightarrow> byte list \<times> int \<times> Disk \<Rightarrow> (byte list \<times> int \<times> Disk) res" where
  "print_indirect h direct_first i = (\<lambda>(out, k, d).
     bind_res (first_entry direct_first i) (\<lambda>s.
     bind_res (SynchDisk_ReadSector s d) (\<lambda>(data, d1).
     let (txt, k1) = print_sector h data k
     in Inr (out @ bytes ''Sector:['' @ print_d s @ bytes '']'' @ [10] @ txt, k1, d1))))"

definition FileHeader_Print :: "FileHeader \<Rightarrow> Disk \<Rightarrow> (byte list \<times> Disk) res" where
  "FileHeader_Print h d =
     (let out = bytes ''FileHeader contents.  File size: '' @ print_d (numBytes h) @ bytes ''.  File blocks:'' @ [10] in
      bind_res (fold_res (\<lambda>i out. bind_res (arr_get (dataSectors h) i) (\<lambda>s. Inr (out @ print_d s @ bytes '' '')))
        [0..<nat (needDirect h)] out) (\<lambda>out1.
      bind_res (if too_big h
        then bind_res (arr_get (dataSectors h) NumDirect) (\<lambda>s.
          bind_res (SynchDisk_ReadSector s d) (\<lambda>(direct_first, d1).
          bind_res (fold_res (\<lambda>i out. bind_res (first_entry direct_first i) (\<lambda>s. Inr (out @ print_d s @ bytes '' '')))
            [0..<nat (needFirst h)] (out1 @ [10] @ bytes ''direct_first:['' @ print_d s @ bytes '']'' @ [10])) (\<lambda>out2.
          Inr (out2, d1))))
        else Inr (out1, d)) (\<lambda>(out2, d1).
      bind_res (fold_res (print_direct h) [0..<nat (needDirect h)] (out2 @ [10] @ bytes ''File contents:'' @ [10], 0, d1)) (\<lambda>(out3, k, d2).
      if too_big h
      then bind_res (arr_get (dataSectors h) NumDirect) (\<lambda>s.
        bind_res (SynchDisk_ReadSector s d2) (\<lambda>(direct_first, d3).
        bind_res (fold_res (print_indirect h direct_first) [0..<nat (needFirst h)] (out3, k, d3)) (\<lambda>(out4, k, d4).
        Inr (out4 @ [10], d4))))
      else Inr (out3, d2)))))"

subsection \<open>The layout of a header\<close>

text \<open>A header as the type declares it: arrays of their lengths, integers in range.\<close>

definition hdr_wf :: "FileHeader \<Rightarrow> bool" where
  "hdr_wf h \<longleftrightarrow> is_int (numBytes h) \<and> is_int (numSectors h) \<and> length (createTime h) = DateLength \<and>
     length (updateTime h) = DateLength \<and> length (accessTime h) = DateLength \<and>
     length (dataSectors h) = NumDirect + NumFirst \<and> list_all is_int (dataSectors h)"

lemma NumDirect_val [simp]: "NumDirect = 14"
  by (simp add: NumDirect_def SectorSize_def DateLength_def NumFirst_def)

lemmas hdr_sizes = SectorSize_def DateLength_def NumFirst_def

lemma length_hdr_bytes: "hdr_wf h \<Longrightarrow> length (hdr_bytes h) = SectorSize"
  by (simp add: hdr_wf_def hdr_bytes_def hdr_sizes)

lemma sint_of_int: "is_int i \<Longrightarrow> sint (word_of_int i :: 32 word) = i"
  using s32_id [of i] by (simp add: signed_of_int s32_def)

lemma map_sint_of_int: "list_all is_int xs \<Longrightarrow> map (sint \<circ> (word_of_int :: int \<Rightarrow> 32 word)) xs = xs"
  by (induction xs) (simp_all add: sint_of_int)

lemma hdr_of_hdr_bytes: "hdr_wf h \<Longrightarrow> hdr_of_bytes (hdr_bytes h) = h"
  by (simp add: hdr_wf_def hdr_bytes_def hdr_of_bytes_def hdr_sizes map_sint_of_int)

lemma hdr_wf_of_bytes: "length bs = SectorSize \<Longrightarrow> hdr_wf (hdr_of_bytes bs)"
proof -
  assume l: "length bs = SectorSize"
  then have "length (drop (8 + 3 * DateLength) bs) = 4 * 15" by (simp add: hdr_sizes)
  then obtain ws where ws: "drop (8 + 3 * DateLength) bs = words_bytes ws" "length ws = 15"
    by (rule words_bytes_words)
  have "is_int (sint w)" for w :: "32 word"
    using sint_greater_eq [of w] sint_less [of w] by (simp add: is_int_def)
  then show ?thesis using l ws
    by (simp add: hdr_wf_def hdr_of_bytes_def hdr_sizes list_all_iff)
qed

lemma hdr_bytes_of_bytes: "length bs = SectorSize \<Longrightarrow> hdr_bytes (hdr_of_bytes bs) = bs"
proof -
  assume l: "length bs = SectorSize"
  then have "length (drop (8 + 3 * DateLength) bs) = 4 * 15" by (simp add: hdr_sizes)
  then obtain ws where ws: "drop (8 + 3 * DateLength) bs = words_bytes ws" "length ws = 15"
    by (rule words_bytes_words)
  have "map (word_of_int \<circ> sint) ws = ws" by (rule map_idI) simp
  then have "hdr_bytes (hdr_of_bytes bs) = take 4 bs @ take 4 (drop 4 bs) @ take DateLength (drop 8 bs) @
      take DateLength (drop (8 + DateLength) bs) @ take DateLength (drop (8 + 2 * DateLength) bs) @ drop (8 + 3 * DateLength) bs"
    using l ws by (simp add: hdr_bytes_def hdr_of_bytes_def int_bytes_bytes_int hdr_sizes)
  also have "\<dots> = bs" by (simp add: take_add [symmetric] append_assoc [symmetric] del: append_assoc) (simp add: DateLength_def take_add [symmetric] flip: append_assoc)
  finally show ?thesis .
qed

lemma length_getFormatDate [simp]: "length out = DateLength \<Longrightarrow> length (getFormatDate t out) = DateLength"
  by (simp add: getFormatDate_def Let_def DateLength_def)

lemma hdr_wf_set_times [simp]:
  "hdr_wf h \<Longrightarrow> hdr_wf (setCreateTime t h)" "hdr_wf h \<Longrightarrow> hdr_wf (setUpdateTime t h)" "hdr_wf h \<Longrightarrow> hdr_wf (setAccessTime t h)"
  by (simp_all add: hdr_wf_def setCreateTime_def setUpdateTime_def setAccessTime_def)

lemma hdr_wf_new [simp]: "hdr_wf (new_FileHeader mem)"
  using hdr_wf_of_bytes [of "new_bytes mem NewFileHeader SectorSize"] by (simp add: new_FileHeader_def hdr_wf_def)

subsection \<open>Allocating and releasing\<close>

text \<open>The sectors of a file that has no index sector.\<close>

definition blocks :: "FileHeader \<Rightarrow> nat list" where
  "blocks h = map nat (take (nat (numSectors h)) (dataSectors h))"

definition file_ok :: "FileHeader \<Rightarrow> bool" where
  "file_ok h \<longleftrightarrow> hdr_wf h \<and> 0 \<le> numBytes h \<and> numBytes h \<le> int (NumDirect * SectorSize) \<and>
     numSectors h = idivRoundUp (numBytes h) (int SectorSize) \<and>
     (\<forall>i < nat (numSectors h). 0 \<le> dataSectors h ! i \<and> dataSectors h ! i < int NumSectors) \<and> distinct (blocks h)"

lemma find_sectors_Suc:
  "find_sectors (Suc n) a bm = bind_res (find_sectors n a bm) (\<lambda>(a1, bm1).
     bind_res (BitMap_Find bm1) (\<lambda>(s, bm2). bind_res (arr_set a1 n s) (\<lambda>a2. Inr (a2, bm2))))"
  by (simp add: find_sectors_def fold_res_append case_prod_unfold)
    (cases "fold_res (\<lambda>i p. bind_res (BitMap_Find (snd p)) (\<lambda>p'. bind_res (arr_set (fst p) i (fst p')) (\<lambda>a. Inr (a, snd p')))) [0..<n] (a, bm)",
     simp_all add: bind_res_assoc)

lemma find_sectors_ok:
  assumes "bitmap_wf bm" "n \<le> card ({..<numBits bm} - marked bm)" "n \<le> length a"
  shows "\<exists>is bm'. find_sectors n a bm = Inr (map int is @ drop n a, bm') \<and> length is = n \<and> distinct is \<and>
    set is \<subseteq> {..<numBits bm} - marked bm \<and> bitmap_wf bm' \<and> numBits bm' = numBits bm \<and> marked bm' = marked bm \<union> set is"
  using assms(2,3)
proof (induction n)
  case 0
  then show ?case using assms(1) by (simp add: find_sectors_def)
next
  case (Suc n)
  then obtain js bm1 where I: "find_sectors n a bm = Inr (map int js @ drop n a, bm1)" "length js = n" "distinct js"
    "set js \<subseteq> {..<numBits bm} - marked bm" "bitmap_wf bm1" "numBits bm1 = numBits bm" "marked bm1 = marked bm \<union> set js"
    by auto
  have "card (set js) < card ({..<numBits bm} - marked bm)" using Suc.prems(1) I(2,3) by (simp add: distinct_card)
  then have "\<not> {..<numBits bm} - marked bm \<subseteq> set js" 
    using card_mono [OF finite_set, of "{..<numBits bm} - marked bm" js] by linarith
  then have "marked bm1 \<noteq> {..<numBits bm1}" unfolding I(6,7) by blast
  from BitMap_Find_first [OF I(5) this] obtain i bm2 where F: "BitMap_Find bm1 = Inr (int i, bm2)" "i < numBits bm1"
    "i \<notin> marked bm1" "bitmap_wf bm2" "numBits bm2 = numBits bm1" "marked bm2 = insert i (marked bm1)" by blast
  have "(map int js @ drop n a)[n := int i] = map int (js @ [i]) @ drop (Suc n) a"
    using I(2) Suc.prems(2) by (simp add: list_update_append Cons_nth_drop_Suc [of n a, symmetric])
  then have "find_sectors (Suc n) a bm = Inr (map int (js @ [i]) @ drop (Suc n) a, bm2)"
    using I(1,2) F(1) Suc.prems(2) by (simp add: find_sectors_Suc)
  moreover have "distinct (js @ [i])" "set (js @ [i]) \<subseteq> {..<numBits bm} - marked bm" "marked bm2 = marked bm \<union> set (js @ [i])"
    using I F by auto
  ultimately show ?case using I(2,6) F(4,5) by (intro exI [of _ "js @ [i]"] exI [of _ bm2]) simp
qed

text \<open>Without enough sectors the search goes on with -1.\<close>

lemma find_sectors_total:
  assumes "bitmap_wf bm" "n \<le> length a"
  shows "\<exists>a' bm'. find_sectors n a bm = Inr (a', bm') \<and> length a' = length a \<and> bitmap_wf bm' \<and> numBits bm' = numBits bm"
  using assms(2)
proof (induction n)
  case 0
  then show ?case using assms(1) by (simp add: find_sectors_def)
next
  case (Suc n)
  then obtain a1 bm1 where I: "find_sectors n a bm = Inr (a1, bm1)" "length a1 = length a" "bitmap_wf bm1" "numBits bm1 = numBits bm"
    by auto
  have "\<exists>s bm2. BitMap_Find bm1 = Inr (s, bm2) \<and> bitmap_wf bm2 \<and> numBits bm2 = numBits bm1"
    using BitMap_Find_full [OF I(3)] BitMap_Find_first [OF I(3)] I(3) by (cases "marked bm1 = {..<numBits bm1}") auto
  then show ?case using I Suc.prems by (auto simp: find_sectors_Suc)
qed

lemma find_sectors_error: "find_sectors n a bm = Inl e \<Longrightarrow> find_sectors (n + k) a bm = Inl e"
  by (induction k) (simp_all add: find_sectors_Suc)

lemma find_sectors_overrun:
  assumes "bitmap_wf bm" "length a < n"
  shows "find_sectors n a bm = Inl OutOfBounds"
proof -
  obtain a1 bm1 where I: "find_sectors (length a) a bm = Inr (a1, bm1)" "length a1 = length a" "bitmap_wf bm1"
    using find_sectors_total [OF assms(1), of "length a" a] by auto
  have "\<exists>s bm2. BitMap_Find bm1 = Inr (s, bm2)"
    using BitMap_Find_full [OF I(3)] BitMap_Find_first [OF I(3)] by (cases "marked bm1 = {..<numBits bm1}") auto
  then have "find_sectors (Suc (length a)) a bm = Inl OutOfBounds" using I by (auto simp: find_sectors_Suc arr_set_def)
  from find_sectors_error [OF this, of "n - Suc (length a)"] assms(2) show ?thesis by simp
qed

lemma idivRoundUp_sector: "0 \<le> n \<Longrightarrow> idivRoundUp n (int SectorSize) = int (divRoundUp (nat n) SectorSize)"
  using idivRoundUp_nat [of SectorSize "nat n"] by (simp add: SectorSize_def)

lemma divRoundUp_sector: "divRoundUp n SectorSize \<le> k \<longleftrightarrow> n \<le> k * SectorSize"
proof
  assume "divRoundUp n SectorSize \<le> k"
  then have "divRoundUp n SectorSize * SectorSize \<le> k * SectorSize" by simp
  then show "n \<le> k * SectorSize" using divRoundUp_le [of SectorSize n] by (simp add: SectorSize_def)
next
  assume "n \<le> k * SectorSize"
  then have "divRoundUp n SectorSize * SectorSize < Suc k * SectorSize"
    using divRoundUp_tight [of SectorSize n] by (simp add: SectorSize_def)
  then show "divRoundUp n SectorSize \<le> k" by (simp only: mult_less_cancel2 less_Suc_eq_le)
qed

lemma small_counts:
  assumes "0 \<le> n" "n \<le> int (NumDirect * SectorSize)" "numSectors h = idivRoundUp n (int SectorSize)"
  shows "numSectors h = int (divRoundUp (nat n) SectorSize)" "\<not> too_big h" "needDirect h = numSectors h"
    "nat (numSectors h) \<le> 14"
proof -
  show s: "numSectors h = int (divRoundUp (nat n) SectorSize)" using assms(1,3) by (simp add: idivRoundUp_sector)
  have "divRoundUp (nat n) SectorSize \<le> 14" using assms(2) unfolding divRoundUp_sector by simp
  then show "\<not> too_big h" "needDirect h = numSectors h" "nat (numSectors h) \<le> 14"
    by (simp_all add: too_big_def needDirect_def s)
qed

lemma is_int_small: "0 \<le> i \<Longrightarrow> i < 100000 \<Longrightarrow> is_int i"
  by (simp add: is_int_def)

lemma Allocate_small:
  assumes bm: "bitmap_wf bm" "numBits bm = NumSectors" and h: "hdr_wf h"
    and n: "0 \<le> n" "n \<le> int (NumDirect * SectorSize)"
  defines "need \<equiv> divRoundUp (nat n) SectorSize"
  shows "if need \<le> card ({..<NumSectors} - marked bm)
    then \<exists>h' bm'. FileHeader_Allocate t n h bm d = Inr (True, h', bm', d) \<and> file_ok h' \<and> numBytes h' = n \<and>
      length (blocks h') = need \<and> set (blocks h') \<subseteq> {..<NumSectors} - marked bm \<and> bitmap_wf bm' \<and>
      numBits bm' = NumSectors \<and> marked bm' = marked bm \<union> set (blocks h')
    else \<exists>h'. FileHeader_Allocate t n h bm d = Inr (False, h', bm, d)"
proof -
  let ?h1 = "h\<lparr>numBytes := n, numSectors := idivRoundUp n (int SectorSize)\<rparr>"
  note S = small_counts [OF n, where h = ?h1, simplified, folded need_def]
  have c: "BitMap_NumClear bm = Inr (int (card ({..<NumSectors} - marked bm)))"
    using BitMap_NumClear_eq [OF bm(1)] bm(2) by simp
  show ?thesis
  proof (cases "need \<le> card ({..<NumSectors} - marked bm)")
    case True
    have l: "need \<le> length (dataSectors h)" using h S by (simp add: hdr_wf_def)
    from find_sectors_ok [OF bm(1), of need "dataSectors h"] True l bm(2) obtain js bm' where F:
      "find_sectors need (dataSectors h) bm = Inr (map int js @ drop need (dataSectors h), bm')" "length js = need" "distinct js"
      "set js \<subseteq> {..<NumSectors} - marked bm" "bitmap_wf bm'" "numBits bm' = NumSectors" "marked bm' = marked bm \<union> set js"
      by auto
    let ?h2 = "?h1\<lparr>dataSectors := map int js @ drop need (dataSectors h)\<rparr>"
    let ?h = "setCreateTime t ?h2"
    have A: "FileHeader_Allocate t n h bm d = Inr (True, ?h, bm', d)"
      using c True S F(1) by (simp add: FileHeader_Allocate_def Let_def)
    have b: "blocks ?h = js" using F(2) S by (simp add: blocks_def setCreateTime_def comp_def)
    have "list_all is_int (map int js @ drop need (dataSectors h))"
      using h F(4) by (auto simp: hdr_wf_def list_all_iff NumSectors_def SectorsPerTrack_def NumTracks_def is_int_def dest!: in_set_dropD)
    then have "hdr_wf ?h2"
      using h l S n F(2) by (auto simp: hdr_wf_def is_int_def SectorSize_def)
    then have "hdr_wf ?h" by simp
    moreover have "\<forall>i < need. js ! i < NumSectors" using F(2,4) by (metis DiffD1 lessThan_iff nth_mem subsetD)
    ultimately have "file_ok ?h"
      using n S F(2,3) b by (simp add: file_ok_def setCreateTime_def nth_append)
    then show ?thesis using A b F True by (auto simp: setCreateTime_def)
  next
    case False
    then show ?thesis using c S by (simp add: FileHeader_Allocate_def Let_def)
  qed
qed

lemma release_ok:
  assumes "bitmap_wf bm" "set is \<subseteq> marked bm" "distinct is"
  shows "\<exists>bm'. fold_res (\<lambda>i. release_sector (Inr i)) (map int is) bm = Inr bm' \<and> bitmap_wf bm' \<and> numBits bm' = numBits bm \<and>
    marked bm' = marked bm - set is"
  using assms
proof (induction "is" arbitrary: bm)
  case (Cons i js)
  then have i: "i < numBits bm" "is_marked bm i" by (auto simp: marked_def is_marked_def)
  obtain bm1 where C: "BitMap_Clear (int i) bm = Inr bm1" "bitmap_wf bm1" "numBits bm1 = numBits bm" "marked bm1 = marked bm - {i}"
    using BitMap_Clear_ok [OF Cons.prems(1) i(1)] by auto
  have "set js \<subseteq> marked bm1" using Cons.prems(2,3) C(4) by auto
  from Cons.IH [OF C(2) this] Cons.prems(3) obtain bm' where
    "fold_res (\<lambda>i. release_sector (Inr i)) (map int js) bm1 = Inr bm'" "bitmap_wf bm'" "numBits bm' = numBits bm1"
    "marked bm' = marked bm1 - set js" by auto
  moreover have "release_sector (Inr (int i)) bm = Inr bm1"
    using C(1) i BitMap_Test_eq [OF Cons.prems(1) i(1)] by (simp add: release_sector_def)
  ultimately show ?case using C(3,4) by auto
qed simp

lemma fold_res_map: "fold_res f (map g xs) s = fold_res (\<lambda>x. f (g x)) xs s"
proof (induction xs arbitrary: s)
  case (Cons x xs)
  then show ?case by (cases "f (g x) s") simp_all
qed simp

lemma fold_res_cong: "(\<And>x s. x \<in> set xs \<Longrightarrow> f x s = g x s) \<Longrightarrow> fold_res f xs s = fold_res g xs s"
proof (induction xs arbitrary: s)
  case (Cons x xs)
  then show ?case by (cases "g x s") simp_all
qed simp

lemma file_ok_blocks:
  assumes "file_ok h"
  shows "length (blocks h) = nat (numSectors h)" "map int (blocks h) = take (nat (numSectors h)) (dataSectors h)"
    "set (blocks h) \<subseteq> {..<NumSectors}" "\<And>i. i < nat (numSectors h) \<Longrightarrow> dataSectors h ! i = int (blocks h ! i)"
proof -
  have n: "nat (numSectors h) \<le> length (dataSectors h)"
    using assms small_counts(4) [of "numBytes h" h] by (simp add: file_ok_def hdr_wf_def)
  then show l: "length (blocks h) = nat (numSectors h)" by (simp add: blocks_def)
  show e: "dataSectors h ! i = int (blocks h ! i)" if "i < nat (numSectors h)" for i
    using that n assms by (simp add: blocks_def file_ok_def)
  show "map int (blocks h) = take (nat (numSectors h)) (dataSectors h)"
    using l n e by (intro nth_equalityI) simp_all
  show "set (blocks h) \<subseteq> {..<NumSectors}"
  proof
    fix b assume "b \<in> set (blocks h)"
    then obtain i where i: "i < nat (numSectors h)" "b = blocks h ! i" using l by (auto simp: in_set_conv_nth)
    then have "dataSectors h ! i < int NumSectors" using assms unfolding file_ok_def by blast
    then show "b \<in> {..<NumSectors}" using e [OF i(1)] i(2) by simp
  qed
qed

lemma Deallocate_small:
  assumes "file_ok h" "bitmap_wf bm" "set (blocks h) \<subseteq> marked bm"
  shows "\<exists>bm'. FileHeader_Deallocate h bm d = Inr (bm', d) \<and> bitmap_wf bm' \<and> numBits bm' = numBits bm \<and>
    marked bm' = marked bm - set (blocks h)"
proof -
  have S: "\<not> too_big h" "needDirect h = numSectors h" "nat (numSectors h) \<le> length (dataSectors h)"
    using assms(1) small_counts [of "numBytes h" h] by (simp_all add: file_ok_def hdr_wf_def)
  note B = file_ok_blocks [OF assms(1)]
  have "map int (blocks h) = map (\<lambda>i. dataSectors h ! i) [0..<nat (numSectors h)]"
    using B(1,4) by (intro nth_equalityI) simp_all
  then have "fold_res (\<lambda>i. release_sector (arr_get (dataSectors h) i)) [0..<nat (numSectors h)] bm =
      fold_res (\<lambda>i. release_sector (Inr i)) (map int (blocks h)) bm"
    using S(3) by (simp add: fold_res_map) (rule fold_res_cong, simp)
  then show ?thesis
    using release_ok [OF assms(2,3)] assms(1) S by (auto simp: FileHeader_Deallocate_def file_ok_def)
qed

subsection \<open>Files with an index sector\<close>

text \<open>What the index sector of a file says.\<close>

definition index_entries :: "FileHeader \<Rightarrow> Disk \<Rightarrow> 32 word list" where
  "index_entries h d = bytes_words (sector d (nat (dataSectors h ! NumDirect)))"

lemma first_entry_eq:
  assumes "length bs = SectorSize" "i < 32"
  shows "first_entry bs i = Inr (sint (ucast (bytes_words bs ! i) :: byte))"
proof -
  obtain ws where ws: "bs = words_bytes ws" "length ws = 32"
    using words_bytes_words [of bs 32] assms(1) by (auto simp: SectorSize_def)
  have "words_bytes ws ! (i * 4) = ucast (ws ! i)" if "i < length ws" for i ws
    using that
  proof (induction ws arbitrary: i)
    case (Cons w ws)
    have e: "words_bytes (w # ws) = int_to_bytes w @ words_bytes ws" by (simp add: words_bytes_def)
    show ?case
    proof (cases i)
      case 0
      then show ?thesis unfolding e by (simp add: nth_append int_to_bytes_def)
    next
      case (Suc j)
      then have "(int_to_bytes w @ words_bytes ws) ! (i * 4) = words_bytes ws ! (j * 4)" by (simp add: nth_append)
      then show ?thesis unfolding e using Cons.IH [of j] Cons.prems Suc by simp
    qed
  qed simp
  from this [of i ws] show ?thesis using ws assms by (simp add: first_entry_def char_to_int_def arr_get_def SectorSize_def)
qed

lemma free_after:
  assumes "marked bm' = marked bm \<union> set is" "distinct is" "set is \<subseteq> {..<n} - marked bm"
  shows "card ({..<n} - marked bm') = card ({..<n} - marked bm) - length is"
proof -
  have "{..<n} - marked bm' = ({..<n} - marked bm) - set is" using assms(1) by blast
  then show ?thesis using assms(2,3) by (simp add: card_Diff_subset distinct_card)
qed

lemma sectors_bound: "is_int n \<Longrightarrow> divRoundUp (nat n) SectorSize \<le> 2 ^ 25"
  by (subst divRoundUp_sector) (simp add: SectorSize_def is_int_def nat_le_iff)

lemma large_counts:
  assumes "int (NumDirect * SectorSize) < n" "is_int n" "numSectors h = idivRoundUp n (int SectorSize)"
  shows "numSectors h = int (divRoundUp (nat n) SectorSize)" "too_big h" "needDirect h = 14"
    "needFirst h = int (divRoundUp (nat n) SectorSize) - 14" "14 < divRoundUp (nat n) SectorSize"
proof -
  show s: "numSectors h = int (divRoundUp (nat n) SectorSize)" using assms(1,3) by (simp add: idivRoundUp_sector)
  show l: "14 < divRoundUp (nat n) SectorSize"
    using assms(1) divRoundUp_sector [of "nat n" 14] by (simp add: not_le [symmetric] SectorSize_def)
  from sectors_bound [OF assms(2)] have u: "u32 (int (divRoundUp (nat n) SectorSize)) = int (divRoundUp (nat n) SectorSize)"
    "u32 (int (divRoundUp (nat n) SectorSize) - 14) = int (divRoundUp (nat n) SectorSize) - 14" using l by simp_all
  show "too_big h" "needDirect h = 14" "needFirst h = int (divRoundUp (nat n) SectorSize) - 14"
    using l u s by (simp_all add: too_big_def needDirect_def needFirst_def)
qed

text \<open>The part of Allocate before the entries of the index sector.\<close>

lemma Allocate_large_step:
  assumes bm: "bitmap_wf bm" "numBits bm = NumSectors" and h: "hdr_wf h" and n: "int (NumDirect * SectorSize) < n" "is_int n"
    and need: "divRoundUp (nat n) SectorSize \<le> card ({..<NumSectors} - marked bm)"
  obtains js i bm1 h' where "length js = 14" "distinct (js @ [i])" "set (js @ [i]) \<subseteq> {..<NumSectors} - marked bm"
    "bitmap_wf bm1" "numBits bm1 = NumSectors" "marked bm1 = marked bm \<union> set (js @ [i])"
    "dataSectors h' = map int (js @ [i])" "hdr_wf h'" "numBytes h' = n"
    "FileHeader_Allocate t n h bm d =
       bind_res (find_sectors (divRoundUp (nat n) SectorSize - 14) (replicate 32 0) bm1) (\<lambda>(direct_first, bm2).
       bind_res (SynchDisk_WriteSector (int i) (words_bytes (map word_of_int direct_first)) d) (\<lambda>d1.
       Inr (True, h', bm2, d1)))"
proof -
  let ?h1 = "h\<lparr>numBytes := n, numSectors := idivRoundUp n (int SectorSize)\<rparr>"
  let ?N = "divRoundUp (nat n) SectorSize"
  note S = large_counts [OF n, where h = ?h1, simplified]
  have c: "BitMap_NumClear bm = Inr (int (card ({..<NumSectors} - marked bm)))"
    using BitMap_NumClear_eq [OF bm(1)] bm(2) by simp
  have l: "length (dataSectors h) = 15" using h by (simp add: hdr_wf_def NumFirst_def)
  from find_sectors_ok [OF bm(1), of 14 "dataSectors h"] need S(5) l bm(2) obtain js bm1 where F:
    "find_sectors 14 (dataSectors h) bm = Inr (map int js @ drop 14 (dataSectors h), bm1)" "length js = 14" "distinct js"
    "set js \<subseteq> {..<NumSectors} - marked bm" "bitmap_wf bm1" "numBits bm1 = NumSectors" "marked bm1 = marked bm \<union> set js"
    by auto
  have "card ({..<NumSectors} - marked bm1) > 0" using free_after [OF F(7,3,4)] F(2) need S(5) by simp
  then have "{..<NumSectors} - marked bm1 \<noteq> {}" by force
  then have "marked bm1 \<noteq> {..<numBits bm1}" unfolding F(6) by blast
  from BitMap_Find_first [OF F(5) this] obtain i bm2 where G: "BitMap_Find bm1 = Inr (int i, bm2)" "i < NumSectors"
    "i \<notin> marked bm1" "bitmap_wf bm2" "numBits bm2 = NumSectors" "marked bm2 = insert i (marked bm1)" unfolding F(6) by blast
  obtain z where "drop 14 (dataSectors h) = [z]"
    using l by (cases "drop 14 (dataSectors h)") (auto dest: arg_cong [of _ _ length])
  then have ds: "(map int js @ drop 14 (dataSectors h))[14 := int i] = map int (js @ [i])"
    using F(2) by (simp add: list_update_append)
  let ?h' = "setCreateTime t (?h1\<lparr>dataSectors := map int (js @ [i])\<rparr>)"
  have d: "distinct (js @ [i])" "set (js @ [i]) \<subseteq> {..<NumSectors} - marked bm" "marked bm2 = marked bm \<union> set (js @ [i])"
    using F G by auto
  have w: "list_all is_int (map int (js @ [i]))"
    using d(2) by (auto simp: list_all_iff NumSectors_def SectorsPerTrack_def NumTracks_def is_int_def)
  have "is_int (idivRoundUp n (int SectorSize))" using S(1) sectors_bound [OF n(2)] by (simp add: is_int_def)
  then have "hdr_wf (?h1\<lparr>dataSectors := map int (js @ [i])\<rparr>)"
    using h n(2) w F(2) by (simp add: hdr_wf_def NumFirst_def)
  then have wf: "hdr_wf ?h'" by simp
  have "FileHeader_Allocate t n h bm d =
       bind_res (find_sectors (?N - 14) (replicate 32 0) bm2) (\<lambda>(direct_first, bm3).
       bind_res (SynchDisk_WriteSector (int i) (words_bytes (map word_of_int direct_first)) d) (\<lambda>d1.
       Inr (True, ?h', bm3, d1)))"
    using c need S F(1,2) G(1) ds l
    by (simp add: FileHeader_Allocate_def Let_def nat_diff_distrib SectorSize_def del: map_append)
  from that [OF F(2) d(1,2) G(4,5) d(3) _ wf _ this] show thesis by (simp add: setCreateTime_def)
qed

text \<open>The entries of the index sector are what was found.\<close>

lemma Allocate_entries:
  assumes "disk_ok d" "i < NumSectors" "length js = 14" "dataSectors h' = map int (js @ [i])" "length df = 32" "list_all is_int df"
  shows "\<exists>d1. SynchDisk_WriteSector (int i) (words_bytes (map word_of_int df)) d = Inr d1 \<and> disk_ok d1 \<and>
    map sint (index_entries h' d1) = df"
proof -
  have i: "int i < int NumSectors" "length (words_bytes (map word_of_int df)) = SectorSize"
    using assms(2,5) by (simp_all add: SectorSize_def)
  obtain d1 where "SynchDisk_WriteSector (int i) (words_bytes (map word_of_int df)) d = Inr d1" "disk_ok d1"
    "sector d1 i = words_bytes (map word_of_int df)"
    using bd.wr_ok [OF assms(1) _ i] by auto
  then show ?thesis using assms(3,4) map_sint_of_int [OF assms(6)] by (auto simp: index_entries_def nth_append)
qed

lemma sectors_are_ints: "set is \<subseteq> {..<NumSectors} - A \<Longrightarrow> list_all is_int (map int is)"
  by (auto simp: list_all_iff is_int_def NumSectors_def SectorsPerTrack_def NumTracks_def)

lemma zeros_are_ints: "list_all is_int (replicate n 0)" "is_int (-1)"
  by (auto simp: list_all_iff is_int_def)

lemma Allocate_overrun:
  assumes "bitmap_wf bm" "numBits bm = NumSectors" "hdr_wf h" "int (NumDirect * SectorSize) < n" "is_int n"
    "divRoundUp (nat n) SectorSize \<le> card ({..<NumSectors} - marked bm)" "46 < divRoundUp (nat n) SectorSize"
  shows "FileHeader_Allocate t n h bm d = Inl OutOfBounds"
proof (rule Allocate_large_step [OF assms(1-6), of t d])
  fix js i bm1 h'
  assume "bitmap_wf bm1"
  then have "find_sectors (divRoundUp (nat n) SectorSize - 14) (replicate 32 0) bm1 = Inl OutOfBounds"
    using assms(7) by (intro find_sectors_overrun) simp_all
  moreover assume "FileHeader_Allocate t n h bm d =
       bind_res (find_sectors (divRoundUp (nat n) SectorSize - 14) (replicate 32 0) bm1) (\<lambda>(direct_first, bm2).
       bind_res (SynchDisk_WriteSector (int i) (words_bytes (map word_of_int direct_first)) d) (\<lambda>d1. Inr (True, h', bm2, d1)))"
  ultimately show ?thesis by simp
qed

lemma Allocate_no_room:
  assumes "bitmap_wf bm" "numBits bm = NumSectors" "hdr_wf h" "int (NumDirect * SectorSize) < n" "is_int n" "disk_ok d"
    "divRoundUp (nat n) SectorSize \<le> card ({..<NumSectors} - marked bm)" "divRoundUp (nat n) SectorSize \<le> 46"
    and eq: "card ({..<NumSectors} - marked bm) = divRoundUp (nat n) SectorSize"
  shows "\<exists>h1 bm1 d1. FileHeader_Allocate t n h bm d = Inr (True, h1, bm1, d1) \<and> disk_ok d1 \<and> hdr_wf h1 \<and> bitmap_wf bm1 \<and>
      marked bm1 = {..<NumSectors} \<and>
      map sint (take (divRoundUp (nat n) SectorSize - 14) (index_entries h1 d1)) ! (divRoundUp (nat n) SectorSize - 14 - 1) = -1"
proof -
  let ?N = "divRoundUp (nat n) SectorSize"
  obtain js i bm1 h' where S: "length js = 14" "distinct (js @ [i])" "set (js @ [i]) \<subseteq> {..<NumSectors} - marked bm"
    "bitmap_wf bm1" "numBits bm1 = NumSectors" "marked bm1 = marked bm \<union> set (js @ [i])"
    "dataSectors h' = map int (js @ [i])" "hdr_wf h'"
    and A: "FileHeader_Allocate t n h bm d =
       bind_res (find_sectors (?N - 14) (replicate 32 0) bm1) (\<lambda>(direct_first, bm2).
       bind_res (SynchDisk_WriteSector (int i) (words_bytes (map word_of_int direct_first)) d) (\<lambda>d1. Inr (True, h', bm2, d1)))"
    by (rule Allocate_large_step [OF assms(1-5,7)])
  have N: "14 < ?N" using assms(4) divRoundUp_sector [of "nat n" 14] by (simp add: not_le [symmetric])
  have c: "card ({..<NumSectors} - marked bm1) = ?N - 15" using free_after [OF S(6,2,3)] S(1) eq by simp
  then have "?N - 15 \<le> card ({..<numBits bm1} - marked bm1)" "?N - 15 \<le> length (replicate 32 (0::int))"
    using S(5) assms(8) by simp_all
  from find_sectors_ok [OF S(4) this] S(5) obtain ks bm2 where F:
    "find_sectors (?N - 15) (replicate 32 0) bm1 = Inr (map int ks @ replicate (32 - (?N - 15)) 0, bm2)" "length ks = ?N - 15" "distinct ks"
    "set ks \<subseteq> {..<NumSectors} - marked bm1" "bitmap_wf bm2" "numBits bm2 = NumSectors" "marked bm2 = marked bm1 \<union> set ks" by auto
  have "card ({..<NumSectors} - marked bm2) = 0" using free_after [OF F(7,3,4)] F(2) c by simp
  then have full: "marked bm2 = {..<numBits bm2}" using marked_bound [of bm2] F(6) by (simp add: subset_antisym)
  let ?df = "map int ks @ (-1) # replicate (31 - (?N - 15)) 0"
  have "replicate (32 - (?N - 15)) (0::int) = 0 # replicate (31 - (?N - 15)) 0"
    using assms(8) by (simp add: replicate_Suc [symmetric] del: replicate_Suc)
  then have "find_sectors (Suc (?N - 15)) (replicate 32 0) bm1 = Inr (?df, bm2)"
    using F(1,2) BitMap_Find_full [OF F(5) full] assms(8) by (simp add: find_sectors_Suc list_update_append)
  moreover have k: "Suc (?N - 15) = ?N - 14" using N by simp
  ultimately have fs: "find_sectors (?N - 14) (replicate 32 0) bm1 = Inr (?df, bm2)" by metis
  have "length ?df = 32" "list_all is_int ?df"
    using F(2) assms(8) sectors_are_ints [OF F(4)] by (simp_all add: zeros_are_ints)
  from Allocate_entries [OF assms(6) _ S(1,7) this] S(3) obtain d1 where
    D: "FileHeader_Allocate t n h bm d = Inr (True, h', bm2, d1)" "disk_ok d1" "map sint (index_entries h' d1) = ?df"
    using A fs by auto
  have "map sint (take (?N - 14) (index_entries h' d1)) ! (?N - 14 - 1) = take (?N - 14) ?df ! (?N - 14 - 1)"
    by (simp add: take_map [symmetric] D(3) del: take_append)
  also have "\<dots> = -1" using F(2) k N by (simp add: nth_append del: take_append)
  finally show ?thesis using D(1,2) S(8) F(5,6) full by auto
qed

lemma Allocate_room:
  assumes "bitmap_wf bm" "numBits bm = NumSectors" "hdr_wf h" "int (NumDirect * SectorSize) < n" "is_int n" "disk_ok d"
    and room: "divRoundUp (nat n) SectorSize < card ({..<NumSectors} - marked bm)" and le: "divRoundUp (nat n) SectorSize \<le> 46"
  shows "\<exists>h1 bm1 d1 is. FileHeader_Allocate t n h bm d = Inr (True, h1, bm1, d1) \<and> disk_ok d1 \<and> hdr_wf h1 \<and> bitmap_wf bm1 \<and>
      dataSectors h1 @ map sint (take (divRoundUp (nat n) SectorSize - 14) (index_entries h1 d1)) = map int is \<and>
      distinct is \<and> set is \<subseteq> {..<NumSectors} - marked bm \<and> length is = 15 + (divRoundUp (nat n) SectorSize - 14) \<and>
      marked bm1 = marked bm \<union> set is"
proof -
  let ?N = "divRoundUp (nat n) SectorSize"
  obtain js i bm1 h' where S: "length js = 14" "distinct (js @ [i])" "set (js @ [i]) \<subseteq> {..<NumSectors} - marked bm"
    "bitmap_wf bm1" "numBits bm1 = NumSectors" "marked bm1 = marked bm \<union> set (js @ [i])"
    "dataSectors h' = map int (js @ [i])" "hdr_wf h'"
    and A: "FileHeader_Allocate t n h bm d =
       bind_res (find_sectors (?N - 14) (replicate 32 0) bm1) (\<lambda>(direct_first, bm2).
       bind_res (SynchDisk_WriteSector (int i) (words_bytes (map word_of_int direct_first)) d) (\<lambda>d1. Inr (True, h', bm2, d1)))"
    by (rule Allocate_large_step [OF assms(1-5) less_imp_le [OF room]])
  have "?N - 14 \<le> card ({..<numBits bm1} - marked bm1)" "?N - 14 \<le> length (replicate 32 (0::int))"
    using free_after [OF S(6,2,3)] S(1,5) room le by simp_all
  from find_sectors_ok [OF S(4) this] S(5) obtain ks bm2 where F:
    "find_sectors (?N - 14) (replicate 32 0) bm1 = Inr (map int ks @ replicate (32 - (?N - 14)) 0, bm2)" "length ks = ?N - 14" "distinct ks"
    "set ks \<subseteq> {..<NumSectors} - marked bm1" "bitmap_wf bm2" "marked bm2 = marked bm1 \<union> set ks" by auto
  have "length (map int ks @ replicate (32 - (?N - 14)) 0) = 32" "list_all is_int (map int ks @ replicate (32 - (?N - 14)) 0)"
    using F(2) le sectors_are_ints [OF F(4)] by (simp_all add: zeros_are_ints)
  from Allocate_entries [OF assms(6) _ S(1,7) this] S(3) obtain d1 where
    D: "FileHeader_Allocate t n h bm d = Inr (True, h', bm2, d1)" "disk_ok d1"
      "map sint (index_entries h' d1) = map int ks @ replicate (32 - (?N - 14)) 0" using A F(1) by auto
  have "map sint (take (?N - 14) (index_entries h' d1)) = map int ks" using F(2) by (simp add: take_map [symmetric] D(3))
  then have "dataSectors h' @ map sint (take (?N - 14) (index_entries h' d1)) = map int (js @ [i] @ ks)" using S(7) by simp
  moreover have "distinct (js @ [i] @ ks)" "set (js @ [i] @ ks) \<subseteq> {..<NumSectors} - marked bm"
    "marked bm2 = marked bm \<union> set (js @ [i] @ ks)" using S(2,3,6) F(3,4,6) by auto
  moreover have "length (js @ [i] @ ks) = 15 + (?N - 14)" using S(1) F(2) by simp
  ultimately show ?thesis using D(1,2) S(8) F(5) by blast
qed

subsection \<open>Properties\<close>

text \<open>A header survives the disk: what WriteBack stores in a sector FetchFrom returns, all fields, and no other sector changes;
  and the bytes of any sector are the bytes of exactly one header, so that fetching a header and writing it back changes nothing.\<close>

theorem header_roundtrip:
  assumes "disk_ok d" "0 \<le> s" "s < int NumSectors" "hdr_wf h"
  shows "(\<exists>d1 d2. FileHeader_WriteBack h s d = Inr d1 \<and> FileHeader_FetchFrom s d1 = Inr (h, d2) \<and>
      disk_ok d2 \<and> sector d2 = (sector d)(nat s := hdr_bytes h)) \<and>
    (\<exists>h1 d1 d2. FileHeader_FetchFrom s d = Inr (h1, d1) \<and> hdr_wf h1 \<and> FileHeader_WriteBack h1 s d1 = Inr d2 \<and>
      disk_ok d2 \<and> sector d2 = sector d)"
proof
  show "\<exists>d1 d2. FileHeader_WriteBack h s d = Inr d1 \<and> FileHeader_FetchFrom s d1 = Inr (h, d2) \<and>
      disk_ok d2 \<and> sector d2 = (sector d)(nat s := hdr_bytes h)"
    using bd.rd_after_wr [OF assms(1-3) length_hdr_bytes [OF assms(4)]] hdr_of_hdr_bytes [OF assms(4)]
    by (auto simp: FileHeader_WriteBack_def FileHeader_FetchFrom_def)
  obtain d1 where d1: "SynchDisk_ReadSector s d = Inr (sector d (nat s), d1)" "disk_ok d1" "sector d1 = sector d"
    using bd.rd_ok [OF assms(1-3)] by blast
  have l: "length (sector d (nat s)) = SectorSize" by simp
  obtain d2 where "SynchDisk_WriteSector s (sector d (nat s)) d1 = Inr d2" "disk_ok d2" "sector d2 = sector d"
    using bd.wr_ok [OF d1(2) assms(2,3) l] d1(3) by auto
  then show "\<exists>h1 d1 d2. FileHeader_FetchFrom s d = Inr (h1, d1) \<and> hdr_wf h1 \<and> FileHeader_WriteBack h1 s d1 = Inr d2 \<and>
      disk_ok d2 \<and> sector d2 = sector d"
    using d1 hdr_wf_of_bytes [OF l] hdr_bytes_of_bytes [OF l]
    by (auto simp: FileHeader_FetchFrom_def FileHeader_WriteBack_def)
qed

text \<open>C20. Space for a file of at most 1792 bytes, the fourteen direct sectors: Allocate returns FALSE exactly when there are too few clear bits,
  and then leaves the map alone; otherwise the header names just as many sectors as the size needs, all different and all
  clear before, the map marks exactly those in addition, and Deallocate clears them again.\<close>

theorem header_allocate_deallocate:
  assumes "bitmap_wf bm" "numBits bm = NumSectors" "hdr_wf h" "0 \<le> n" "n \<le> int (NumDirect * SectorSize)"
  shows "if divRoundUp (nat n) SectorSize \<le> card ({..<NumSectors} - marked bm)
    then \<exists>h1 bm1 bm2. FileHeader_Allocate t n h bm d = Inr (True, h1, bm1, d) \<and> hdr_wf h1 \<and> FileLength h1 = n \<and>
      length (blocks h1) = divRoundUp (nat n) SectorSize \<and> distinct (blocks h1) \<and>
      set (blocks h1) \<subseteq> {..<NumSectors} - marked bm \<and> marked bm1 = marked bm \<union> set (blocks h1) \<and>
      FileHeader_Deallocate h1 bm1 d = Inr (bm2, d) \<and> bitmap_wf bm2 \<and> marked bm2 = marked bm
    else \<exists>h1. FileHeader_Allocate t n h bm d = Inr (False, h1, bm, d)"
proof (cases "divRoundUp (nat n) SectorSize \<le> card ({..<NumSectors} - marked bm)")
  case True
  then obtain h1 bm1 where A: "FileHeader_Allocate t n h bm d = Inr (True, h1, bm1, d)" "file_ok h1" "numBytes h1 = n"
    "length (blocks h1) = divRoundUp (nat n) SectorSize" "set (blocks h1) \<subseteq> {..<NumSectors} - marked bm" "bitmap_wf bm1"
    "marked bm1 = marked bm \<union> set (blocks h1)"
    using Allocate_small [OF assms, of t d] by auto
  obtain bm2 where D: "FileHeader_Deallocate h1 bm1 d = Inr (bm2, d)" "bitmap_wf bm2" "marked bm2 = marked bm1 - set (blocks h1)"
    using Deallocate_small [OF A(2,6), of d] A(7) by auto
  have "marked bm2 = marked bm" using D(3) A(5,7) by blast
  then show ?thesis using A D True by (auto simp: FileLength_def file_ok_def)
next
  case False
  then show ?thesis using Allocate_small [OF assms, of t d] by simp
qed

text \<open>C35. ByteToSector: offsets up to and including 1792, the first byte behind the direct sectors, go through the table in the header, where entry
  14 is the index sector itself; offsets above that go to the index sector, of whose 32-bit numbers only the lowest byte
  is used, with its sign.\<close>

theorem ByteToSector_exact:
  assumes "disk_ok d" "hdr_wf h" "0 \<le> offset" "offset < int MaxFileSize"
    "0 \<le> dataSectors h ! NumDirect" "dataSectors h ! NumDirect < int NumSectors"
  shows "if offset \<le> 1792 then ByteToSector h offset d = Inr (dataSectors h ! (nat offset div 128), d)
    else \<exists>d1. ByteToSector h offset d = Inr (sint (ucast (index_entries h d ! ((nat offset - 1792) div 128)) :: byte), d1) \<and>
      disk_ok d1 \<and> sector d1 = sector d"
proof (cases "offset \<le> 1792")
  case True
  then have "nat offset div 128 < length (dataSectors h)" using assms(2) by (simp add: hdr_wf_def NumFirst_def)
  moreover have "nat (offset div 128) = nat offset div 128" by (simp add: nat_div_distrib)
  ultimately show ?thesis using True assms(3) by (simp add: ByteToSector_def SectorSize_def sdiv_pos)
next
  case False
  have b: "offset < 5888" using assms(4) by (simp add: MaxFileSize_def NumFirst_def SectorSize_def)
  let ?k = "(nat offset - 1792) div 128"
  have k: "nat ((offset - 1792) div 128) = ?k" "?k < 32"
    using False b by (simp_all add: nat_div_distrib nat_diff_distrib)
  obtain d1 where d1: "SynchDisk_ReadSector (dataSectors h ! 14) d = Inr (sector d (nat (dataSectors h ! 14)), d1)"
    "disk_ok d1" "sector d1 = sector d"
    using bd.rd_ok [OF assms(1,5,6)] by auto
  have "14 < length (dataSectors h)" using assms(2) by (simp add: hdr_wf_def NumFirst_def)
  then have "ByteToSector h offset d = bind_res (first_entry (sector d (nat (dataSectors h ! 14))) ?k) (\<lambda>s. Inr (s, d1))"
    using False b d1(1) k(1) by (simp add: ByteToSector_def SectorSize_def)
  then show ?thesis
    using False d1 first_entry_eq [OF length_sector k(2)] by (simp add: index_entries_def)
qed

text \<open>C36. Space for larger files. The check for free sectors does not count the index sector: when there are just as many clear bits as the
  data needs, Allocate returns TRUE, the disk is full and the last entry of the index is -1; with at least one more, every data
  sector is a different one that was clear. Nothing checks the maximum size of 5888 bytes: beyond it the
  numbers are written past the end of the array.\<close>

theorem Allocate_large:
  assumes "bitmap_wf bm" "numBits bm = NumSectors" "hdr_wf h" "int (NumDirect * SectorSize) < n" "is_int n" "disk_ok d"
    "divRoundUp (nat n) SectorSize \<le> card ({..<NumSectors} - marked bm)"
  shows "if n > int MaxFileSize then FileHeader_Allocate t n h bm d = Inl OutOfBounds
    else \<exists>h1 bm1 d1. FileHeader_Allocate t n h bm d = Inr (True, h1, bm1, d1) \<and> disk_ok d1 \<and> hdr_wf h1 \<and> bitmap_wf bm1 \<and>
      (let k = divRoundUp (nat n) SectorSize - 14; entries = map sint (take k (index_entries h1 d1)) in
       if card ({..<NumSectors} - marked bm) = divRoundUp (nat n) SectorSize
       then marked bm1 = {..<NumSectors} \<and> entries ! (k - 1) = -1
       else \<exists>is. dataSectors h1 @ entries = map int is \<and> distinct is \<and> set is \<subseteq> {..<NumSectors} - marked bm \<and>
         length is = 15 + k \<and> marked bm1 = marked bm \<union> set is)"
proof -
  have M: "n > int MaxFileSize \<longleftrightarrow> 46 < divRoundUp (nat n) SectorSize"
    using divRoundUp_sector [of "nat n" 46] assms(4) by (auto simp: MaxFileSize_def NumFirst_def SectorSize_def)
  consider "46 < divRoundUp (nat n) SectorSize"
    | "divRoundUp (nat n) SectorSize \<le> 46" "card ({..<NumSectors} - marked bm) = divRoundUp (nat n) SectorSize"
    | "divRoundUp (nat n) SectorSize \<le> 46" "divRoundUp (nat n) SectorSize < card ({..<NumSectors} - marked bm)"
    using assms(7) by linarith
  then show ?thesis
  proof cases
    case 1
    then show ?thesis using Allocate_overrun [OF assms(1-5,7)] M by simp
  next
    case 2
    then show ?thesis using Allocate_no_room [OF assms(1-7) 2] M by (simp add: Let_def)
  next
    case 3
    from Allocate_room [OF assms(1-6) 3(2,1), of t] obtain h1 bm1 d1 ks where
      "FileHeader_Allocate t n h bm d = Inr (True, h1, bm1, d1)" "disk_ok d1" "hdr_wf h1" "bitmap_wf bm1"
      "dataSectors h1 @ map sint (take (divRoundUp (nat n) SectorSize - 14) (index_entries h1 d1)) = map int ks"
      "distinct ks" "set ks \<subseteq> {..<NumSectors} - marked bm" "length ks = 15 + (divRoundUp (nat n) SectorSize - 14)"
      "marked bm1 = marked bm \<union> set ks" by blast
    then show ?thesis using 3 M unfolding Let_def by auto
  qed
qed

subsection \<open>Witnesses\<close>

text \<open>A formatted disk, an empty map of its sectors, a header fresh from memory that holds zeros.\<close>

definition zeros :: memory where "zeros = (\<lambda>a i. 0)"

definition noon :: tm where
  "noon = \<lparr>tm_year = 118, tm_mon = 11, tm_mday = 12, tm_hour = 12, tm_min = 25, tm_sec = 45\<rparr>"

lemma new_map: obtains bm where "bitmap_wf bm" "numBits bm = NumSectors" "marked bm = {}"
  using BitMap_BitMap_ok [of NumSectors "\<lambda>_. 0"] that by blast

lemma header_roundtrip_witness:
  "\<exists>d d1 d2. Disk_Disk None 0 = Inr d \<and> FileHeader_WriteBack (new_FileHeader zeros) 7 d = Inr d1 \<and>
     FileHeader_FetchFrom 7 d1 = Inr (new_FileHeader zeros, d2)"
proof -
  obtain d where d: "Disk_Disk None 0 = Inr d" "disk_ok d" by (rule Disk_new [of 0]) auto
  have "(7::int) < int NumSectors" by (simp add: NumSectors_def SectorsPerTrack_def NumTracks_def)
  from header_roundtrip [OF d(2) _ this hdr_wf_new [of zeros]] d(1) show ?thesis by auto
qed

lemma header_allocate_deallocate_witness:
  "\<exists>bm h1 bm1 bm2 d. bitmap_wf bm \<and> marked bm = {} \<and> FileHeader_Allocate noon 300 (new_FileHeader zeros) bm d = Inr (True, h1, bm1, d) \<and>
     length (blocks h1) = 3 \<and> FileHeader_Deallocate h1 bm1 d = Inr (bm2, d) \<and> marked bm2 = {}"
proof -
  obtain bm where bm: "bitmap_wf bm" "numBits bm = NumSectors" "marked bm = {}" by (rule new_map)
  have c: "divRoundUp (nat 300) SectorSize \<le> card ({..<NumSectors} - marked bm)" "(300::int) \<le> int (NumDirect * SectorSize)"
    "divRoundUp (nat 300) SectorSize = 3"
    by (simp_all add: bm(3) divRoundUp_def SectorSize_def NumSectors_def SectorsPerTrack_def NumTracks_def)
  from header_allocate_deallocate [OF bm(1,2) hdr_wf_new [of zeros] _ c(2)] c(1,3) bm show ?thesis by fastforce
qed

lemma ByteToSector_exact_witness:
  "\<exists>d. Disk_Disk None 0 = Inr d \<and>
     ByteToSector ((new_FileHeader zeros)\<lparr>dataSectors := [100, 101, 102, 103, 104, 105, 106, 107, 108, 109, 110, 111, 112, 113, 114]\<rparr>)
       1792 d = Inr (114, d)"
proof -
  let ?h = "(new_FileHeader zeros)\<lparr>dataSectors := [100, 101, 102, 103, 104, 105, 106, 107, 108, 109, 110, 111, 112, 113, 114]\<rparr>"
  obtain d where d: "Disk_Disk None 0 = Inr d" "disk_ok d" by (rule Disk_new [of 0]) auto
  have "hdr_wf ?h" using hdr_wf_new [of zeros] by (simp add: hdr_wf_def NumFirst_def is_int_def)
  from ByteToSector_exact [OF d(2) this, of 1792] d(1) show ?thesis
    by (auto simp: MaxFileSize_def NumFirst_def SectorSize_def NumSectors_def SectorsPerTrack_def NumTracks_def)
qed

lemma Allocate_large_witness:
  "\<exists>bm d. bitmap_wf bm \<and> marked bm = {} \<and> Disk_Disk None 0 = Inr d \<and>
     FileHeader_Allocate noon 6000 (new_FileHeader zeros) bm d = Inl OutOfBounds \<and>
     (\<exists>h1 bm1 d1. FileHeader_Allocate noon 2000 (new_FileHeader zeros) bm d = Inr (True, h1, bm1, d1) \<and> card (marked bm1) = 17)"
proof -
  obtain bm where bm: "bitmap_wf bm" "numBits bm = NumSectors" "marked bm = {}" by (rule new_map)
  obtain d where d: "Disk_Disk None 0 = Inr d" "disk_ok d" by (rule Disk_new [of 0]) auto
  have n: "int (NumDirect * SectorSize) < 6000" "int (NumDirect * SectorSize) < 2000" "is_int 6000" "is_int 2000"
    by (simp_all add: SectorSize_def is_int_def)
  have c: "divRoundUp (nat 6000) SectorSize \<le> card ({..<NumSectors} - marked bm)" "divRoundUp (nat 2000) SectorSize = 16"
    "card ({..<NumSectors} - marked bm) = 1024" "divRoundUp (nat 2000) SectorSize \<le> card ({..<NumSectors} - marked bm)"
    by (simp_all add: bm(3) divRoundUp_def SectorSize_def NumSectors_def SectorsPerTrack_def NumTracks_def)
  have m: "MaxFileSize = 5888" by (simp add: MaxFileSize_def NumFirst_def SectorSize_def)
  have a: "FileHeader_Allocate noon 6000 (new_FileHeader zeros) bm d = Inl OutOfBounds"
    using Allocate_large [OF bm(1,2) hdr_wf_new n(1,3) d(2) c(1), of noon zeros] m by simp
  from Allocate_large [OF bm(1,2) hdr_wf_new n(2,4) d(2) c(4), of noon zeros] obtain h1 bm1 d1 ks where
    b: "FileHeader_Allocate noon 2000 (new_FileHeader zeros) bm d = Inr (True, h1, bm1, d1)"
    "distinct ks" "length ks = 17" "marked bm1 = marked bm \<union> set ks"
    unfolding m c Let_def by auto
  have "card (marked bm1) = 17" using b bm(3) by (simp add: distinct_card)
  then show ?thesis using a b(1) bm d by blast
qed

end
