(* ===== verification/Nachos_OpenFile.thy ===== *)
theory Nachos_OpenFile
  imports Nachos_FileHdr
begin

text \<open>
  Open files (filesys/openfile.h, openfile.cc): reading and writing any part of a file although the disk knows only whole
  sectors. A read returns how many bytes were copied and which; a write gets the bytes of the caller's
  buffer. \<open>contents\<close> is the file as a list of bytes, and ReadAt and WriteAt are shown to be a slice and an
  update of it.
\<close>

subsection \<open>Operations\<close>

record OpenFile =
  hdr :: FileHeader
  seekPosition :: int
  hdrSector :: int

definition OpenFile_OpenFile :: "int \<Rightarrow> Disk \<Rightarrow> (OpenFile \<times> Disk) res" where
  "OpenFile_OpenFile sec d =
     bind_res (FileHeader_FetchFrom sec d) (\<lambda>(h, d1). Inr (\<lparr>hdr = h, seekPosition = 0, hdrSector = sec\<rparr>, d1))"

definition OpenFile_Seek :: "int \<Rightarrow> OpenFile \<Rightarrow> OpenFile" where
  "OpenFile_Seek pos f = f\<lparr>seekPosition := pos\<rparr>"

definition OpenFile_Length :: "OpenFile \<Rightarrow> int" where
  "OpenFile_Length f = FileLength (hdr f)"

text \<open>The loop that fills the buffer sector by sector.\<close>

definition read_sectors :: "FileHeader \<Rightarrow> int \<Rightarrow> int \<Rightarrow> Disk \<Rightarrow> (byte list \<times> Disk) res" where
  "read_sectors h firstSec lastSec d =
     fold_res (\<lambda>i (buf, d). bind_res (ByteToSector h (i * int SectorSize) d) (\<lambda>(s, d1).
       bind_res (SynchDisk_ReadSector s d1) (\<lambda>(bs, d2). Inr (buf @ bs, d2)))) [firstSec..lastSec] ([], d)"

definition write_sectors :: "FileHeader \<Rightarrow> int \<Rightarrow> int \<Rightarrow> byte list \<Rightarrow> Disk \<Rightarrow> Disk res" where
  "write_sectors h firstSec lastSec buf d =
     fold_res (\<lambda>i d. bind_res (ByteToSector h (i * int SectorSize) d) (\<lambda>(s, d1).
       bind_res (get_bytes ((i - firstSec) * int SectorSize) (int SectorSize) buf) (\<lambda>bs.
       SynchDisk_WriteSector s bs d1))) [firstSec..lastSec] d"

text \<open>The number of bytes to transfer, and the first and the last sector; \<open>new char[...]\<close> with a negative size fails.\<close>

definition request :: "OpenFile \<Rightarrow> int \<Rightarrow> int \<Rightarrow> (int \<times> int \<times> int) res" where
  "request f nbytes pos =
     (let fileLength = FileLength (hdr f);
          n = (if s32 (pos + nbytes) > fileLength then s32 (fileLength - pos) else nbytes);
          firstSec = idivRoundDown pos (int SectorSize);
          lastSec = idivRoundDown (s32 (s32 (pos + n) - 1)) (int SectorSize)
      in if s32 ((1 + lastSec - firstSec) * int SectorSize) < 0 then Inl OutOfBounds
         else Inr (n, firstSec, lastSec))"

definition ReadAt :: "OpenFile \<Rightarrow> int \<Rightarrow> int \<Rightarrow> Disk \<Rightarrow> (int \<times> byte list \<times> Disk) res" where
  "ReadAt f nbytes pos d =
     (if nbytes \<le> 0 \<or> pos \<ge> FileLength (hdr f) then Inr (0, [], d)
      else bind_res (request f nbytes pos) (\<lambda>(n, firstSec, lastSec).
        bind_res (read_sectors (hdr f) firstSec lastSec d) (\<lambda>(buf, d1).
        bind_res (get_bytes (pos - firstSec * int SectorSize) n buf) (\<lambda>bs. Inr (n, bs, d1)))))"

text \<open>Reading one sector of the file into the buffer at an index.\<close>

definition read_into :: "OpenFile \<Rightarrow> int \<Rightarrow> int \<Rightarrow> byte list \<times> Disk \<Rightarrow> (byte list \<times> Disk) res" where
  "read_into f pos dest = (\<lambda>(buf, d).
     bind_res (ReadAt f (int SectorSize) pos d) (\<lambda>(_, bs, d1).
     bind_res (put_bytes dest bs buf) (\<lambda>buf1. Inr (buf1, d1))))"

definition WriteAt :: "memory \<Rightarrow> OpenFile \<Rightarrow> byte list \<Rightarrow> int \<Rightarrow> int \<Rightarrow> Disk \<Rightarrow> (int \<times> Disk) res" where
  "WriteAt mem f from nbytes pos d =
     (if nbytes \<le> 0 \<or> pos \<ge> FileLength (hdr f) then Inr (0, d)
      else bind_res (request f nbytes pos) (\<lambda>(n, firstSec, lastSec).
        let buf = new_bytes mem NewBuffer (nat ((1 + lastSec - firstSec) * int SectorSize));
            firstAligned = (pos = firstSec * int SectorSize);
            lastAligned = (s32 (pos + n) = (lastSec + 1) * int SectorSize) in
        bind_res (if \<not> firstAligned then read_into f (firstSec * int SectorSize) 0 (buf, d) else Inr (buf, d)) (\<lambda>(buf1, d1).
        bind_res (if \<not> lastAligned \<and> (firstSec \<noteq> lastSec \<or> firstAligned)
          then read_into f (lastSec * int SectorSize) ((lastSec - firstSec) * int SectorSize) (buf1, d1)
          else Inr (buf1, d1)) (\<lambda>(buf2, d2).
        bind_res (get_bytes 0 n from) (\<lambda>bs.
        bind_res (put_bytes (pos - firstSec * int SectorSize) bs buf2) (\<lambda>buf3.
        bind_res (write_sectors (hdr f) firstSec lastSec buf3 d2) (\<lambda>d3. Inr (n, d3))))))))"

definition OpenFile_Read :: "tm \<Rightarrow> OpenFile \<Rightarrow> int \<Rightarrow> Disk \<Rightarrow> (int \<times> byte list \<times> OpenFile \<times> Disk) res" where
  "OpenFile_Read t f nbytes d =
     bind_res (ReadAt f nbytes (seekPosition f) d) (\<lambda>(result, bs, d1).
     let f1 = f\<lparr>seekPosition := s32 (seekPosition f + result), hdr := setAccessTime t (hdr f)\<rparr> in
     bind_res (FileHeader_WriteBack (hdr f1) (hdrSector f1) d1) (\<lambda>d2. Inr (result, bs, f1, d2)))"

definition OpenFile_Write :: "memory \<Rightarrow> tm \<Rightarrow> OpenFile \<Rightarrow> byte list \<Rightarrow> int \<Rightarrow> Disk \<Rightarrow> (int \<times> OpenFile \<times> Disk) res" where
  "OpenFile_Write mem t f from nbytes d =
     bind_res (WriteAt mem f from nbytes (seekPosition f) d) (\<lambda>(result, d1).
     let f1 = f\<lparr>seekPosition := s32 (seekPosition f + result), hdr := setAccessTime t (hdr f)\<rparr> in
     bind_res (FileHeader_WriteBack (hdr f1) (hdrSector f1) d1) (\<lambda>d2. Inr (result, f1, d2)))"

subsection \<open>A file as a list of bytes\<close>

definition contents :: "FileHeader \<Rightarrow> Disk \<Rightarrow> byte list" where
  "contents h d = take (nat (numBytes h)) (concat (map (sector d) (blocks h)))"

text \<open>Replacing bytes from a position on.\<close>

definition patch :: "byte list \<Rightarrow> nat \<Rightarrow> byte list \<Rightarrow> byte list" where
  "patch bs p xs = take p xs @ bs @ drop (p + length bs) xs"

lemma concat_nth:
  assumes "\<forall>xs \<in> set xss. length xs = m" "k < length xss * m" "0 < m"
  shows "concat xss ! k = xss ! (k div m) ! (k mod m)"
  using assms(1,2)
proof (induction xss arbitrary: k)
  case (Cons xs xss)
  show ?case
  proof (cases "k < m")
    case True
    then show ?thesis using Cons.prems by (simp add: nth_append)
  next
    case False
    then have "k div m = Suc ((k - m) div m)" "k mod m = (k - m) mod m"
      using assms(3) by (simp_all add: le_div_geq le_mod_geq)
    then show ?thesis using Cons.IH [of "k - m"] Cons.prems False by (simp add: nth_append)
  qed
qed simp

lemma length_concat_same: "\<forall>xs \<in> set xss. length xs = m \<Longrightarrow> length (concat xss) = length xss * m"
  by (induction xss) simp_all

lemma file_ok_sectors:
  assumes "file_ok h"
  shows "nat (numSectors h) = divRoundUp (nat (numBytes h)) SectorSize" "nat (numBytes h) \<le> nat (numSectors h) * SectorSize"
    "nat (numSectors h) \<le> 14" "\<And>k. k < nat (numBytes h) \<Longrightarrow> k div SectorSize < nat (numSectors h)"
proof -
  have s: "numSectors h = int (divRoundUp (nat (numBytes h)) SectorSize)" "nat (numSectors h) \<le> 14"
    using assms small_counts(1,4) [of "numBytes h" h] by (simp_all add: file_ok_def)
  then show "nat (numSectors h) = divRoundUp (nat (numBytes h)) SectorSize" "nat (numSectors h) \<le> 14" by simp_all
  show l: "nat (numBytes h) \<le> nat (numSectors h) * SectorSize"
    using divRoundUp_le [of SectorSize "nat (numBytes h)"] s by (simp add: SectorSize_def)
  show "k div SectorSize < nat (numSectors h)" if "k < nat (numBytes h)" for k
    using that l by (simp add: less_mult_imp_div_less)
qed

lemma length_contents: "file_ok h \<Longrightarrow> length (contents h d) = nat (numBytes h)"
  using file_ok_sectors(2) [of h] file_ok_blocks(1) [of h]
    length_concat_same [of "map (sector d) (blocks h)" SectorSize] by (simp add: contents_def)

lemma contents_nth:
  assumes "file_ok h" "k < nat (numBytes h)"
  shows "contents h d ! k = sector d (blocks h ! (k div SectorSize)) ! (k mod SectorSize)"
proof -
  have "k < length (map (sector d) (blocks h)) * SectorSize"
    using assms file_ok_sectors(2) [OF assms(1)] file_ok_blocks(1) [OF assms(1)] by simp
  then have "concat (map (sector d) (blocks h)) ! k = sector d (blocks h ! (k div SectorSize)) ! (k mod SectorSize)"
    using file_ok_sectors(4) [OF assms] file_ok_blocks(1) [OF assms(1)] by (subst concat_nth) (auto simp: SectorSize_def)
  then show ?thesis using assms(2) by (simp add: contents_def)
qed

lemma contents_cong: "(\<And>b. b \<in> set (blocks h) \<Longrightarrow> sector d' b = sector d b) \<Longrightarrow> contents h d' = contents h d"
  unfolding contents_def by (metis (mono_tags, lifting) map_eq_conv)

lemma contents_upd: "s \<notin> set (blocks h) \<Longrightarrow> sector d' = (sector d)(s := bs) \<Longrightarrow> contents h d' = contents h d"
  by (rule contents_cong) auto

lemma length_patch [simp]: "p + length bs \<le> length xs \<Longrightarrow> length (patch bs p xs) = length xs"
  by (simp add: patch_def)

lemma patch_nth:
  assumes "p + length bs \<le> length xs" "k < length xs"
  shows "patch bs p xs ! k = (if p \<le> k \<and> k < p + length bs then bs ! (k - p) else xs ! k)"
  using assms by (auto simp: patch_def nth_append)

subsection \<open>Reading\<close>

lemma upto_nat: "[int a..int b] = map int [a..<Suc b]"
proof (cases "a \<le> b")
  case True
  then have "map int [a..<Suc b] = [int a..int b]"
  proof (induction "b - a" arbitrary: a)
    case 0
    then show ?case by (simp add: upto_rec1)
  next
    case (Suc n)
    then have "map int [Suc a..<Suc b] = [int (Suc a)..int b]" by (intro Suc.hyps(1)) simp_all
    moreover have "[a..<Suc b] = a # [Suc a..<Suc b]" using Suc.prems by (simp add: upt_rec)
    moreover have "[int a..int b] = int a # [int (Suc a)..int b]" using Suc.prems by (simp add: upto_rec1 add.commute)
    ultimately show ?case by simp
  qed
  then show ?thesis by simp
qed simp

lemma ByteToSector_direct:
  assumes "file_ok h" "i < nat (numSectors h)"
  shows "ByteToSector h (int i * int SectorSize) d = Inr (int (blocks h ! i), d)"
proof -
  have "i \<le> 13" using file_ok_sectors(3) [OF assms(1)] assms(2) by simp
  moreover have "length (dataSectors h) = 15" using assms(1) by (simp add: file_ok_def hdr_wf_def NumFirst_def)
  ultimately show ?thesis
    using file_ok_blocks(4) [OF assms] by (simp add: ByteToSector_def sdiv_pos SectorSize_def)
qed

lemma blocks_in: "file_ok h \<Longrightarrow> i < nat (numSectors h) \<Longrightarrow> blocks h ! i < NumSectors"
  using file_ok_blocks(1,3) [of h] by (metis lessThan_iff nth_mem subsetD)

lemma read_sectors_ok:
  assumes "file_ok h" "disk_ok d" "b < nat (numSectors h)"
  shows "\<exists>d'. read_sectors h (int a) (int b) d = Inr (concat (map (\<lambda>i. sector d (blocks h ! i)) [a..<Suc b]), d') \<and>
    disk_ok d' \<and> sector d' = sector d"
proof -
  let ?ss = "map (\<lambda>i. int (blocks h ! i)) [a..<Suc b]"
  have "read_sectors h (int a) (int b) d =
      fold_res (\<lambda>s (buf, d). bind_res (SynchDisk_ReadSector s d) (\<lambda>(bs, d1). Inr (buf @ bs, d1))) ?ss ([], d)"
    unfolding read_sectors_def upto_nat fold_res_map
    using assms(1,3) by (intro fold_res_cong) (auto simp: ByteToSector_direct)
  moreover have "\<forall>s \<in> set ?ss. 0 \<le> s \<and> s < int NumSectors" using blocks_in [OF assms(1)] assms(3) by auto
  ultimately show ?thesis using bd.rd_list [OF assms(2), of ?ss "[]"] by (simp add: comp_def)
qed

text \<open>A request inside the file.\<close>

lemma request_ok:
  assumes "file_ok (hdr f)" "0 \<le> p" "p < FileLength (hdr f)" "0 < n" "is_int (p + n)"
  obtains m where "request f n p = Inr (int m, int (nat p div SectorSize), int ((nat p + m - 1) div SectorSize))"
    "0 < m" "m = min (nat n) (nat (numBytes (hdr f)) - nat p)" "nat p + m \<le> nat (numBytes (hdr f))"
    "(nat p + m - 1) div SectorSize < nat (numSectors (hdr f))" "is_int (p + int m)"
proof -
  define m where "m = min (nat n) (nat (numBytes (hdr f)) - nat p)"
  define a where "a = nat p div SectorSize"
  define b where "b = (nat p + m - 1) div SectorSize"
  have m: "0 < m" "nat p + m \<le> nat (numBytes (hdr f))" using assms(2-4) by (auto simp: m_def FileLength_def)
  have l: "numBytes (hdr f) \<le> 1792" using assms(1) by (simp add: file_ok_def SectorSize_def)
  then have i: "is_int (p + int m)" "is_int (numBytes (hdr f) - p)" "is_int (p + int m - 1)"
    using m assms(2,3) by (simp_all add: is_int_def FileLength_def)
  have n: "(if s32 (p + n) > numBytes (hdr f) then s32 (numBytes (hdr f) - p) else n) = int m"
    using assms(2-5) i(2) by (simp add: m_def FileLength_def min_def) linarith
  have ab: "idivRoundDown p (int SectorSize) = int a" "idivRoundDown (p + int m - 1) (int SectorSize) = int b"
    using assms(2) m(1) by (simp_all add: idivRoundDown_def a_def b_def sdiv_pos SectorSize_def zdiv_int of_nat_diff)
  have le: "a \<le> b" "b < nat (numSectors (hdr f))"
    using file_ok_sectors(4) [OF assms(1), of "nat p + m - 1"] m by (auto simp: a_def b_def div_le_mono)
  then have "b \<le> 13" using file_ok_sectors(3) [OF assms(1)] by simp
  then have "s32 ((1 + int b - int a) * int SectorSize) = (1 + int b - int a) * int SectorSize"
    using le(1) by (intro s32_id) (simp add: is_int_def SectorSize_def)
  moreover have "0 \<le> (1 + int b - int a) * int SectorSize" using le(1) by simp
  ultimately have "request f n p = Inr (int m, int a, int b)"
    using n ab i by (simp add: request_def FileLength_def Let_def)
  from this [unfolded a_def b_def] m(1) m_def m(2) le(2) [unfolded b_def] i(1) show thesis by (rule that)
qed

lemma sectors_nth:
  "j < (Suc b - a) * SectorSize \<Longrightarrow>
   concat (map (\<lambda>i. sector d (blocks h ! i)) [a..<Suc b]) ! j = sector d (blocks h ! (a + j div SectorSize)) ! (j mod SectorSize)"
proof -
  assume j: "j < (Suc b - a) * SectorSize"
  then have "j div SectorSize < Suc b - a" by (simp add: less_mult_imp_div_less)
  then show ?thesis using j
    by (subst concat_nth [where m = SectorSize]) (auto simp: SectorSize_def simp del: upt_Suc)
qed

lemma length_sectors: "length (concat (map (\<lambda>i. sector d (blocks h ! i)) [a..<Suc b])) = (Suc b - a) * SectorSize"
  by (subst length_concat_same [where m = SectorSize]) (auto simp del: upt_Suc)

lemma sector_position: "(a * SectorSize + k) div SectorSize = a + k div SectorSize" "(a * SectorSize + k) mod SectorSize = k mod SectorSize"
  by (simp_all add: SectorSize_def)

lemma span_bounds:
  assumes "0 < m"
  shows "p div SectorSize \<le> (p + m - 1) div SectorSize" "p div SectorSize * SectorSize \<le> p"
    "p - p div SectorSize * SectorSize < SectorSize" "p + m \<le> Suc ((p + m - 1) div SectorSize) * SectorSize"
    "(p + m - 1) div SectorSize * SectorSize < p + m"
    "p - p div SectorSize * SectorSize + m \<le> (Suc ((p + m - 1) div SectorSize) - p div SectorSize) * SectorSize"
proof -
  show 1: "p div SectorSize \<le> (p + m - 1) div SectorSize" using assms by (intro div_le_mono) simp
  show 2: "p div SectorSize * SectorSize \<le> p" by simp
  show "p - p div SectorSize * SectorSize < SectorSize" by (simp add: SectorSize_def minus_div_mult_eq_mod)
  show 4: "p + m \<le> Suc ((p + m - 1) div SectorSize) * SectorSize" by (simp add: SectorSize_def)
  have "(p + m - 1) div SectorSize * SectorSize \<le> p + m - 1" by simp
  then show "(p + m - 1) div SectorSize * SectorSize < p + m" using assms by linarith
  show "p - p div SectorSize * SectorSize + m \<le> (Suc ((p + m - 1) div SectorSize) - p div SectorSize) * SectorSize"
    using 1 2 4 unfolding diff_mult_distrib by linarith
qed

lemma concat_slice:
  assumes "file_ok h" "p + m \<le> nat (numBytes h)" "0 < m"
    and a: "a = p div SectorSize" and b: "b = (p + m - 1) div SectorSize"
    and xs: "xs = concat (map (\<lambda>i. sector d (blocks h ! i)) [a..<Suc b])"
  shows "p - a * SectorSize + m \<le> length xs" "take m (drop (p - a * SectorSize) xs) = take m (drop p (contents h d))"
proof -
  note B = span_bounds [OF assms(3), of p, folded a b]
  have L: "length xs = (Suc b - a) * SectorSize" unfolding xs by (rule length_sectors)
  show lx: "p - a * SectorSize + m \<le> length xs" using B(6) L by simp
  show "take m (drop (p - a * SectorSize) xs) = take m (drop p (contents h d))"
  proof (rule nth_equalityI)
    show "length (take m (drop (p - a * SectorSize) xs)) = length (take m (drop p (contents h d)))"
      using lx assms(2) by (simp add: length_contents [OF assms(1)])
  next
    fix k assume "k < length (take m (drop (p - a * SectorSize) xs))"
    then have k: "k < m" by simp
    let ?j = "p - a * SectorSize + k"
    have "?j < (Suc b - a) * SectorSize" using k B(6) by linarith
    then have "xs ! ?j = sector d (blocks h ! (a + ?j div SectorSize)) ! (?j mod SectorSize)"
      unfolding xs by (rule sectors_nth)
    moreover have e: "a * SectorSize + ?j = p + k" using B(2) by linarith
    then have "a * SectorSize + ?j < nat (numBytes h)" using k assms(2) by linarith
    from contents_nth [OF assms(1) this, of d, unfolded sector_position]
    have "contents h d ! (p + k) = sector d (blocks h ! (a + ?j div SectorSize)) ! (?j mod SectorSize)" unfolding e .
    ultimately have "xs ! ?j = contents h d ! (p + k)" by argo
    moreover have "p + k < length (contents h d)" "?j < length xs"
      using k assms(2) lx unfolding length_contents [OF assms(1)] by linarith+
    ultimately show "take m (drop (p - a * SectorSize) xs) ! k = take m (drop p (contents h d)) ! k"
      using k by simp
  qed
qed

lemma ReadAt_ok:
  assumes "file_ok (hdr f)" "disk_ok d" "0 \<le> p" "is_int (p + n)"
  obtains d' where "ReadAt f n p d = Inr (int (length (take (nat n) (drop (nat p) (contents (hdr f) d)))),
      take (nat n) (drop (nat p) (contents (hdr f) d)), d')" "disk_ok d'" "sector d' = sector d"
proof (cases "0 < n \<and> p < FileLength (hdr f)")
  case True
  obtain m where r: "request f n p = Inr (int m, int (nat p div SectorSize), int ((nat p + m - 1) div SectorSize))"
    and m: "0 < m" "m = min (nat n) (nat (numBytes (hdr f)) - nat p)" "nat p + m \<le> nat (numBytes (hdr f))"
    "(nat p + m - 1) div SectorSize < nat (numSectors (hdr f))"
    using request_ok [OF assms(1,3) _ _ assms(4)] True by blast
  have t: "take m (drop (nat p) (contents (hdr f) d)) = take (nat n) (drop (nat p) (contents (hdr f) d))"
    "length (take (nat n) (drop (nat p) (contents (hdr f) d))) = m"
    using m(2) by (simp_all add: length_contents [OF assms(1)] min_def)
  define a b where "a = nat p div SectorSize" and "b = (nat p + m - 1) div SectorSize"
  define xs where "xs = concat (map (\<lambda>i. sector d (blocks (hdr f) ! i)) [a..<Suc b])"
  note C = concat_slice [OF assms(1) m(3,1) a_def b_def xs_def, unfolded t(1)]
  obtain d' where d': "read_sectors (hdr f) (int a) (int b) d = Inr (xs, d')" "disk_ok d'" "sector d' = sector d"
    using read_sectors_ok [OF assms(1,2) m(4)] unfolding xs_def a_def b_def by blast
  have "p - int a * int SectorSize = int (nat p - a * SectorSize)" using assms(3) by (simp add: a_def of_nat_diff zdiv_int)
  then have "get_bytes (p - int a * int SectorSize) (int m) xs = Inr (take (nat n) (drop (nat p) (contents (hdr f) d)))"
    using get_bytes_ok [of "int (nat p - a * SectorSize)" "int m" xs] C by simp
  then have "ReadAt f n p d = Inr (int m, take (nat n) (drop (nat p) (contents (hdr f) d)), d')"
    using True r [folded a_def b_def] d'(1) by (simp add: ReadAt_def)
  then show thesis using that d' t(2) by simp
next
  case False
  then have "take (nat n) (drop (nat p) (contents (hdr f) d)) = []"
    by (auto simp: length_contents [OF assms(1)] FileLength_def)
  then show thesis using that [of d] False assms(2) by (auto simp: ReadAt_def)
qed

subsection \<open>Writing\<close>

lemma put_bytes_patch: "j + length bs \<le> length buf \<Longrightarrow> put_bytes (int j) bs buf = Inr (patch bs j buf)"
  by (simp add: patch_def)

lemma write_sectors_ok:
  assumes "file_ok h" "disk_ok d" "b < nat (numSectors h)" "length buf = (Suc b - a) * SectorSize"
  obtains d' where "write_sectors h (int a) (int b) buf d = Inr d'" "disk_ok d'"
    "\<And>i. a \<le> i \<Longrightarrow> i \<le> b \<Longrightarrow> sector d' (blocks h ! i) = take SectorSize (drop ((i - a) * SectorSize) buf)"
    "\<And>t. (\<And>i. a \<le> i \<Longrightarrow> i \<le> b \<Longrightarrow> t \<noteq> blocks h ! i) \<Longrightarrow> sector d' t = sector d t"
proof -
  let ?c = "\<lambda>i. take SectorSize (drop ((i - a) * SectorSize) buf)"
  let ?ws = "map (\<lambda>i. (int (blocks h ! i), ?c i)) [a..<Suc b]"
  have g: "get_bytes ((int i - int a) * int SectorSize) (int SectorSize) buf = Inr (?c i)" "length (?c i) = SectorSize"
    if i: "a \<le> i" "i < Suc b" for i
  proof -
    have "Suc (i - a) * SectorSize \<le> length buf" unfolding assms(4) using i by (intro mult_le_mono1) simp
    then have l: "(i - a) * SectorSize + SectorSize \<le> length buf" by simp
    moreover have "(int i - int a) * int SectorSize = int ((i - a) * SectorSize)" using i by (simp add: of_nat_diff)
    ultimately show "get_bytes ((int i - int a) * int SectorSize) (int SectorSize) buf = Inr (?c i)"
      by (simp del: of_nat_mult)
    show "length (?c i) = SectorSize" using l by simp
  qed
  have "write_sectors h (int a) (int b) buf d = fold_res (\<lambda>(s, bs). SynchDisk_WriteSector s bs) ?ws d"
    unfolding write_sectors_def upto_nat fold_res_map
    using assms(1,3) g(1) by (intro fold_res_cong) (simp add: ByteToSector_direct del: upt_Suc)
  moreover have "\<forall>(s, bs) \<in> set ?ws. 0 \<le> s \<and> s < int NumSectors \<and> length bs = SectorSize"
    using g(2) blocks_in [OF assms(1)] assms(3) by (auto simp del: upt_Suc)
  moreover have "distinct (map fst ?ws)"
    using assms(1,3) file_ok_blocks(1) [OF assms(1)]
    by (auto simp: distinct_map inj_on_def file_ok_def nth_eq_iff_index_eq simp del: upt_Suc)
  ultimately obtain d' where d': "write_sectors h (int a) (int b) buf d = Inr d'" "disk_ok d'"
    "\<forall>(s, bs) \<in> set ?ws. sector d' (nat s) = bs" "\<And>t. int t \<notin> fst ` set ?ws \<Longrightarrow> sector d' t = sector d t"
    using bd.wr_list [OF assms(2), of ?ws] by auto
  show thesis
  proof (rule that [OF d'(1,2)])
    show "sector d' (blocks h ! i) = ?c i" if "a \<le> i" "i \<le> b" for i
      using d'(3) that by (fastforce simp del: upt_Suc)
    fix t assume "\<And>i. a \<le> i \<Longrightarrow> i \<le> b \<Longrightarrow> t \<noteq> blocks h ! i"
    then have "\<not> (\<exists>i. a \<le> i \<and> i \<le> b \<and> t = blocks h ! i)" by blast
    then show "sector d' t = sector d t" by (intro d'(4)) (auto simp: less_Suc_eq_le simp del: upt_Suc)
  qed
qed

lemma read_into_ok:
  assumes "file_ok (hdr f)" "disk_ok d" "i < nat (numSectors (hdr f))" "j + SectorSize \<le> length buf"
  obtains d' where "read_into f (int i * int SectorSize) (int j) (buf, d) =
      Inr (patch (take SectorSize (drop (i * SectorSize) (contents (hdr f) d))) j buf, d')" "disk_ok d'" "sector d' = sector d"
proof -
  let ?x = "take SectorSize (drop (i * SectorSize) (contents (hdr f) d))"
  have "i \<le> 13" using file_ok_sectors(3) [OF assms(1)] assms(3) by simp
  then have r: "is_int (int (i * SectorSize) + int SectorSize)" by (simp add: is_int_def SectorSize_def)
  have p: "put_bytes (int j) ?x buf = Inr (patch ?x j buf)" using assms(4) by (intro put_bytes_patch) simp
  obtain d' where "ReadAt f (int SectorSize) (int (i * SectorSize)) d = Inr (int (length ?x), ?x, d')" "disk_ok d'" "sector d' = sector d"
    by (rule ReadAt_ok [OF assms(1,2) _ r]) (simp_all only: nat_int)
  then show thesis using p that by (simp add: read_into_def)
qed

text \<open>The buffer that WriteAt writes back: inside the file it holds the new bytes where they go and the old ones elsewhere.\<close>

lemma buffer_nth:
  fixes S :: nat and buf1 buf2 buf3 :: "byte list"
  assumes m: "A + p + m \<le> length C" "length bs = m" "p < S" "p + m \<le> M + S" "M < p + m" "M \<noteq> 0 \<Longrightarrow> S \<le> M"
    and buf: "length buf = M + S"
    and buf1: "buf1 = (if p \<noteq> 0 then patch (take S (drop A C)) 0 buf else buf)"
    and buf2: "buf2 = (if p + m \<noteq> M + S \<and> (M \<noteq> 0 \<or> p = 0) then patch (take S (drop (A + M) C)) M buf1 else buf1)"
    and buf3: "buf3 = patch bs p buf2"
  shows "length buf3 = length buf"
    "\<And>j. j < M + S \<Longrightarrow> A + j < length C \<Longrightarrow> buf3 ! j = patch bs (A + p) C ! (A + j)"
proof -
  have l1: "length buf1 = M + S" unfolding buf1 using buf by simp
  then have l2: "length buf2 = M + S" unfolding buf2 by simp
  then have o: "p + length bs \<le> length buf2" using m(2,4) by simp
  then show "length buf3 = length buf" unfolding buf3 using l2 buf by simp
  fix j assume j: "j < M + S" "A + j < length C"
  have jC: "j < length C - A" using j(2) by simp
  have s1: "buf1 ! j = C ! (A + j)" if "p \<noteq> 0" "j < S" using that jC buf by (simp add: buf1 patch_nth)
  have "buf2 ! j = C ! (A + j)" if "\<not> (p \<le> j \<and> j < p + m)"
  proof (cases "j < p")
    case True
    then have "buf2 ! j = buf1 ! j" using m(3,6) l1 by (auto simp: buf2 patch_nth)
    then show ?thesis using s1 True m(3) by simp
  next
    case False
    then have g: "p + m \<le> j" "p + m \<noteq> M + S" using that j(1) by simp_all
    show ?thesis
    proof (cases "M \<noteq> 0 \<or> p = 0")
      case True
      have "M \<le> j" "j < M + min (length C - (A + M)) S" "j - M < S" "j - M < length C - (A + M)" using g j m(5) by linarith+
      then show ?thesis using True g j(1) l1 by (simp add: buf2 patch_nth)
    next
      case False
      then show ?thesis using s1 j(1) by (simp add: buf2)
    qed
  qed
  moreover have "buf3 ! j = (if p \<le> j \<and> j < p + m then bs ! (j - p) else buf2 ! j)"
    unfolding buf3 using patch_nth [OF o, of j] j(1) l2 m(2) by simp
  moreover have "patch bs (A + p) C ! (A + j) = (if p \<le> j \<and> j < p + m then bs ! (j - p) else C ! (A + j))"
    using patch_nth [of "A + p" bs C "A + j"] m(1,2) j(2) by simp
  ultimately show "buf3 ! j = patch bs (A + p) C ! (A + j)" by presburger
qed

text \<open>The sectors of the file after its middle part has been written.\<close>

lemma contents_written:
  assumes h: "file_ok h" and m: "0 < m" "p + m \<le> nat (numBytes h)" "length bs = m"
    and a: "a = p div SectorSize" and b: "b = (p + m - 1) div SectorSize"
    and buf: "length buf = (Suc b - a) * SectorSize"
    and new: "\<And>k. a * SectorSize \<le> k \<Longrightarrow> k < Suc b * SectorSize \<Longrightarrow> k < nat (numBytes h) \<Longrightarrow>
      buf ! (k - a * SectorSize) = patch bs p (contents h d) ! k"
    and w: "\<And>i. a \<le> i \<Longrightarrow> i \<le> b \<Longrightarrow> sector d' (blocks h ! i) = take SectorSize (drop ((i - a) * SectorSize) buf)"
      "\<And>t. (\<And>i. a \<le> i \<Longrightarrow> i \<le> b \<Longrightarrow> t \<noteq> blocks h ! i) \<Longrightarrow> sector d' t = sector d t"
  shows "contents h d' = patch bs p (contents h d)"
proof (rule nth_equalityI)
  note B = span_bounds [OF m(1), of p, folded a b]
  show "length (contents h d') = length (patch bs p (contents h d))" using m by (simp add: length_contents [OF h])
  fix k assume "k < length (contents h d')"
  then have k: "k < nat (numBytes h)" by (simp add: length_contents [OF h])
  let ?i = "k div SectorSize"
  have i: "?i < nat (numSectors h)" by (rule file_ok_sectors(4) [OF h k])
  have km: "?i * SectorSize \<le> k" "k < Suc ?i * SectorSize" "k mod SectorSize < SectorSize"
    "?i * SectorSize + k mod SectorSize = k" by (simp_all add: SectorSize_def dividend_less_times_div)
  have c: "contents h d' ! k = sector d' (blocks h ! ?i) ! (k mod SectorSize)" by (rule contents_nth [OF h k])
  show "contents h d' ! k = patch bs p (contents h d) ! k"
  proof (cases "a \<le> ?i \<and> ?i \<le> b")
    case True
    then have "a * SectorSize \<le> ?i * SectorSize" "Suc ?i * SectorSize \<le> Suc b * SectorSize" by (simp_all only: mult_le_mono1 Suc_le_mono)
    then have r: "a * SectorSize \<le> k" "k < Suc b * SectorSize" using km by linarith+
    have "(?i - a) * SectorSize + k mod SectorSize = k - a * SectorSize"
      using True r(1) km(4) \<open>a * SectorSize \<le> ?i * SectorSize\<close> unfolding diff_mult_distrib by linarith
    moreover have "k - a * SectorSize < length buf" using r unfolding buf diff_mult_distrib by linarith
    ultimately have "sector d' (blocks h ! ?i) ! (k mod SectorSize) = buf ! (k - a * SectorSize)"
      using w(1) [of ?i] True km(3) by simp
    then show ?thesis using new [OF r k] c by simp
  next
    case False
    have "blocks h ! ?i \<noteq> blocks h ! j" if "a \<le> j" "j \<le> b" for j
    proof -
      have "p + m - 1 < nat (numBytes h)" using m(1,2) by linarith
      then have "j < nat (numSectors h)" using that(2) file_ok_sectors(4) [OF h] b by (meson le_less_trans)
      moreover have "?i \<noteq> j" using False that by auto
      ultimately show ?thesis using h i file_ok_blocks(1) [OF h] by (simp add: file_ok_def nth_eq_iff_index_eq)
    qed
    then have "contents h d' ! k = contents h d ! k" using w(2) contents_nth [OF h k] c by simp
    moreover have "\<not> (p \<le> k \<and> k < p + m)"
    proof
      assume pk: "p \<le> k \<and> k < p + m"
      then have "p div SectorSize \<le> ?i" "?i \<le> (p + m - 1) div SectorSize" by (auto intro!: div_le_mono)
      then show False using False a b by simp
    qed
    ultimately show ?thesis using patch_nth [of p bs "contents h d" k] m k by (auto simp: length_contents [OF h])
  qed
qed

lemma patch_Nil [simp]: "patch [] p xs = xs"
  by (simp add: patch_def)

text \<open>The two partial sectors are read first.\<close>

lemma partial_reads:
  assumes f: "file_ok (hdr f)" and d: "disk_ok d" and ab: "a \<le> b" "b < nat (numSectors (hdr f))"
    and M: "M = (b - a) * SectorSize" and lb: "length buf = M + SectorSize"
    and buf1: "buf1 = (if q \<noteq> 0 then patch (take SectorSize (drop (a * SectorSize) (contents (hdr f) d))) 0 buf else buf)"
    and buf2: "buf2 = (if r \<and> (M \<noteq> 0 \<or> q = 0)
      then patch (take SectorSize (drop (a * SectorSize + M) (contents (hdr f) d))) M buf1 else buf1)"
  obtains d1 d2 where
    "(if q \<noteq> (0::nat) then read_into f (int a * int SectorSize) 0 (buf, d) else Inr (buf, d)) = Inr (buf1, d1)"
    "(if r \<and> (M \<noteq> 0 \<or> q = 0) then read_into f (int b * int SectorSize) (int M) (buf1, d1) else Inr (buf1, d1)) = Inr (buf2, d2)"
    "disk_ok d2" "sector d2 = sector d"
proof -
  obtain d1 where d1: "(if q \<noteq> 0 then read_into f (int a * int SectorSize) 0 (buf, d) else Inr (buf, d)) = Inr (buf1, d1)"
    "disk_ok d1" "sector d1 = sector d"
  proof (cases "q \<noteq> 0")
    case True
    obtain d1 where "read_into f (int a * int SectorSize) (int 0) (buf, d) =
        Inr (patch (take SectorSize (drop (a * SectorSize) (contents (hdr f) d))) 0 buf, d1)" "disk_ok d1" "sector d1 = sector d"
      by (rule read_into_ok [OF f d, of a 0 buf]) (use ab lb in auto)
    then show thesis using that True by (simp add: buf1)
  qed (use d that in \<open>auto simp: buf1\<close>)
  have l1: "length buf1 = M + SectorSize" using lb by (simp add: buf1)
  have e: "b * SectorSize = a * SectorSize + M" using ab(1) by (simp add: M diff_mult_distrib)
  have c: "contents (hdr f) d1 = contents (hdr f) d" using d1(3) by (simp add: contents_def)
  show thesis
  proof (cases "r \<and> (M \<noteq> 0 \<or> q = 0)")
    case True
    obtain d2 where "read_into f (int b * int SectorSize) (int M) (buf1, d1) =
        Inr (patch (take SectorSize (drop (b * SectorSize) (contents (hdr f) d1))) M buf1, d2)" "disk_ok d2" "sector d2 = sector d1"
      by (rule read_into_ok [OF f d1(2) ab(2), of M buf1]) (use l1 in auto)
    then show thesis using that d1 True by (simp add: buf2 e c)
  next
    case False
    then show thesis using that d1 by (auto simp: buf2)
  qed
qed

lemma span_ints:
  assumes "p = int a * int SectorSize + int q" "a \<le> b" "M = (b - a) * SectorSize" "is_int (p + int m)"
  shows "p = int a * int SectorSize \<longleftrightarrow> q = 0" "s32 (p + int m) = (int b + 1) * int SectorSize \<longleftrightarrow> q + m = M + SectorSize"
    "a = b \<longleftrightarrow> M = 0" "nat ((1 + int b - int a) * int SectorSize) = M + SectorSize" "(int b - int a) * int SectorSize = int M"
    "p - int a * int SectorSize = int q"
proof -
  show M: "(int b - int a) * int SectorSize = int M" using assms(2) by (simp add: assms(3) of_nat_diff)
  then have M1: "(1 + int b - int a) * int SectorSize = int (M + SectorSize)" "int b * int SectorSize = int a * int SectorSize + int M"
    by (simp_all add: algebra_simps)
  then show "nat ((1 + int b - int a) * int SectorSize) = M + SectorSize" by simp
  show "p = int a * int SectorSize \<longleftrightarrow> q = 0" "p - int a * int SectorSize = int q" using assms(1) by simp_all
  show "a = b \<longleftrightarrow> M = 0" using assms(2,3) by (auto simp: SectorSize_def)
  have "s32 (p + int m) = (int b + 1) * int SectorSize \<longleftrightarrow> int q + int m = int M + int SectorSize"
    using assms(1,4) M1(2) by (simp add: algebra_simps)
  also have "\<dots> \<longleftrightarrow> q + m = M + SectorSize" by (simp only: of_nat_add [symmetric] of_nat_eq_iff)
  finally show "s32 (p + int m) = (int b + 1) * int SectorSize \<longleftrightarrow> q + m = M + SectorSize" .
qed

lemma WriteAt_ok:
  assumes f: "file_ok (hdr f)" and d: "disk_ok d" and p: "0 \<le> p" "is_int (p + n)" "n \<le> int (length from)"
  defines "w \<equiv> take (length (contents (hdr f) d) - nat p) (take (nat n) from)"
  obtains d' where "WriteAt mem f from n p d = Inr (int (length w), d')" "disk_ok d'"
    "contents (hdr f) d' = patch w (nat p) (contents (hdr f) d)"
    "\<And>t. t \<notin> set (blocks (hdr f)) \<Longrightarrow> sector d' t = sector d t"
proof (cases "0 < n \<and> p < FileLength (hdr f)")
  case True
  let ?C = "contents (hdr f) d"
  obtain m where r: "request f n p = Inr (int m, int (nat p div SectorSize), int ((nat p + m - 1) div SectorSize))"
    and m: "0 < m" "m = min (nat n) (nat (numBytes (hdr f)) - nat p)" "nat p + m \<le> nat (numBytes (hdr f))"
    "(nat p + m - 1) div SectorSize < nat (numSectors (hdr f))" "is_int (p + int m)"
    using request_ok [OF f p(1) _ _ p(2)] True by blast
  define a b where a: "a = nat p div SectorSize" and b: "b = (nat p + m - 1) div SectorSize"
  note B = span_bounds [OF m(1), of "nat p", folded a b]
  define q where "q = nat p - a * SectorSize"
  define M where "M = (b - a) * SectorSize"
  have e: "a * SectorSize + q = nat p" "p = int a * int SectorSize + int q" using B(2) p(1) by (simp_all add: q_def flip: of_nat_mult of_nat_add)
  have Ml: "Suc b * SectorSize = a * SectorSize + M + SectorSize" "b * SectorSize = a * SectorSize + M" "(Suc b - a) * SectorSize = M + SectorSize"
    using B(1) by (simp_all add: M_def diff_mult_distrib Suc_diff_le)
  have MS: "M \<noteq> 0 \<Longrightarrow> SectorSize \<le> M" by (auto simp: M_def)
  have nn: "nat n \<le> length from" using p(3) by simp
  have "min (nat (numBytes (hdr f)) - nat p) (nat n) = m" unfolding m(2) by (rule min.commute)
  then have w1: "w = take m from" unfolding w_def length_contents [OF f] take_take by (rule arg_cong)
  have "m \<le> length from" using m(2) nn by linarith
  then have w: "w = take m from" "length w = m" unfolding w1 by simp_all
  define buf where "buf = new_bytes mem NewBuffer (M + SectorSize)"
  define buf1 where "buf1 = (if q \<noteq> 0 then patch (take SectorSize (drop (a * SectorSize) ?C)) 0 buf else buf)"
  define buf2 where "buf2 = (if q + m \<noteq> M + SectorSize \<and> (M \<noteq> 0 \<or> q = 0)
    then patch (take SectorSize (drop (a * SectorSize + M) ?C)) M buf1 else buf1)"
  define buf3 where "buf3 = patch w q buf2"
  have lb: "length buf = M + SectorSize" by (simp add: buf_def)
  have q: "a * SectorSize + q + m \<le> length ?C" "q < SectorSize" "q + m \<le> M + SectorSize" "M < q + m"
    using m(3) B(3) [folded q_def] B(4,5) Ml(1,2) e(1) unfolding length_contents [OF f] by linarith+
  note N = buffer_nth [OF q(1) w(2) q(2-4) MS lb buf1_def buf2_def buf3_def]
  have l2: "length buf2 = M + SectorSize" using lb by (simp add: buf2_def buf1_def)
  note E = span_ints [OF e(2) B(1) M_def m(5)]
  obtain d1 d2 where R:
    "(if q \<noteq> 0 then read_into f (int a * int SectorSize) 0 (buf, d) else Inr (buf, d)) = Inr (buf1, d1)"
    "(if q + m \<noteq> M + SectorSize \<and> (M \<noteq> 0 \<or> q = 0) then read_into f (int b * int SectorSize) (int M) (buf1, d1) else Inr (buf1, d1)) = Inr (buf2, d2)"
    "disk_ok d2" "sector d2 = sector d"
    by (rule partial_reads [OF f d B(1) m(4) [folded b] M_def lb buf1_def buf2_def])
  obtain d' where W: "write_sectors (hdr f) (int a) (int b) buf3 d2 = Inr d'" "disk_ok d'"
    "\<And>i. a \<le> i \<Longrightarrow> i \<le> b \<Longrightarrow> sector d' (blocks (hdr f) ! i) = take SectorSize (drop ((i - a) * SectorSize) buf3)"
    "\<And>t. (\<And>i. a \<le> i \<Longrightarrow> i \<le> b \<Longrightarrow> t \<noteq> blocks (hdr f) ! i) \<Longrightarrow> sector d' t = sector d2 t"
    by (rule write_sectors_ok [OF f R(3) m(4) [folded b], of buf3 a]) (use N(1) lb Ml(3) in auto)
  have r1: "(if p \<noteq> int a * int SectorSize then read_into f (int a * int SectorSize) 0 (buf, d) else Inr (buf, d)) = Inr (buf1, d1)"
    using R(1) unfolding E(1) .
  have r2: "(if s32 (p + int m) \<noteq> (int b + 1) * int SectorSize \<and> (int a \<noteq> int b \<or> p = int a * int SectorSize)
      then read_into f (int b * int SectorSize) ((int b - int a) * int SectorSize) (buf1, d1) else Inr (buf1, d1)) = Inr (buf2, d2)"
    using R(2) unfolding E(1,2,5) of_nat_eq_iff E(3) .
  have c: "\<not> (n \<le> 0 \<or> p \<ge> FileLength (hdr f))" using True by linarith
  have g: "get_bytes 0 (int m) from = Inr w" "put_bytes (int q) w buf2 = Inr buf3"
    using w \<open>m \<le> length from\<close> q(3) by (simp_all add: buf3_def patch_def l2)
  have "WriteAt mem f from n p d = Inr (int m, d')"
    unfolding WriteAt_def if_not_P [OF c] r [folded a b] bind_res.simps prod.case Let_def E(4) buf_def [symmetric] r1 r2 g(1) E(6) g(2) W(1) ..
  moreover have "contents (hdr f) d' = patch w (nat p) ?C"
  proof (rule contents_written [OF f m(1,3) w(2) a b _ _ W(3)])
    show "length buf3 = (Suc b - a) * SectorSize" using N(1) lb Ml(3) by simp
    show "buf3 ! (k - a * SectorSize) = patch w (nat p) ?C ! k"
      if "a * SectorSize \<le> k" "k < Suc b * SectorSize" "k < nat (numBytes (hdr f))" for k
      using N(2) [of "k - a * SectorSize"] that Ml(1) e(1) by (simp add: length_contents [OF f])
    show "sector d' t = sector d t" if "\<And>i. a \<le> i \<Longrightarrow> i \<le> b \<Longrightarrow> t \<noteq> blocks (hdr f) ! i" for t
      using W(4) [OF that] R(4) by simp
  qed
  moreover have "sector d' t = sector d t" if t: "t \<notin> set (blocks (hdr f))" for t
  proof -
    have "t \<noteq> blocks (hdr f) ! i" if "i \<le> b" for i
      using t that m(4) b file_ok_blocks(1) [OF f] nth_mem [of i "blocks (hdr f)"] by auto
    then show ?thesis using W(4) [of t] R(4) by simp
  qed
  ultimately show thesis using that W(2) w(2) by simp
next
  case False
  then have "w = []" by (auto simp: w_def length_contents [OF f] FileLength_def)
  then show thesis using that [of d] False d by (auto simp: WriteAt_def)
qed

subsection \<open>The current position\<close>

text \<open>An open file whose header has a sector of its own.\<close>

definition open_ok :: "OpenFile \<Rightarrow> bool" where
  "open_ok f \<longleftrightarrow> file_ok (hdr f) \<and> 0 \<le> hdrSector f \<and> hdrSector f < int NumSectors \<and>
     nat (hdrSector f) \<notin> set (blocks (hdr f)) \<and> 0 \<le> seekPosition f \<and> is_int (seekPosition f)"

lemma setAccessTime_simps [simp]:
  "numBytes (setAccessTime t h) = numBytes h" "numSectors (setAccessTime t h) = numSectors h"
  "dataSectors (setAccessTime t h) = dataSectors h" "blocks (setAccessTime t h) = blocks h"
  "contents (setAccessTime t h) d = contents h d"
  by (simp_all add: setAccessTime_def blocks_def contents_def)

lemma file_ok_setAccessTime [simp]: "file_ok h \<Longrightarrow> file_ok (setAccessTime t h)"
  by (simp add: file_ok_def)

lemma file_ok_bytes: "file_ok h \<Longrightarrow> length (hdr_bytes h) = SectorSize"
  by (simp add: file_ok_def length_hdr_bytes)

lemma position_is_int: "file_ok h \<Longrightarrow> 0 \<le> p \<Longrightarrow> is_int p \<Longrightarrow> is_int (p + int (min n (length (contents h d) - nat p)))"
  by (auto simp: length_contents file_ok_def is_int_def SectorSize_def min_def)

lemma OpenFile_Read_ok:
  fixes t :: tm
  assumes f: "open_ok f" and d: "disk_ok d" and n: "is_int (seekPosition f + n)"
  defines "bs \<equiv> take (nat n) (drop (nat (seekPosition f)) (contents (hdr f) d))"
  defines "f1 \<equiv> f\<lparr>seekPosition := seekPosition f + int (length bs), hdr := setAccessTime t (hdr f)\<rparr>"
  obtains d1 where "OpenFile_Read t f n d = Inr (int (length bs), bs, f1, d1)" "disk_ok d1" "open_ok f1"
    "sector d1 = (sector d)(nat (hdrSector f) := hdr_bytes (hdr f1))" "contents (hdr f1) d1 = contents (hdr f) d"
proof -
  have f': "file_ok (hdr f)" "0 \<le> hdrSector f" "hdrSector f < int NumSectors" "nat (hdrSector f) \<notin> set (blocks (hdr f))"
    "0 \<le> seekPosition f" "is_int (seekPosition f)" using f by (simp_all add: open_ok_def)
  obtain d0 where d0: "ReadAt f n (seekPosition f) d = Inr (int (length bs), bs, d0)" "disk_ok d0" "sector d0 = sector d"
    unfolding bs_def by (rule ReadAt_ok [OF f'(1) d f'(5) n])
  have i: "is_int (seekPosition f + int (length bs))"
    using position_is_int [OF f'(1,5,6), of "nat n" d] by (simp add: bs_def min.commute)
  obtain d1 where d1: "SynchDisk_WriteSector (hdrSector f) (hdr_bytes (setAccessTime t (hdr f))) d0 = Inr d1" "disk_ok d1"
    "sector d1 = (sector d0)(nat (hdrSector f) := hdr_bytes (setAccessTime t (hdr f)))"
    using bd.wr_ok [OF d0(2) f'(2,3) file_ok_bytes [OF file_ok_setAccessTime [OF f'(1)]]] by blast
  have "OpenFile_Read t f n d = Inr (int (length bs), bs, f1, d1)"
    using d0(1) d1(1) i by (simp add: OpenFile_Read_def FileHeader_WriteBack_def f1_def Let_def)
  moreover have "open_ok f1" using f i by (simp add: open_ok_def f1_def)
  moreover have "contents (hdr f1) d1 = contents (hdr f) d"
    using contents_upd [OF f'(4) d1(3)] d0(3) by (simp add: f1_def contents_def)
  ultimately show thesis using that d1 d0(3) by (simp add: f1_def)
qed

lemma OpenFile_Write_ok:
  fixes t :: tm
  assumes f: "open_ok f" and d: "disk_ok d" and n: "is_int (seekPosition f + n)" "n \<le> int (length from)"
  defines "bs \<equiv> take (length (contents (hdr f) d) - nat (seekPosition f)) (take (nat n) from)"
  defines "f1 \<equiv> f\<lparr>seekPosition := seekPosition f + int (length bs), hdr := setAccessTime t (hdr f)\<rparr>"
  obtains d1 where "OpenFile_Write mem t f from n d = Inr (int (length bs), f1, d1)" "disk_ok d1" "open_ok f1"
    "contents (hdr f1) d1 = patch bs (nat (seekPosition f)) (contents (hdr f) d)"
    "sector d1 (nat (hdrSector f)) = hdr_bytes (hdr f1)"
    "\<And>s. s \<noteq> nat (hdrSector f) \<Longrightarrow> s \<notin> set (blocks (hdr f)) \<Longrightarrow> sector d1 s = sector d s"
proof -
  have f': "file_ok (hdr f)" "0 \<le> hdrSector f" "hdrSector f < int NumSectors" "nat (hdrSector f) \<notin> set (blocks (hdr f))"
    "0 \<le> seekPosition f" "is_int (seekPosition f)" using f by (simp_all add: open_ok_def)
  obtain d0 where d0: "WriteAt mem f from n (seekPosition f) d = Inr (int (length bs), d0)" "disk_ok d0"
    "contents (hdr f) d0 = patch bs (nat (seekPosition f)) (contents (hdr f) d)"
    "\<And>t. t \<notin> set (blocks (hdr f)) \<Longrightarrow> sector d0 t = sector d t"
    unfolding bs_def by (rule WriteAt_ok [OF f'(1) d f'(5) n]) blast
  have "length bs = min (min (length from) (nat n)) (length (contents (hdr f) d) - nat (seekPosition f))"
    by (simp add: bs_def min.commute min.left_commute min.assoc)
  then have i: "is_int (seekPosition f + int (length bs))"
    using position_is_int [OF f'(1,5,6), of "min (length from) (nat n)" d] by simp
  obtain d1 where d1: "SynchDisk_WriteSector (hdrSector f) (hdr_bytes (setAccessTime t (hdr f))) d0 = Inr d1" "disk_ok d1"
    "sector d1 = (sector d0)(nat (hdrSector f) := hdr_bytes (setAccessTime t (hdr f)))"
    using bd.wr_ok [OF d0(2) f'(2,3) file_ok_bytes [OF file_ok_setAccessTime [OF f'(1)]]] by blast
  have "OpenFile_Write mem t f from n d = Inr (int (length bs), f1, d1)"
    using d0(1) d1(1) i by (simp add: OpenFile_Write_def FileHeader_WriteBack_def f1_def Let_def)
  moreover have "open_ok f1" using f i by (simp add: open_ok_def f1_def)
  moreover have "contents (hdr f1) d1 = contents (hdr f) d0"
    using contents_upd [OF f'(4) d1(3)] by (simp add: f1_def)
  ultimately show thesis using that d1 d0 by (simp add: f1_def)
qed

text \<open>One more piece of a file.\<close>

definition read_next :: "tm \<Rightarrow> nat \<Rightarrow> byte list \<times> OpenFile \<times> Disk \<Rightarrow> (byte list \<times> OpenFile \<times> Disk) res" where
  "read_next t n = (\<lambda>(out, f, d). bind_res (OpenFile_Read t f (int n) d) (\<lambda>(_, bs, f1, d1). Inr (out @ bs, f1, d1)))"

subsection \<open>Properties\<close>

text \<open>C16. Reading and writing a file of at most 1792 bytes (its direct blocks) at any position from 0 on, the end within the range of \<open>int\<close>: ReadAt returns the bytes of the file from the position on, as many as
  asked for and there are; WriteAt replaces just those bytes, up to the end of the file, returns how many, and
  no sector outside the file changes. What the new buffer held does not matter.\<close>

theorem file_read_write:
  assumes "file_ok (hdr f)" "disk_ok d" "0 \<le> p" "is_int (p + n)" "n \<le> int (length from)"
  shows "(\<exists>d1. ReadAt f n p d = Inr (int (length (take (nat n) (drop (nat p) (contents (hdr f) d)))),
        take (nat n) (drop (nat p) (contents (hdr f) d)), d1) \<and> disk_ok d1 \<and> sector d1 = sector d) \<and>
    (\<exists>d1 w. w = take (length (contents (hdr f) d) - nat p) (take (nat n) from) \<and>
      WriteAt mem f from n p d = Inr (int (length w), d1) \<and> disk_ok d1 \<and>
      contents (hdr f) d1 = patch w (nat p) (contents (hdr f) d) \<and>
      (\<forall>s. s \<notin> set (blocks (hdr f)) \<longrightarrow> sector d1 s = sector d s))"
proof
  show "\<exists>d1. ReadAt f n p d = Inr (int (length (take (nat n) (drop (nat p) (contents (hdr f) d)))),
        take (nat n) (drop (nat p) (contents (hdr f) d)), d1) \<and> disk_ok d1 \<and> sector d1 = sector d"
    by (rule ReadAt_ok [OF assms(1-4)]) blast
  show "\<exists>d1 w. w = take (length (contents (hdr f) d) - nat p) (take (nat n) from) \<and>
      WriteAt mem f from n p d = Inr (int (length w), d1) \<and> disk_ok d1 \<and>
      contents (hdr f) d1 = patch w (nat p) (contents (hdr f) d) \<and>
      (\<forall>s. s \<notin> set (blocks (hdr f)) \<longrightarrow> sector d1 s = sector d s)"
    by (rule WriteAt_ok [OF assms, of mem]) blast
qed

text \<open>Reading a file in pieces: any sequence of calls of Read returns consecutive pieces of the file, which together are
  the file from where the first call started, until its end; afterwards the file on the disk is the same.\<close>

theorem sequential_reads:
  assumes "open_ok f" "disk_ok d" "\<forall>n \<in> set ns. n < 1000000" "seekPosition f \<le> FileLength (hdr f)"
  shows "\<exists>f1 d1. fold_res (read_next t) ns (out, f, d) =
      Inr (out @ take (sum_list ns) (drop (nat (seekPosition f)) (contents (hdr f) d)), f1, d1) \<and>
    disk_ok d1 \<and> contents (hdr f1) d1 = contents (hdr f) d \<and>
    seekPosition f1 = min (seekPosition f + int (sum_list ns)) (FileLength (hdr f))"
  using assms
proof (induction ns arbitrary: f d out)
  case Nil
  then show ?case by auto
next
  case (Cons n ns)
  let ?p = "nat (seekPosition f)" and ?C = "contents (hdr f) d"
  have L: "length ?C = nat (FileLength (hdr f))" "FileLength (hdr f) \<le> 1792" "0 \<le> seekPosition f"
    using Cons.prems(1) by (simp_all add: open_ok_def length_contents FileLength_def file_ok_def SectorSize_def)
  have "is_int (seekPosition f + int n)" using L Cons.prems(3,4) by (simp add: is_int_def)
  then obtain d1 f1 where R: "OpenFile_Read t f (int n) d = Inr (int (length (take n (drop ?p ?C))), take n (drop ?p ?C), f1, d1)"
    and f1: "f1 = f\<lparr>seekPosition := seekPosition f + int (length (take n (drop ?p ?C))), hdr := setAccessTime t (hdr f)\<rparr>"
    and o: "disk_ok d1" "open_ok f1" "contents (hdr f1) d1 = ?C"
    using OpenFile_Read_ok [OF Cons.prems(1,2), of "int n" t] by (metis nat_int)
  have s: "seekPosition f1 = min (seekPosition f + int n) (FileLength (hdr f))" "FileLength (hdr f1) = FileLength (hdr f)"
    using L Cons.prems(4) by (auto simp: f1 FileLength_def min_def)
  then have p1: "drop (nat (seekPosition f1)) ?C = drop n (drop ?p ?C)"
    using L by (simp add: min_def nat_add_distrib add.commute)
  from Cons.IH [OF o(2,1), of "out @ take n (drop ?p ?C)"] Cons.prems(3) s obtain f2 d2 where
    "fold_res (read_next t) ns (out @ take n (drop ?p ?C), f1, d1) =
      Inr ((out @ take n (drop ?p ?C)) @ take (sum_list ns) (drop n (drop ?p ?C)), f2, d2)"
    "disk_ok d2" "contents (hdr f2) d2 = ?C" "seekPosition f2 = min (seekPosition f1 + int (sum_list ns)) (FileLength (hdr f1))"
    unfolding o(3) p1 by auto
  moreover have "take n (drop ?p ?C) @ take (sum_list ns) (drop n (drop ?p ?C)) = take (n + sum_list ns) (drop ?p ?C)"
    by (simp add: take_add)
  moreover have "read_next t n (out, f, d) = Inr (out @ take n (drop ?p ?C), f1, d1)" using R by (simp add: read_next_def)
  ultimately show ?case using s by (auto simp: min_def)
qed

subsection \<open>Witnesses\<close>

text \<open>A file of 300 bytes in the sectors 10, 11 and 12, with its header in sector 9.\<close>

definition demo_hdr :: FileHeader where
  "demo_hdr = (new_FileHeader zeros)\<lparr>numBytes := 300, numSectors := 3, dataSectors := [10, 11, 12, 0, 0, 0, 0, 0, 0, 0, 0, 0, 0, 0, 0]\<rparr>"

definition demo_file :: OpenFile where
  "demo_file = \<lparr>hdr = demo_hdr, seekPosition = 0, hdrSector = 9\<rparr>"

lemma demo_blocks: "blocks demo_hdr = [10, 11, 12]"
  by (simp add: blocks_def demo_hdr_def)

lemma demo_ok: "file_ok demo_hdr" "open_ok demo_file"
proof -
  have "hdr_wf demo_hdr" using hdr_wf_new [of zeros] by (simp add: hdr_wf_def demo_hdr_def is_int_def NumFirst_def)
  then show "file_ok demo_hdr"
    unfolding file_ok_def demo_blocks
    by (simp add: demo_hdr_def SectorSize_def idivRoundUp_def sdiv_pos smod_pos less_Suc_eq numeral_3_eq_3
        NumSectors_def SectorsPerTrack_def NumTracks_def)
  then show "open_ok demo_file"
    by (simp add: open_ok_def demo_file_def demo_blocks NumSectors_def SectorsPerTrack_def NumTracks_def is_int_def)
qed

lemma file_read_write_witness:
  "\<exists>d d1. Disk_Disk None 0 = Inr d \<and> WriteAt zeros demo_file [1, 2, 3] 3 298 d = Inr (2, d1) \<and>
     contents demo_hdr d1 = patch [1, 2] 298 (contents demo_hdr d)"
proof -
  obtain d where d: "Disk_Disk None 0 = Inr d" "disk_ok d" by (rule Disk_new [of 0]) auto
  have f: "file_ok (hdr demo_file)" "is_int (298 + 3)" using demo_ok(1) by (simp_all add: demo_file_def is_int_def)
  have "length (contents (hdr demo_file) d) = 300"
    using length_contents [OF demo_ok(1), of d] by (simp add: demo_file_def demo_hdr_def)
  then show ?thesis
    using file_read_write [OF f(1) d(2) _ f(2), of "[1, 2, 3]" zeros] d(1) by (auto simp: demo_file_def)
qed

lemma sequential_reads_witness:
  "\<exists>d f1 d1. Disk_Disk None 0 = Inr d \<and>
     fold_res (read_next noon) [100, 150, 100] ([], demo_file, d) = Inr (contents demo_hdr d, f1, d1) \<and> seekPosition f1 = 300"
proof -
  obtain d where d: "Disk_Disk None 0 = Inr d" "disk_ok d" by (rule Disk_new [of 0]) auto
  have l: "length (contents demo_hdr d) = 300" "FileLength (hdr demo_file) = 300" "seekPosition demo_file = 0" "hdr demo_file = demo_hdr"
    using length_contents [OF demo_ok(1), of d] by (simp_all add: demo_file_def demo_hdr_def FileLength_def)
  from sequential_reads [OF demo_ok(2) d(2), of "[100, 150, 100]" noon "[]"] l d(1) show ?thesis by auto
qed

end
