(* ===== verification/Nachos_Directory.thy ===== *)
theory Nachos_Directory
  imports Nachos_OpenFile
begin

text \<open>
  Directories (filesys/directory.h, directory.cc): a table of file names with the sectors of their headers, which is
  kept on the disk as the bytes of a file. A name counts up to its eleventh byte. The locale \<open>name_table\<close>
  is what the file system relies on: a finite map from names to sectors with room for so many names.
\<close>

subsection \<open>Data\<close>

definition FileNameMaxLen :: nat where "FileNameMaxLen = 11"

text \<open>The two bytes between the flags and the sector number are padding of the compiler.\<close>

record DirectoryEntry =
  entry_type :: byte
  inUse :: bool
  padding :: "byte list"
  entry_sector :: int
  entry_name :: "byte list"

definition entry_size :: nat where "entry_size = 2 + 2 + 4 + (FileNameMaxLen + 1)"

definition entry_bytes :: "DirectoryEntry \<Rightarrow> byte list" where
  "entry_bytes e = [entry_type e, if inUse e then 1 else 0] @ padding e @ int_bytes (entry_sector e) @ entry_name e"

definition entry_of_bytes :: "byte list \<Rightarrow> DirectoryEntry" where
  "entry_of_bytes bs =
     \<lparr>entry_type = bs ! 0, inUse = (bs ! 1 \<noteq> 0), padding = take 2 (drop 2 bs), entry_sector = bytes_int (take 4 (drop 4 bs)),
      entry_name = take (FileNameMaxLen + 1) (drop 8 bs)\<rparr>"

definition table_bytes :: "DirectoryEntry list \<Rightarrow> byte list" where
  "table_bytes es = concat (map entry_bytes es)"

definition table_of_bytes :: "byte list \<Rightarrow> DirectoryEntry list" where
  "table_of_bytes bs = map (\<lambda>i. entry_of_bytes (take entry_size (drop (i * entry_size) bs))) [0..<length bs div entry_size]"

record Directory =
  tableSize :: nat
  table :: "DirectoryEntry list"

subsection \<open>Operations\<close>

definition new_entry :: "memory \<Rightarrow> nat \<Rightarrow> DirectoryEntry" where
  "new_entry mem i = (entry_of_bytes (map (mem NewDirectoryEntry) [i * entry_size..<i * entry_size + entry_size]))
     \<lparr>entry_name := replicate (FileNameMaxLen + 1) 0\<rparr>"

definition Directory_Directory :: "memory \<Rightarrow> nat \<Rightarrow> Directory" where
  "Directory_Directory mem n = \<lparr>tableSize = n, table = map (\<lambda>i. (new_entry mem i)\<lparr>inUse := False\<rparr>) [0..<n]\<rparr>"

definition Directory_FetchFrom :: "Directory \<Rightarrow> OpenFile \<Rightarrow> Disk \<Rightarrow> (Directory \<times> Disk) res" where
  "Directory_FetchFrom dir f d =
     bind_res (ReadAt f (int (tableSize dir * entry_size)) 0 d) (\<lambda>(_, bs, d1).
     bind_res (put_bytes 0 bs (table_bytes (table dir))) (\<lambda>mem1.
     Inr (dir\<lparr>table := table_of_bytes mem1\<rparr>, d1)))"

definition Directory_WriteBack :: "memory \<Rightarrow> Directory \<Rightarrow> OpenFile \<Rightarrow> Disk \<Rightarrow> Disk res" where
  "Directory_WriteBack mem dir f d =
     bind_res (WriteAt mem f (table_bytes (table dir)) (int (tableSize dir * entry_size)) 0 d) (\<lambda>(_, d1). Inr d1)"

fun findindex_loop :: "nat list \<Rightarrow> byte list \<Rightarrow> Directory \<Rightarrow> int res" where
  "findindex_loop [] fname dir = Inr (-1)"
| "findindex_loop (i # is) fname dir =
     bind_res (arr_get (table dir) i) (\<lambda>e.
       if inUse e \<and> strncmp_eq (entry_name e) fname FileNameMaxLen then Inr (int i) else findindex_loop is fname dir)"

definition FindIndex :: "byte list \<Rightarrow> Directory \<Rightarrow> int res" where
  "FindIndex fname dir = findindex_loop [0..<tableSize dir] fname dir"

definition Directory_Find :: "byte list \<Rightarrow> Directory \<Rightarrow> int res" where
  "Directory_Find fname dir =
     bind_res (FindIndex fname dir) (\<lambda>i.
       if i \<noteq> -1 then bind_res (arr_get (table dir) (nat i)) (\<lambda>e. Inr (entry_sector e)) else Inr (-1))"

fun add_loop :: "nat list \<Rightarrow> byte list \<Rightarrow> int \<Rightarrow> Directory \<Rightarrow> (bool \<times> Directory) res" where
  "add_loop [] fname newSector dir = Inr (False, dir)"
| "add_loop (i # is) fname newSector dir =
     bind_res (arr_get (table dir) i) (\<lambda>e.
       if \<not> inUse e
       then bind_res (arr_set (table dir) i
              (e\<lparr>inUse := True, entry_name := strncpy (entry_name e) fname FileNameMaxLen, entry_sector := newSector\<rparr>)) (\<lambda>t.
            Inr (True, dir\<lparr>table := t\<rparr>))
       else add_loop is fname newSector dir)"

definition Directory_Add :: "byte list \<Rightarrow> int \<Rightarrow> Directory \<Rightarrow> (bool \<times> Directory) res" where
  "Directory_Add fname newSector dir =
     bind_res (FindIndex fname dir) (\<lambda>i.
       if i \<noteq> -1 then Inr (False, dir) else add_loop [0..<tableSize dir] fname newSector dir)"

definition Directory_Remove :: "byte list \<Rightarrow> Directory \<Rightarrow> (bool \<times> Directory) res" where
  "Directory_Remove fname dir =
     bind_res (FindIndex fname dir) (\<lambda>i.
       if i = -1 then Inr (False, dir)
       else bind_res (arr_get (table dir) (nat i)) (\<lambda>e.
            bind_res (arr_set (table dir) (nat i) (e\<lparr>inUse := False, entry_name := bzero (entry_name e) FileNameMaxLen\<rparr>)) (\<lambda>t.
            Inr (True, dir\<lparr>table := t\<rparr>))))"

text \<open>\<open>%s\<close> prints up to the zero byte, which must be in the array.\<close>

definition print_s :: "byte list \<Rightarrow> byte list res" where
  "print_s s = (if 0 \<in> set s then Inr (takeWhile (\<lambda>c. c \<noteq> 0) s) else Inl OutOfBounds)"

definition list_entry :: "DirectoryEntry \<Rightarrow> byte list \<Rightarrow> byte list res" where
  "list_entry e out =
     (if inUse e then bind_res (print_s (entry_name e)) (\<lambda>s.
        Inr (out @ bytes ''isDirectory:['' @ print_d 1 @ bytes ''],fileName:['' @ s @ bytes ''],hdrSector:['' @
          print_d (entry_sector e) @ bytes ''],hdrItem inUse:['' @ print_d 1 @ bytes '']'' @ [10]))
      else Inr out)"

definition Directory_List :: "Directory \<Rightarrow> byte list res" where
  "Directory_List dir =
     fold_res (\<lambda>i out. bind_res (arr_get (table dir) i) (\<lambda>e. list_entry e out)) [0..<tableSize dir] []"

definition print_entry :: "DirectoryEntry \<Rightarrow> byte list \<times> Disk \<Rightarrow> (byte list \<times> Disk) res" where
  "print_entry e = (\<lambda>(out, d).
     if inUse e then bind_res (print_s (entry_name e)) (\<lambda>s.
       bind_res (FileHeader_FetchFrom (entry_sector e) d) (\<lambda>(h, d1).
       bind_res (FileHeader_Print h d1) (\<lambda>(txt, d2).
       Inr (out @ bytes ''isDirectory:['' @ print_d 1 @ bytes ''], Name:['' @ s @ bytes ''], hdrSector:['' @
         print_d (entry_sector e) @ bytes '']'' @ [10] @ txt, d2))))
     else Inr (out, d))"

definition Directory_Print :: "Directory \<Rightarrow> Disk \<Rightarrow> (byte list \<times> Disk) res" where
  "Directory_Print dir d =
     bind_res (fold_res (\<lambda>i s. bind_res (arr_get (table dir) i) (\<lambda>e. print_entry e s)) [0..<tableSize dir]
       (bytes ''Directory contents:'' @ [10], d)) (\<lambda>(out, d1). Inr (out @ [10], d1))"

subsection \<open>Layout on the disk\<close>

definition entry_wf :: "DirectoryEntry \<Rightarrow> bool" where
  "entry_wf e \<longleftrightarrow> length (padding e) = 2 \<and> is_int (entry_sector e) \<and> length (entry_name e) = FileNameMaxLen + 1 \<and>
     entry_name e ! FileNameMaxLen = 0"

lemma entry_size_val [simp]: "entry_size = 20"
  by (simp add: entry_size_def FileNameMaxLen_def)

lemma length_entry_bytes: "entry_wf e \<Longrightarrow> length (entry_bytes e) = entry_size"
  by (simp add: entry_wf_def entry_bytes_def FileNameMaxLen_def)

lemma entry_of_entry_bytes: "entry_wf e \<Longrightarrow> entry_of_bytes (entry_bytes e) = e"
  by (cases e) (simp add: entry_wf_def entry_bytes_def entry_of_bytes_def FileNameMaxLen_def)

lemma length_table_bytes: "list_all entry_wf es \<Longrightarrow> length (table_bytes es) = length es * entry_size"
  by (induction es) (simp_all add: table_bytes_def length_entry_bytes)

lemma table_of_Cons:
  assumes "entry_wf e"
  shows "table_of_bytes (entry_bytes e @ bs) = e # table_of_bytes bs"
proof -
  have l: "length (entry_bytes e) = 20" using length_entry_bytes [OF assms] by simp
  have "[0..<Suc m] = 0 # map Suc [0..<m]" for m by (simp add: map_Suc_upt upt_conv_Cons del: upt_Suc)
  moreover have "(20 + length bs) div 20 = Suc (length bs div 20)" by simp
  ultimately have "[0..<(20 + length bs) div 20] = 0 # map Suc [0..<length bs div 20]" by metis
  then show ?thesis
    using l entry_of_entry_bytes [OF assms] by (simp add: table_of_bytes_def comp_def)
qed

lemma table_of_table_bytes: "list_all entry_wf es \<Longrightarrow> table_of_bytes (table_bytes es) = es"
proof (induction es)
  case (Cons e es)
  then show ?case using table_of_Cons [of e "table_bytes es"] by (simp add: table_bytes_def)
qed (simp add: table_bytes_def table_of_bytes_def)

subsection \<open>The names of a directory\<close>

definition key :: "byte list \<Rightarrow> byte list" where
  "key fname = cstr FileNameMaxLen fname"

definition used :: "DirectoryEntry list \<Rightarrow> (byte list \<times> int) list" where
  "used es = map (\<lambda>e. (key (entry_name e), entry_sector e)) (filter inUse es)"

definition dir_map :: "Directory \<Rightarrow> byte list \<rightharpoonup> int" where
  "dir_map dir = map_of (used (table dir))"

definition dir_wf :: "Directory \<Rightarrow> bool" where
  "dir_wf dir \<longleftrightarrow> length (table dir) = tableSize dir \<and> list_all entry_wf (table dir) \<and> distinct (map fst (used (table dir)))"

definition dir_full :: "Directory \<Rightarrow> bool" where
  "dir_full dir \<longleftrightarrow> list_all inUse (table dir)"

lemma used_split: "i < length es \<Longrightarrow> used es = used (take i es) @ used [es ! i] @ used (drop (Suc i) es)"
  unfolding used_def map_append [symmetric] filter_append [symmetric] by (simp add: id_take_nth_drop [symmetric])

lemma used_update: "i < length es \<Longrightarrow> used (es[i := e]) = used (take i es) @ used [e] @ used (drop (Suc i) es)"
  unfolding used_def map_append [symmetric] filter_append [symmetric] by (simp add: upd_conv_take_nth_drop)

lemma findindex_loop_spec:
  "\<forall>i \<in> set is. i < length (table dir) \<Longrightarrow>
   (\<exists>i \<in> set is. inUse (table dir ! i) \<and> key (entry_name (table dir ! i)) = key fname \<and> findindex_loop is fname dir = Inr (int i)) \<or>
   (\<forall>i \<in> set is. \<not> (inUse (table dir ! i) \<and> key (entry_name (table dir ! i)) = key fname)) \<and> findindex_loop is fname dir = Inr (-1)"
  by (induction "is") (auto simp: strncmp_eq_iff key_def)

lemma FindIndex_cases:
  assumes "dir_wf dir"
  obtains (found) i where "FindIndex fname dir = Inr (int i)" "i < length (table dir)" "inUse (table dir ! i)"
      "key (entry_name (table dir ! i)) = key fname" "dir_map dir (key fname) = Some (entry_sector (table dir ! i))"
  | (none) "FindIndex fname dir = Inr (-1)" "dir_map dir (key fname) = None" "key fname \<notin> fst ` set (used (table dir))"
proof -
  have L: "length (table dir) = tableSize dir" using assms by (simp add: dir_wf_def)
  consider i where "i < tableSize dir" "inUse (table dir ! i)" "key (entry_name (table dir ! i)) = key fname" "FindIndex fname dir = Inr (int i)"
    | "\<forall>i < tableSize dir. \<not> (inUse (table dir ! i) \<and> key (entry_name (table dir ! i)) = key fname)" "FindIndex fname dir = Inr (-1)"
    using findindex_loop_spec [of "[0..<tableSize dir]" dir fname] L by (auto simp: FindIndex_def)
  then show thesis
  proof cases
    case (1 i)
    then have "(key fname, entry_sector (table dir ! i)) \<in> set (used (table dir))"
      using L by (force simp: used_def)
    then have "dir_map dir (key fname) = Some (entry_sector (table dir ! i))"
      using assms by (simp add: dir_map_def dir_wf_def)
    then show thesis using found 1 L by simp
  next
    case 2
    then have "key fname \<notin> fst ` set (used (table dir))" using L by (auto simp: used_def in_set_conv_nth)
    then show thesis using none 2 by (simp add: dir_map_def map_of_eq_None_iff)
  qed
qed

lemma add_loop_spec:
  "\<forall>i \<in> set is. i < length (table dir) \<Longrightarrow>
   (\<exists>i \<in> set is. \<not> inUse (table dir ! i) \<and> add_loop is fname s dir = Inr (True, dir\<lparr>table := (table dir)[i := (table dir ! i)
      \<lparr>inUse := True, entry_name := strncpy (entry_name (table dir ! i)) fname FileNameMaxLen, entry_sector := s\<rparr>]\<rparr>)) \<or>
   (\<forall>i \<in> set is. inUse (table dir ! i)) \<and> add_loop is fname s dir = Inr (False, dir)"
  by (induction "is") auto

lemma map_of_insert: "k \<notin> fst ` set (xs @ ys) \<Longrightarrow> map_of (xs @ (k, v) # ys) = (map_of (xs @ ys))(k \<mapsto> v)"
  by (induction xs) (auto simp: fun_eq_iff)

lemma map_of_delete: "k \<notin> fst ` set (xs @ ys) \<Longrightarrow> map_of (xs @ ys) = (map_of (xs @ (k, v) # ys))(k := None)"
proof (induction xs)
  case Nil
  then show ?case by (auto simp: fun_eq_iff map_of_eq_None_iff)
qed (auto simp: fun_eq_iff)

lemma list_all_update: "list_all P xs \<Longrightarrow> P x \<Longrightarrow> list_all P (xs[i := x])"
  by (auto simp: list_all_iff dest!: set_update_subset_insert [THEN subsetD])

lemma key_strncpy: "key (strncpy dst fname FileNameMaxLen) = key fname"
  by (simp add: key_def)

lemma entry_wf_set:
  assumes "entry_wf e" "is_int s"
  shows "entry_wf (e\<lparr>inUse := True, entry_name := strncpy (entry_name e) fname FileNameMaxLen, entry_sector := s\<rparr>)"
    "entry_wf (e\<lparr>inUse := False, entry_name := bzero (entry_name e) FileNameMaxLen\<rparr>)"
proof -
  have "strncpy (entry_name e) fname FileNameMaxLen ! FileNameMaxLen = drop FileNameMaxLen (entry_name e) ! 0"
    using length_cstr [of FileNameMaxLen fname] by (simp add: strncpy_def nth_append)
  then show "entry_wf (e\<lparr>inUse := True, entry_name := strncpy (entry_name e) fname FileNameMaxLen, entry_sector := s\<rparr>)"
    using assms by (simp add: entry_wf_def)
  show "entry_wf (e\<lparr>inUse := False, entry_name := bzero (entry_name e) FileNameMaxLen\<rparr>)"
    using assms(1) by (simp add: entry_wf_def bzero_def nth_append)
qed

lemma Find_eq: "dir_wf dir \<Longrightarrow> Directory_Find fname dir = Inr (case dir_map dir (key fname) of Some s \<Rightarrow> s | None \<Rightarrow> -1)"
  by (erule FindIndex_cases [of dir fname]) (simp_all add: Directory_Find_def)

lemma Add_refused:
  assumes "dir_wf dir" "dir_map dir (key fname) \<noteq> None \<or> dir_full dir"
  shows "Directory_Add fname s dir = Inr (False, dir)"
  using assms(1)
proof (cases rule: FindIndex_cases [of dir fname])
  case none
  then have "\<forall>i < tableSize dir. inUse (table dir ! i)" using assms by (auto simp: dir_full_def dir_wf_def list_all_length)
  then show ?thesis using none(1) assms(1) add_loop_spec [of "[0..<tableSize dir]" dir fname s]
    by (auto simp: Directory_Add_def dir_wf_def)
qed (simp add: Directory_Add_def)

lemma Add_done:
  assumes "dir_wf dir" "dir_map dir (key fname) = None" "\<not> dir_full dir" "is_int s"
  obtains dir' where "Directory_Add fname s dir = Inr (True, dir')" "dir_wf dir'" "tableSize dir' = tableSize dir"
    "dir_map dir' = (dir_map dir)(key fname \<mapsto> s)"
proof -
  have L: "length (table dir) = tableSize dir" "list_all entry_wf (table dir)" "distinct (map fst (used (table dir)))"
    using assms(1) by (simp_all add: dir_wf_def)
  have f: "FindIndex fname dir = Inr (-1)" "key fname \<notin> fst ` set (used (table dir))"
    using assms(1,2) by (auto elim: FindIndex_cases [of dir fname])
  have "\<exists>i < tableSize dir. \<not> inUse (table dir ! i)" using assms(3) L(1) by (auto simp: dir_full_def list_all_length)
  then obtain i where i: "i < tableSize dir" "\<not> inUse (table dir ! i)"
    and a: "add_loop [0..<tableSize dir] fname s dir = Inr (True, dir\<lparr>table := (table dir)[i := (table dir ! i)
      \<lparr>inUse := True, entry_name := strncpy (entry_name (table dir ! i)) fname FileNameMaxLen, entry_sector := s\<rparr>]\<rparr>)"
    using add_loop_spec [of "[0..<tableSize dir]" dir fname s] L(1) by auto
  let ?e = "(table dir ! i)\<lparr>inUse := True, entry_name := strncpy (entry_name (table dir ! i)) fname FileNameMaxLen, entry_sector := s\<rparr>"
  let ?d = "dir\<lparr>table := (table dir)[i := ?e]\<rparr>"
  let ?xs = "used (take i (table dir))" and ?ys = "used (drop (Suc i) (table dir))"
  have u: "used (table dir) = ?xs @ ?ys" using used_split [of i "table dir"] i L(1) by (simp add: used_def)
  have v: "used (table ?d) = ?xs @ (key fname, s) # ?ys"
    using used_update [of i "table dir" ?e] i L(1) by (simp add: used_def key_strncpy)
  have "entry_wf (table dir ! i)" using L(1,2) i(1) by (simp add: list_all_length)
  then have "list_all entry_wf ((table dir)[i := ?e])" by (intro list_all_update L(2) entry_wf_set(1) assms(4))
  then have "dir_wf ?d" using L f(2) v by (auto simp: dir_wf_def u)
  moreover have "dir_map ?d = (dir_map dir)(key fname \<mapsto> s)"
    using map_of_insert [of "key fname" ?xs ?ys s] f(2) v u by (simp add: dir_map_def)
  ultimately show thesis using that [of ?d] a f(1) by (simp add: Directory_Add_def)
qed

lemma Remove_missing: "dir_wf dir \<Longrightarrow> dir_map dir (key fname) = None \<Longrightarrow> Directory_Remove fname dir = Inr (False, dir)"
  by (erule FindIndex_cases [of dir fname]) (simp_all add: Directory_Remove_def)

lemma Remove_done:
  assumes "dir_wf dir" "dir_map dir (key fname) = Some s"
  obtains dir' where "Directory_Remove fname dir = Inr (True, dir')" "dir_wf dir'" "tableSize dir' = tableSize dir"
    "dir_map dir' = (dir_map dir)(key fname := None)"
proof -
  have L: "length (table dir) = tableSize dir" "list_all entry_wf (table dir)" "distinct (map fst (used (table dir)))"
    using assms(1) by (simp_all add: dir_wf_def)
  obtain i where f: "FindIndex fname dir = Inr (int i)" "i < length (table dir)" "inUse (table dir ! i)"
    "key (entry_name (table dir ! i)) = key fname"
    using assms by (auto elim: FindIndex_cases [of dir fname])
  let ?e = "(table dir ! i)\<lparr>inUse := False, entry_name := bzero (entry_name (table dir ! i)) FileNameMaxLen\<rparr>"
  let ?d = "dir\<lparr>table := (table dir)[i := ?e]\<rparr>"
  let ?xs = "used (take i (table dir))" and ?ys = "used (drop (Suc i) (table dir))"
  have u: "used (table dir) = ?xs @ (key fname, entry_sector (table dir ! i)) # ?ys"
    using used_split [of i "table dir"] f by (simp add: used_def)
  have v: "used (table ?d) = ?xs @ ?ys" using used_update [of i "table dir" ?e] f(2) by (simp add: used_def)
  have n: "key fname \<notin> fst ` set (?xs @ ?ys)" using L(3) u by auto
  have "entry_wf (table dir ! i)" "is_int 0" using L(2) f(2) by (simp_all add: list_all_length is_int_def)
  then have "list_all entry_wf ((table dir)[i := ?e])" by (intro list_all_update L(2) entry_wf_set(2))
  then have "dir_wf ?d" using L v u by (auto simp: dir_wf_def)
  moreover have "dir_map ?d = (dir_map dir)(key fname := None)"
    using map_of_delete [OF n] v u by (simp add: dir_map_def)
  ultimately show thesis using that [of ?d] f by (simp add: Directory_Remove_def)
qed

lemma key_key [simp]: "key (key fname) = key fname"
  by (simp add: key_def)

lemma dir_wf_new: "dir_wf (Directory_Directory mem n)" "dir_map (Directory_Directory mem n) = Map.empty"
proof -
  have "used (table (Directory_Directory mem n)) = []" by (simp add: used_def Directory_Directory_def)
  moreover have "entry_wf ((new_entry mem i)\<lparr>inUse := False\<rparr>)" for i
    by (simp add: entry_wf_def new_entry_def entry_of_bytes_def FileNameMaxLen_def)
  ultimately show "dir_wf (Directory_Directory mem n)" "dir_map (Directory_Directory mem n) = Map.empty"
    by (simp_all add: dir_wf_def dir_map_def Directory_Directory_def list_all_iff)
qed

subsection \<open>The contract of a table of names\<close>

lemma dir_full_iff: "dir_wf dir \<Longrightarrow> dir_full dir \<longleftrightarrow> card (dom (dir_map dir)) = tableSize dir"
proof -
  assume w: "dir_wf dir"
  have "dom (dir_map dir) = set (map fst (used (table dir)))" by (simp add: dir_map_def dom_map_of_conv_image_fst)
  then have "card (dom (dir_map dir)) = length (used (table dir))"
    using w distinct_card [of "map fst (used (table dir))"] by (simp only: dir_wf_def length_map)
  also have "\<dots> = length (filter inUse (table dir))" by (simp add: used_def)
  finally have c: "card (dom (dir_map dir)) = length (filter inUse (table dir))" .
  have "dir_full dir \<longleftrightarrow> filter inUse (table dir) = table dir" by (simp add: dir_full_def filter_id_conv list_all_iff)
  also have "\<dots> \<longleftrightarrow> length (filter inUse (table dir)) = length (table dir)"
    by (auto simp: filter_id_conv dest: length_filter_less [of _ "table dir" inUse])
  finally show ?thesis using c w by (simp add: dir_wf_def)
qed

locale name_table =
  fixes inv :: "'s \<Rightarrow> bool" and names :: "'s \<Rightarrow> 'k \<rightharpoonup> int" and capacity :: "'s \<Rightarrow> nat" and key_of :: "'n \<Rightarrow> 'k"
    and find :: "'n \<Rightarrow> 's \<Rightarrow> int res" and add remove :: "_"
  assumes find: "inv s \<Longrightarrow> find n s = Inr (case names s (key_of n) of Some x \<Rightarrow> x | None \<Rightarrow> -1)"
    and add_no: "inv s \<Longrightarrow> names s (key_of n) \<noteq> None \<or> card (dom (names s)) = capacity s \<Longrightarrow> add n x s = (Inr (False, s) :: (bool \<times> 's) res)"
    and add_yes: "inv s \<Longrightarrow> names s (key_of n) = None \<Longrightarrow> card (dom (names s)) \<noteq> capacity s \<Longrightarrow> is_int x \<Longrightarrow>
      \<exists>s'. add n x s = Inr (True, s') \<and> inv s' \<and> capacity s' = capacity s \<and> names s' = (names s)(key_of n \<mapsto> x)"
    and remove_no: "inv s \<Longrightarrow> names s (key_of n) = None \<Longrightarrow> remove n s = (Inr (False, s) :: (bool \<times> 's) res)"
    and remove_yes: "inv s \<Longrightarrow> names s (key_of n) = Some x \<Longrightarrow>
      \<exists>s'. remove n s = Inr (True, s') \<and> inv s' \<and> capacity s' = capacity s \<and> names s' = (names s)(key_of n := None)"
begin

lemma add_True:
  assumes "inv s" "is_int x" "add n x s = Inr (True, s')"
  shows "names s (key_of n) = None" "inv s'" "names s' = (names s)(key_of n \<mapsto> x)"
proof -
  have c: "\<not> (names s (key_of n) \<noteq> None \<or> card (dom (names s)) = capacity s)" using add_no [OF assms(1)] assms(3) by fastforce
  then show "names s (key_of n) = None" by blast
  show "inv s'" "names s' = (names s)(key_of n \<mapsto> x)" using add_yes [OF assms(1) _ _ assms(2), of n] c assms(3) by auto
qed

lemma add_find: "inv s \<Longrightarrow> is_int x \<Longrightarrow> add n x s = Inr (True, s') \<Longrightarrow> find m s' = (if key_of m = key_of n then Inr x else find m s)"
  using add_True [of s x n s'] by (simp add: find)

lemma remove_True:
  assumes "inv s" "remove n s = Inr (True, s')"
  shows "inv s'" "names s' = (names s)(key_of n := None)"
proof -
  obtain x where "names s (key_of n) = Some x" using remove_no [OF assms(1), of n] assms(2) by (cases "names s (key_of n)") auto
  then show "inv s'" "names s' = (names s)(key_of n := None)" 
    using remove_yes [OF assms(1), of n] assms(2) by auto
qed

lemma remove_find: "inv s \<Longrightarrow> remove n s = Inr (True, s') \<Longrightarrow> find m s' = (if key_of m = key_of n then Inr (-1) else find m s)"
  using remove_True [of s n s'] by (simp add: find)

lemma add_remove:
  assumes "inv s" "is_int x" "add n x s = Inr (True, s1)"
  shows "\<exists>s2. remove n s1 = Inr (True, s2) \<and> inv s2 \<and> names s2 = names s"
  using add_True [OF assms] remove_yes [of s1 n x] by (auto simp: fun_upd_idem)

end

interpretation nt: name_table dir_wf dir_map tableSize key Directory_Find Directory_Add Directory_Remove
proof
  show "\<exists>s'. Directory_Add n x s = Inr (True, s') \<and> dir_wf s' \<and> tableSize s' = tableSize s \<and> dir_map s' = (dir_map s)(key n \<mapsto> x)"
    if "dir_wf s" "dir_map s (key n) = None" "card (dom (dir_map s)) \<noteq> tableSize s" "is_int x" for s n x
    using Add_done [OF that(1,2) _ that(4)] that dir_full_iff [OF that(1)] by metis
  show "\<exists>s'. Directory_Remove n s = Inr (True, s') \<and> dir_wf s' \<and> tableSize s' = tableSize s \<and> dir_map s' = (dir_map s)(key n := None)"
    if "dir_wf s" "dir_map s (key n) = Some x" for s n x
    using Remove_done [OF that] by metis
qed (use Find_eq Add_refused dir_full_iff Remove_missing in auto)

subsection \<open>Directories on the disk\<close>

lemma patch_all: "length bs = length xs \<Longrightarrow> patch bs 0 xs = bs"
  by (simp add: patch_def)

lemma FetchFrom_ok:
  assumes f: "file_ok (hdr f)" and d: "disk_ok d" and c: "contents (hdr f) d = table_bytes (table dir)" "dir_wf dir"
    and o: "dir_wf old" "tableSize old = tableSize dir"
  obtains d1 where "Directory_FetchFrom old f d = Inr (dir, d1)" "disk_ok d1" "sector d1 = sector d"
proof -
  have l: "length (table_bytes (table dir)) = tableSize dir * 20" "length (table_bytes (table old)) = tableSize dir * 20"
    using c(2) o length_table_bytes [of "table dir"] length_table_bytes [of "table old"] by (simp_all add: dir_wf_def)
  have "nat (numBytes (hdr f)) = tableSize dir * 20" using length_contents [OF f, of d] c l by simp
  then have "is_int (0 + int (tableSize dir * 20))" using f by (auto simp: file_ok_def hdr_wf_def is_int_def)
  then obtain d1 where d1: "ReadAt f (int (tableSize dir * 20)) 0 d = Inr (int (tableSize dir * 20), table_bytes (table dir), d1)"
    "disk_ok d1" "sector d1 = sector d"
    using ReadAt_ok [OF f d, of 0 "int (tableSize dir * 20)"] c l by (auto simp del: of_nat_mult)
  have "old\<lparr>table := table dir\<rparr> = dir" using o(2) by simp
  then have "Directory_FetchFrom old f d = Inr (dir, d1)"
    using d1(1) l o(2) c table_of_table_bytes [of "table dir"] by (simp add: Directory_FetchFrom_def dir_wf_def del: of_nat_mult)
  then show thesis using that d1 by blast
qed

lemma WriteBack_ok:
  assumes f: "file_ok (hdr f)" and d: "disk_ok d" and c: "dir_wf dir" "nat (numBytes (hdr f)) = tableSize dir * entry_size"
  obtains d1 where "Directory_WriteBack mem dir f d = Inr d1" "disk_ok d1" "contents (hdr f) d1 = table_bytes (table dir)"
    "\<And>s. s \<notin> set (blocks (hdr f)) \<Longrightarrow> sector d1 s = sector d s"
proof -
  have l: "length (table_bytes (table dir)) = tableSize dir * 20" "length (contents (hdr f) d) = tableSize dir * 20"
    using c length_table_bytes [of "table dir"] length_contents [OF f, of d] by (simp_all add: dir_wf_def)
  have i: "is_int (0 + int (tableSize dir * 20))" using f c(2) by (auto simp: file_ok_def hdr_wf_def is_int_def)
  obtain d1 where d1: "WriteAt mem f (table_bytes (table dir)) (int (tableSize dir * 20)) 0 d = Inr (int (tableSize dir * 20), d1)"
    "disk_ok d1" "contents (hdr f) d1 = patch (table_bytes (table dir)) 0 (contents (hdr f) d)"
    "\<And>s. s \<notin> set (blocks (hdr f)) \<Longrightarrow> sector d1 s = sector d s"
    by (rule WriteAt_ok [OF f d _ i, of "table_bytes (table dir)" mem]) (use l in \<open>simp_all del: of_nat_mult\<close>)
  show thesis
  proof (rule that [OF _ d1(2)])
    show "Directory_WriteBack mem dir f d = Inr d1" using d1(1) by (simp add: Directory_WriteBack_def del: of_nat_mult)
    show "contents (hdr f) d1 = table_bytes (table dir)" using d1(3) l patch_all by metis
  qed (rule d1(4))
qed

subsection \<open>Sequences of calls\<close>

datatype dcall = CallFind "byte list" | CallAdd "byte list" int | CallRemove "byte list"

text \<open>The result of a call: the sector Find returns, or 1 and 0 for TRUE and FALSE.\<close>

fun dir_call :: "dcall \<Rightarrow> Directory \<Rightarrow> (int \<times> Directory) res" where
  "dir_call (CallFind fname) dir = bind_res (Directory_Find fname dir) (\<lambda>s. Inr (s, dir))"
| "dir_call (CallAdd fname s) dir = bind_res (Directory_Add fname s dir) (\<lambda>(ok, dir1). Inr (of_bool ok, dir1))"
| "dir_call (CallRemove fname) dir = bind_res (Directory_Remove fname dir) (\<lambda>(ok, dir1). Inr (of_bool ok, dir1))"

fun map_call :: "nat \<Rightarrow> dcall \<Rightarrow> (byte list \<rightharpoonup> int) \<Rightarrow> int \<times> (byte list \<rightharpoonup> int)" where
  "map_call n (CallFind fname) m = (case m (key fname) of Some s \<Rightarrow> s | None \<Rightarrow> -1, m)"
| "map_call n (CallAdd fname s) m =
     (if m (key fname) \<noteq> None \<or> card (dom m) = n then (0, m) else (1, m(key fname \<mapsto> s)))"
| "map_call n (CallRemove fname) m = (if m (key fname) = None then (0, m) else (1, m(key fname := None)))"

fun dir_calls :: "dcall list \<Rightarrow> Directory \<Rightarrow> (int list \<times> Directory) res" where
  "dir_calls [] dir = Inr ([], dir)"
| "dir_calls (c # cs) dir =
     bind_res (dir_call c dir) (\<lambda>(r, dir1). bind_res (dir_calls cs dir1) (\<lambda>(rs, dir2). Inr (r # rs, dir2)))"

fun map_calls :: "nat \<Rightarrow> dcall list \<Rightarrow> (byte list \<rightharpoonup> int) \<Rightarrow> int list \<times> (byte list \<rightharpoonup> int)" where
  "map_calls n [] m = ([], m)"
| "map_calls n (c # cs) m = (let (r, m1) = map_call n c m; (rs, m2) = map_calls n cs m1 in (r # rs, m2))"

fun call_ok :: "dcall \<Rightarrow> bool" where
  "call_ok (CallAdd fname s) = is_int s"
| "call_ok c = True"

lemma dir_call_simulates:
  assumes "dir_wf dir" "call_ok c" "map_call (tableSize dir) c (dir_map dir) = (r, m)"
  shows "\<exists>dir1. dir_call c dir = Inr (r, dir1) \<and> dir_wf dir1 \<and> tableSize dir1 = tableSize dir \<and> dir_map dir1 = m"
proof (cases c)
  case (CallFind fname)
  then show ?thesis using assms nt.find [OF assms(1), of fname] by auto
next
  case (CallAdd fname s)
  then show ?thesis
    using assms nt.add_no [OF assms(1), of fname s] nt.add_yes [OF assms(1), of fname s] by (fastforce split: if_splits)
next
  case (CallRemove fname)
  then show ?thesis
    using assms nt.remove_no [OF assms(1), of fname] nt.remove_yes [OF assms(1), of fname] by (fastforce split: if_splits)
qed

lemma dir_calls_simulate:
  assumes "dir_wf dir" "list_all call_ok cs" "map_calls (tableSize dir) cs (dir_map dir) = (rs, m)"
  shows "\<exists>dir1. dir_calls cs dir = Inr (rs, dir1) \<and> dir_wf dir1 \<and> tableSize dir1 = tableSize dir \<and> dir_map dir1 = m"
  using assms
proof (induction cs arbitrary: dir rs)
  case (Cons c cs)
  obtain r m1 rs1 where s: "map_call (tableSize dir) c (dir_map dir) = (r, m1)" "map_calls (tableSize dir) cs m1 = (rs1, m)" "rs = r # rs1"
    using Cons.prems(3) by (auto simp: Let_def split: prod.splits)
  from dir_call_simulates [OF Cons.prems(1) _ s(1)] Cons.prems(2) obtain dir1 where
    d: "dir_call c dir = Inr (r, dir1)" "dir_wf dir1" "tableSize dir1 = tableSize dir" "dir_map dir1 = m1" by auto
  from Cons.IH [OF d(2), of rs1] Cons.prems(2) s(2) d show ?case using s(3) by auto
qed simp

subsection \<open>Properties\<close>

text \<open>C18. A directory is a finite map from names to sectors with room for a fixed number of names: any sequence of Find, Add and Remove on a
  new directory returns what the map does, whatever the new memory held. Names that agree in their first eleven
  bytes are the same name.\<close>

theorem directory_is_map:
  assumes "list_all call_ok cs"
  shows "\<exists>dir. dir_calls cs (Directory_Directory mem n) = Inr (fst (map_calls n cs Map.empty), dir) \<and> dir_wf dir \<and>
    tableSize dir = n \<and> dir_map dir = snd (map_calls n cs Map.empty)"
  using dir_calls_simulate [OF dir_wf_new(1) assms, of mem n] dir_wf_new(2) [of mem n]
  by (auto simp: Directory_Directory_def)

text \<open>A directory survives the disk: what WriteBack stores in its file FetchFrom reads into any other directory of the same size, every entry
  as it was, and WriteBack touches no sector outside that file.\<close>

theorem directory_roundtrip:
  assumes "file_ok (hdr f)" "disk_ok d" "dir_wf dir" "FileLength (hdr f) = int (tableSize dir * entry_size)"
    "dir_wf old" "tableSize old = tableSize dir"
  shows "\<exists>d1 d2. Directory_WriteBack mem dir f d = Inr d1 \<and> Directory_FetchFrom old f d1 = Inr (dir, d2) \<and>
    disk_ok d2 \<and> (\<forall>s. s \<notin> set (blocks (hdr f)) \<longrightarrow> sector d2 s = sector d s)"
proof -
  have n: "nat (numBytes (hdr f)) = tableSize dir * entry_size" using assms(4) by (simp add: FileLength_def)
  obtain d1 where d1: "Directory_WriteBack mem dir f d = Inr d1" "disk_ok d1" "contents (hdr f) d1 = table_bytes (table dir)"
    "\<And>s. s \<notin> set (blocks (hdr f)) \<Longrightarrow> sector d1 s = sector d s"
    by (rule WriteBack_ok [OF assms(1-3) n, of mem]) blast
  obtain d2 where "Directory_FetchFrom old f d1 = Inr (dir, d2)" "disk_ok d2" "sector d2 = sector d1"
    by (rule FetchFrom_ok [OF assms(1) d1(2,3) assms(3,5,6)])
  then show ?thesis using d1 by auto
qed

subsection \<open>Witnesses\<close>

lemma directory_is_map_witness:
  "\<exists>dir. dir_calls [CallAdd [97] 5, CallAdd [98] 6, CallAdd [99] 7, CallFind [98], CallRemove [97], CallFind [97]]
     (Directory_Directory zeros 2) = Inr ([1, 1, 0, 6, 1, -1], dir)"
proof -
  let ?cs = "[CallAdd [97] 5, CallAdd [98] 6, CallAdd [99] 7, CallFind [98], CallRemove [97], CallFind [97]]"
  have k: "key [97] = [97]" "key [98] = [98]" "key [99] = [99]" by (simp_all add: key_def cstr_def FileNameMaxLen_def)
  have d: "dom [[97::byte] \<mapsto> (5::int), [98] \<mapsto> 6] = {[97], [98]}" by auto
  have "fst (map_calls 2 ?cs Map.empty) = [1, 1, 0, 6, 1, -1]" by (simp add: k d)
  moreover have "list_all call_ok ?cs" by (simp add: is_int_def)
  ultimately show ?thesis using directory_is_map [of ?cs zeros 2] by auto
qed

lemma directory_roundtrip_witness:
  "\<exists>d d1 d2. Disk_Disk None 0 = Inr d \<and> Directory_WriteBack zeros (Directory_Directory zeros 15) demo_file d = Inr d1 \<and>
     Directory_FetchFrom (Directory_Directory (\<lambda>_ _. 255) 15) demo_file d1 = Inr (Directory_Directory zeros 15, d2)"
proof -
  obtain d where d: "Disk_Disk None 0 = Inr d" "disk_ok d" by (rule Disk_new [of 0]) auto
  have f: "file_ok (hdr demo_file)" using demo_ok(1) by (simp add: demo_file_def)
  have n: "FileLength (hdr demo_file) = int (tableSize (Directory_Directory zeros 15) * entry_size)"
    "tableSize (Directory_Directory (\<lambda>_ _. 255) 15) = tableSize (Directory_Directory zeros 15)"
    by (simp_all add: FileLength_def demo_file_def demo_hdr_def Directory_Directory_def)
  from directory_roundtrip [OF f d(2) dir_wf_new(1) n(1) dir_wf_new(1) n(2), of zeros] d(1) show ?thesis by blast
qed

end
