(* ===== verification/Nachos_FileSys.thy ===== *)
theory Nachos_FileSys
  imports Nachos_Directory
begin

text \<open>
  The file system (filesys/filesys.h, filesys.cc): the map of free sectors in a file whose header is in sector 0, one directory
  in a file whose header is in sector 1, and the operations that create, open, remove and list files; with them the two
  operations of userprog/bitmap.cc that read and write a bitmap. The two files stay open while Nachos runs. The debugging
  output of the operations is left out.
\<close>

subsection \<open>Bitmaps in files\<close>

definition BitMap_FetchFrom :: "BitMap \<Rightarrow> OpenFile \<Rightarrow> Disk \<Rightarrow> (BitMap \<times> Disk) res" where
  "BitMap_FetchFrom bm f d =
     bind_res (ReadAt f (int (numWords bm * 4)) 0 d) (\<lambda>(_, bs, d1).
     bind_res (put_bytes 0 bs (words_bytes (bm_map bm))) (\<lambda>mem1.
     Inr (bm\<lparr>bm_map := bytes_words mem1\<rparr>, d1)))"

definition BitMap_WriteBack :: "memory \<Rightarrow> BitMap \<Rightarrow> OpenFile \<Rightarrow> Disk \<Rightarrow> Disk res" where
  "BitMap_WriteBack mem bm f d =
     bind_res (WriteAt mem f (words_bytes (bm_map bm)) (int (numWords bm * 4)) 0 d) (\<lambda>(_, d1). Inr d1)"

subsection \<open>The file system\<close>

definition FreeMapSector :: int where "FreeMapSector = 0"
definition DirectorySector :: int where "DirectorySector = 1"
definition FreeMapFileSize :: nat where "FreeMapFileSize = NumSectors div 8"
definition NumDirEntries :: nat where "NumDirEntries = 10"
definition DirectoryFileSize :: nat where "DirectoryFileSize = entry_size * NumDirEntries"

record FileSystem =
  freeMapFile :: OpenFile
  directoryFile :: OpenFile

text \<open>\<open>new BitMap(NumSectors)\<close> in memory that held anything.\<close>

definition new_BitMap :: "memory \<Rightarrow> BitMap res" where
  "new_BitMap mem = BitMap_BitMap NumSectors (\<lambda>i. bytes_to_int (map (mem NewBitMap) [4 * i..<4 * i + 4]))"

definition FileSystem_format :: "memory \<Rightarrow> tm \<Rightarrow> Disk \<Rightarrow> (FileSystem \<times> Disk) res" where
  "FileSystem_format mem t d =
     bind_res (new_BitMap mem) (\<lambda>freeMap.
     let directory = Directory_Directory mem NumDirEntries in
     bind_res (BitMap_Mark FreeMapSector freeMap) (\<lambda>freeMap1.
     bind_res (BitMap_Mark DirectorySector freeMap1) (\<lambda>freeMap2.
     bind_res (FileHeader_Allocate t (int FreeMapFileSize) (new_FileHeader mem) freeMap2 d) (\<lambda>(ok, mapHdr, freeMap3, d1).
     bind_res (ASSERT ok) (\<lambda>_.
     bind_res (FileHeader_Allocate t (int DirectoryFileSize) (new_FileHeader mem) freeMap3 d1) (\<lambda>(ok, dirHdr, freeMap4, d2).
     bind_res (ASSERT ok) (\<lambda>_.
     bind_res (FileHeader_WriteBack mapHdr FreeMapSector d2) (\<lambda>d3.
     bind_res (FileHeader_WriteBack dirHdr DirectorySector d3) (\<lambda>d4.
     bind_res (OpenFile_OpenFile FreeMapSector d4) (\<lambda>(f0, d5).
     bind_res (OpenFile_OpenFile DirectorySector d5) (\<lambda>(f1, d6).
     bind_res (BitMap_WriteBack mem freeMap4 f0 d6) (\<lambda>d7.
     bind_res (Directory_WriteBack mem directory f1 d7) (\<lambda>d8.
     Inr (\<lparr>freeMapFile = f0, directoryFile = f1\<rparr>, d8))))))))))))))"

definition FileSystem_FileSystem :: "memory \<Rightarrow> tm \<Rightarrow> bool \<Rightarrow> Disk \<Rightarrow> (FileSystem \<times> Disk) res" where
  "FileSystem_FileSystem mem t format d =
     (if format then FileSystem_format mem t d
      else bind_res (OpenFile_OpenFile FreeMapSector d) (\<lambda>(f0, d1).
           bind_res (OpenFile_OpenFile DirectorySector d1) (\<lambda>(f1, d2).
           Inr (\<lparr>freeMapFile = f0, directoryFile = f1\<rparr>, d2))))"

definition FileSystem_Create :: "memory \<Rightarrow> tm \<Rightarrow> FileSystem \<Rightarrow> byte list \<Rightarrow> int \<Rightarrow> Disk \<Rightarrow> (bool \<times> Disk) res" where
  "FileSystem_Create mem t fs fname initialSize d =
     bind_res (Directory_FetchFrom (Directory_Directory mem NumDirEntries) (directoryFile fs) d) (\<lambda>(directory, d1).
     bind_res (Directory_Find fname directory) (\<lambda>s.
     if s \<noteq> -1 then Inr (False, d1)
     else bind_res (new_BitMap mem) (\<lambda>freeMap.
       bind_res (BitMap_FetchFrom freeMap (freeMapFile fs) d1) (\<lambda>(freeMap1, d2).
       bind_res (BitMap_Find freeMap1) (\<lambda>(sec, freeMap2).
       if sec = -1 then Inr (False, d2)
       else bind_res (Directory_Add fname sec directory) (\<lambda>(added, directory1).
         if \<not> added then Inr (False, d2)
         else bind_res (FileHeader_Allocate t initialSize (new_FileHeader mem) freeMap2 d2) (\<lambda>(ok, h, freeMap3, d3).
           if \<not> ok then Inr (False, d3)
           else bind_res (FileHeader_WriteBack h sec d3) (\<lambda>d4.
             bind_res (Directory_WriteBack mem directory1 (directoryFile fs) d4) (\<lambda>d5.
             bind_res (BitMap_WriteBack mem freeMap3 (freeMapFile fs) d5) (\<lambda>d6.
             Inr (True, d6)))))))))))"

definition FileSystem_Open :: "memory \<Rightarrow> FileSystem \<Rightarrow> byte list \<Rightarrow> Disk \<Rightarrow> (OpenFile option \<times> Disk) res" where
  "FileSystem_Open mem fs fname d =
     bind_res (Directory_FetchFrom (Directory_Directory mem NumDirEntries) (directoryFile fs) d) (\<lambda>(directory, d1).
     bind_res (Directory_Find fname directory) (\<lambda>sec.
     if sec \<ge> 0 then bind_res (OpenFile_OpenFile sec d1) (\<lambda>(f, d2). Inr (Some f, d2)) else Inr (None, d1)))"

definition FileSystem_Remove :: "memory \<Rightarrow> FileSystem \<Rightarrow> byte list \<Rightarrow> Disk \<Rightarrow> (bool \<times> Disk) res" where
  "FileSystem_Remove mem fs fname d =
     bind_res (Directory_FetchFrom (Directory_Directory mem NumDirEntries) (directoryFile fs) d) (\<lambda>(directory, d1).
     bind_res (Directory_Find fname directory) (\<lambda>sec.
     if sec = -1 then Inr (False, d1)
     else bind_res (FileHeader_FetchFrom sec d1) (\<lambda>(fileHdr, d2).
       bind_res (new_BitMap mem) (\<lambda>freeMap.
       bind_res (BitMap_FetchFrom freeMap (freeMapFile fs) d2) (\<lambda>(freeMap1, d3).
       bind_res (FileHeader_Deallocate fileHdr freeMap1 d3) (\<lambda>(freeMap2, d4).
       bind_res (BitMap_Clear sec freeMap2) (\<lambda>freeMap3.
       bind_res (Directory_Remove fname directory) (\<lambda>(_, directory1).
       bind_res (BitMap_WriteBack mem freeMap3 (freeMapFile fs) d4) (\<lambda>d5.
       bind_res (Directory_WriteBack mem directory1 (directoryFile fs) d5) (\<lambda>d6.
       Inr (True, d6)))))))))))"

definition FileSystem_List :: "memory \<Rightarrow> FileSystem \<Rightarrow> Disk \<Rightarrow> (byte list \<times> Disk) res" where
  "FileSystem_List mem fs d =
     bind_res (Directory_FetchFrom (Directory_Directory mem NumDirEntries) (directoryFile fs) d) (\<lambda>(directory, d1).
     bind_res (Directory_List directory) (\<lambda>out. Inr (out, d1)))"

text \<open>Print of userprog/bitmap.cc as text: the numbers in use between a heading and a newline.\<close>

definition bitmap_text :: "BitMap \<Rightarrow> byte list res" where
  "bitmap_text bm = bind_res (BitMap_Print bm) (\<lambda>is.
     Inr (bytes ''Bitmap set:'' @ [10] @ concat (map (\<lambda>i. print_d (int i) @ bytes '', '') is) @ [10]))"

definition FileSystem_Print :: "memory \<Rightarrow> FileSystem \<Rightarrow> Disk \<Rightarrow> (byte list \<times> Disk) res" where
  "FileSystem_Print mem fs d =
     bind_res (new_BitMap mem) (\<lambda>freeMap.
     bind_res (FileHeader_FetchFrom FreeMapSector d) (\<lambda>(bitHdr, d1).
     bind_res (FileHeader_Print bitHdr d1) (\<lambda>(out1, d2).
     bind_res (FileHeader_FetchFrom DirectorySector d2) (\<lambda>(dirHdr, d3).
     bind_res (FileHeader_Print dirHdr d3) (\<lambda>(out2, d4).
     bind_res (BitMap_FetchFrom freeMap (freeMapFile fs) d4) (\<lambda>(freeMap1, d5).
     bind_res (bitmap_text freeMap1) (\<lambda>out3.
     bind_res (Directory_FetchFrom (Directory_Directory mem NumDirEntries) (directoryFile fs) d5) (\<lambda>(directory, d6).
     bind_res (Directory_Print directory d6) (\<lambda>(out4, d7).
     Inr (bytes ''Bit map file header:'' @ [10] @ out1 @ bytes ''Directory file header:'' @ [10] @ out2 @ out3 @ out4, d7))))))))))"

subsection \<open>Bitmaps survive the disk\<close>

lemma new_BitMap_ok: obtains bm where "new_BitMap mem = Inr bm" "bitmap_wf bm" "numBits bm = NumSectors" "marked bm = {}"
  using BitMap_BitMap_ok [of NumSectors "\<lambda>i. bytes_to_int (map (mem NewBitMap) [4 * i..<4 * i + 4])"] that
  unfolding new_BitMap_def by blast

lemma map_words: "bitmap_wf bm \<Longrightarrow> numBits bm = NumSectors \<Longrightarrow> numWords bm = 32" "bitmap_wf bm \<Longrightarrow> numBits bm = NumSectors \<Longrightarrow> length (bm_map bm) = 32"
  by (simp_all add: bitmap_wf_def divRoundUp_def BitsInWord_def NumSectors_def SectorsPerTrack_def NumTracks_def)

lemma BitMap_FetchFrom_ok:
  assumes f: "file_ok (hdr f)" and d: "disk_ok d" and bm: "bitmap_wf bm" "numBits bm = NumSectors"
    and c: "contents (hdr f) d = words_bytes (bm_map bm)" and old: "bitmap_wf old" "numBits old = NumSectors"
  obtains d1 where "BitMap_FetchFrom old f d = Inr (bm, d1)" "disk_ok d1" "sector d1 = sector d"
proof -
  have l: "length (words_bytes (bm_map bm)) = 128" "length (words_bytes (bm_map old)) = 128" "numWords bm = 32" "numWords old = 32"
    using map_words [OF bm] map_words [OF old] by simp_all
  have i: "is_int (0 + 128)" by (simp add: is_int_def)
  obtain d1 where d1: "ReadAt f 128 0 d = Inr (128, words_bytes (bm_map bm), d1)" "disk_ok d1" "sector d1 = sector d"
    by (rule ReadAt_ok [OF f d _ i]) (use c l in simp_all)
  have "old\<lparr>bm_map := bm_map bm\<rparr> = bm" using bm(2) old(2) l by simp
  then have "BitMap_FetchFrom old f d = Inr (bm, d1)"
    using d1(1) l by (simp add: BitMap_FetchFrom_def)
  then show thesis using that d1 by blast
qed

lemma BitMap_WriteBack_ok:
  assumes f: "file_ok (hdr f)" and d: "disk_ok d" and bm: "bitmap_wf bm" "numBits bm = NumSectors" and n: "numBytes (hdr f) = 128"
  obtains d1 where "BitMap_WriteBack mem bm f d = Inr d1" "disk_ok d1" "contents (hdr f) d1 = words_bytes (bm_map bm)"
    "\<And>s. s \<notin> set (blocks (hdr f)) \<Longrightarrow> sector d1 s = sector d s"
proof -
  have l: "length (words_bytes (bm_map bm)) = 128" "length (contents (hdr f) d) = 128" "numWords bm = 32"
    using map_words [OF bm] length_contents [OF f, of d] n by simp_all
  have i: "is_int (0 + 128)" by (simp add: is_int_def)
  obtain d1 where d1: "WriteAt mem f (words_bytes (bm_map bm)) 128 0 d = Inr (128, d1)"
    "disk_ok d1" "contents (hdr f) d1 = patch (words_bytes (bm_map bm)) 0 (contents (hdr f) d)"
    "\<And>s. s \<notin> set (blocks (hdr f)) \<Longrightarrow> sector d1 s = sector d s"
    by (rule WriteAt_ok [OF f d _ i, of "words_bytes (bm_map bm)" mem]) (use l in simp_all)
  show thesis
  proof (rule that [OF _ d1(2)])
    show "BitMap_WriteBack mem bm f d = Inr d1" using d1(1) l by (simp add: BitMap_WriteBack_def)
    show "contents (hdr f) d1 = words_bytes (bm_map bm)" using d1(3) l patch_all by metis
  qed (rule d1(4))
qed

subsection \<open>A consistent disk\<close>

definition hdr_at :: "Disk \<Rightarrow> int \<Rightarrow> FileHeader" where
  "hdr_at d s = hdr_of_bytes (sector d (nat s))"

text \<open>The sectors of the file whose header is in sector \<open>s\<close>, with the header.\<close>

definition owned :: "Disk \<Rightarrow> int \<Rightarrow> nat set" where
  "owned d s = insert (nat s) (set (blocks (hdr_at d s)))"

text \<open>The sectors of the map and of the directory, with their headers.\<close>

definition system_sectors :: "FileSystem \<Rightarrow> nat set" where
  "system_sectors fs = {0, 1} \<union> set (blocks (hdr (freeMapFile fs))) \<union> set (blocks (hdr (directoryFile fs)))"

text \<open>The two open files: their headers are in sectors 0 and 1, their data is apart.\<close>

definition system_ok :: "FileSystem \<Rightarrow> bool" where
  "system_ok fs \<longleftrightarrow> file_ok (hdr (freeMapFile fs)) \<and> numBytes (hdr (freeMapFile fs)) = 128 \<and>
     file_ok (hdr (directoryFile fs)) \<and> numBytes (hdr (directoryFile fs)) = 200 \<and>
     {0, 1} \<inter> set (blocks (hdr (freeMapFile fs))) = {} \<and> {0, 1} \<inter> set (blocks (hdr (directoryFile fs))) = {} \<and>
     set (blocks (hdr (freeMapFile fs))) \<inter> set (blocks (hdr (directoryFile fs))) = {}"

text \<open>The files named by a directory: headers as Allocate makes them, no sector in two files.\<close>

definition files_ok :: "FileSystem \<Rightarrow> Disk \<Rightarrow> (byte list \<rightharpoonup> int) \<Rightarrow> bool" where
  "files_ok fs d m \<longleftrightarrow>
     (\<forall>k s. m k = Some s \<longrightarrow> 0 \<le> s \<and> s < int NumSectors \<and> file_ok (hdr_at d s) \<and> nat s \<notin> set (blocks (hdr_at d s)) \<and>
        owned d s \<inter> system_sectors fs = {}) \<and>
     (\<forall>k k' s s'. m k = Some s \<longrightarrow> m k' = Some s' \<longrightarrow> k \<noteq> k' \<longrightarrow> owned d s \<inter> owned d s' = {})"

text \<open>The state of the file system: the directory and the map on the disk, the map marking exactly the sectors in use.\<close>

definition fs_ok :: "FileSystem \<Rightarrow> Disk \<Rightarrow> Directory \<Rightarrow> BitMap \<Rightarrow> bool" where
  "fs_ok fs d dir bm \<longleftrightarrow> disk_ok d \<and> system_ok fs \<and>
     sector d 0 = hdr_bytes (hdr (freeMapFile fs)) \<and> sector d 1 = hdr_bytes (hdr (directoryFile fs)) \<and>
     contents (hdr (directoryFile fs)) d = table_bytes (table dir) \<and> dir_wf dir \<and> tableSize dir = NumDirEntries \<and>
     contents (hdr (freeMapFile fs)) d = words_bytes (bm_map bm) \<and> bitmap_wf bm \<and> numBits bm = NumSectors \<and>
     files_ok fs d (dir_map dir) \<and> marked bm = system_sectors fs \<union> (\<Union>s \<in> ran (dir_map dir). owned d s)"

text \<open>What the user sees: the contents of the files by name.\<close>

definition files :: "Disk \<Rightarrow> Directory \<Rightarrow> byte list \<rightharpoonup> byte list" where
  "files d dir k = map_option (\<lambda>s. contents (hdr_at d s) d) (dir_map dir k)"

lemma owned_frame:
  assumes "\<And>t. t \<in> owned d s \<Longrightarrow> sector d' t = sector d t"
  shows "hdr_at d' s = hdr_at d s" "owned d' s = owned d s" "contents (hdr_at d' s) d' = contents (hdr_at d s) d"
proof -
  have "sector d' (nat s) = sector d (nat s)" using assms by (simp add: owned_def)
  then show h: "hdr_at d' s = hdr_at d s" by (simp add: hdr_at_def)
  then show "owned d' s = owned d s" by (simp add: owned_def)
  show "contents (hdr_at d' s) d' = contents (hdr_at d s) d"
    unfolding h using assms by (intro contents_cong) (simp add: owned_def)
qed

lemma files_ok_frame:
  assumes "files_ok fs d m" "\<And>s t. s \<in> ran m \<Longrightarrow> t \<in> owned d s \<Longrightarrow> sector d' t = sector d t"
  shows "files_ok fs d' m"
proof -
  have o: "hdr_at d' s = hdr_at d s" "owned d' s = owned d s" if "m k = Some s" for k s
    using owned_frame(1,2) [of d s d'] assms(2) ranI [of m, OF that] by blast+
  show ?thesis
    unfolding files_ok_def
  proof (intro conjI allI impI)
    fix k s assume k: "m k = Some s"
    have "0 \<le> s \<and> s < int NumSectors \<and> file_ok (hdr_at d s) \<and> nat s \<notin> set (blocks (hdr_at d s)) \<and> owned d s \<inter> system_sectors fs = {}"
      using assms(1) k unfolding files_ok_def by blast
    then show "0 \<le> s" "s < int NumSectors" "file_ok (hdr_at d' s)" "nat s \<notin> set (blocks (hdr_at d' s))" "owned d' s \<inter> system_sectors fs = {}"
      using o [OF k] by simp_all
  next
    fix k k' s s' assume k: "m k = Some s" "m k' = Some s'" "k \<noteq> k'"
    have "owned d s \<inter> owned d s' = {}" using assms(1) k unfolding files_ok_def by blast
    then show "owned d' s \<inter> owned d' s' = {}" using o(2) [OF k(1)] o(2) [OF k(2)] by simp
  qed
qed

lemma files_okD:
  assumes "files_ok fs d m" "m k = Some s"
  shows "0 \<le> s" "s < int NumSectors" "file_ok (hdr_at d s)" "nat s \<notin> set (blocks (hdr_at d s))" "owned d s \<inter> system_sectors fs = {}"
    "owned d s \<subseteq> {..<NumSectors}"
proof -
  have "0 \<le> s \<and> s < int NumSectors \<and> file_ok (hdr_at d s) \<and> nat s \<notin> set (blocks (hdr_at d s)) \<and> owned d s \<inter> system_sectors fs = {}"
    using assms unfolding files_ok_def by blast
  then show "0 \<le> s" "s < int NumSectors" "file_ok (hdr_at d s)" "nat s \<notin> set (blocks (hdr_at d s))" "owned d s \<inter> system_sectors fs = {}"
    by simp_all
  then show "owned d s \<subseteq> {..<NumSectors}" using file_ok_blocks(3) [of "hdr_at d s"] by (auto simp: owned_def)
qed

lemma fs_okD:
  assumes "fs_ok fs d dir bm"
  shows "disk_ok d" "system_ok fs" "dir_wf dir" "tableSize dir = NumDirEntries" "bitmap_wf bm" "numBits bm = NumSectors"
    "files_ok fs d (dir_map dir)" "marked bm = system_sectors fs \<union> (\<Union>s \<in> ran (dir_map dir). owned d s)"
    "contents (hdr (directoryFile fs)) d = table_bytes (table dir)" "contents (hdr (freeMapFile fs)) d = words_bytes (bm_map bm)"
    "file_ok (hdr (directoryFile fs))" "file_ok (hdr (freeMapFile fs))"
  using assms by (simp_all add: fs_ok_def system_ok_def)

text \<open>Nothing changes when no sector does.\<close>

lemma fs_ok_same:
  assumes "fs_ok fs d dir bm" "disk_ok d'" "sector d' = sector d"
  shows "fs_ok fs d' dir bm" "files d' dir = files d dir"
proof -
  have e: "contents h d' = contents h d" "hdr_at d' s = hdr_at d s" "owned d' s = owned d s" for h s
    using assms(3) by (simp_all add: contents_def hdr_at_def owned_def)
  then show "files d' dir = files d dir" by (simp add: files_def fun_eq_iff)
  show "fs_ok fs d' dir bm" using assms e by (simp add: fs_ok_def files_ok_def)
qed

lemma files_ok_insert:
  assumes "files_ok fs d m" "0 \<le> s" "s < int NumSectors" "file_ok (hdr_at d s)" "nat s \<notin> set (blocks (hdr_at d s))"
    "owned d s \<inter> (system_sectors fs \<union> (\<Union>s \<in> ran m. owned d s)) = {}"
  shows "files_ok fs d (m(k \<mapsto> s))"
proof -
  have new: "owned d s \<inter> owned d s' = {}" if "m k' = Some s'" for k' s'
    using assms(6) ranI [of m, OF that] by blast
  have old: "owned d s1 \<inter> owned d s2 = {}" if "m k1 = Some s1" "m k2 = Some s2" "k1 \<noteq> k2" for k1 k2 s1 s2
    using assms(1) that unfolding files_ok_def by blast
  have sys: "owned d s \<inter> system_sectors fs = {}" using assms(6) by blast
  show ?thesis
    unfolding files_ok_def
  proof (intro conjI allI impI)
    fix k1 k2 s1 s2 assume "(m(k \<mapsto> s)) k1 = Some s1" "(m(k \<mapsto> s)) k2 = Some s2" "k1 \<noteq> k2"
    then show "owned d s1 \<inter> owned d s2 = {}"
      using new old by (auto simp only: fun_upd_apply split: if_splits) blast+
  next
    fix k1 s1 assume a: "(m(k \<mapsto> s)) k1 = Some s1"
    show "0 \<le> s1" "s1 < int NumSectors" "file_ok (hdr_at d s1)" "nat s1 \<notin> set (blocks (hdr_at d s1))" "owned d s1 \<inter> system_sectors fs = {}"
      using a assms(2-5) sys files_okD [OF assms(1)] by (auto simp only: fun_upd_apply option.inject split: if_splits)
  qed
qed

lemma files_ok_delete: "files_ok fs d m \<Longrightarrow> files_ok fs d (m(k := None))"
  unfolding files_ok_def by (auto simp: fun_upd_apply split: if_splits)

text \<open>Every operation first reads the directory, into memory that held anything.\<close>

lemma fetch_directory:
  assumes "fs_ok fs d dir bm"
  obtains d1 where "Directory_FetchFrom (Directory_Directory mem NumDirEntries) (directoryFile fs) d = Inr (dir, d1)"
    "disk_ok d1" "sector d1 = sector d" "fs_ok fs d1 dir bm" "files d1 dir = files d dir"
proof -
  note F = fs_okD [OF assms]
  have t: "tableSize (Directory_Directory mem NumDirEntries) = tableSize dir" using F(4) by (simp add: Directory_Directory_def)
  obtain d1 where d1: "Directory_FetchFrom (Directory_Directory mem NumDirEntries) (directoryFile fs) d = Inr (dir, d1)"
    "disk_ok d1" "sector d1 = sector d"
    by (rule FetchFrom_ok [OF F(11,1,9,3) dir_wf_new(1) t])
  then show thesis using that fs_ok_same [OF assms d1(2,3)] by blast
qed

lemma fetch_map:
  assumes "fs_ok fs d dir bm"
  obtains old d1 where "new_BitMap mem = Inr old" "BitMap_FetchFrom old (freeMapFile fs) d = Inr (bm, d1)"
    "disk_ok d1" "sector d1 = sector d" "fs_ok fs d1 dir bm" "files d1 dir = files d dir"
proof -
  note F = fs_okD [OF assms]
  obtain old where old: "new_BitMap mem = Inr old" "bitmap_wf old" "numBits old = NumSectors" by (rule new_BitMap_ok [of mem])
  obtain d1 where d1: "BitMap_FetchFrom old (freeMapFile fs) d = Inr (bm, d1)" "disk_ok d1" "sector d1 = sector d"
    by (rule BitMap_FetchFrom_ok [OF F(12,1,5,6,10) old(2,3)])
  then show thesis using that old(1) fs_ok_same [OF assms d1(2,3)] by blast
qed

lemma system_sectors_marked: "fs_ok fs d dir bm \<Longrightarrow> system_sectors fs \<subseteq> marked bm" "fs_ok fs d dir bm \<Longrightarrow> dir_map dir k = Some s \<Longrightarrow> owned d s \<subseteq> marked bm"
  using fs_okD(8) [of fs d dir bm] by (auto intro: ranI)

text \<open>What is needed for the state after an operation that wrote the directory and the map.\<close>

lemma fs_ok_written:
  assumes fs: "fs_ok fs d dir bm" and d': "disk_ok d'"
    and out: "\<forall>t. t \<notin> N \<longrightarrow> t \<notin> set (blocks (hdr (freeMapFile fs))) \<longrightarrow> t \<notin> set (blocks (hdr (directoryFile fs))) \<longrightarrow> sector d' t = sector d t"
    and N: "N \<inter> marked bm = {}"
    and dir': "contents (hdr (directoryFile fs)) d' = table_bytes (table dir')" "dir_wf dir'" "tableSize dir' = NumDirEntries"
    and bm': "contents (hdr (freeMapFile fs)) d' = words_bytes (bm_map bm')" "bitmap_wf bm'" "numBits bm' = NumSectors"
    and fo: "files_ok fs d' (dir_map dir')" "marked bm' = system_sectors fs \<union> (\<Union>s \<in> ran (dir_map dir'). owned d' s)"
  shows "fs_ok fs d' dir' bm'"
proof -
  have z: "0 \<in> system_sectors fs" "1 \<in> system_sectors fs" by (simp_all add: system_sectors_def)
  then have "0 \<notin> N" "1 \<notin> N" using N system_sectors_marked(1) [OF fs] by blast+
  moreover have "0 \<notin> set (blocks (hdr (freeMapFile fs)))" "1 \<notin> set (blocks (hdr (freeMapFile fs)))"
    "0 \<notin> set (blocks (hdr (directoryFile fs)))" "1 \<notin> set (blocks (hdr (directoryFile fs)))"
    using fs by (auto simp: fs_ok_def system_ok_def)
  ultimately have "sector d' 0 = sector d 0" "sector d' 1 = sector d 1" using out by blast+
  then show ?thesis using fs d' dir' bm' fo by (simp add: fs_ok_def)
qed

lemma files_frame:
  assumes fs: "fs_ok fs d dir bm"
    and out: "\<forall>t. t \<notin> N \<longrightarrow> t \<notin> set (blocks (hdr (freeMapFile fs))) \<longrightarrow> t \<notin> set (blocks (hdr (directoryFile fs))) \<longrightarrow> sector d' t = sector d t"
    and N: "N \<inter> marked bm = {}" and k: "dir_map dir k = Some s"
  shows "hdr_at d' s = hdr_at d s" "owned d' s = owned d s" "contents (hdr_at d' s) d' = contents (hdr_at d s) d"
    "\<And>t. t \<in> owned d s \<Longrightarrow> sector d' t = sector d t"
proof -
  show f: "sector d' t = sector d t" if "t \<in> owned d s" for t
  proof (rule out [rule_format])
    show "t \<notin> N" using N that system_sectors_marked(2) [OF fs k] by blast
    show "t \<notin> set (blocks (hdr (freeMapFile fs)))" "t \<notin> set (blocks (hdr (directoryFile fs)))"
      using that files_okD(5) [OF fs_okD(7) [OF fs] k] by (auto simp: system_sectors_def)
  qed
  show "hdr_at d' s = hdr_at d s" "owned d' s = owned d s" "contents (hdr_at d' s) d' = contents (hdr_at d s) d"
    by (rule owned_frame, erule f)+
qed

text \<open>Writing the directory and the map, in the one order and in the other.\<close>

lemma write_directory_map:
  assumes s: "system_ok fs" and d: "disk_ok d" and dir: "dir_wf dir" "tableSize dir = NumDirEntries" and bm: "bitmap_wf bm" "numBits bm = NumSectors"
  obtains d1 d2 where "Directory_WriteBack mem dir (directoryFile fs) d = Inr d1" "BitMap_WriteBack mem bm (freeMapFile fs) d1 = Inr d2" "disk_ok d2"
    "contents (hdr (directoryFile fs)) d2 = table_bytes (table dir)" "contents (hdr (freeMapFile fs)) d2 = words_bytes (bm_map bm)"
    "\<And>t. t \<notin> set (blocks (hdr (freeMapFile fs))) \<Longrightarrow> t \<notin> set (blocks (hdr (directoryFile fs))) \<Longrightarrow> sector d2 t = sector d t"
proof -
  have h: "file_ok (hdr (directoryFile fs))" "nat (numBytes (hdr (directoryFile fs))) = tableSize dir * entry_size"
    "file_ok (hdr (freeMapFile fs))" "numBytes (hdr (freeMapFile fs)) = 128"
    "set (blocks (hdr (freeMapFile fs))) \<inter> set (blocks (hdr (directoryFile fs))) = {}"
    using s dir(2) by (simp_all add: system_ok_def NumDirEntries_def)
  obtain d1 where d1: "Directory_WriteBack mem dir (directoryFile fs) d = Inr d1" "disk_ok d1"
    "contents (hdr (directoryFile fs)) d1 = table_bytes (table dir)"
    "\<And>t. t \<notin> set (blocks (hdr (directoryFile fs))) \<Longrightarrow> sector d1 t = sector d t"
    by (rule WriteBack_ok [OF h(1) d dir(1) h(2), of mem]) blast
  obtain d2 where d2: "BitMap_WriteBack mem bm (freeMapFile fs) d1 = Inr d2" "disk_ok d2"
    "contents (hdr (freeMapFile fs)) d2 = words_bytes (bm_map bm)"
    "\<And>t. t \<notin> set (blocks (hdr (freeMapFile fs))) \<Longrightarrow> sector d2 t = sector d1 t"
    by (rule BitMap_WriteBack_ok [OF h(3) d1(2) bm h(4), of mem]) blast
  have "contents (hdr (directoryFile fs)) d2 = contents (hdr (directoryFile fs)) d1"
    using d2(4) h(5) by (intro contents_cong) blast
  then show thesis using that [OF d1(1) d2(1,2) _ d2(3)] d1(3,4) d2(4) by simp
qed

lemma write_map_directory:
  assumes s: "system_ok fs" and d: "disk_ok d" and dir: "dir_wf dir" "tableSize dir = NumDirEntries" and bm: "bitmap_wf bm" "numBits bm = NumSectors"
  obtains d1 d2 where "BitMap_WriteBack mem bm (freeMapFile fs) d = Inr d1" "Directory_WriteBack mem dir (directoryFile fs) d1 = Inr d2" "disk_ok d2"
    "contents (hdr (directoryFile fs)) d2 = table_bytes (table dir)" "contents (hdr (freeMapFile fs)) d2 = words_bytes (bm_map bm)"
    "\<And>t. t \<notin> set (blocks (hdr (freeMapFile fs))) \<Longrightarrow> t \<notin> set (blocks (hdr (directoryFile fs))) \<Longrightarrow> sector d2 t = sector d t"
proof -
  have h: "file_ok (hdr (directoryFile fs))" "nat (numBytes (hdr (directoryFile fs))) = tableSize dir * entry_size"
    "file_ok (hdr (freeMapFile fs))" "numBytes (hdr (freeMapFile fs)) = 128"
    "set (blocks (hdr (freeMapFile fs))) \<inter> set (blocks (hdr (directoryFile fs))) = {}"
    using s dir(2) by (simp_all add: system_ok_def NumDirEntries_def)
  obtain d1 where d1: "BitMap_WriteBack mem bm (freeMapFile fs) d = Inr d1" "disk_ok d1"
    "contents (hdr (freeMapFile fs)) d1 = words_bytes (bm_map bm)"
    "\<And>t. t \<notin> set (blocks (hdr (freeMapFile fs))) \<Longrightarrow> sector d1 t = sector d t"
    by (rule BitMap_WriteBack_ok [OF h(3) d bm h(4), of mem]) blast
  obtain d2 where d2: "Directory_WriteBack mem dir (directoryFile fs) d1 = Inr d2" "disk_ok d2"
    "contents (hdr (directoryFile fs)) d2 = table_bytes (table dir)"
    "\<And>t. t \<notin> set (blocks (hdr (directoryFile fs))) \<Longrightarrow> sector d2 t = sector d1 t"
    by (rule WriteBack_ok [OF h(1) d1(2) dir(1) h(2), of mem]) blast
  have "contents (hdr (freeMapFile fs)) d2 = contents (hdr (freeMapFile fs)) d1"
    using d2(4) h(5) by (intro contents_cong) blast
  then show thesis using that [OF d1(1) d2(1-3)] d1(3,4) d2(4) by simp
qed

subsection \<open>Creating a file\<close>

definition sectors_free :: "BitMap \<Rightarrow> nat" where
  "sectors_free bm = card ({..<NumSectors} - marked bm)"

definition creatable :: "Directory \<Rightarrow> BitMap \<Rightarrow> byte list \<Rightarrow> int \<Rightarrow> bool" where
  "creatable dir bm fname n \<longleftrightarrow> dir_map dir (key fname) = None \<and> card (dom (dir_map dir)) \<noteq> NumDirEntries \<and>
     divRoundUp (nat n) SectorSize < sectors_free bm"

lemma full_iff: "bitmap_wf bm \<Longrightarrow> numBits bm = NumSectors \<Longrightarrow> marked bm = {..<numBits bm} \<longleftrightarrow> sectors_free bm = 0"
  using marked_bound [of bm] by (auto simp: sectors_free_def)

text \<open>The part of Create behind the look at the directory and the map.\<close>

lemma Create_start:
  assumes fs: "fs_ok fs d dir bm" and None: "dir_map dir (key fname) = None"
  obtains d2 where "disk_ok d2" "sector d2 = sector d"
    "FileSystem_Create mem t fs fname n d = bind_res (BitMap_Find bm) (\<lambda>(sec, freeMap2).
       if sec = -1 then Inr (False, d2)
       else bind_res (Directory_Add fname sec dir) (\<lambda>(added, directory1).
         if \<not> added then Inr (False, d2)
         else bind_res (FileHeader_Allocate t n (new_FileHeader mem) freeMap2 d2) (\<lambda>(ok, h, freeMap3, d3).
           if \<not> ok then Inr (False, d3)
           else bind_res (FileHeader_WriteBack h sec d3) (\<lambda>d4.
             bind_res (Directory_WriteBack mem directory1 (directoryFile fs) d4) (\<lambda>d5.
             bind_res (BitMap_WriteBack mem freeMap3 (freeMapFile fs) d5) (\<lambda>d6.
             Inr (True, d6)))))))"
proof -
  obtain d1 where d1: "Directory_FetchFrom (Directory_Directory mem NumDirEntries) (directoryFile fs) d = Inr (dir, d1)"
    "disk_ok d1" "sector d1 = sector d" "fs_ok fs d1 dir bm" by (rule fetch_directory [OF fs, of mem])
  obtain old d2 where d2: "new_BitMap mem = Inr old" "BitMap_FetchFrom old (freeMapFile fs) d1 = Inr (bm, d2)"
    "disk_ok d2" "sector d2 = sector d1" by (rule fetch_map [OF d1(4), of mem])
  show thesis
    by (rule that [OF d2(3)]) (use d1 d2 nt.find [OF fs_okD(3) [OF fs], of fname] None in \<open>simp_all add: FileSystem_Create_def\<close>)
qed

lemma next_sector:
  assumes "bitmap_wf bm" "numBits bm = NumSectors" "sectors_free bm \<noteq> 0"
  obtains i bm2 where "BitMap_Find bm = Inr (int i, bm2)" "i < NumSectors" "i \<notin> marked bm" "bitmap_wf bm2" "numBits bm2 = NumSectors"
    "marked bm2 = insert i (marked bm)" "sectors_free bm = Suc (sectors_free bm2)" "is_int (int i)"
proof -
  obtain i bm2 where i: "BitMap_Find bm = Inr (int i, bm2)" "i < NumSectors" "i \<notin> marked bm" "bitmap_wf bm2" "numBits bm2 = NumSectors"
    "marked bm2 = insert i (marked bm)"
    using BitMap_Find_first [OF assms(1)] full_iff [OF assms(1,2)] assms(2,3) by auto
  have e: "{..<NumSectors} - marked bm = insert i ({..<NumSectors} - marked bm2)" unfolding i(6) using i(2,3) by blast
  have "i \<notin> {..<NumSectors} - marked bm2" using i(6) by blast
  then have "sectors_free bm = Suc (sectors_free bm2)" unfolding sectors_free_def e by simp
  moreover have "is_int (int i)" using i(2) by (simp add: is_int_def NumSectors_def SectorsPerTrack_def NumTracks_def)
  ultimately show thesis using that i by blast
qed

lemma Create_refused:
  assumes fs: "fs_ok fs d dir bm" and n: "0 \<le> n" "n \<le> int (NumDirect * SectorSize)" and c: "\<not> creatable dir bm fname n"
  obtains d' where "FileSystem_Create mem t fs fname n d = Inr (False, d')" "disk_ok d'" "sector d' = sector d"
proof (cases "dir_map dir (key fname)")
  case (Some s)
  obtain d1 where d1: "Directory_FetchFrom (Directory_Directory mem NumDirEntries) (directoryFile fs) d = Inr (dir, d1)"
    "disk_ok d1" "sector d1 = sector d" by (rule fetch_directory [OF fs, of mem])
  have "0 \<le> s" using files_okD(1) [OF fs_okD(7) [OF fs] Some] .
  then have "FileSystem_Create mem t fs fname n d = Inr (False, d1)"
    using d1(1) nt.find [OF fs_okD(3) [OF fs], of fname] Some by (simp add: FileSystem_Create_def)
  then show thesis using that d1(2,3) by blast
next
  case None
  note F = fs_okD [OF fs]
  obtain d2 where d2: "disk_ok d2" "sector d2 = sector d" and start: "FileSystem_Create mem t fs fname n d = bind_res (BitMap_Find bm) (\<lambda>(sec, freeMap2).
       if sec = -1 then Inr (False, d2)
       else bind_res (Directory_Add fname sec dir) (\<lambda>(added, directory1).
         if \<not> added then Inr (False, d2)
         else bind_res (FileHeader_Allocate t n (new_FileHeader mem) freeMap2 d2) (\<lambda>(ok, h, freeMap3, d3).
           if \<not> ok then Inr (False, d3)
           else bind_res (FileHeader_WriteBack h sec d3) (\<lambda>d4.
             bind_res (Directory_WriteBack mem directory1 (directoryFile fs) d4) (\<lambda>d5.
             bind_res (BitMap_WriteBack mem freeMap3 (freeMapFile fs) d5) (\<lambda>d6.
             Inr (True, d6)))))))"
    by (rule Create_start [OF fs None, of mem t n])
  have "FileSystem_Create mem t fs fname n d = Inr (False, d2)"
  proof (cases "sectors_free bm = 0")
    case True
    then show ?thesis using start BitMap_Find_full [OF F(5)] full_iff [OF F(5,6)] by simp
  next
    case False
    obtain i bm2 where i: "BitMap_Find bm = Inr (int i, bm2)" "bitmap_wf bm2" "numBits bm2 = NumSectors"
      "sectors_free bm = Suc (sectors_free bm2)" "is_int (int i)" by (rule next_sector [OF F(5,6) False])
    show ?thesis
    proof (cases "card (dom (dir_map dir)) = NumDirEntries")
      case True
      then show ?thesis using start i(1) nt.add_no [OF F(3), of fname "int i"] F(4) by simp
    next
      case ne: False
      obtain dir1 where dir1: "Directory_Add fname (int i) dir = Inr (True, dir1)"
        using nt.add_yes [OF F(3) None _ i(5)] ne F(4) by auto
      have "\<not> divRoundUp (nat n) SectorSize \<le> card ({..<NumSectors} - marked bm2)"
        using c None ne i(4) by (simp add: creatable_def sectors_free_def)
      then obtain h where "FileHeader_Allocate t n (new_FileHeader mem) bm2 d2 = Inr (False, h, bm2, d2)"
        using Allocate_small [OF i(2,3) hdr_wf_new n, of t mem d2] by auto
      then show ?thesis using start i(1) dir1 by simp
    qed
  qed
  then show thesis using that d2 by simp
qed

lemma add_file:
  assumes fs: "fs_ok fs d dir bm" and m: "dir_map dir k = None" and i: "i < NumSectors" "i \<notin> marked bm"
    and h: "file_ok h" "set (blocks h) \<inter> insert i (marked bm) = {}"
    and dir1: "dir_wf dir1" "tableSize dir1 = NumDirEntries" "dir_map dir1 = (dir_map dir)(k \<mapsto> int i)"
    and bm1: "bitmap_wf bm1" "numBits bm1 = NumSectors" "marked bm1 = insert i (marked bm) \<union> set (blocks h)"
    and d1: "disk_ok d1" "contents (hdr (directoryFile fs)) d1 = table_bytes (table dir1)" "contents (hdr (freeMapFile fs)) d1 = words_bytes (bm_map bm1)"
    and out: "\<forall>t. t \<notin> set (blocks (hdr (freeMapFile fs))) \<longrightarrow> t \<notin> set (blocks (hdr (directoryFile fs))) \<longrightarrow>
      sector d1 t = ((sector d)(i := hdr_bytes h)) t"
  shows "fs_ok fs d1 dir1 bm1" "files d1 dir1 = (files d dir)(k \<mapsto> contents h d1)"
proof -
  note F = fs_okD [OF fs]
  have sys: "i \<notin> system_sectors fs" using system_sectors_marked(1) [OF fs] i(2) by blast
  have N: "{i} \<inter> marked bm = {}" using i(2) by simp
  have out': "\<forall>t. t \<notin> {i} \<longrightarrow> t \<notin> set (blocks (hdr (freeMapFile fs))) \<longrightarrow> t \<notin> set (blocks (hdr (directoryFile fs))) \<longrightarrow> sector d1 t = sector d t"
    using out by simp
  note O = files_frame [OF fs out' N]
  have "sector d1 i = hdr_bytes h" using out [rule_format, of i] sys by (simp add: system_sectors_def)
  then have hi: "hdr_at d1 (int i) = h" using hdr_of_hdr_bytes h(1) by (simp add: hdr_at_def file_ok_def)
  then have oi: "owned d1 (int i) = insert i (set (blocks h))" by (simp add: owned_def)
  have U: "(\<Union>s \<in> ran (dir_map dir). owned d1 s) = (\<Union>s \<in> ran (dir_map dir). owned d s)"
    using O(2) by (fastforce simp: ran_def)
  have "files_ok fs d1 (dir_map dir)"
    by (rule files_ok_frame [OF F(7)]) (auto simp: ran_def intro: O(4))
  then have "files_ok fs d1 (dir_map dir1)"
    unfolding dir1(3)
  proof (rule files_ok_insert)
    show "file_ok (hdr_at d1 (int i))" "nat (int i) \<notin> set (blocks (hdr_at d1 (int i)))" using h hi by auto
    show "owned d1 (int i) \<inter> (system_sectors fs \<union> (\<Union>s \<in> ran (dir_map dir). owned d1 s)) = {}"
      unfolding U F(8) [symmetric] oi using h(2) i(2) by auto
  qed (use i(1) in simp_all)
  moreover have "marked bm1 = system_sectors fs \<union> (\<Union>s \<in> ran (dir_map dir1). owned d1 s)"
    unfolding bm1(3) F(8) dir1(3) ran_map_upd [of "dir_map dir" k, OF m] UN_insert oi U by blast
  ultimately show "fs_ok fs d1 dir1 bm1" by (rule fs_ok_written [OF fs d1(1) out' N d1(2) dir1(1,2) d1(3) bm1(1,2)])
  show "files d1 dir1 = (files d dir)(k \<mapsto> contents h d1)"
    by (rule ext) (auto simp: files_def dir1(3) hi O(3) map_option_case split: option.split)
qed

lemma Create_ok:
  assumes fs: "fs_ok fs d dir bm" and n: "0 \<le> n" "n \<le> int (NumDirect * SectorSize)" and c: "creatable dir bm fname n"
  obtains d' dir' bm' bs where "FileSystem_Create mem t fs fname n d = Inr (True, d')" "fs_ok fs d' dir' bm'"
    "files d' dir' = (files d dir)(key fname \<mapsto> bs)" "length bs = nat n"
    "sectors_free bm = Suc (sectors_free bm' + divRoundUp (nat n) SectorSize)"
proof -
  note F = fs_okD [OF fs]
  have C: "dir_map dir (key fname) = None" "card (dom (dir_map dir)) \<noteq> tableSize dir" "divRoundUp (nat n) SectorSize < sectors_free bm"
    using c F(4) by (simp_all add: creatable_def)
  obtain d2 where d2: "disk_ok d2" "sector d2 = sector d" and start: "FileSystem_Create mem t fs fname n d = bind_res (BitMap_Find bm) (\<lambda>(sec, freeMap2).
       if sec = -1 then Inr (False, d2)
       else bind_res (Directory_Add fname sec dir) (\<lambda>(added, directory1).
         if \<not> added then Inr (False, d2)
         else bind_res (FileHeader_Allocate t n (new_FileHeader mem) freeMap2 d2) (\<lambda>(ok, h, freeMap3, d3).
           if \<not> ok then Inr (False, d3)
           else bind_res (FileHeader_WriteBack h sec d3) (\<lambda>d4.
             bind_res (Directory_WriteBack mem directory1 (directoryFile fs) d4) (\<lambda>d5.
             bind_res (BitMap_WriteBack mem freeMap3 (freeMapFile fs) d5) (\<lambda>d6.
             Inr (True, d6)))))))"
    by (rule Create_start [OF fs C(1), of mem t n])
  have "sectors_free bm \<noteq> 0" using C(3) by simp
  then obtain i bm2 where i: "BitMap_Find bm = Inr (int i, bm2)" "i < NumSectors" "i \<notin> marked bm" "bitmap_wf bm2" "numBits bm2 = NumSectors"
    "marked bm2 = insert i (marked bm)" "sectors_free bm = Suc (sectors_free bm2)" "is_int (int i)"
    by (rule next_sector [OF F(5,6)])
  obtain dir1 where dir1: "Directory_Add fname (int i) dir = Inr (True, dir1)" "dir_wf dir1" "tableSize dir1 = NumDirEntries"
    "dir_map dir1 = (dir_map dir)(key fname \<mapsto> int i)"
    using nt.add_yes [OF F(3) C(1,2) i(8)] F(4) by auto
  obtain h bm3 where A: "FileHeader_Allocate t n (new_FileHeader mem) bm2 d2 = Inr (True, h, bm3, d2)" "file_ok h" "numBytes h = n"
    "length (blocks h) = divRoundUp (nat n) SectorSize" "set (blocks h) \<subseteq> {..<NumSectors} - marked bm2" "bitmap_wf bm3"
    "numBits bm3 = NumSectors" "marked bm3 = marked bm2 \<union> set (blocks h)"
    using Allocate_small [OF i(4,5) hdr_wf_new n, of t mem d2] C(3) i(7) by (auto simp: sectors_free_def)
  have "hdr_wf h" using A(2) by (simp add: file_ok_def)
  obtain d4 where d4: "FileHeader_WriteBack h (int i) d2 = Inr d4" "disk_ok d4" "sector d4 = (sector d)(i := hdr_bytes h)"
    using bd.wr_ok [OF d2(1), of "int i" "hdr_bytes h"] i(2) file_ok_bytes [OF A(2)] d2(2) by (auto simp: FileHeader_WriteBack_def)
  obtain d5 d6 where d6: "Directory_WriteBack mem dir1 (directoryFile fs) d4 = Inr d5" "BitMap_WriteBack mem bm3 (freeMapFile fs) d5 = Inr d6" "disk_ok d6"
    "contents (hdr (directoryFile fs)) d6 = table_bytes (table dir1)" "contents (hdr (freeMapFile fs)) d6 = words_bytes (bm_map bm3)"
    "\<And>t. t \<notin> set (blocks (hdr (freeMapFile fs))) \<Longrightarrow> t \<notin> set (blocks (hdr (directoryFile fs))) \<Longrightarrow> sector d6 t = sector d4 t"
    by (rule write_directory_map [OF F(2) d4(2) dir1(2,3) A(6,7), of mem]) blast
  have R: "FileSystem_Create mem t fs fname n d = Inr (True, d6)" using start i(1) dir1(1) A(1) d4(1) d6(1,2) by simp
  have b: "set (blocks h) \<inter> insert i (marked bm) = {}" "marked bm3 = insert i (marked bm) \<union> set (blocks h)" using A(5,8) i(6) by auto
  have "\<forall>t. t \<notin> set (blocks (hdr (freeMapFile fs))) \<longrightarrow> t \<notin> set (blocks (hdr (directoryFile fs))) \<longrightarrow> sector d6 t = ((sector d)(i := hdr_bytes h)) t"
    using d6(6) d4(3) by simp
  note S = add_file [OF fs C(1) i(2,3) A(2) b(1) dir1(2-4) A(6,7) b(2) d6(3-5) this]
  have d: "distinct (blocks h)" using A(2) by (simp add: file_ok_def)
  then have "length (blocks h) \<le> card ({..<NumSectors} - marked bm2)"
    using card_mono [OF _ A(5)] distinct_card [OF d] by simp
  then have "sectors_free bm2 = sectors_free bm3 + divRoundUp (nat n) SectorSize"
    using free_after [OF A(8) d A(5)] A(4) by (simp add: sectors_free_def)
  then show thesis using that [OF R S] length_contents [OF A(2), of d6] A(3) i(7) by simp
qed

subsection \<open>Removing a file\<close>

lemma remove_file:
  assumes fs: "fs_ok fs d dir bm" and m: "dir_map dir k = Some s"
    and dir1: "dir_wf dir1" "tableSize dir1 = NumDirEntries" "dir_map dir1 = (dir_map dir)(k := None)"
    and bm1: "bitmap_wf bm1" "numBits bm1 = NumSectors" "marked bm1 = marked bm - owned d s"
    and d1: "disk_ok d1" "contents (hdr (directoryFile fs)) d1 = table_bytes (table dir1)" "contents (hdr (freeMapFile fs)) d1 = words_bytes (bm_map bm1)"
    and out: "\<forall>t. t \<notin> set (blocks (hdr (freeMapFile fs))) \<longrightarrow> t \<notin> set (blocks (hdr (directoryFile fs))) \<longrightarrow> sector d1 t = sector d t"
  shows "fs_ok fs d1 dir1 bm1" "files d1 dir1 = (files d dir)(k := None)"
proof -
  note F = fs_okD [OF fs]
  have N: "{} \<inter> marked bm = {}" by simp
  have out': "\<forall>t. t \<notin> {} \<longrightarrow> t \<notin> set (blocks (hdr (freeMapFile fs))) \<longrightarrow> t \<notin> set (blocks (hdr (directoryFile fs))) \<longrightarrow> sector d1 t = sector d t"
    using out by simp
  note O = files_frame [OF fs out' N]
  have "files_ok fs d1 (dir_map dir)"
    by (rule files_ok_frame [OF F(7)]) (auto simp: ran_def intro: O(4))
  then have fo: "files_ok fs d1 (dir_map dir1)" unfolding dir1(3) by (rule files_ok_delete)
  have disj: "owned d s' \<inter> owned d s = {}" if "dir_map dir k' = Some s'" "k' \<noteq> k" for k' s'
    using F(7) that m unfolding files_ok_def by blast
  have U: "(\<Union>s \<in> ran (dir_map dir1). owned d1 s) = (\<Union>s \<in> ran (dir_map dir). owned d s) - owned d s"
  proof (intro subset_antisym subsetI)
    fix t assume "t \<in> (\<Union>s \<in> ran (dir_map dir1). owned d1 s)"
    then obtain k' s' where k': "dir_map dir k' = Some s'" "k' \<noteq> k" "t \<in> owned d1 s'"
      unfolding dir1(3) ran_def by (auto split: if_splits)
    then show "t \<in> (\<Union>s \<in> ran (dir_map dir). owned d s) - owned d s"
      using disj [OF k'(1,2)] O(2) [OF k'(1)] ranI [of "dir_map dir", OF k'(1)] by blast
  next
    fix t assume "t \<in> (\<Union>s \<in> ran (dir_map dir). owned d s) - owned d s"
    then obtain k' s' where k': "dir_map dir k' = Some s'" "t \<in> owned d s'" "t \<notin> owned d s" unfolding ran_def by blast
    then have "k' \<noteq> k" using m by auto
    then have "dir_map dir1 k' = Some s'" using k'(1) dir1(3) by simp
    from ranI [of "dir_map dir1", OF this] show "t \<in> (\<Union>s \<in> ran (dir_map dir1). owned d1 s)" using k'(2) O(2) [OF k'(1)] by blast
  qed
  have "marked bm1 = system_sectors fs \<union> (\<Union>s \<in> ran (dir_map dir1). owned d1 s)"
    unfolding bm1(3) F(8) U using files_okD(5) [OF F(7) m] by blast
  with fo show "fs_ok fs d1 dir1 bm1" by (rule fs_ok_written [OF fs d1(1) out' N d1(2) dir1(1,2) d1(3) bm1(1,2)])
  show "files d1 dir1 = (files d dir)(k := None)"
    by (rule ext) (auto simp: files_def dir1(3) O(3) map_option_case split: option.split)
qed

lemma FetchFrom_hdr:
  assumes "disk_ok d" "0 \<le> s" "s < int NumSectors"
  obtains d1 where "FileHeader_FetchFrom s d = Inr (hdr_at d s, d1)" "disk_ok d1" "sector d1 = sector d"
  using bd.rd_ok [OF assms] that by (auto simp: FileHeader_FetchFrom_def hdr_at_def)

lemma Remove_absent:
  assumes fs: "fs_ok fs d dir bm" and m: "dir_map dir (key fname) = None"
  obtains d' where "FileSystem_Remove mem fs fname d = Inr (False, d')" "disk_ok d'" "sector d' = sector d"
proof -
  obtain d1 where d1: "Directory_FetchFrom (Directory_Directory mem NumDirEntries) (directoryFile fs) d = Inr (dir, d1)"
    "disk_ok d1" "sector d1 = sector d" by (rule fetch_directory [OF fs, of mem])
  then have "FileSystem_Remove mem fs fname d = Inr (False, d1)"
    using nt.find [OF fs_okD(3) [OF fs], of fname] m by (simp add: FileSystem_Remove_def)
  then show thesis using that d1 by blast
qed

lemma Remove_ok:
  assumes fs: "fs_ok fs d dir bm" and m: "dir_map dir (key fname) = Some s"
  obtains d' dir' bm' where "FileSystem_Remove mem fs fname d = Inr (True, d')" "fs_ok fs d' dir' bm'"
    "files d' dir' = (files d dir)(key fname := None)"
    "sectors_free bm' = Suc (sectors_free bm + length (blocks (hdr_at d s)))"
proof -
  note F = fs_okD [OF fs] and S = files_okD [OF fs_okD(7) [OF fs] m]
  obtain d1 where d1: "Directory_FetchFrom (Directory_Directory mem NumDirEntries) (directoryFile fs) d = Inr (dir, d1)"
    "disk_ok d1" "sector d1 = sector d" by (rule fetch_directory [OF fs, of mem])
  obtain d2 where d2: "FileHeader_FetchFrom s d1 = Inr (hdr_at d s, d2)" "disk_ok d2" "sector d2 = sector d"
    by (rule FetchFrom_hdr [OF d1(2) S(1,2)]) (use d1(3) in \<open>simp add: hdr_at_def\<close>)
  obtain old d3 where d3: "new_BitMap mem = Inr old" "BitMap_FetchFrom old (freeMapFile fs) d2 = Inr (bm, d3)" "disk_ok d3" "sector d3 = sector d"
    by (rule fetch_map [OF fs_ok_same(1) [OF fs d2(2,3)], of mem]) (use d2(3) in simp)
  have sub: "owned d s \<subseteq> marked bm" by (rule system_sectors_marked(2) [OF fs m])
  obtain bm1 where bm1: "FileHeader_Deallocate (hdr_at d s) bm d3 = Inr (bm1, d3)" "bitmap_wf bm1" "numBits bm1 = NumSectors"
    "marked bm1 = marked bm - set (blocks (hdr_at d s))"
    using Deallocate_small [OF S(3) F(5), of d3] sub F(6) by (auto simp: owned_def)
  have "nat s < numBits bm1" using S(1,2) bm1(3) by simp
  then obtain bm2 where bm2: "BitMap_Clear s bm1 = Inr bm2" "bitmap_wf bm2" "numBits bm2 = NumSectors" "marked bm2 = marked bm - owned d s"
    using BitMap_Clear_ok [OF bm1(2), of "nat s"] S(1) bm1(3,4) by (auto simp: owned_def)
  obtain dir1 where dir1: "Directory_Remove fname dir = Inr (True, dir1)" "dir_wf dir1" "tableSize dir1 = NumDirEntries"
    "dir_map dir1 = (dir_map dir)(key fname := None)"
    using nt.remove_yes [OF F(3) m] F(4) by auto
  obtain d4 d5 where d5: "BitMap_WriteBack mem bm2 (freeMapFile fs) d3 = Inr d4" "Directory_WriteBack mem dir1 (directoryFile fs) d4 = Inr d5" "disk_ok d5"
    "contents (hdr (directoryFile fs)) d5 = table_bytes (table dir1)" "contents (hdr (freeMapFile fs)) d5 = words_bytes (bm_map bm2)"
    "\<And>t. t \<notin> set (blocks (hdr (freeMapFile fs))) \<Longrightarrow> t \<notin> set (blocks (hdr (directoryFile fs))) \<Longrightarrow> sector d5 t = sector d3 t"
    by (rule write_map_directory [OF F(2) d3(3) dir1(2,3) bm2(2,3), of mem]) blast
  have R: "FileSystem_Remove mem fs fname d = Inr (True, d5)"
    using d1(1) nt.find [OF F(3), of fname] m S(1) d2(1) d3(1,2) bm1(1) bm2(1) dir1(1) d5(1,2) by (simp add: FileSystem_Remove_def)
  have "\<forall>t. t \<notin> set (blocks (hdr (freeMapFile fs))) \<longrightarrow> t \<notin> set (blocks (hdr (directoryFile fs))) \<longrightarrow> sector d5 t = sector d t"
    using d5(6) d3(4) by simp
  note W = remove_file [OF fs m dir1(2-4) bm2(2-4) d5(3-5) this]
  have "card (owned d s) = Suc (length (blocks (hdr_at d s)))"
    using S(3,4) by (simp add: owned_def distinct_card file_ok_def)
  moreover have "{..<NumSectors} - marked bm2 = ({..<NumSectors} - marked bm) \<union> owned d s"
    unfolding bm2(4) using sub S(6) by blast
  moreover have "card (({..<NumSectors} - marked bm) \<union> owned d s) = card ({..<NumSectors} - marked bm) + card (owned d s)"
    using sub by (intro card_Un_disjoint) (auto simp: owned_def)
  ultimately have "sectors_free bm2 = Suc (sectors_free bm + length (blocks (hdr_at d s)))" by (simp add: sectors_free_def)
  then show thesis using that R W by blast
qed

subsection \<open>Open files\<close>

lemma Open_absent:
  assumes fs: "fs_ok fs d dir bm" and m: "dir_map dir (key fname) = None"
  obtains d' where "FileSystem_Open mem fs fname d = Inr (None, d')" "disk_ok d'" "sector d' = sector d"
proof -
  obtain d1 where d1: "Directory_FetchFrom (Directory_Directory mem NumDirEntries) (directoryFile fs) d = Inr (dir, d1)"
    "disk_ok d1" "sector d1 = sector d" by (rule fetch_directory [OF fs, of mem])
  then have "FileSystem_Open mem fs fname d = Inr (None, d1)"
    using nt.find [OF fs_okD(3) [OF fs], of fname] m by (simp add: FileSystem_Open_def)
  then show thesis using that d1 by blast
qed

lemma Open_ok:
  assumes fs: "fs_ok fs d dir bm" and m: "dir_map dir (key fname) = Some s"
  obtains d' where "FileSystem_Open mem fs fname d = Inr (Some \<lparr>hdr = hdr_at d s, seekPosition = 0, hdrSector = s\<rparr>, d')" "disk_ok d'" "sector d' = sector d"
proof -
  note S = files_okD [OF fs_okD(7) [OF fs] m]
  obtain d1 where d1: "Directory_FetchFrom (Directory_Directory mem NumDirEntries) (directoryFile fs) d = Inr (dir, d1)"
    "disk_ok d1" "sector d1 = sector d" by (rule fetch_directory [OF fs, of mem])
  obtain d2 where d2: "FileHeader_FetchFrom s d1 = Inr (hdr_at d s, d2)" "disk_ok d2" "sector d2 = sector d"
    by (rule FetchFrom_hdr [OF d1(2) S(1,2)]) (use d1(3) in \<open>simp add: hdr_at_def\<close>)
  have "FileSystem_Open mem fs fname d = Inr (Some \<lparr>hdr = hdr_at d s, seekPosition = 0, hdrSector = s\<rparr>, d2)"
    using d1(1) d2(1) S(1) nt.find [OF fs_okD(3) [OF fs], of fname] m by (simp add: FileSystem_Open_def OpenFile_OpenFile_def)
  then show thesis using that d2 by blast
qed

text \<open>An open file that agrees with the file on the disk.\<close>

definition opened :: "OpenFile \<Rightarrow> Disk \<Rightarrow> Directory \<Rightarrow> byte list \<Rightarrow> bool" where
  "opened f d dir k \<longleftrightarrow> dir_map dir k = Some (hdrSector f) \<and> hdr f = hdr_at d (hdrSector f) \<and> 0 \<le> seekPosition f \<and> is_int (seekPosition f)"

lemma opened_ok: "fs_ok fs d dir bm \<Longrightarrow> opened f d dir k \<Longrightarrow> open_ok f" "fs_ok fs d dir bm \<Longrightarrow> opened f d dir k \<Longrightarrow> files d dir k = Some (contents (hdr f) d)"
  using files_okD [OF fs_okD(7), of fs d dir bm k "hdrSector f"] by (auto simp: opened_def open_ok_def files_def)

text \<open>Writing to the sectors of one file leaves the state consistent when the header stays in its place.\<close>

lemma write_file:
  assumes fs: "fs_ok fs d dir bm" and k: "dir_map dir k = Some s" and d1: "disk_ok d1"
    and h: "sector d1 (nat s) = hdr_bytes h" "file_ok h" "blocks h = blocks (hdr_at d s)"
    and out: "\<And>t. t \<notin> owned d s \<Longrightarrow> sector d1 t = sector d t"
  shows "fs_ok fs d1 dir bm" "files d1 dir = (files d dir)(k \<mapsto> contents h d1)" "hdr_at d1 s = h"
proof -
  note F = fs_okD [OF fs] and S = files_okD [OF fs_okD(7) [OF fs] k]
  show hs: "hdr_at d1 s = h" using h(1,2) by (simp add: hdr_at_def hdr_of_hdr_bytes file_ok_def)
  then have os: "owned d1 s = owned d s" using h(3) by (simp add: owned_def)
  have other: "t \<notin> owned d s" if "dir_map dir k' = Some s'" "k' \<noteq> k" "t \<in> owned d s'" for k' s' t
    using F(7) that k unfolding files_ok_def by blast
  have O: "hdr_at d1 s' = hdr_at d s'" "owned d1 s' = owned d s'" "contents (hdr_at d1 s') d1 = contents (hdr_at d s') d"
    if "dir_map dir k' = Some s'" "k' \<noteq> k" for k' s'
    by (rule owned_frame, rule out, rule other [OF that], assumption)+
  have E: "owned d1 s' = owned d s'" if "dir_map dir k' = Some s'" for k' s'
    using O(2) [OF that] os that k by (cases "k' = k") auto
  have "file_ok (hdr_at d1 s')" "blocks (hdr_at d1 s') = blocks (hdr_at d s')" if "dir_map dir k' = Some s'" for k' s'
    using O(1) [OF that] hs h(2,3) that k files_okD(3) [OF F(7) that] by (cases "k' = k"; simp)+
  then have "files_ok fs d1 (dir_map dir)"
    using F(7) E unfolding files_ok_def by metis
  moreover have sys: "sector d1 t = sector d t" if "t \<in> system_sectors fs" for t
    using that S(5) by (intro out) blast
  moreover have "contents (hdr (directoryFile fs)) d1 = contents (hdr (directoryFile fs)) d"
    "contents (hdr (freeMapFile fs)) d1 = contents (hdr (freeMapFile fs)) d"
    by (rule contents_cong, rule sys, simp add: system_sectors_def)+
  moreover have "(\<Union>s \<in> ran (dir_map dir). owned d1 s) = (\<Union>s \<in> ran (dir_map dir). owned d s)"
    using E by (fastforce simp: ran_def)
  ultimately show "fs_ok fs d1 dir bm" using fs d1 sys [of 0] sys [of 1] by (simp add: fs_ok_def system_sectors_def)
  show "files d1 dir = (files d dir)(k \<mapsto> contents h d1)"
    by (rule ext) (use k hs O(3) in \<open>auto simp: files_def map_option_case split: option.split\<close>)
qed

lemma Read_opened:
  fixes t :: tm
  assumes fs: "fs_ok fs d dir bm" and f: "opened f d dir k" and c: "files d dir k = Some c" and n: "is_int (seekPosition f + n)"
  defines "bs \<equiv> take (nat n) (drop (nat (seekPosition f)) c)"
  obtains f1 d1 where "OpenFile_Read t f n d = Inr (int (length bs), bs, f1, d1)" "fs_ok fs d1 dir bm" "files d1 dir = files d dir"
    "opened f1 d1 dir k" "seekPosition f1 = seekPosition f + int (length bs)" "hdrSector f1 = hdrSector f"
proof -
  have o: "open_ok f" "c = contents (hdr f) d" using opened_ok [OF fs f] c by simp_all
  have k: "dir_map dir k = Some (hdrSector f)" "hdr_at d (hdrSector f) = hdr f" using f by (simp_all add: opened_def)
  let ?f1 = "f\<lparr>seekPosition := seekPosition f + int (length bs), hdr := setAccessTime t (hdr f)\<rparr>"
  obtain d1 where d1: "OpenFile_Read t f n d = Inr (int (length bs), bs, ?f1, d1)" "disk_ok d1" "open_ok ?f1"
    "sector d1 = (sector d)(nat (hdrSector f) := hdr_bytes (hdr ?f1))" "contents (hdr ?f1) d1 = contents (hdr f) d"
    unfolding bs_def o(2) by (rule OpenFile_Read_ok [OF o(1) fs_okD(1) [OF fs] n, of t])
  note W = write_file [OF fs k(1) d1(2), of "hdr ?f1"]
  have h: "sector d1 (nat (hdrSector f)) = hdr_bytes (hdr ?f1)" "file_ok (hdr ?f1)" "blocks (hdr ?f1) = blocks (hdr_at d (hdrSector f))"
    "t' \<notin> owned d (hdrSector f) \<Longrightarrow> sector d1 t' = sector d t'" for t'
    using d1(3,4) k(2) by (simp_all add: open_ok_def owned_def)
  show thesis
  proof (rule that [OF d1(1)])
    show "fs_ok fs d1 dir bm" by (rule W(1) [OF h])
    show "files d1 dir = files d dir" using W(2) [OF h] d1(5) c o(2) by auto
    show "opened ?f1 d1 dir k" using W(3) [OF h] d1(3) k(1) by (simp add: opened_def open_ok_def)
  qed simp_all
qed

lemma Write_opened:
  fixes t :: tm
  assumes fs: "fs_ok fs d dir bm" and f: "opened f d dir k" and c: "files d dir k = Some c"
    and n: "is_int (seekPosition f + n)" "n \<le> int (length from)"
  defines "bs \<equiv> take (length c - nat (seekPosition f)) (take (nat n) from)"
  obtains f1 d1 where "OpenFile_Write mem t f from n d = Inr (int (length bs), f1, d1)" "fs_ok fs d1 dir bm"
    "files d1 dir = (files d dir)(k \<mapsto> patch bs (nat (seekPosition f)) c)"
    "opened f1 d1 dir k" "seekPosition f1 = seekPosition f + int (length bs)" "hdrSector f1 = hdrSector f"
proof -
  have o: "open_ok f" "c = contents (hdr f) d" using opened_ok [OF fs f] c by simp_all
  have k: "dir_map dir k = Some (hdrSector f)" "hdr_at d (hdrSector f) = hdr f" using f by (simp_all add: opened_def)
  let ?f1 = "f\<lparr>seekPosition := seekPosition f + int (length bs), hdr := setAccessTime t (hdr f)\<rparr>"
  obtain d1 where d1: "OpenFile_Write mem t f from n d = Inr (int (length bs), ?f1, d1)" "disk_ok d1" "open_ok ?f1"
    "contents (hdr ?f1) d1 = patch bs (nat (seekPosition f)) (contents (hdr f) d)"
    "sector d1 (nat (hdrSector f)) = hdr_bytes (hdr ?f1)"
    "\<And>s. s \<noteq> nat (hdrSector f) \<Longrightarrow> s \<notin> set (blocks (hdr f)) \<Longrightarrow> sector d1 s = sector d s"
    unfolding bs_def o(2) by (rule OpenFile_Write_ok [OF o(1) fs_okD(1) [OF fs] n, of mem t]) blast
  note W = write_file [OF fs k(1) d1(2), of "hdr ?f1"]
  have h: "sector d1 (nat (hdrSector f)) = hdr_bytes (hdr ?f1)" "file_ok (hdr ?f1)" "blocks (hdr ?f1) = blocks (hdr_at d (hdrSector f))"
    "t' \<notin> owned d (hdrSector f) \<Longrightarrow> sector d1 t' = sector d t'" for t'
    using d1(3,5,6) k(2) by (simp_all add: open_ok_def owned_def)
  show thesis
  proof (rule that [OF d1(1)])
    show "fs_ok fs d1 dir bm" by (rule W(1) [OF h])
    show "files d1 dir = (files d dir)(k \<mapsto> patch bs (nat (seekPosition f)) c)" using W(2) [OF h] d1(4) o(2) by simp
    show "opened ?f1 d1 dir k" using W(3) [OF h] d1(3) k(1) by (simp add: opened_def open_ok_def)
  qed simp_all
qed

lemma Open_opened:
  assumes fs: "fs_ok fs d dir bm" and m: "files d dir (key fname) = Some c"
  obtains f d1 where "FileSystem_Open mem fs fname d = Inr (Some f, d1)" "fs_ok fs d1 dir bm" "files d1 dir = files d dir"
    "opened f d1 dir (key fname)" "seekPosition f = 0"
proof -
  obtain s where s: "dir_map dir (key fname) = Some s" using m by (auto simp: files_def)
  obtain d1 where d1: "FileSystem_Open mem fs fname d = Inr (Some \<lparr>hdr = hdr_at d s, seekPosition = 0, hdrSector = s\<rparr>, d1)"
    "disk_ok d1" "sector d1 = sector d" by (rule Open_ok [OF fs s])
  show thesis by (rule that [OF d1(1) fs_ok_same [OF fs d1(2,3)]]) (use s d1(3) in \<open>simp_all add: opened_def hdr_at_def is_int_def\<close>)
qed

subsection \<open>Mounting\<close>

lemma mount_ok:
  assumes fs: "fs_ok fs d dir bm"
  obtains fs' d1 where "FileSystem_FileSystem mem t False d = Inr (fs', d1)" "fs_ok fs' d1 dir bm" "files d1 dir = files d dir"
proof -
  note F = fs_okD [OF fs]
  have h: "hdr_at d 0 = hdr (freeMapFile fs)" "hdr_at d 1 = hdr (directoryFile fs)"
    using fs by (simp_all add: fs_ok_def hdr_at_def hdr_of_hdr_bytes system_ok_def file_ok_def)
  obtain d1 where d1: "FileHeader_FetchFrom 0 d = Inr (hdr_at d 0, d1)" "disk_ok d1" "sector d1 = sector d"
    by (rule FetchFrom_hdr [OF F(1), of 0]) (simp_all add: NumSectors_def SectorsPerTrack_def NumTracks_def)
  obtain d2 where d2: "FileHeader_FetchFrom 1 d1 = Inr (hdr_at d 1, d2)" "disk_ok d2" "sector d2 = sector d"
    by (rule FetchFrom_hdr [OF d1(2), of 1]) (use d1(3) in \<open>simp_all add: hdr_at_def NumSectors_def SectorsPerTrack_def NumTracks_def\<close>)
  let ?fs = "\<lparr>freeMapFile = \<lparr>hdr = hdr (freeMapFile fs), seekPosition = 0, hdrSector = 0\<rparr>,
    directoryFile = \<lparr>hdr = hdr (directoryFile fs), seekPosition = 0, hdrSector = 1\<rparr>\<rparr>"
  have "FileSystem_FileSystem mem t False d = Inr (?fs, d2)"
    using d1(1) d2(1) h by (simp add: FileSystem_FileSystem_def OpenFile_OpenFile_def FreeMapSector_def DirectorySector_def)
  moreover have "fs_ok ?fs d2 dir bm" using fs_ok_same(1) [OF fs d2(2,3)]
    by (simp add: fs_ok_def system_ok_def files_ok_def system_sectors_def)
  ultimately show thesis using that fs_ok_same(2) [OF fs d2(2,3)] by blast
qed

lemma sectors_val [simp]: "NumSectors = 1024"
  by (simp add: NumSectors_def SectorsPerTrack_def NumTracks_def)

text \<open>The map of a new disk: the two headers, one sector for the map and two for the directory.\<close>

lemma format_map:
  fixes t :: tm and d :: Disk
  obtains bm0 bm1 bm2 h0 bm3 h1 bm4 where "new_BitMap mem = Inr bm0" "BitMap_Mark FreeMapSector bm0 = Inr bm1"
    "BitMap_Mark DirectorySector bm1 = Inr bm2"
    "FileHeader_Allocate t (int FreeMapFileSize) (new_FileHeader mem) bm2 d = Inr (True, h0, bm3, d)"
    "FileHeader_Allocate t (int DirectoryFileSize) (new_FileHeader mem) bm3 d = Inr (True, h1, bm4, d)"
    "system_ok \<lparr>freeMapFile = \<lparr>hdr = h0, seekPosition = 0, hdrSector = 0\<rparr>, directoryFile = \<lparr>hdr = h1, seekPosition = 0, hdrSector = 1\<rparr>\<rparr>"
    "bitmap_wf bm4" "numBits bm4 = NumSectors" "marked bm4 = {0, 1} \<union> set (blocks h0) \<union> set (blocks h1)" "sectors_free bm4 = 1019"
proof -
  obtain bm0 where b0: "new_BitMap mem = Inr bm0" "bitmap_wf bm0" "numBits bm0 = NumSectors" "marked bm0 = {}" by (rule new_BitMap_ok)
  obtain bm1 where b1: "BitMap_Mark FreeMapSector bm0 = Inr bm1" "bitmap_wf bm1" "numBits bm1 = NumSectors" "marked bm1 = {0}"
    using BitMap_Mark_ok [OF b0(2), of 0] b0(3,4) by (auto simp: FreeMapSector_def)
  obtain bm2 where b2: "BitMap_Mark DirectorySector bm1 = Inr bm2" "bitmap_wf bm2" "numBits bm2 = NumSectors" "marked bm2 = {0, 1}"
    using BitMap_Mark_ok [OF b1(2), of 1] b1(3,4) by (auto simp: DirectorySector_def insert_commute)
  have n: "int FreeMapFileSize = 128" "int DirectoryFileSize = 200" "divRoundUp 128 SectorSize = 1" "divRoundUp 200 SectorSize = 2"
    by (simp_all add: FreeMapFileSize_def DirectoryFileSize_def NumDirEntries_def entry_size_def FileNameMaxLen_def divRoundUp_def SectorSize_def)
  have c2: "card ({..<NumSectors} - marked bm2) = 1022" by (simp add: b2(4) card_Diff_subset)
  obtain h0 bm3 where h0: "FileHeader_Allocate t 128 (new_FileHeader mem) bm2 d = Inr (True, h0, bm3, d)" "file_ok h0" "numBytes h0 = 128"
    "length (blocks h0) = 1" "set (blocks h0) \<subseteq> {..<NumSectors} - marked bm2" "bitmap_wf bm3" "numBits bm3 = NumSectors"
    "marked bm3 = marked bm2 \<union> set (blocks h0)"
    using Allocate_small [OF b2(2,3) hdr_wf_new [of mem], of 128 t d] c2 n by (auto simp: SectorSize_def)
  have d0: "distinct (blocks h0)" using h0(2) by (simp add: file_ok_def)
  have c3: "card ({..<NumSectors} - marked bm3) = 1021" using free_after [OF h0(8) d0 h0(5)] c2 h0(4) by simp
  obtain h1 bm4 where h1: "FileHeader_Allocate t 200 (new_FileHeader mem) bm3 d = Inr (True, h1, bm4, d)" "file_ok h1" "numBytes h1 = 200"
    "length (blocks h1) = 2" "set (blocks h1) \<subseteq> {..<NumSectors} - marked bm3" "bitmap_wf bm4" "numBits bm4 = NumSectors"
    "marked bm4 = marked bm3 \<union> set (blocks h1)"
    using Allocate_small [OF h0(6,7) hdr_wf_new [of mem], of 200 t d] c3 n by (auto simp: SectorSize_def)
  have d1: "distinct (blocks h1)" using h1(2) by (simp add: file_ok_def)
  have c4: "card ({..<NumSectors} - marked bm4) = 1019" using free_after [OF h1(8) d1 h1(5)] c3 h1(4) by simp
  have "{0, 1} \<inter> set (blocks h0) = {}" "{0, 1} \<inter> set (blocks h1) = {}" "set (blocks h0) \<inter> set (blocks h1) = {}"
    using h0(5) h1(5) b2(4) h0(8) by auto
  then show thesis
    using that [OF b0(1) b1(1) b2(1)] h0 h1 b2(4) n c4 by (simp add: system_ok_def sectors_free_def)
qed

lemma format_ok:
  assumes d: "disk_ok d"
  obtains fs d' dir bm where "FileSystem_FileSystem mem t True d = Inr (fs, d')" "fs_ok fs d' dir bm" "files d' dir = Map.empty" "sectors_free bm = 1019"
proof -
  obtain bm0 bm1 bm2 h0 bm3 h1 bm4 where M: "new_BitMap mem = Inr bm0" "BitMap_Mark FreeMapSector bm0 = Inr bm1"
    "BitMap_Mark DirectorySector bm1 = Inr bm2"
    "FileHeader_Allocate t (int FreeMapFileSize) (new_FileHeader mem) bm2 d = Inr (True, h0, bm3, d)"
    "FileHeader_Allocate t (int DirectoryFileSize) (new_FileHeader mem) bm3 d = Inr (True, h1, bm4, d)"
    "system_ok \<lparr>freeMapFile = \<lparr>hdr = h0, seekPosition = 0, hdrSector = 0\<rparr>, directoryFile = \<lparr>hdr = h1, seekPosition = 0, hdrSector = 1\<rparr>\<rparr>"
    "bitmap_wf bm4" "numBits bm4 = NumSectors" "marked bm4 = {0, 1} \<union> set (blocks h0) \<union> set (blocks h1)" "sectors_free bm4 = 1019"
    by (rule format_map [of mem t d])
  let ?fs = "\<lparr>freeMapFile = \<lparr>hdr = h0, seekPosition = 0, hdrSector = 0\<rparr>, directoryFile = \<lparr>hdr = h1, seekPosition = 0, hdrSector = 1\<rparr>\<rparr>"
  let ?dir = "Directory_Directory mem NumDirEntries"
  have h: "file_ok h0" "file_ok h1" "{0, 1} \<inter> set (blocks h0) = {}" "{0, 1} \<inter> set (blocks h1) = {}" using M(6) by (simp_all add: system_ok_def)
  obtain d1 where d1: "FileHeader_WriteBack h0 FreeMapSector d = Inr d1" "disk_ok d1" "sector d1 = (sector d)(0 := hdr_bytes h0)"
    using bd.wr_ok [OF d, of 0 "hdr_bytes h0"] file_ok_bytes [OF h(1)] by (auto simp: FileHeader_WriteBack_def FreeMapSector_def)
  obtain d2 where d2: "FileHeader_WriteBack h1 DirectorySector d1 = Inr d2" "disk_ok d2" "sector d2 = (sector d1)(1 := hdr_bytes h1)"
    using bd.wr_ok [OF d1(2), of 1 "hdr_bytes h1"] file_ok_bytes [OF h(2)] by (auto simp: FileHeader_WriteBack_def DirectorySector_def)
  have at: "hdr_at d2 0 = h0" "hdr_at d2 1 = h1"
    using d2(3) d1(3) h(1,2) by (simp_all add: hdr_at_def hdr_of_hdr_bytes file_ok_def)
  obtain d3 where d3: "FileHeader_FetchFrom 0 d2 = Inr (h0, d3)" "disk_ok d3" "sector d3 = sector d2"
    by (rule FetchFrom_hdr [OF d2(2), of 0]) (use at in simp_all)
  obtain d4 where d4: "FileHeader_FetchFrom 1 d3 = Inr (h1, d4)" "disk_ok d4" "sector d4 = sector d2"
    by (rule FetchFrom_hdr [OF d3(2), of 1]) (use at d3(3) in \<open>simp_all add: hdr_at_def\<close>)
  have dir: "dir_wf ?dir" "tableSize ?dir = NumDirEntries" "dir_map ?dir = Map.empty"
    using dir_wf_new by (simp_all add: Directory_Directory_def)
  obtain d5 d6 where d6: "BitMap_WriteBack mem bm4 (freeMapFile ?fs) d4 = Inr d5" "Directory_WriteBack mem ?dir (directoryFile ?fs) d5 = Inr d6" "disk_ok d6"
    "contents (hdr (directoryFile ?fs)) d6 = table_bytes (table ?dir)" "contents (hdr (freeMapFile ?fs)) d6 = words_bytes (bm_map bm4)"
    "\<And>t. t \<notin> set (blocks (hdr (freeMapFile ?fs))) \<Longrightarrow> t \<notin> set (blocks (hdr (directoryFile ?fs))) \<Longrightarrow> sector d6 t = sector d4 t"
    by (rule write_map_directory [OF M(6) d4(2) dir(1,2) M(7,8), of mem]) blast
  have "FileSystem_FileSystem mem t True d = Inr (?fs, d6)"
    using M(1-5) d1(1) d2(1) d3(1) d4(1) d6(1,2)
    by (simp add: FileSystem_FileSystem_def FileSystem_format_def OpenFile_OpenFile_def FreeMapSector_def DirectorySector_def Let_def)
  moreover have "sector d6 0 = hdr_bytes h0" "sector d6 1 = hdr_bytes h1"
    using d6(6) h(3,4) d4(3) d2(3) d1(3) by simp_all
  then have "fs_ok ?fs d6 ?dir bm4"
    using d6(3-5) M(6-9) dir by (simp add: fs_ok_def files_ok_def system_sectors_def)
  moreover have "files d6 ?dir = Map.empty" by (rule ext) (simp add: files_def dir(3))
  ultimately show thesis using that M(10) by blast
qed

subsection \<open>Calls of the file system and what they promise\<close>

text \<open>
  The calls of a client: create and remove a file, open one and read or write it at a position, and mount the disk again
  after a restart. Every call runs in memory that held anything and at any time of day.
\<close>

datatype call =
    CCreate "byte list" int
  | CRemove "byte list"
  | CRead "byte list" int int
  | CWrite "byte list" int "byte list"
  | CMount

datatype reply = RDone bool | RData "byte list" | RCount int | RNoFile

definition do_call :: "memory \<times> tm \<times> call \<Rightarrow> FileSystem \<times> Disk \<Rightarrow> (reply \<times> FileSystem \<times> Disk) res" where
  "do_call = (\<lambda>(mem, t, c) (fs, d). case c of
     CCreate fname n \<Rightarrow> bind_res (FileSystem_Create mem t fs fname n d) (\<lambda>(ok, d1). Inr (RDone ok, fs, d1))
   | CRemove fname \<Rightarrow> bind_res (FileSystem_Remove mem fs fname d) (\<lambda>(ok, d1). Inr (RDone ok, fs, d1))
   | CRead fname p n \<Rightarrow> bind_res (FileSystem_Open mem fs fname d) (\<lambda>(f, d1). case f of
       None \<Rightarrow> Inr (RNoFile, fs, d1)
     | Some f \<Rightarrow> bind_res (OpenFile_Read t (OpenFile_Seek p f) n d1) (\<lambda>(_, bs, _, d2). Inr (RData bs, fs, d2)))
   | CWrite fname p bs \<Rightarrow> bind_res (FileSystem_Open mem fs fname d) (\<lambda>(f, d1). case f of
       None \<Rightarrow> Inr (RNoFile, fs, d1)
     | Some f \<Rightarrow> bind_res (OpenFile_Write mem t (OpenFile_Seek p f) bs (int (length bs)) d1) (\<lambda>(n, _, d2). Inr (RCount n, fs, d2)))
   | CMount \<Rightarrow> bind_res (FileSystem_FileSystem mem t False d) (\<lambda>(fs1, d1). Inr (RDone True, fs1, d1)))"

text \<open>Sizes up to the direct blocks of a header, positions that fit an int.\<close>

fun fcall_ok :: "call \<Rightarrow> bool" where
  "fcall_ok (CCreate _ n) \<longleftrightarrow> 0 \<le> n \<and> n \<le> int (NumDirect * SectorSize)"
| "fcall_ok (CRemove _) \<longleftrightarrow> True"
| "fcall_ok (CRead _ p n) \<longleftrightarrow> 0 \<le> p \<and> is_int p \<and> is_int (p + n)"
| "fcall_ok (CWrite _ p bs) \<longleftrightarrow> 0 \<le> p \<and> is_int p \<and> is_int (p + int (length bs))"
| "fcall_ok CMount \<longleftrightarrow> True"

text \<open>
  The contract: at most ten files by the first eleven bytes of their names, each a list of bytes of a fixed length, and a
  number of free sectors. A new file has any contents.
\<close>

type_synonym store = "(byte list \<rightharpoonup> byte list) \<times> nat"

definition room :: "store \<Rightarrow> byte list \<Rightarrow> nat \<Rightarrow> bool" where
  "room = (\<lambda>(m, free) fname n. m (key fname) = None \<and> card (dom m) \<noteq> NumDirEntries \<and> divRoundUp n SectorSize < free)"

definition file_sectors :: "byte list \<Rightarrow> nat" where
  "file_sectors c = Suc (divRoundUp (length c) SectorSize)"

inductive store_step :: "call \<Rightarrow> store \<Rightarrow> reply \<Rightarrow> store \<Rightarrow> bool" where
  creates: "room (m, free) fname (nat n) \<Longrightarrow> length c = nat n \<Longrightarrow> free = free' + file_sectors c \<Longrightarrow>
    store_step (CCreate fname n) (m, free) (RDone True) (m(key fname \<mapsto> c), free')"
| creates_no: "\<not> room (m, free) fname (nat n) \<Longrightarrow> store_step (CCreate fname n) (m, free) (RDone False) (m, free)"
| removes: "m (key fname) = Some c \<Longrightarrow>
    store_step (CRemove fname) (m, free) (RDone True) (m(key fname := None), free + file_sectors c)"
| removes_no: "m (key fname) = None \<Longrightarrow> store_step (CRemove fname) (m, free) (RDone False) (m, free)"
| reads: "m (key fname) = Some c \<Longrightarrow> store_step (CRead fname p n) (m, free) (RData (take (nat n) (drop (nat p) c))) (m, free)"
| reads_no: "m (key fname) = None \<Longrightarrow> store_step (CRead fname p n) (m, free) RNoFile (m, free)"
| writes: "m (key fname) = Some c \<Longrightarrow> w = take (length c - nat p) bs \<Longrightarrow>
    store_step (CWrite fname p bs) (m, free) (RCount (int (length w))) (m(key fname \<mapsto> patch w (nat p) c), free)"
| writes_no: "m (key fname) = None \<Longrightarrow> store_step (CWrite fname p bs) (m, free) RNoFile (m, free)"
| mounts: "store_step CMount s (RDone True) s"

inductive_simps store_step_simps:
  "store_step (CCreate fname n) (m, free) r s'" "store_step (CRemove fname) (m, free) r s'" "store_step (CRead fname p n) (m, free) r s'"
  "store_step (CWrite fname p bs) (m, free) r s'" "store_step CMount s r s'"

text \<open>The disk represents a store.\<close>

definition represents_store :: "FileSystem \<times> Disk \<Rightarrow> store \<Rightarrow> bool" where
  "represents_store = (\<lambda>(fs, d) (m, free). \<exists>dir bm. fs_ok fs d dir bm \<and> m = files d dir \<and> free = sectors_free bm)"

lemma represents_storeI: "fs_ok fs d dir bm \<Longrightarrow> files d dir = m \<Longrightarrow> sectors_free bm = free \<Longrightarrow> represents_store (fs, d) (m, free)"
  by (auto simp: represents_store_def)

lemma dom_files: "dom (files d dir) = dom (dir_map dir)"
  by (auto simp: files_def dom_def)

lemma file_blocks:
  assumes "file_ok h"
  shows "length (blocks h) = divRoundUp (length (contents h d)) SectorSize"
proof -
  have "numSectors h = int (divRoundUp (nat (numBytes h)) SectorSize)"
    using assms by (intro small_counts(1)) (simp_all only: file_ok_def)
  then show ?thesis using file_ok_blocks(1) [OF assms] length_contents [OF assms, of d] by simp
qed

lemma room_creatable: "room (files d dir, sectors_free bm) fname (nat n) \<longleftrightarrow> creatable dir bm fname n"
  by (simp add: room_def creatable_def dom_files) (simp add: files_def)

text \<open>Each call returns, answers as the contract says, and leaves a disk that represents the new store.\<close>

lemma call_stepI:
  assumes "store_step c s r (files d' dir', sectors_free bm')" "fs_ok fs' d' dir' bm'" "do_call (mem, t, c) (fs, d) = Inr (r, fs', d')"
  shows "\<exists>r x s'. do_call (mem, t, c) (fs, d) = Inr (r, x) \<and> store_step c s r s' \<and> represents_store x s'"
  using assms represents_storeI [OF assms(2) refl refl] by blast

lemma do_create:
  assumes fs: "fs_ok fs d dir bm" and n: "0 \<le> n" "n \<le> int (NumDirect * SectorSize)"
  shows "\<exists>r x s'. do_call (mem, t, CCreate fname n) (fs, d) = Inr (r, x) \<and> store_step (CCreate fname n) (files d dir, sectors_free bm) r s' \<and> represents_store x s'"
proof (cases "creatable dir bm fname n")
  case True
  obtain d' dir' bm' bs where C: "FileSystem_Create mem t fs fname n d = Inr (True, d')" "fs_ok fs d' dir' bm'"
    "files d' dir' = (files d dir)(key fname \<mapsto> bs)" "length bs = nat n"
    "sectors_free bm = Suc (sectors_free bm' + divRoundUp (nat n) SectorSize)"
    by (rule Create_ok [OF fs n True])
  have "room (files d dir, sectors_free bm) fname (nat n)" unfolding room_creatable by (rule True)
  moreover have "sectors_free bm = sectors_free bm' + file_sectors bs" using C(4,5) by (simp add: file_sectors_def)
  ultimately have "store_step (CCreate fname n) (files d dir, sectors_free bm) (RDone True) (files d' dir', sectors_free bm')"
    unfolding C(3) by (intro store_step.creates C(4))
  then show ?thesis by (rule call_stepI [OF _ C(2)]) (use C(1) in \<open>simp add: do_call_def\<close>)
next
  case False
  obtain d' where C: "FileSystem_Create mem t fs fname n d = Inr (False, d')" "disk_ok d'" "sector d' = sector d"
    by (rule Create_refused [OF fs n False])
  note E = fs_ok_same [OF fs C(2,3)]
  have "store_step (CCreate fname n) (files d dir, sectors_free bm) (RDone False) (files d' dir, sectors_free bm)"
    unfolding E(2) using False by (intro store_step.creates_no) (simp add: room_creatable)
  then show ?thesis by (rule call_stepI [OF _ E(1)]) (use C(1) in \<open>simp add: do_call_def\<close>)
qed

lemma do_remove:
  assumes fs: "fs_ok fs d dir bm"
  shows "\<exists>r x s'. do_call (mem, t, CRemove fname) (fs, d) = Inr (r, x) \<and> store_step (CRemove fname) (files d dir, sectors_free bm) r s' \<and> represents_store x s'"
proof (cases "dir_map dir (key fname)")
  case (Some s)
  obtain d' dir' bm' where R: "FileSystem_Remove mem fs fname d = Inr (True, d')" "fs_ok fs d' dir' bm'"
    "files d' dir' = (files d dir)(key fname := None)"
    "sectors_free bm' = Suc (sectors_free bm + length (blocks (hdr_at d s)))"
    by (rule Remove_ok [OF fs Some])
  have c: "files d dir (key fname) = Some (contents (hdr_at d s) d)" by (simp add: files_def Some)
  have "sectors_free bm' = sectors_free bm + file_sectors (contents (hdr_at d s) d)"
    using R(4) file_blocks [OF files_okD(3) [OF fs_okD(7) [OF fs] Some], of d] by (simp add: file_sectors_def)
  then have "store_step (CRemove fname) (files d dir, sectors_free bm) (RDone True) (files d' dir', sectors_free bm')"
    using store_step.removes [of "files d dir", OF c] R(3) by simp
  then show ?thesis by (rule call_stepI [OF _ R(2)]) (use R(1) in \<open>simp add: do_call_def\<close>)
next
  case None
  obtain d' where R: "FileSystem_Remove mem fs fname d = Inr (False, d')" "disk_ok d'" "sector d' = sector d"
    by (rule Remove_absent [OF fs None])
  note E = fs_ok_same [OF fs R(2,3)]
  have "store_step (CRemove fname) (files d dir, sectors_free bm) (RDone False) (files d' dir, sectors_free bm)"
    unfolding E(2) using None by (intro store_step.removes_no) (simp add: files_def)
  then show ?thesis by (rule call_stepI [OF _ E(1)]) (use R(1) in \<open>simp add: do_call_def\<close>)
qed

lemma seek_opened: "opened f d dir k \<Longrightarrow> 0 \<le> p \<Longrightarrow> is_int p \<Longrightarrow> opened (OpenFile_Seek p f) d dir k"
  by (simp add: opened_def OpenFile_Seek_def)

lemma do_read:
  assumes fs: "fs_ok fs d dir bm" and p: "0 \<le> p" "is_int p" "is_int (p + n)"
  shows "\<exists>r x s'. do_call (mem, t, CRead fname p n) (fs, d) = Inr (r, x) \<and> store_step (CRead fname p n) (files d dir, sectors_free bm) r s' \<and> represents_store x s'"
proof (cases "files d dir (key fname)")
  case (Some c)
  obtain f d1 where o: "FileSystem_Open mem fs fname d = Inr (Some f, d1)" "fs_ok fs d1 dir bm" "files d1 dir = files d dir"
    "opened f d1 dir (key fname)" "seekPosition f = 0" by (rule Open_opened [OF fs Some])
  let ?bs = "take (nat n) (drop (nat p) c)"
  obtain f1 d2 where r: "OpenFile_Read t (OpenFile_Seek p f) n d1 = Inr (int (length ?bs), ?bs, f1, d2)" "fs_ok fs d2 dir bm" "files d2 dir = files d1 dir"
    by (rule Read_opened [OF o(2) seek_opened [OF o(4) p(1,2)], of c n t]) (use Some o(3) p in \<open>simp_all add: OpenFile_Seek_def\<close>)
  have "store_step (CRead fname p n) (files d dir, sectors_free bm) (RData ?bs) (files d2 dir, sectors_free bm)"
    unfolding r(3) o(3) by (rule store_step.reads [of "files d dir", OF Some])
  then show ?thesis by (rule call_stepI [OF _ r(2)]) (use o(1) r(1) in \<open>simp add: do_call_def\<close>)
next
  case None
  then have "dir_map dir (key fname) = None" by (simp add: files_def)
  then obtain d' where o: "FileSystem_Open mem fs fname d = Inr (None, d')" "disk_ok d'" "sector d' = sector d"
    by (rule Open_absent [OF fs])
  note E = fs_ok_same [OF fs o(2,3)]
  have "store_step (CRead fname p n) (files d dir, sectors_free bm) RNoFile (files d' dir, sectors_free bm)"
    unfolding E(2) by (rule store_step.reads_no [of "files d dir", OF None])
  then show ?thesis by (rule call_stepI [OF _ E(1)]) (use o(1) in \<open>simp add: do_call_def\<close>)
qed

lemma do_write:
  assumes fs: "fs_ok fs d dir bm" and p: "0 \<le> p" "is_int p" "is_int (p + int (length bs))"
  shows "\<exists>r x s'. do_call (mem, t, CWrite fname p bs) (fs, d) = Inr (r, x) \<and> store_step (CWrite fname p bs) (files d dir, sectors_free bm) r s' \<and> represents_store x s'"
proof (cases "files d dir (key fname)")
  case (Some c)
  obtain f d1 where o: "FileSystem_Open mem fs fname d = Inr (Some f, d1)" "fs_ok fs d1 dir bm" "files d1 dir = files d dir"
    "opened f d1 dir (key fname)" "seekPosition f = 0" by (rule Open_opened [OF fs Some])
  let ?w = "take (length c - nat p) bs"
  obtain f1 d2 where r: "OpenFile_Write mem t (OpenFile_Seek p f) bs (int (length bs)) d1 = Inr (int (length ?w), f1, d2)" "fs_ok fs d2 dir bm"
    "files d2 dir = (files d1 dir)(key fname \<mapsto> patch ?w (nat p) c)"
    by (rule Write_opened [OF o(2) seek_opened [OF o(4) p(1,2)], of c "int (length bs)" bs mem t]) (use Some o(3) p in \<open>simp_all add: OpenFile_Seek_def\<close>)
  have "store_step (CWrite fname p bs) (files d dir, sectors_free bm) (RCount (int (length ?w))) (files d2 dir, sectors_free bm)"
    unfolding r(3) o(3) by (rule store_step.writes [of "files d dir", OF Some refl])
  then show ?thesis by (rule call_stepI [OF _ r(2)]) (use o(1) r(1) in \<open>simp add: do_call_def\<close>)
next
  case None
  then have "dir_map dir (key fname) = None" by (simp add: files_def)
  then obtain d' where o: "FileSystem_Open mem fs fname d = Inr (None, d')" "disk_ok d'" "sector d' = sector d"
    by (rule Open_absent [OF fs])
  note E = fs_ok_same [OF fs o(2,3)]
  have "store_step (CWrite fname p bs) (files d dir, sectors_free bm) RNoFile (files d' dir, sectors_free bm)"
    unfolding E(2) by (rule store_step.writes_no [of "files d dir", OF None])
  then show ?thesis by (rule call_stepI [OF _ E(1)]) (use o(1) in \<open>simp add: do_call_def\<close>)
qed

lemma do_mount:
  assumes fs: "fs_ok fs d dir bm"
  shows "\<exists>r x s'. do_call (mem, t, CMount) (fs, d) = Inr (r, x) \<and> store_step CMount (files d dir, sectors_free bm) r s' \<and> represents_store x s'"
proof -
  obtain fs' d1 where m: "FileSystem_FileSystem mem t False d = Inr (fs', d1)" "fs_ok fs' d1 dir bm" "files d1 dir = files d dir"
    by (rule mount_ok [OF fs])
  have "store_step CMount (files d dir, sectors_free bm) (RDone True) (files d1 dir, sectors_free bm)"
    unfolding m(3) by (rule store_step.mounts)
  then show ?thesis by (rule call_stepI [OF _ m(2)]) (use m(1) in \<open>simp add: do_call_def\<close>)
qed

lemma do_call_step:
  assumes "represents_store x s" "fcall_ok c"
  shows "\<exists>r x' s'. do_call (mem, t, c) x = Inr (r, x') \<and> store_step c s r s' \<and> represents_store x' s'"
proof -
  obtain fs d dir bm where x: "x = (fs, d)" "s = (files d dir, sectors_free bm)" and fs: "fs_ok fs d dir bm"
    using assms(1) by (auto simp: represents_store_def split: prod.splits)
  show ?thesis
    unfolding x using assms(2) do_create [OF fs] do_remove [OF fs] do_read [OF fs] do_write [OF fs] do_mount [OF fs] by (cases c) simp_all
qed

subsection \<open>Sequences of calls\<close>

primrec serve_calls :: "('c \<Rightarrow> 's \<Rightarrow> ('r \<times> 's) res) \<Rightarrow> 'c list \<Rightarrow> 's \<Rightarrow> ('r list \<times> 's) res" where
  "serve_calls f [] s = Inr ([], s)"
| "serve_calls f (c # cs) s = bind_res (f c s) (\<lambda>(r, s1). bind_res (serve_calls f cs s1) (\<lambda>(rs, s2). Inr (r # rs, s2)))"

primrec spec_run :: "('c \<Rightarrow> 'a \<Rightarrow> 'r \<Rightarrow> 'a \<Rightarrow> bool) \<Rightarrow> 'c list \<Rightarrow> 'a \<Rightarrow> 'r list \<Rightarrow> 'a \<Rightarrow> bool" where
  "spec_run P [] a rs a' \<longleftrightarrow> rs = [] \<and> a' = a"
| "spec_run P (c # cs) a rs a' \<longleftrightarrow> (\<exists>r rs1 a1. rs = r # rs1 \<and> P c a r a1 \<and> spec_run P cs a1 rs1 a')"

text \<open>A server whose calls all return and keep to a contract, and what that gives for sequences of calls.\<close>

locale server =
  fixes f :: "'c \<Rightarrow> 's \<Rightarrow> ('r \<times> 's) res" and P :: "'c \<Rightarrow> 'a \<Rightarrow> 'r \<Rightarrow> 'a \<Rightarrow> bool" and R :: "'s \<Rightarrow> 'a \<Rightarrow> bool" and ok :: "'c \<Rightarrow> bool"
  assumes serves: "R s a \<Longrightarrow> ok c \<Longrightarrow> \<exists>r s' a'. f c s = Inr (r, s') \<and> P c a r a' \<and> R s' a'"
begin

lemma serves_all:
  "R s a \<Longrightarrow> list_all ok cs \<Longrightarrow> \<exists>rs s' a'. serve_calls f cs s = Inr (rs, s') \<and> spec_run P cs a rs a' \<and> R s' a'"
proof (induction cs arbitrary: s a)
  case (Cons c cs)
  obtain r s1 a1 where 1: "f c s = Inr (r, s1)" "P c a r a1" "R s1 a1" using serves [OF Cons.prems(1), of c] Cons.prems(2) by auto
  obtain rs s2 a2 where 2: "serve_calls f cs s1 = Inr (rs, s2)" "spec_run P cs a1 rs a2" "R s2 a2"
    using Cons.IH [OF 1(3)] Cons.prems(2) by auto
  then have "serve_calls f (c # cs) s = Inr (r # rs, s2)" "spec_run P (c # cs) a (r # rs) a2" using 1 by auto
  then show ?case using 2(3) by blast
qed simp

lemma kept:
  assumes "\<And>c a r a'. P c a r a' \<Longrightarrow> J a \<Longrightarrow> J a'"
  shows "spec_run P cs a rs a' \<Longrightarrow> J a \<Longrightarrow> J a'"
  by (induction cs arbitrary: a rs) (auto dest: assms)

end

interpretation fsv: server do_call "\<lambda>(_, _, c). store_step c" represents_store "\<lambda>(_, _, c). fcall_ok c"
proof unfold_locales
  fix s a and c :: "memory \<times> tm \<times> call"
  assume "represents_store s a" "case c of (_, _, c) \<Rightarrow> fcall_ok c"
  then show "\<exists>r s' a'. do_call c s = Inr (r, s') \<and> (case c of (_, _, c) \<Rightarrow> store_step c) a r a' \<and> represents_store s' a'"
    using do_call_step [of s a "snd (snd c)" "fst c" "fst (snd c)"] by (simp add: case_prod_unfold)
qed

text \<open>The sectors of the files of a store.\<close>

definition used_sectors :: "(byte list \<rightharpoonup> byte list) \<Rightarrow> nat" where
  "used_sectors m = (\<Sum>k \<in> dom m. file_sectors (the (m k)))"

lemma used_sectors_upd:
  assumes "finite (dom m)"
  shows "m k = None \<Longrightarrow> used_sectors (m(k \<mapsto> c)) = used_sectors m + file_sectors c"
    "m k = Some c0 \<Longrightarrow> used_sectors (m(k := None)) + file_sectors c0 = used_sectors m"
    "m k = Some c0 \<Longrightarrow> length c = length c0 \<Longrightarrow> used_sectors (m(k \<mapsto> c)) = used_sectors m"
proof -
  have upd: "(\<Sum>j \<in> dom m - {k}. file_sectors (the ((m(k := x)) j))) = (\<Sum>j \<in> dom m - {k}. file_sectors (the (m j)))" for x
    by (rule sum.cong) auto
  note rem = sum.remove [OF assms, of k]
  show "m k = None \<Longrightarrow> used_sectors (m(k \<mapsto> c)) = used_sectors m + file_sectors c"
    using upd [of "Some c"] assms by (simp add: used_sectors_def domIff insert_absorb Diff_triv)
  show "m k = Some c0 \<Longrightarrow> used_sectors (m(k := None)) + file_sectors c0 = used_sectors m"
    using upd [of None] rem [of "\<lambda>j. file_sectors (the (m j))"] by (simp add: used_sectors_def domI)
  show "m k = Some c0 \<Longrightarrow> length c = length c0 \<Longrightarrow> used_sectors (m(k \<mapsto> c)) = used_sectors m"
    using upd [of "Some c"] rem [of "\<lambda>j. file_sectors (the (m j))"] rem [of "\<lambda>j. file_sectors (the ((m(k \<mapsto> c)) j))"]
    by (simp add: used_sectors_def domI insert_absorb file_sectors_def)
qed

lemma length_patch_take: "length (patch (take (length c - p) bs) p c) = length c"
  by (simp add: patch_def)

definition balanced :: "store \<Rightarrow> bool" where
  "balanced = (\<lambda>(m, free). finite (dom m) \<and> card (dom m) \<le> NumDirEntries \<and> free + used_sectors m = 1019)"

lemma store_step_balanced: "store_step c s r s' \<Longrightarrow> balanced s \<Longrightarrow> balanced s'"
proof (induction rule: store_step.induct)
  case (creates m free fname n c free')
  then show ?case using used_sectors_upd(1) [of m "key fname" c] by (auto simp: balanced_def room_def domIff card_insert_if)
next
  case (removes m fname c free)
  then show ?case using used_sectors_upd(2) [of m "key fname" c] card_Diff1_le [of "dom m" "key fname"] by (auto simp: balanced_def)
next
  case (writes m fname c w p bs free)
  then show ?case using used_sectors_upd(3) [of m "key fname" c] length_patch_take [of c "nat p" bs]
    by (auto simp: balanced_def domI insert_absorb)
qed auto

lemma balanced_new: "balanced (Map.empty, 1019)"
  by (simp add: balanced_def used_sectors_def)

subsection \<open>Properties\<close>

text \<open>C1. Formatting a disk that holds anything and then making any sequence of calls (create with sizes from 0 to 1792 bytes, the direct blocks
  of a header; remove; open and read or write at a position from 0 on that ends within the range of \<open>int\<close>; mount again): every call
  returns, without a failed assertion or an access out of range, and answers as a store of at most ten files, by the first eleven bytes
  of their names, and 1019 free sectors does. Nothing depends on what new memory held. The clock from which the disk computes its delays is
  taken as unbounded.\<close>

theorem file_system_refines:
  assumes "disk_ok d" "list_all (\<lambda>(_, _, c). fcall_ok c) cs"
  shows "\<exists>fs d0 rs x s. FileSystem_FileSystem mem t True d = Inr (fs, d0) \<and> serve_calls do_call cs (fs, d0) = Inr (rs, x) \<and>
    spec_run (\<lambda>(_, _, c). store_step c) cs (Map.empty, 1019) rs s \<and> represents_store x s"
proof -
  obtain fs d0 dir bm where F: "FileSystem_FileSystem mem t True d = Inr (fs, d0)" "fs_ok fs d0 dir bm" "files d0 dir = Map.empty"
    "sectors_free bm = 1019" by (rule format_ok [OF assms(1)])
  show ?thesis using fsv.serves_all [OF represents_storeI [OF F(2-4)] assms(2)] F(1) by blast
qed

text \<open>C3. No sector is lost: after a format and any sequence of calls as above, files of at most 1792 bytes, the sectors free in the map on the disk and the sectors of the
  files, one for each header and one for each 128 bytes or part of them, are the 1019 sectors of the empty disk, the map marks
  just the sectors in use, and no sector is in two files.\<close>

theorem no_sector_lost:
  assumes "disk_ok d" "list_all (\<lambda>(_, _, c). fcall_ok c) cs"
  shows "\<exists>fs d0 rs fs' d' dir bm. FileSystem_FileSystem mem t True d = Inr (fs, d0) \<and> serve_calls do_call cs (fs, d0) = Inr (rs, fs', d') \<and>
    fs_ok fs' d' dir bm \<and> card (dom (files d' dir)) \<le> 10 \<and> card ({..<NumSectors} - marked bm) + used_sectors (files d' dir) = 1019"
proof -
  obtain fs d0 dir bm where F: "FileSystem_FileSystem mem t True d = Inr (fs, d0)" "fs_ok fs d0 dir bm" "files d0 dir = Map.empty"
    "sectors_free bm = 1019" by (rule format_ok [OF assms(1)])
  obtain rs x s where R: "serve_calls do_call cs (fs, d0) = Inr (rs, x)" "spec_run (\<lambda>(_, _, c). store_step c) cs (Map.empty, 1019) rs s"
    "represents_store x s" using fsv.serves_all [OF represents_storeI [OF F(2-4)] assms(2)] by blast
  obtain fs' d' dir' bm' where x: "x = (fs', d')" "fs_ok fs' d' dir' bm'" "s = (files d' dir', sectors_free bm')"
    using R(3) by (auto simp: represents_store_def split: prod.splits)
  have "balanced s" by (rule fsv.kept [where J = balanced, OF _ R(2) balanced_new]) (auto intro: store_step_balanced split: prod.splits)
  then show ?thesis using F(1) R(1) x by (simp add: balanced_def NumDirEntries_def sectors_free_def) blast
qed

text \<open>The replies to some calls.\<close>

definition demo_calls :: "(memory \<times> tm \<times> call) list" where
  "demo_calls = map (\<lambda>c. (zeros, noon, c))
     [CCreate [97] 300, CWrite [97] 298 [1, 2, 3], CMount, CRead [97] 298 10]"

lemma demo_calls_ok: "list_all (\<lambda>(_, _, c). fcall_ok c) demo_calls"
  by (simp add: demo_calls_def SectorSize_def is_int_def)

lemma file_system_refines_witness:
  "\<exists>d fs d0 x. Disk_Disk None 0 = Inr d \<and> FileSystem_FileSystem zeros noon True d = Inr (fs, d0) \<and>
     serve_calls do_call demo_calls (fs, d0) = Inr ([RDone True, RCount 2, RDone True, RData [1, 2]], x)"
proof -
  obtain d where d: "Disk_Disk None 0 = Inr d" "disk_ok d" by (rule Disk_new [of 0]) auto
  show ?thesis
    using file_system_refines [OF d(2) demo_calls_ok, of zeros noon] d(1)
    by (auto simp: demo_calls_def store_step_simps room_def patch_def file_sectors_def divRoundUp_def SectorSize_def NumDirEntries_def)
qed

lemma no_sector_lost_witness:
  "\<exists>d fs d0 rs x. Disk_Disk None 0 = Inr d \<and> FileSystem_FileSystem zeros noon True d = Inr (fs, d0) \<and>
     serve_calls do_call demo_calls (fs, d0) = Inr (rs, x)"
proof -
  obtain d where d: "Disk_Disk None 0 = Inr d" "disk_ok d" by (rule Disk_new [of 0]) auto
  then show ?thesis using no_sector_lost [OF d(2) demo_calls_ok, of zeros noon] by blast
qed

end
