(* ===== verification/Nachos_FsTest.thy ===== *)
theory Nachos_FsTest
  imports Nachos_FileSys
begin

text \<open>
  The routines of filesys/fstest.cc that the flags of main.cc call: Copy brings a UNIX file to the Nachos disk, Print writes a
  Nachos file to the console, PerformanceTest writes and reads a file in small pieces; with them the counters of
  machine/stats.h and stats.cc. The console is the list of bytes printed. The files of the host are a parameter, and so are the
  counters that other components keep; they are numbers without a bound, as they are only printed here. The time of day does not change
  during a call.
\<close>

subsection \<open>Statistics\<close>

record Statistics =
  totalTicks :: int
  idleTicks :: int
  systemTicks :: int
  userTicks :: int
  numDiskReads :: int
  numDiskWrites :: int
  numConsoleCharsRead :: int
  numConsoleCharsWritten :: int
  numPageFaults :: int
  numPacketsSent :: int
  numPacketsRecvd :: int

definition Statistics_Statistics :: Statistics where
  "Statistics_Statistics = \<lparr>totalTicks = 0, idleTicks = 0, systemTicks = 0, userTicks = 0, numDiskReads = 0, numDiskWrites = 0,
     numConsoleCharsRead = 0, numConsoleCharsWritten = 0, numPageFaults = 0, numPacketsSent = 0, numPacketsRecvd = 0\<rparr>"

definition Statistics_Print :: "Statistics \<Rightarrow> byte list" where
  "Statistics_Print s =
     bytes ''Ticks: total '' @ print_d (totalTicks s) @ bytes '', idle '' @ print_d (idleTicks s) @
     bytes '', system '' @ print_d (systemTicks s) @ bytes '', user '' @ print_d (userTicks s) @ [10] @
     bytes ''Disk I/O: reads '' @ print_d (numDiskReads s) @ bytes '', writes '' @ print_d (numDiskWrites s) @ [10] @
     bytes ''Console I/O: reads '' @ print_d (numConsoleCharsRead s) @ bytes '', writes '' @ print_d (numConsoleCharsWritten s) @ [10] @
     bytes ''Paging: faults '' @ print_d (numPageFaults s) @ [10] @
     bytes ''Network I/O: packets received '' @ print_d (numPacketsRecvd s) @ bytes '', sent '' @ print_d (numPacketsSent s) @ [10]"

text \<open>The counters that the disk keeps, with those of the other components.\<close>

definition disk_stats :: "Statistics \<Rightarrow> Disk \<Rightarrow> Statistics" where
  "disk_stats st d = st\<lparr>totalTicks := now d, numDiskReads := Disk.numDiskReads d, numDiskWrites := Disk.numDiskWrites d\<rparr>"

subsection \<open>Copy and Print\<close>

definition TransferSize :: nat where "TransferSize = 10"

text \<open>\<open>%s\<close> of a string that ends at its first zero.\<close>

definition print_name :: "byte list \<Rightarrow> byte list" where
  "print_name s = takeWhile (\<lambda>c. c \<noteq> 0) s"

function copy_loop :: "memory \<Rightarrow> tm \<Rightarrow> byte list \<Rightarrow> OpenFile \<Rightarrow> Disk \<Rightarrow> (OpenFile \<times> Disk) res" where
  "copy_loop mem t rest f d =
     (let buffer = take TransferSize rest; amountRead = int (length buffer) in
      if amountRead > 0
      then bind_res (OpenFile_Write mem t f buffer amountRead d) (\<lambda>(_, f1, d1). copy_loop mem t (drop TransferSize rest) f1 d1)
      else Inr (f, d))"
  by pat_completeness auto

termination copy_loop
  by (relation "measure (\<lambda>(mem, t, rest, f, d). length rest)") (auto simp: TransferSize_def)

declare copy_loop.simps [simp del]

definition Copy :: "memory \<Rightarrow> tm \<Rightarrow> (byte list \<rightharpoonup> byte list) \<Rightarrow> byte list \<Rightarrow> byte list \<Rightarrow> FileSystem \<Rightarrow> Disk \<Rightarrow> (byte list \<times> Disk) res" where
  "Copy mem t host from to fs d =
     (case host from of
        None \<Rightarrow> Inr (bytes ''Copy: couldn'' @ [39] @ bytes ''t open input file '' @ print_name from @ [10], d)
      | Some fp \<Rightarrow>
        let out1 = bytes ''Copy: 11'' @ [10]; fileLength = s32 (int (length fp)); out2 = out1 @ bytes ''Copy: 22'' @ [10] in
        bind_res (FileSystem_Create mem t fs to fileLength d) (\<lambda>(ok, d1).
        if \<not> ok then Inr (out2 @ bytes ''Copy: couldn'' @ [39] @ bytes ''t create output file '' @ print_name to @ [10], d1)
        else bind_res (FileSystem_Open mem fs to d1) (\<lambda>(openFile, d2).
          case openFile of
            None \<Rightarrow> Inl AssertFailed
          | Some f \<Rightarrow> bind_res (copy_loop mem t fp f d2) (\<lambda>(_, d3). Inr (out2 @ bytes ''Copy: 44'' @ [10], d3)))))"

partial_function (option) print_file_loop :: "tm \<Rightarrow> byte list \<Rightarrow> OpenFile \<Rightarrow> Disk \<Rightarrow> (byte list \<times> OpenFile \<times> Disk) res option" where
  "print_file_loop t out f d =
     (case OpenFile_Read t f (int TransferSize) d of
        Inl e \<Rightarrow> Some (Inl e)
      | Inr (amountRead, buffer, f1, d1) \<Rightarrow>
          if amountRead > 0 then print_file_loop t (out @ buffer) f1 d1 else Some (Inr (out, f1, d1)))"

definition Print :: "memory \<Rightarrow> tm \<Rightarrow> byte list \<Rightarrow> FileSystem \<Rightarrow> Disk \<Rightarrow> (byte list \<times> Disk) res" where
  "Print mem t fname fs d =
     bind_res (FileSystem_Open mem fs fname d) (\<lambda>(openFile, d1).
     case openFile of
       None \<Rightarrow> Inr (bytes ''Print: unable to open file '' @ print_name fname @ [10], d1)
     | Some f \<Rightarrow> bind_res (returns (print_file_loop t [] f d1)) (\<lambda>(out, _, d2). Inr (out, d2)))"

subsection \<open>The performance test\<close>

definition FileName :: "byte list" where "FileName = bytes ''TestFile''"
definition Contents :: "byte list" where "Contents = bytes ''1234567890''"
definition ContentSize :: nat where "ContentSize = length Contents"
definition FileSize :: int where "FileSize = int (ContentSize * 5000)"

text \<open>The loops of FileWrite and FileRead, \<open>n\<close> rounds to go; the value says whether all rounds passed.\<close>

fun write_rounds :: "memory \<Rightarrow> tm \<Rightarrow> nat \<Rightarrow> OpenFile \<Rightarrow> Disk \<Rightarrow> (bool \<times> Disk) res" where
  "write_rounds mem t 0 f d = Inr (True, d)"
| "write_rounds mem t (Suc n) f d =
     bind_res (OpenFile_Write mem t f Contents (int ContentSize) d) (\<lambda>(numBytes, f1, d1).
     if numBytes < 10 then Inr (False, d1) else write_rounds mem t n f1 d1)"

fun read_rounds :: "tm \<Rightarrow> nat \<Rightarrow> OpenFile \<Rightarrow> Disk \<Rightarrow> (bool \<times> Disk) res" where
  "read_rounds t 0 f d = Inr (True, d)"
| "read_rounds t (Suc n) f d =
     bind_res (OpenFile_Read t f (int ContentSize) d) (\<lambda>(numBytes, buffer, f1, d1).
     if numBytes < 10 \<or> \<not> strncmp_eq buffer Contents ContentSize then Inr (False, d1) else read_rounds t n f1 d1)"

definition rounds :: nat where "rounds = nat FileSize div ContentSize"

definition FileWrite :: "memory \<Rightarrow> tm \<Rightarrow> FileSystem \<Rightarrow> Disk \<Rightarrow> (byte list \<times> Disk) res" where
  "FileWrite mem t fs d =
     (let out = bytes ''Sequential write of '' @ print_d FileSize @ bytes '' byte file, in '' @ print_d (int ContentSize) @ bytes '' byte chunks'' @ [10] in
      bind_res (FileSystem_Create mem t fs FileName 0 d) (\<lambda>(ok, d1).
      if \<not> ok then Inr (out @ bytes ''Perf test: can'' @ [39] @ bytes ''t create '' @ FileName @ [10], d1)
      else bind_res (FileSystem_Open mem fs FileName d1) (\<lambda>(openFile, d2).
        case openFile of
          None \<Rightarrow> Inr (out @ bytes ''Perf test: unable to open '' @ FileName @ [10], d2)
        | Some f \<Rightarrow> bind_res (write_rounds mem t rounds f d2) (\<lambda>(ok, d3).
            Inr (if ok then out else out @ bytes ''Perf test: unable to write '' @ FileName @ [10], d3)))))"

definition FileRead :: "memory \<Rightarrow> tm \<Rightarrow> FileSystem \<Rightarrow> Disk \<Rightarrow> (byte list \<times> Disk) res" where
  "FileRead mem t fs d =
     (let out = bytes ''Sequential read of '' @ print_d FileSize @ bytes '' byte file, in '' @ print_d (int ContentSize) @ bytes '' byte chunks'' @ [10] in
      bind_res (FileSystem_Open mem fs FileName d) (\<lambda>(openFile, d1).
      case openFile of
        None \<Rightarrow> Inr (out @ bytes ''Perf test: unable to open file '' @ FileName @ [10], d1)
      | Some f \<Rightarrow> bind_res (read_rounds t rounds f d1) (\<lambda>(ok, d2).
          Inr (if ok then out else out @ bytes ''Perf test: unable to read '' @ FileName @ [10], d2))))"

definition PerformanceTest :: "memory \<Rightarrow> tm \<Rightarrow> Statistics \<Rightarrow> Statistics \<Rightarrow> FileSystem \<Rightarrow> Disk \<Rightarrow> (byte list \<times> Disk) res" where
  "PerformanceTest mem t before after fs d =
     (let out0 = bytes ''Starting file system performance test:'' @ [10] @ Statistics_Print (disk_stats before d) in
      bind_res (FileWrite mem t fs d) (\<lambda>(out1, d1).
      bind_res (FileRead mem t fs d1) (\<lambda>(out2, d2).
      bind_res (FileSystem_Remove mem fs FileName d2) (\<lambda>(ok, d3).
      if \<not> ok then Inr (out0 @ out1 @ out2 @ bytes ''Perf test: unable to remove '' @ FileName @ [10], d3)
      else Inr (out0 @ out1 @ out2 @ Statistics_Print (disk_stats after d3), d3)))))"

subsection \<open>Copying\<close>

lemma file_length:
  assumes "fs_ok fs d dir bm" "files d dir k = Some c"
  shows "length c \<le> 1792"
proof -
  obtain s where s: "dir_map dir k = Some s" "c = contents (hdr_at d s) d" using assms(2) by (auto simp: files_def)
  then have h: "file_ok (hdr_at d s)" using files_okD(3) [OF fs_okD(7) [OF assms(1)]] by blast
  then show ?thesis unfolding s(2) length_contents [OF h] by (auto simp: file_ok_def SectorSize_def)
qed

lemma take_patch: "p \<le> length c \<Longrightarrow> take (p + length b) (patch b p c) = take p c @ b"
  by (simp add: patch_def)

lemma copy_loop_ok:
  assumes "fs_ok fs d dir bm" "opened f d dir k" "files d dir k = Some c" "seekPosition f = int p" "p + length rest = length c"
  shows "\<exists>f1 d1. copy_loop mem t rest f d = Inr (f1, d1) \<and> fs_ok fs d1 dir bm \<and> files d1 dir = (files d dir)(k \<mapsto> take p c @ rest)"
  using assms
proof (induction mem t rest f d arbitrary: p c rule: copy_loop.induct)
  case (1 mem t rest f d)
  note fs = 1(2) and f = 1(3) and c = 1(4) and p = 1(5,6)
  show ?case
  proof (cases "rest = []")
    case True
    then have "(files d dir)(k \<mapsto> take p c @ rest) = files d dir" using c p(2) by auto
    moreover have "copy_loop mem t rest f d = Inr (f, d)" using True by (simp add: copy_loop.simps)
    ultimately show ?thesis using fs by auto
  next
    case False
    let ?b = "take TransferSize rest" and ?n = "int (length (take TransferSize rest))"
    have l: "length c \<le> 1792" by (rule file_length [OF fs c])
    have n: "is_int (seekPosition f + ?n)" "?n \<le> int (length ?b)" using l p by (auto simp: is_int_def TransferSize_def)
    have w: "take (length c - nat (seekPosition f)) (take (nat ?n) ?b) = ?b" using p by (simp add: min_def)
    obtain f1 d1 where W: "OpenFile_Write mem t f ?b ?n d = Inr (?n, f1, d1)" "fs_ok fs d1 dir bm"
      "files d1 dir = (files d dir)(k \<mapsto> patch ?b p c)" "opened f1 d1 dir k" "seekPosition f1 = int (p + length ?b)"
      by (rule Write_opened [OF fs f c n, of mem t, unfolded w]) (use p(1) in simp)
    have "0 < ?n" using False by (simp add: TransferSize_def)
    note IH = 1(1) [OF refl refl this W(2,4), of "patch ?b p c" "p + length ?b"]
    have e: "files d1 dir k = Some (patch ?b p c)" "p + length ?b + length (drop TransferSize rest) = length (patch ?b p c)"
      using W(3) p(2) by (auto simp: patch_def)
    have "take (p + length ?b) (patch ?b p c) = take p c @ ?b" by (rule take_patch) (use p(2) in simp)
    then have "(files d1 dir)(k \<mapsto> take (p + length ?b) (patch ?b p c) @ drop TransferSize rest) = (files d dir)(k \<mapsto> take p c @ rest)"
      unfolding W(3) by simp
    then obtain f2 d2 where L: "copy_loop mem t (drop TransferSize rest) f1 d1 = Inr (f2, d2)" "fs_ok fs d2 dir bm"
      "files d2 dir = (files d dir)(k \<mapsto> take p c @ rest)"
      using IH [OF e(1) W(5) e(2)] by metis
    then have "copy_loop mem t rest f d = Inr (f2, d2)"
      using W(1) \<open>0 < ?n\<close> by (subst copy_loop.simps) (simp add: Let_def)
    then show ?thesis using L by blast
  qed
qed

lemma print_file_loop_ok:
  assumes "fs_ok fs d dir bm" "opened f d dir k" "files d dir k = Some c" "seekPosition f = int p" "p \<le> length c"
  shows "\<exists>f1 d1. print_file_loop t out f d = Some (Inr (out @ drop p c, f1, d1)) \<and> fs_ok fs d1 dir bm \<and> files d1 dir = files d dir"
  using assms
proof (induction "length c - p" arbitrary: p f d out rule: less_induct)
  case less
  note fs = less(2) and f = less(3) and c = less(4) and p = less(5,6)
  let ?b = "take 10 (drop p c)"
  have n: "is_int (seekPosition f + 10)" using file_length [OF fs c] p by (simp add: is_int_def)
  obtain f1 d1 where R: "OpenFile_Read t f 10 d = Inr (int (length ?b), ?b, f1, d1)" "fs_ok fs d1 dir bm" "files d1 dir = files d dir"
    "opened f1 d1 dir k" "seekPosition f1 = int (p + length ?b)"
    by (rule Read_opened [OF fs f c n, of t]) (use p(1) in simp)
  show ?case
  proof (cases "p = length c")
    case True
    then have "print_file_loop t out f d = Some (Inr (out, f1, d1))" using R(1) by (subst print_file_loop.simps) (simp add: TransferSize_def)
    then show ?thesis using R(2,3) True by simp
  next
    case False
    then have q: "p + length ?b \<le> length c" "length c - (p + length ?b) < length c - p" "0 < length ?b" using p(2) by auto
    have c1: "files d1 dir k = Some c" using R(3) c by simp
    obtain f2 d2 where I: "print_file_loop t (out @ ?b) f1 d1 = Some (Inr ((out @ ?b) @ drop (p + length ?b) c, f2, d2))" "fs_ok fs d2 dir bm"
      "files d2 dir = files d dir"
      using less(1) [OF q(2) R(2,4) c1 R(5) q(1), of "out @ ?b"] R(3) by auto
    have "?b @ drop (p + length ?b) c = drop p c"
      using append_take_drop_id [of 10 "drop p c"] by (auto simp: min_def add.commute)
    then show ?thesis using I R(1) q(3) by (subst print_file_loop.simps) (simp add: TransferSize_def)
  qed
qed

lemma Copy_ok:
  assumes fs: "fs_ok fs d dir bm" and host: "host from = Some bs" "length bs \<le> 1792" and c: "creatable dir bm to (int (length bs))"
  obtains d' dir' bm' where "Copy mem t host from to fs d = Inr (bytes ''Copy: 11'' @ [10] @ bytes ''Copy: 22'' @ [10] @ bytes ''Copy: 44'' @ [10], d')"
    "fs_ok fs d' dir' bm'" "files d' dir' = (files d dir)(key to \<mapsto> bs)"
proof -
  have n: "0 \<le> int (length bs)" "int (length bs) \<le> int (NumDirect * SectorSize)" "s32 (int (length bs)) = int (length bs)"
    using host(2) by (simp_all add: SectorSize_def is_int_def)
  obtain d1 dir1 bm1 bs1 where C: "FileSystem_Create mem t fs to (int (length bs)) d = Inr (True, d1)" "fs_ok fs d1 dir1 bm1"
    "files d1 dir1 = (files d dir)(key to \<mapsto> bs1)" "length bs1 = nat (int (length bs))"
    by (rule Create_ok [OF fs n(1,2) c])
  then have f1: "files d1 dir1 (key to) = Some bs1" by simp
  obtain f d2 where O: "FileSystem_Open mem fs to d1 = Inr (Some f, d2)" "fs_ok fs d2 dir1 bm1" "files d2 dir1 = files d1 dir1"
    "opened f d2 dir1 (key to)" "seekPosition f = 0" by (rule Open_opened [OF C(2) f1])
  have f2: "files d2 dir1 (key to) = Some bs1" using f1 O(3) by simp
  obtain f1 d3 where L: "copy_loop mem t bs f d2 = Inr (f1, d3)" "fs_ok fs d3 dir1 bm1" "files d3 dir1 = (files d2 dir1)(key to \<mapsto> bs)"
    using copy_loop_ok [OF O(2,4) f2, of 0 bs mem t] O(5) C(4) by auto
  have "Copy mem t host from to fs d = Inr (bytes ''Copy: 11'' @ [10] @ bytes ''Copy: 22'' @ [10] @ bytes ''Copy: 44'' @ [10], d3)"
    using host(1) n(3) C(1) O(1) L(1) by (simp add: Copy_def Let_def)
  then show thesis using that L(2,3) O(3) C(3) by simp
qed

lemma Print_ok:
  assumes fs: "fs_ok fs d dir bm" and c: "files d dir (key fname) = Some c"
  obtains d' where "Print mem t fname fs d = Inr (c, d')" "fs_ok fs d' dir bm" "files d' dir = files d dir"
proof -
  obtain f d1 where O: "FileSystem_Open mem fs fname d = Inr (Some f, d1)" "fs_ok fs d1 dir bm" "files d1 dir = files d dir"
    "opened f d1 dir (key fname)" "seekPosition f = 0" by (rule Open_opened [OF fs c])
  have c1: "files d1 dir (key fname) = Some c" using c O(3) by simp
  obtain f1 d2 where "print_file_loop t [] f d1 = Some (Inr (c, f1, d2))" "fs_ok fs d2 dir bm" "files d2 dir = files d1 dir"
    using print_file_loop_ok [OF O(2,4) c1, of 0 t "[]"] O(5) by auto
  then show thesis using that O(1,3) by (simp add: Print_def)
qed

subsection \<open>The performance test never writes\<close>

lemma rounds_val [simp]: "rounds = 5000" "ContentSize = 10" "length Contents = 10"
  by (simp_all add: rounds_def FileSize_def ContentSize_def Contents_def bytes_def)

text \<open>A file of no bytes takes and gives none, so the first round of each loop fails.\<close>

lemma write_rounds_empty:
  assumes fs: "fs_ok fs d dir bm" and f: "opened f d dir k" and c: "files d dir k = Some []" and p: "seekPosition f = 0"
  obtains d' where "write_rounds mem t (Suc n) f d = Inr (False, d')" "fs_ok fs d' dir bm" "files d' dir = files d dir"
proof -
  have n: "is_int (seekPosition f + 10)" "10 \<le> int (length Contents)" using p by (simp_all add: is_int_def)
  obtain f1 d1 where W: "OpenFile_Write mem t f Contents 10 d = Inr (0, f1, d1)" "fs_ok fs d1 dir bm"
    "files d1 dir = (files d dir)(k \<mapsto> [])"
    by (rule Write_opened [OF fs f c n, of mem t]) (auto simp: patch_def)
  moreover have "(files d dir)(k \<mapsto> []) = files d dir" using c by auto
  ultimately show thesis using that by simp
qed

lemma read_rounds_empty:
  assumes fs: "fs_ok fs d dir bm" and f: "opened f d dir k" and c: "files d dir k = Some []" and p: "seekPosition f = 0"
  obtains d' where "read_rounds t (Suc n) f d = Inr (False, d')" "fs_ok fs d' dir bm" "files d' dir = files d dir"
proof -
  have n: "is_int (seekPosition f + 10)" using p by (simp add: is_int_def)
  obtain f1 d1 where "OpenFile_Read t f 10 d = Inr (0, [], f1, d1)" "fs_ok fs d1 dir bm" "files d1 dir = files d dir"
    by (rule Read_opened [OF fs f c n, of t]) auto
  then show thesis using that by simp
qed

lemma FileWrite_fails:
  assumes fs: "fs_ok fs d dir bm" and c: "creatable dir bm FileName 0"
  obtains d' dir' bm' where "FileWrite mem t fs d = Inr (bytes ''Sequential write of '' @ print_d FileSize @ bytes '' byte file, in '' @ print_d (int ContentSize) @
      bytes '' byte chunks'' @ [10] @ bytes ''Perf test: unable to write '' @ FileName @ [10], d')"
    "fs_ok fs d' dir' bm'" "files d' dir' = (files d dir)(key FileName \<mapsto> [])"
proof -
  obtain d1 dir1 bm1 bs1 where C: "FileSystem_Create mem t fs FileName 0 d = Inr (True, d1)" "fs_ok fs d1 dir1 bm1"
    "files d1 dir1 = (files d dir)(key FileName \<mapsto> bs1)" "length bs1 = nat 0"
    by (rule Create_ok [OF fs _ _ c]) auto
  then have f1: "files d1 dir1 (key FileName) = Some []" by simp
  obtain f d2 where O: "FileSystem_Open mem fs FileName d1 = Inr (Some f, d2)" "fs_ok fs d2 dir1 bm1" "files d2 dir1 = files d1 dir1"
    "opened f d2 dir1 (key FileName)" "seekPosition f = 0" by (rule Open_opened [OF C(2) f1])
  have f2: "files d2 dir1 (key FileName) = Some []" using f1 O(3) by simp
  obtain d3 where W: "write_rounds mem t (Suc 4999) f d2 = Inr (False, d3)" "fs_ok fs d3 dir1 bm1" "files d3 dir1 = files d2 dir1"
    by (rule write_rounds_empty [OF O(2,4) f2 O(5)])
  have "rounds = Suc 4999" by simp
  then show thesis using that [OF _ W(2)] W(1,3) C O(1,3) by (simp add: FileWrite_def Let_def del: rounds_val write_rounds.simps)
qed

lemma FileRead_fails:
  assumes fs: "fs_ok fs d dir bm" and c: "files d dir (key FileName) = Some []"
  obtains d' where "FileRead mem t fs d = Inr (bytes ''Sequential read of '' @ print_d FileSize @ bytes '' byte file, in '' @ print_d (int ContentSize) @
      bytes '' byte chunks'' @ [10] @ bytes ''Perf test: unable to read '' @ FileName @ [10], d')"
    "fs_ok fs d' dir bm" "files d' dir = files d dir"
proof -
  obtain f d2 where O: "FileSystem_Open mem fs FileName d = Inr (Some f, d2)" "fs_ok fs d2 dir bm" "files d2 dir = files d dir"
    "opened f d2 dir (key FileName)" "seekPosition f = 0" by (rule Open_opened [OF fs c])
  have f2: "files d2 dir (key FileName) = Some []" using c O(3) by simp
  obtain d3 where W: "read_rounds t (Suc 4999) f d2 = Inr (False, d3)" "fs_ok fs d3 dir bm" "files d3 dir = files d2 dir"
    by (rule read_rounds_empty [OF O(2,4) f2 O(5)])
  have "rounds = Suc 4999" by simp
  then show thesis using that [OF _ W(2)] W(1,3) O(1,3) by (simp add: FileRead_def Let_def del: rounds_val read_rounds.simps)
qed

subsection \<open>Properties\<close>

text \<open>C29. Copying a UNIX file of at most 1792 bytes to a consistent Nachos disk: when the name is new, the directory has room and there are
  enough free sectors, the Nachos file is the UNIX file byte for byte, Print writes just these bytes, and every other file is as it
  was; otherwise Copy says that it could not create the file and the disk is as it was.\<close>

theorem copy_then_print:
  assumes "fs_ok fs d dir bm" "host from = Some bs" "length bs \<le> 1792"
  shows "\<exists>out d1. Copy mem t host from to fs d = Inr (out, d1) \<and>
    (if creatable dir bm to (int (length bs))
     then \<exists>d2 dir2 bm2. Print mem' t' to fs d1 = Inr (bs, d2) \<and> fs_ok fs d2 dir2 bm2 \<and> files d2 dir2 = (files d dir)(key to \<mapsto> bs)
     else out = bytes ''Copy: 11'' @ [10] @ bytes ''Copy: 22'' @ [10] @ bytes ''Copy: couldn'' @ [39] @ bytes ''t create output file '' @
       print_name to @ [10] \<and> sector d1 = sector d)"
proof (cases "creatable dir bm to (int (length bs))")
  case True
  obtain out d1 dir1 bm1 where C: "Copy mem t host from to fs d = Inr (out, d1)" "fs_ok fs d1 dir1 bm1" "files d1 dir1 = (files d dir)(key to \<mapsto> bs)"
    by (rule Copy_ok [of fs d dir bm host "from" bs to mem t, OF assms True]) blast
  then have "files d1 dir1 (key to) = Some bs" by simp
  then obtain d2 where "Print mem' t' to fs d1 = Inr (bs, d2)" "fs_ok fs d2 dir1 bm1" "files d2 dir1 = files d1 dir1"
    by (rule Print_ok [OF C(2)])
  then show ?thesis using C True by auto
next
  case False
  have n: "0 \<le> int (length bs)" "int (length bs) \<le> int (NumDirect * SectorSize)" "s32 (int (length bs)) = int (length bs)"
    using assms(3) by (simp_all add: SectorSize_def is_int_def)
  obtain d1 where "FileSystem_Create mem t fs to (int (length bs)) d = Inr (False, d1)" "sector d1 = sector d"
    by (rule Create_refused [OF assms(1) n(1,2) False])
  then show ?thesis using assms(2) n(3) False by (simp add: Copy_def Let_def)
qed

text \<open>The performance test creates its file with size 0 and a file never grows, so on a consistent disk with room for one more file it
  writes nothing: both loops stop in the first round with a message, and after Remove the files are those of before.\<close>

theorem performance_test_stops:
  assumes "fs_ok fs d dir bm" "creatable dir bm FileName 0"
  shows "\<exists>d' dir' bm'. PerformanceTest mem t st1 st2 fs d = Inr (
      bytes ''Starting file system performance test:'' @ [10] @ Statistics_Print (disk_stats st1 d) @
      bytes ''Sequential write of 50000 byte file, in 10 byte chunks'' @ [10] @ bytes ''Perf test: unable to write TestFile'' @ [10] @
      bytes ''Sequential read of 50000 byte file, in 10 byte chunks'' @ [10] @ bytes ''Perf test: unable to read TestFile'' @ [10] @
      Statistics_Print (disk_stats st2 d'), d') \<and> fs_ok fs d' dir' bm' \<and> files d' dir' = files d dir"
proof -
  let ?w = "bytes ''Sequential write of '' @ print_d FileSize @ bytes '' byte file, in '' @ print_d (int ContentSize) @
      bytes '' byte chunks'' @ [10] @ bytes ''Perf test: unable to write '' @ FileName @ [10]"
  let ?r = "bytes ''Sequential read of '' @ print_d FileSize @ bytes '' byte file, in '' @ print_d (int ContentSize) @
      bytes '' byte chunks'' @ [10] @ bytes ''Perf test: unable to read '' @ FileName @ [10]"
  obtain d1 dir1 bm1 where W: "FileWrite mem t fs d = Inr (?w, d1)" "fs_ok fs d1 dir1 bm1" "files d1 dir1 = (files d dir)(key FileName \<mapsto> [])"
    by (rule FileWrite_fails [OF assms])
  then have f1: "files d1 dir1 (key FileName) = Some []" by simp
  obtain d2 where R: "FileRead mem t fs d1 = Inr (?r, d2)" "fs_ok fs d2 dir1 bm1" "files d2 dir1 = files d1 dir1"
    by (rule FileRead_fails [OF W(2) f1])
  obtain s where s: "dir_map dir1 (key FileName) = Some s" using f1 by (auto simp: files_def)
  obtain d3 dir3 bm3 where D: "FileSystem_Remove mem fs FileName d2 = Inr (True, d3)" "fs_ok fs d3 dir3 bm3"
    "files d3 dir3 = (files d2 dir1)(key FileName := None)" by (rule Remove_ok [OF R(2) s])
  have "files d dir (key FileName) = None" using assms(2) by (simp add: creatable_def files_def)
  then have "files d3 dir3 = files d dir" using D(3) R(3) W(3) by auto
  moreover have "print_d FileSize = bytes ''50000''" "print_d (int ContentSize) = bytes ''10''" "FileName = bytes ''TestFile''"
    by (simp_all add: FileSize_def FileName_def print_d_def bytes_def digits.simps)
  ultimately show ?thesis using W(1) R(1) D(1,2) by (auto simp: PerformanceTest_def Let_def bytes_def)
qed

lemma formatted:
  obtains d fs d0 dir bm where "Disk_Disk None 0 = Inr d" "FileSystem_FileSystem zeros noon True d = Inr (fs, d0)" "fs_ok fs d0 dir bm"
    "files d0 dir = Map.empty" "creatable dir bm fname 0" "creatable dir bm fname 3"
proof -
  obtain d where d: "Disk_Disk None 0 = Inr d" "disk_ok d" by (rule Disk_new [of 0]) auto
  obtain fs d0 dir bm where F: "FileSystem_FileSystem zeros noon True d = Inr (fs, d0)" "fs_ok fs d0 dir bm" "files d0 dir = Map.empty"
    "sectors_free bm = 1019" by (rule format_ok [OF d(2)])
  have "dir_map dir = Map.empty" using dom_files [of d0 dir] F(3) by (metis dom_empty dom_eq_empty_conv)
  then show thesis using that [OF d(1) F(1-3)] F(4) by (simp add: creatable_def NumDirEntries_def divRoundUp_def SectorSize_def)
qed

lemma copy_then_print_witness:
  "\<exists>d fs d0 out d1 d2. Disk_Disk None 0 = Inr d \<and> FileSystem_FileSystem zeros noon True d = Inr (fs, d0) \<and>
     Copy zeros noon [[97] \<mapsto> [7, 8, 9]] [97] [98] fs d0 = Inr (out, d1) \<and> Print zeros noon [98] fs d1 = Inr ([7, 8, 9], d2)"
proof -
  obtain d fs d0 dir bm where F: "Disk_Disk None 0 = Inr d" "FileSystem_FileSystem zeros noon True d = Inr (fs, d0)" "fs_ok fs d0 dir bm"
    "creatable dir bm [98] 3" by (rule formatted [of "[98]"])
  then show ?thesis using copy_then_print [OF F(3), of "[[97] \<mapsto> [7, 8, 9]]" "[97]" "[7, 8, 9]" zeros noon "[98]" zeros noon] by auto
qed

lemma performance_test_stops_witness:
  "\<exists>d fs d0 out d1. Disk_Disk None 0 = Inr d \<and> FileSystem_FileSystem zeros noon True d = Inr (fs, d0) \<and>
     PerformanceTest zeros noon Statistics_Statistics Statistics_Statistics fs d0 = Inr (out, d1)"
proof -
  obtain d fs d0 dir bm where F: "Disk_Disk None 0 = Inr d" "FileSystem_FileSystem zeros noon True d = Inr (fs, d0)" "fs_ok fs d0 dir bm"
    "creatable dir bm FileName 0" by (rule formatted [of FileName])
  then show ?thesis using performance_test_stops [OF F(3,4), of zeros noon Statistics_Statistics Statistics_Statistics] by blast
qed

end
