(* ===== verification/Nachos_AddrSpace.thy ===== *)
theory Nachos_AddrSpace
  imports Nachos_OpenFile
begin

text \<open>
  Address spaces of user programs (userprog/addrspace.h, addrspace.cc, bin/noff.h): loading an object file into page frames,
  setting up the registers, and the part of a context switch that concerns them, with the register routines of threads/thread.cc.
  The constructor reads the executable through ReadAt, which in the userprog build is a call of the host (the stub of
  filesys/openfile.h) and in the filesys build the operation on the Nachos disk; here it is a parameter with its state, and the
  locale \<open>readable_file\<close> states what it returns. The pointer of a new page table and the contents of new memory are parameters.
\<close>

subsection \<open>Open files of the host\<close>

record StubFile =
  stub_file :: unix_file
  currentOffset :: int

definition Stub_OpenFile :: "unix_file \<Rightarrow> StubFile" where
  "Stub_OpenFile f = \<lparr>stub_file = f, currentOffset = 0\<rparr>"

text \<open>Lseek asserts that the position is not negative; a negative count is larger than any buffer.\<close>

definition Stub_ReadAt :: "int \<Rightarrow> int \<Rightarrow> StubFile \<Rightarrow> (int \<times> byte list \<times> StubFile) res" where
  "Stub_ReadAt nbytes position f =
     bind_res (ASSERT (position \<ge> 0)) (\<lambda>_.
     if nbytes < 0 then Inl OutOfBounds
     else let n = min (nat nbytes) (fsize (stub_file f) - nat position) in
       Inr (int n, map (content (stub_file f)) [nat position..<nat position + n], f))"

definition Stub_WriteAt :: "byte list \<Rightarrow> int \<Rightarrow> int \<Rightarrow> StubFile \<Rightarrow> (int \<times> StubFile) res" where
  "Stub_WriteAt from nbytes position f =
     bind_res (ASSERT (position \<ge> 0)) (\<lambda>_.
     bind_res (get_bytes 0 nbytes from) (\<lambda>bs.
     Inr (nbytes, if bs = [] then f else f\<lparr>stub_file := unix_write (nat position) bs (stub_file f)\<rparr>)))"

definition Stub_Read :: "int \<Rightarrow> StubFile \<Rightarrow> (int \<times> byte list \<times> StubFile) res" where
  "Stub_Read nbytes f =
     bind_res (Stub_ReadAt nbytes (currentOffset f) f) (\<lambda>(numRead, bs, f1).
     Inr (numRead, bs, f1\<lparr>currentOffset := s32 (currentOffset f1 + numRead)\<rparr>))"

definition Stub_Write :: "byte list \<Rightarrow> int \<Rightarrow> StubFile \<Rightarrow> (int \<times> StubFile) res" where
  "Stub_Write from nbytes f =
     bind_res (Stub_WriteAt from nbytes (currentOffset f) f) (\<lambda>(numWritten, f1).
     Inr (numWritten, f1\<lparr>currentOffset := s32 (currentOffset f1 + numWritten)\<rparr>))"

definition Stub_Length :: "StubFile \<Rightarrow> int" where
  "Stub_Length f = s32 (int (fsize (stub_file f)))"

subsection \<open>Object files\<close>

definition NOFFMAGIC :: "32 word" where "NOFFMAGIC = 0xbadfad"

record Segment =
  virtualAddr :: "32 word"
  inFileAddr :: "32 word"
  seg_size :: "32 word"

record NoffHeader =
  noffMagic :: "32 word"
  code :: Segment
  initData :: Segment
  uninitData :: Segment

definition noff_size :: nat where "noff_size = 40"

text \<open>The header in memory, as the host reads its ints.\<close>

definition segment_at :: "build \<Rightarrow> byte list \<Rightarrow> nat \<Rightarrow> Segment" where
  "segment_at b bs i = \<lparr>virtualAddr = host_get32 b (nth bs) i, inFileAddr = host_get32 b (nth bs) (i + 4), seg_size = host_get32 b (nth bs) (i + 8)\<rparr>"

definition noff_of_bytes :: "build \<Rightarrow> byte list \<Rightarrow> NoffHeader" where
  "noff_of_bytes b bs = \<lparr>noffMagic = host_get32 b (nth bs) 0, code = segment_at b bs 4, initData = segment_at b bs 16, uninitData = segment_at b bs 28\<rparr>"

definition swap_segment :: "build \<Rightarrow> Segment \<Rightarrow> Segment" where
  "swap_segment b s = \<lparr>virtualAddr = WordToHost b (virtualAddr s), inFileAddr = WordToHost b (inFileAddr s), seg_size = WordToHost b (seg_size s)\<rparr>"

definition SwapHeader :: "build \<Rightarrow> NoffHeader \<Rightarrow> NoffHeader" where
  "SwapHeader b h = \<lparr>noffMagic = WordToHost b (noffMagic h), code = swap_segment b (code h), initData = swap_segment b (initData h),
     uninitData = swap_segment b (uninitData h)\<rparr>"

text \<open>SwapHeader when the file was made for the other byte order.\<close>

definition host_order :: "build \<Rightarrow> NoffHeader \<Rightarrow> NoffHeader" where
  "host_order b noffH = (if noffMagic noffH \<noteq> NOFFMAGIC \<and> WordToHost b (noffMagic noffH) = NOFFMAGIC then SwapHeader b noffH else noffH)"

text \<open>Reading the header, byte order corrected and checked; \<open>stk\<close> is what the local variable held.\<close>

definition read_header :: "build \<Rightarrow> (int \<Rightarrow> int \<Rightarrow> 's \<Rightarrow> (int \<times> byte list \<times> 's) res) \<Rightarrow> (nat \<Rightarrow> byte) \<Rightarrow> 's \<Rightarrow> (NoffHeader \<times> 's) res" where
  "read_header b read_at stk s =
     bind_res (read_at (int noff_size) 0 s) (\<lambda>(_, bs, s1).
     let noffH = host_order b (noff_of_bytes b (bs @ drop (length bs) (map stk [0..<noff_size]))) in
     bind_res (ASSERT (noffMagic noffH = NOFFMAGIC)) (\<lambda>_. Inr (noffH, s1)))"

subsection \<open>Address spaces\<close>

definition UserStackSize :: "32 word" where "UserStackSize = 1024"

record AddrSpace =
  as_pageTable :: table_ptr
  numPages :: "32 word"

definition wdivRoundUp :: "32 word \<Rightarrow> 32 word \<Rightarrow> 32 word" where
  "wdivRoundUp n s = n div s + (if n mod s > 0 then 1 else 0)"

definition space_pages :: "NoffHeader \<Rightarrow> 32 word" where
  "space_pages h = wdivRoundUp (seg_size (code h) + seg_size (initData h) + seg_size (uninitData h) + UserStackSize) (of_nat PageSize)"

definition new_page :: "table_ptr \<Rightarrow> nat \<Rightarrow> Machine \<Rightarrow> Machine res" where
  "new_page p i m =
     bind_res (Machine_Find m) (\<lambda>(frame, m1).
     put_entry (Some p) i \<lparr>virtualPage = of_nat i, physicalPage = word_of_int frame, te_valid = True, readOnly = False,
       te_use = False, dirty = False, hitRate = 0\<rparr> m1)"

definition bzero_mem :: "nat \<Rightarrow> Machine \<Rightarrow> Machine" where
  "bzero_mem n m = m\<lparr>mainMemory := (\<lambda>a. if a < n then 0 else mainMemory m a)\<rparr>"

text \<open>Bytes read into \<open>mainMemory\<close> from an index on.\<close>

definition store_bytes :: "int \<Rightarrow> byte list \<Rightarrow> Machine \<Rightarrow> Machine res" where
  "store_bytes a bs m =
     (if bs = [] then Inr m
      else if 0 \<le> a \<and> a + int (length bs) \<le> int MemorySize
      then Inr (m\<lparr>mainMemory := (\<lambda>i. if nat a \<le> i \<and> i < nat a + length bs then bs ! (i - nat a) else mainMemory m i)\<rparr>)
      else Inl OutOfBounds)"

text \<open>One round of the loop of the MULTI_THREAD build: the byte \<open>j\<close> of a segment goes to the frame of its page.\<close>

definition load_byte :: "table_ptr \<Rightarrow> (int \<Rightarrow> int \<Rightarrow> 's \<Rightarrow> (int \<times> byte list \<times> 's) res) \<Rightarrow> Segment \<Rightarrow> nat \<Rightarrow> int \<times> Machine \<times> 's \<Rightarrow> (int \<times> Machine \<times> 's) res" where
  "load_byte p read_at seg j = (\<lambda>(pos, m, s).
     let v = s32 (sint (virtualAddr seg) + int j); vpn = v sdiv int PageSize; offset = v smod int PageSize in
     bind_res (if 0 \<le> vpn then get_entry (Some p) (nat vpn) m else Inl OutOfBounds) (\<lambda>e.
     let paddr = s32 (sint (physicalPage e) * int PageSize + offset) in
     bind_res (read_at 1 pos s) (\<lambda>(_, bs, s1).
     bind_res (store_bytes paddr bs m) (\<lambda>m1. Inr (s32 (pos + 1), m1, s1)))))"

definition load_segment ::
  "bool \<Rightarrow> table_ptr \<Rightarrow> (int \<Rightarrow> int \<Rightarrow> 's \<Rightarrow> (int \<times> byte list \<times> 's) res) \<Rightarrow> Segment \<Rightarrow> Machine \<Rightarrow> 's \<Rightarrow> (Machine \<times> 's) res" where
  "load_segment MULTI_THREAD p read_at seg m s =
     (if sint (seg_size seg) > 0
      then if MULTI_THREAD
        then bind_res (fold_res (load_byte p read_at seg) [0..<nat (sint (seg_size seg))] (sint (inFileAddr seg), m, s)) (\<lambda>(_, m1, s1). Inr (m1, s1))
        else bind_res (read_at (sint (seg_size seg)) (sint (inFileAddr seg)) s) (\<lambda>(_, bs, s1).
             bind_res (store_bytes (sint (virtualAddr seg)) bs m) (\<lambda>m1. Inr (m1, s1)))
      else Inr (m, s))"

definition AddrSpace_AddrSpace ::
  "build \<Rightarrow> bool \<Rightarrow> (int \<Rightarrow> int \<Rightarrow> 's \<Rightarrow> (int \<times> byte list \<times> 's) res) \<Rightarrow> (nat \<Rightarrow> byte) \<Rightarrow> (nat \<Rightarrow> TranslationEntry) \<Rightarrow> table_ptr \<Rightarrow>
   Machine \<Rightarrow> 's \<Rightarrow> (AddrSpace \<times> Machine \<times> 's) res" where
  "AddrSpace_AddrSpace b MULTI_THREAD read_at stk fresh p m s =
     bind_res (read_header b read_at stk s) (\<lambda>(noffH, s1).
     let n = space_pages noffH; sz = n * of_nat PageSize in
     bind_res (ASSERT (n \<le> of_nat NumPhysPages)) (\<lambda>_.
     bind_res (fold_res (new_page p) [0..<unat n] (m\<lparr>tables := (tables m)(p \<mapsto> map fresh [0..<unat n])\<rparr>)) (\<lambda>m1.
     bind_res (load_segment MULTI_THREAD p read_at (code noffH) (bzero_mem (unat sz) m1) s1) (\<lambda>(m2, s2).
     bind_res (load_segment MULTI_THREAD p read_at (initData noffH) m2 s2) (\<lambda>(m3, s3).
     Inr (\<lparr>as_pageTable = p, numPages = n\<rparr>, m3, s3))))))"

definition AddrSpace_destroy :: "AddrSpace \<Rightarrow> Machine \<Rightarrow> Machine res" where
  "AddrSpace_destroy sp m =
     bind_res (fold_res (\<lambda>i m. bind_res (get_entry (Some (as_pageTable sp)) i m) (\<lambda>e. Machine_Clear (sint (physicalPage e)) m))
       [0..<unat (numPages sp)] m) (\<lambda>m1. Inr (m1\<lparr>tables := (tables m1)(as_pageTable sp := None)\<rparr>))"

definition AddrSpace_InitRegisters :: "AddrSpace \<Rightarrow> Machine \<Rightarrow> Machine res" where
  "AddrSpace_InitRegisters sp m =
     bind_res (fold_res (\<lambda>i m. Machine_WriteRegister (int i) 0 m) [0..<NumTotalRegs] m) (\<lambda>m1.
     bind_res (Machine_WriteRegister (int PCReg) 0 m1) (\<lambda>m2.
     bind_res (Machine_WriteRegister (int NextPCReg) 4 m2) (\<lambda>m3.
     Machine_WriteRegister (int StackReg) (numPages sp * of_nat PageSize - 16) m3)))"

definition AddrSpace_SaveState :: "Machine \<Rightarrow> Machine res" where
  "AddrSpace_SaveState m =
     fold_res (\<lambda>i m. bind_res (get_entry (tlb m) i m) (\<lambda>e. put_entry (tlb m) i (e\<lparr>te_valid := False\<rparr>) m)) [0..<TLBSize] m"

definition AddrSpace_RestoreState :: "build \<Rightarrow> AddrSpace \<Rightarrow> Machine \<Rightarrow> Machine" where
  "AddrSpace_RestoreState b sp m =
     (if USE_TLB b then m\<lparr>tlb := Some (as_pageTable sp)\<rparr> else m\<lparr>pageTable := Some (as_pageTable sp)\<rparr>)\<lparr>pageTableSize := numPages sp\<rparr>"

subsection \<open>User registers of a thread\<close>

text \<open>The array \<open>userRegisters\<close> of a thread.\<close>

definition Thread_SaveUserState :: "Machine \<Rightarrow> 32 word list \<Rightarrow> 32 word list res" where
  "Thread_SaveUserState m userRegisters =
     fold_res (\<lambda>i a. bind_res (Machine_ReadRegister (int i) m) (\<lambda>v. arr_set a i v)) [0..<NumTotalRegs] userRegisters"

definition Thread_RestoreUserState :: "32 word list \<Rightarrow> Machine \<Rightarrow> Machine res" where
  "Thread_RestoreUserState userRegisters m =
     fold_res (\<lambda>i m. bind_res (arr_get userRegisters i) (\<lambda>v. Machine_WriteRegister (int i) v m)) [0..<NumTotalRegs] m"

definition Thread_initUserRegister :: "AddrSpace \<Rightarrow> Machine \<Rightarrow> Machine res" where
  "Thread_initUserRegister space m =
     bind_res (fold_res (\<lambda>i m. Machine_WriteRegister (int i) 0 m) [0..<NumTotalRegs] m) (\<lambda>m1.
     bind_res (Machine_WriteRegister (int PCReg) 0 m1) (\<lambda>m2.
     bind_res (Machine_WriteRegister (int NextPCReg) 4 m2) (\<lambda>m3.
     Machine_WriteRegister (int StackReg) (numPages space * of_nat PageSize - 16) m3)))"

subsection \<open>What the constructor relies on\<close>

locale readable_file =
  fixes read_at :: "int \<Rightarrow> int \<Rightarrow> 's \<Rightarrow> (int \<times> byte list \<times> 's) res" and bytes_of :: "'s \<Rightarrow> byte list" and ok :: "'s \<Rightarrow> bool"
  assumes read: "ok s \<Longrightarrow> 0 \<le> p \<Longrightarrow> 0 \<le> n \<Longrightarrow> is_int (p + n) \<Longrightarrow>
    \<exists>s'. read_at n p s = Inr (int (length (take (nat n) (drop (nat p) (bytes_of s)))), take (nat n) (drop (nat p) (bytes_of s)), s') \<and>
      ok s' \<and> bytes_of s' = bytes_of s"
begin

lemma read_byte:
  assumes "ok s" "i < length (bytes_of s)" "is_int (int i + 1)"
  shows "\<exists>s'. read_at 1 (int i) s = Inr (1, [bytes_of s ! i], s') \<and> ok s' \<and> bytes_of s' = bytes_of s"
  using read [OF assms(1) _ _ assms(3)] assms(2) by (simp add: take_Suc_conv_app_nth hd_drop_conv_nth take_Suc)

end

interpretation nf: readable_file "ReadAt f" "\<lambda>d. contents (hdr f) d" "\<lambda>d. file_ok (hdr f) \<and> disk_ok d \<and> sector d = S" for f S
proof unfold_locales
  fix d p n assume a: "file_ok (hdr f) \<and> disk_ok d \<and> sector d = S" "0 \<le> p" "0 \<le> n" "is_int (p + n)"
  then obtain d1 where d1: "ReadAt f n p d = Inr (int (length (take (nat n) (drop (nat p) (contents (hdr f) d)))),
      take (nat n) (drop (nat p) (contents (hdr f) d)), d1)" "disk_ok d1" "sector d1 = sector d"
    using ReadAt_ok [of f d p n] by blast
  have "contents (hdr f) d1 = contents (hdr f) d" using d1(3) by (simp add: contents_def)
  then show "\<exists>s'. ReadAt f n p d = Inr (int (length (take (nat n) (drop (nat p) (contents (hdr f) d)))),
      take (nat n) (drop (nat p) (contents (hdr f) d)), s') \<and> (file_ok (hdr f) \<and> disk_ok s' \<and> sector s' = S) \<and>
      contents (hdr f) s' = contents (hdr f) d"
    using a(1) d1 by auto
qed

definition stub_bytes :: "StubFile \<Rightarrow> byte list" where
  "stub_bytes f = map (content (stub_file f)) [0..<fsize (stub_file f)]"

lemma take_upt_min: "take n [p..<m] = [p..<p + min n (m - p)]"
  by (cases "p \<le> m") (simp_all add: min_def)

interpretation sf: readable_file Stub_ReadAt stub_bytes "\<lambda>_. True"
  by unfold_locales (simp add: Stub_ReadAt_def stub_bytes_def drop_map take_map take_upt_min Let_def min.commute)

subsection \<open>Page frames\<close>

definition page_entry :: "nat \<Rightarrow> nat \<Rightarrow> TranslationEntry" where
  "page_entry i g = \<lparr>virtualPage = of_nat i, physicalPage = of_nat g, te_valid = True, readOnly = False, te_use = False, dirty = False, hitRate = 0\<rparr>"

definition page_entries :: "nat list \<Rightarrow> TranslationEntry list" where
  "page_entries fs = map (\<lambda>i. page_entry i (fs ! i)) [0..<length fs]"

lemma page_entries_snoc: "page_entries (fs @ [g]) = page_entries fs @ [page_entry (length fs) g]"
  by (simp add: page_entries_def nth_append)

lemma page_entries_simps [simp]: "length (page_entries fs) = length fs" "i < length fs \<Longrightarrow> page_entries fs ! i = page_entry i (fs ! i)"
  by (simp_all add: page_entries_def)

text \<open>The machine with the pages of a new table allocated.\<close>

definition paged :: "table_ptr \<Rightarrow> BitMap \<Rightarrow> TranslationEntry list \<Rightarrow> Machine \<Rightarrow> Machine" where
  "paged p bm es m = m\<lparr>bitMap := bm, tables := (tables m)(p \<mapsto> es)\<rparr>"

lemma paged_simps [simp]:
  "bitMap (paged p bm es m) = bm" "tables (paged p bm es m) = (tables m)(p \<mapsto> es)" "mainMemory (paged p bm es m) = mainMemory m"
  "registers (paged p bm es m) = registers m" "tlb (paged p bm es m) = tlb m" "pageTable (paged p bm es m) = pageTable m"
  by (simp_all add: paged_def)

lemma new_page_paged:
  assumes "BitMap_Find bm = Inr (int g, bm1)" "i < length es"
  shows "new_page p i (paged p bm es m) = Inr (paged p bm1 (es[i := page_entry i g]) m)"
  using assms by (simp add: new_page_def Machine_Find_def put_entry_def page_entry_def) (simp add: paged_def)

text \<open>The frames that are free, lowest first.\<close>

definition free_frames :: "BitMap \<Rightarrow> nat list" where
  "free_frames bm = filter (\<lambda>g. g \<notin> marked bm) [0..<numBits bm]"

lemma free_frames_props: "distinct (free_frames bm)" "set (free_frames bm) = {..<numBits bm} - marked bm"
  "length (free_frames bm) = card ({..<numBits bm} - marked bm)"
proof -
  show d: "distinct (free_frames bm)" "set (free_frames bm) = {..<numBits bm} - marked bm" by (auto simp: free_frames_def)
  show "length (free_frames bm) = card ({..<numBits bm} - marked bm)" using distinct_card [OF d(1)] d(2) by simp
qed

lemma free_frames_next:
  assumes "n < length (free_frames bm)" "g < numBits bm" "g \<notin> marked bm \<union> set (take n (free_frames bm))"
    "{..<g} \<subseteq> marked bm \<union> set (take n (free_frames bm))"
  shows "g = free_frames bm ! n"
proof -
  let ?L = "free_frames bm"
  have "g \<in> set ?L" using assms(2,3) by (simp add: free_frames_props)
  then obtain k where k: "k < length ?L" "?L ! k = g" by (auto simp: in_set_conv_nth)
  have "\<not> k < n" using k assms(3) nth_mem [of k "take n ?L"] by auto
  moreover have "\<not> n < k"
  proof
    assume "n < k"
    then have "?L ! n < ?L ! k" using sorted_wrt_nth_less [of "(<)" ?L n k] k(1) by (simp add: free_frames_def sorted_wrt_filter)
    moreover have "?L ! n \<notin> marked bm" using nth_mem [OF assms(1)] by (simp add: free_frames_props)
    ultimately have "?L ! n \<in> set (take n ?L)" using assms(4) k(2) by auto
    then obtain j where "j < n" "?L ! j = ?L ! n" by (auto simp: in_set_conv_nth)
    then show False using assms(1) nth_eq_iff_index_eq [OF free_frames_props(1), of j bm n] by simp
  qed
  ultimately show ?thesis using k(2) by (metis linorder_neqE_nat)
qed

lemma new_pages_ok:
  assumes bm: "bitmap_wf bm" and n: "n \<le> length (free_frames bm)" "n \<le> length es"
  shows "\<exists>bm'. fold_res (new_page p) [0..<n] (paged p bm es m) = Inr (paged p bm' (page_entries (take n (free_frames bm)) @ drop n es) m) \<and>
    bitmap_wf bm' \<and> numBits bm' = numBits bm \<and> marked bm' = marked bm \<union> set (take n (free_frames bm))"
  using n
proof (induction n)
  case 0
  then show ?case using bm by (intro exI [of _ bm]) (simp add: page_entries_def)
next
  case (Suc n)
  let ?L = "free_frames bm"
  obtain bm1 where I: "fold_res (new_page p) [0..<n] (paged p bm es m) = Inr (paged p bm1 (page_entries (take n ?L) @ drop n es) m)"
    "bitmap_wf bm1" "numBits bm1 = numBits bm" "marked bm1 = marked bm \<union> set (take n ?L)"
    using Suc by auto
  have n: "n < length ?L" using Suc.prems by simp
  have "?L ! n \<notin> set (take n ?L)" using n free_frames_props(1) [of bm] by (auto simp: in_set_conv_nth nth_eq_iff_index_eq)
  then have "?L ! n < numBits bm1" "?L ! n \<notin> marked bm1" using nth_mem [OF n] I(3,4) by (simp_all add: free_frames_props)
  then have "marked bm1 \<noteq> {..<numBits bm1}" by blast
  from BitMap_Find_first [OF I(2) this] obtain g bm2 where F: "BitMap_Find bm1 = Inr (int g, bm2)" "g < numBits bm1"
    "g \<notin> marked bm1" "{..<g} \<subseteq> marked bm1" "bitmap_wf bm2" "numBits bm2 = numBits bm1" "marked bm2 = insert g (marked bm1)" by blast
  have g: "g = ?L ! n" using free_frames_next [OF n] F(2-4) I(3,4) by simp
  have "(page_entries (take n ?L) @ drop n es)[n := page_entry n g] = page_entries (take n ?L @ [g]) @ drop (Suc n) es"
    using n Suc.prems(2) by (simp add: list_update_append page_entries_snoc Cons_nth_drop_Suc [of n es, symmetric])
  then have "fold_res (new_page p) [0..<Suc n] (paged p bm es m) = Inr (paged p bm2 (page_entries (take (Suc n) ?L) @ drop (Suc n) es) m)"
    using I(1) new_page_paged [OF F(1), of n "page_entries (take n ?L) @ drop n es" p m] Suc.prems(2) n g
    by (simp add: fold_res_append take_Suc_conv_app_nth)
  then show ?case using I(3,4) F(5-7) n g by (intro exI [of _ bm2]) (simp add: take_Suc_conv_app_nth)
qed

subsection \<open>Loading a segment\<close>

text \<open>The place of a virtual address in the frames.\<close>

definition place :: "nat list \<Rightarrow> nat \<Rightarrow> nat" where
  "place fs v = fs ! (v div PageSize) * PageSize + v mod PageSize"

lemma place_frame: "place fs v div PageSize = fs ! (v div PageSize)" "place fs v mod PageSize = v mod PageSize"
  by (simp_all add: place_def size_defs)

lemma place_inj:
  assumes "distinct fs" "v < length fs * PageSize" "w < length fs * PageSize" "place fs v = place fs w"
  shows "v = w"
proof -
  have l: "v div PageSize < length fs" "w div PageSize < length fs" using assms(2,3) by (simp_all add: less_mult_imp_div_less)
  have "fs ! (v div PageSize) = fs ! (w div PageSize)" "v mod PageSize = w mod PageSize"
    using place_frame [of fs v] place_frame [of fs w] assms(4) by simp_all
  then have "v div PageSize = w div PageSize" using nth_eq_iff_index_eq [OF assms(1) l] by simp
  with \<open>v mod PageSize = w mod PageSize\<close> show ?thesis by (metis div_mult_mod_eq)
qed

lemma place_bound:
  assumes "set fs \<subseteq> {..<NumPhysPages}" "v < length fs * PageSize"
  shows "place fs v < MemorySize"
proof -
  have "v div PageSize < length fs" using assms(2) by (simp add: less_mult_imp_div_less)
  then have "fs ! (v div PageSize) < NumPhysPages" using assms(1) nth_mem by blast
  moreover have "v mod PageSize < PageSize" by (simp add: size_defs)
  ultimately show ?thesis by (simp add: place_def size_defs)
qed

lemma place_id: "v < n * PageSize \<Longrightarrow> place [0..<n] v = v"
  by (simp add: place_def less_mult_imp_div_less)

text \<open>A segment that lies in the address space and in the file.\<close>

definition seg_ok :: "nat \<Rightarrow> nat \<Rightarrow> Segment \<Rightarrow> bool" where
  "seg_ok n l seg \<longleftrightarrow> 0 \<le> sint (seg_size seg) \<and>
     (0 < sint (seg_size seg) \<longrightarrow> 0 \<le> sint (virtualAddr seg) \<and> sint (virtualAddr seg) + sint (seg_size seg) \<le> int (n * PageSize) \<and>
        0 \<le> sint (inFileAddr seg) \<and> sint (inFileAddr seg) + sint (seg_size seg) \<le> int l)"

definition seg_at :: "Segment \<Rightarrow> nat" where "seg_at seg = nat (sint (virtualAddr seg))"
definition seg_from :: "Segment \<Rightarrow> nat" where "seg_from seg = nat (sint (inFileAddr seg))"
definition seg_len :: "Segment \<Rightarrow> nat" where "seg_len seg = nat (sint (seg_size seg))"

lemma store_one: "a < MemorySize \<Longrightarrow> store_bytes (int a) [x] m = Inr (m\<lparr>mainMemory := (mainMemory m)(a := x)\<rparr>)"
  by (simp add: store_bytes_def fun_upd_def) (rule arg_cong [where f = "\<lambda>g. m\<lparr>mainMemory := g\<rparr>"], auto)

context readable_file
begin

lemma load_byte_ok:
  assumes s: "ok s" and t: "tables m p = Some (page_entries fs)" and fs: "set fs \<subseteq> {..<NumPhysPages}"
    and seg: "seg_ok (length fs) (length (bytes_of s)) seg" and j: "j < seg_len seg" and n: "length fs \<le> NumPhysPages" and l: "length (bytes_of s) < 2147483647"
  shows "\<exists>s'. load_byte p read_at seg j (int (seg_from seg + j), m, s) =
      Inr (int (seg_from seg + Suc j), m\<lparr>mainMemory := (mainMemory m)(place fs (seg_at seg + j) := bytes_of s ! (seg_from seg + j))\<rparr>, s') \<and>
    ok s' \<and> bytes_of s' = bytes_of s"
proof -
  let ?v = "seg_at seg + j"
  have q: "0 \<le> sint (virtualAddr seg)" "?v < length fs * PageSize" "seg_from seg + j < length (bytes_of s)"
    using seg j unfolding of_nat_less_iff [where 'a = int, symmetric] by (auto simp: seg_ok_def seg_at_def seg_from_def seg_len_def)
  have m: "length fs * PageSize \<le> 4096" using n by (simp add: size_defs)
  have v: "s32 (sint (virtualAddr seg) + int j) = int ?v" using q(1,2) m by (subst s32_id) (simp_all add: is_int_def seg_at_def)
  have k: "?v div PageSize < length fs" using q(2) by (simp add: less_mult_imp_div_less)
  have e: "get_entry (Some p) (?v div PageSize) m = Inr (page_entry (?v div PageSize) (fs ! (?v div PageSize)))"
    using t k by (simp add: get_entry_def)
  have g: "fs ! (?v div PageSize) < 32" using fs nth_mem [OF k] by (auto simp: NumPhysPages_def)
  then have f: "sint (of_nat (fs ! (?v div PageSize)) :: 32 word) = int (fs ! (?v div PageSize))"
    by (subst sint_small) (simp_all add: unat_of_nat take_bit_nat_eq_self)
  have b: "place fs ?v < MemorySize" by (rule place_bound [OF fs q(2)])
  have "s32 (int (fs ! (?v div PageSize)) * int PageSize + int (?v mod PageSize)) = int (place fs ?v)"
    using b by (subst s32_id) (simp_all add: is_int_def place_def size_defs)
  moreover have "int ?v sdiv int PageSize = int (?v div PageSize)" "int ?v smod int PageSize = int (?v mod PageSize)"
    by (simp_all add: sdiv_pos smod_pos zdiv_int zmod_int size_defs)
  moreover have i: "is_int (int (seg_from seg + j) + 1)" using q(3) l by (simp add: is_int_def)
  moreover obtain s' where "read_at 1 (int (seg_from seg + j)) s = Inr (1, [bytes_of s ! (seg_from seg + j)], s')" "ok s'" "bytes_of s' = bytes_of s"
    using read_byte [OF s q(3) i] by blast
  ultimately show ?thesis
    using v e f store_one [OF b] by (simp add: load_byte_def Let_def page_entry_def add.commute)
qed

end

definition with_memory :: "(nat \<Rightarrow> byte) \<Rightarrow> Machine \<Rightarrow> Machine" where
  "with_memory mem m = m\<lparr>mainMemory := mem\<rparr>"

lemma with_memory_simps [simp]:
  "mainMemory (with_memory mem m) = mem" "bitMap (with_memory mem m) = bitMap m" "tables (with_memory mem m) = tables m"
  "with_memory mem (with_memory mem' m) = with_memory mem m" "with_memory (mainMemory m) m = m"
  "tlb (with_memory mem m) = tlb m" "registers (with_memory mem m) = registers m"
  by (simp_all add: with_memory_def)

lemma bzero_with: "bzero_mem n m = with_memory (\<lambda>a. if a < n then 0 else mainMemory m a) m"
  by (simp add: bzero_mem_def with_memory_def)

lemma store_with: "bs \<noteq> [] \<Longrightarrow> a + length bs \<le> MemorySize \<Longrightarrow> store_bytes (int a) bs m =
  Inr (with_memory (\<lambda>i. if a \<le> i \<and> i < a + length bs then bs ! (i - a) else mainMemory m i) m)"
  unfolding store_bytes_def with_memory_def nat_int by simp

text \<open>Memory after the first \<open>k\<close> bytes of a segment.\<close>

definition holds_segment :: "nat list \<Rightarrow> byte list \<Rightarrow> Segment \<Rightarrow> nat \<Rightarrow> (nat \<Rightarrow> byte) \<Rightarrow> (nat \<Rightarrow> byte) \<Rightarrow> bool" where
  "holds_segment fs c seg k mem mem' \<longleftrightarrow>
     (\<forall>j < k. mem' (place fs (seg_at seg + j)) = c ! (seg_from seg + j)) \<and>
     (\<forall>a. (\<forall>j < k. a \<noteq> place fs (seg_at seg + j)) \<longrightarrow> mem' a = mem a)"

lemma holds_segment_Suc:
  assumes "distinct fs" "seg_at seg + k < length fs * PageSize" "holds_segment fs c seg k mem mem'"
  shows "holds_segment fs c seg (Suc k) mem (mem'(place fs (seg_at seg + k) := c ! (seg_from seg + k)))"
proof -
  have "place fs (seg_at seg + j) \<noteq> place fs (seg_at seg + k)" if "j < k" for j
    using place_inj [OF assms(1) _ assms(2), of "seg_at seg + j"] assms(2) that by auto
  then show ?thesis using assms(3) by (auto simp: holds_segment_def less_Suc_eq)
qed

lemma seg_okD:
  assumes "seg_ok n l seg" "0 < seg_len seg"
  shows "sint (inFileAddr seg) = int (seg_from seg)" "seg_at seg + seg_len seg \<le> n * PageSize" "seg_from seg + seg_len seg \<le> l"
    "sint (virtualAddr seg) = int (seg_at seg)"
proof -
  have z: "0 < sint (seg_size seg)" using assms(2) by (simp add: seg_len_def)
  then have "0 \<le> sint (virtualAddr seg)" "sint (virtualAddr seg) + sint (seg_size seg) \<le> int (n * PageSize)"
    "0 \<le> sint (inFileAddr seg)" "sint (inFileAddr seg) + sint (seg_size seg) \<le> int l"
    using assms(1) by (simp_all add: seg_ok_def)
  then show "sint (inFileAddr seg) = int (seg_from seg)" "seg_at seg + seg_len seg \<le> n * PageSize" "seg_from seg + seg_len seg \<le> l"
    "sint (virtualAddr seg) = int (seg_at seg)"
    using z by (auto simp: seg_at_def seg_from_def seg_len_def simp flip: of_nat_le_iff [where 'a = int])
qed

context readable_file
begin

lemma load_bytes_ok:
  assumes s: "ok s" and t: "tables m p = Some (page_entries fs)" and fs: "distinct fs" "set fs \<subseteq> {..<NumPhysPages}"
    and seg: "seg_ok (length fs) (length (bytes_of s)) seg" and n: "length fs \<le> NumPhysPages" and l: "length (bytes_of s) < 2147483647"
    and k: "k \<le> seg_len seg"
  shows "\<exists>mem' s'. fold_res (load_byte p read_at seg) [0..<k] (int (seg_from seg), m, s) = Inr (int (seg_from seg + k), with_memory mem' m, s') \<and>
    holds_segment fs (bytes_of s) seg k (mainMemory m) mem' \<and> ok s' \<and> bytes_of s' = bytes_of s"
  using k
proof (induction k)
  case 0
  have "holds_segment fs (bytes_of s) seg 0 (mainMemory m) (mainMemory m)" by (simp add: holds_segment_def)
  then show ?case using s by (intro exI [of _ "mainMemory m"] exI [of _ s]) simp
next
  case (Suc k)
  then obtain mem' s' where I: "fold_res (load_byte p read_at seg) [0..<k] (int (seg_from seg), m, s) = Inr (int (seg_from seg + k), with_memory mem' m, s')"
    "holds_segment fs (bytes_of s) seg k (mainMemory m) mem'" "ok s'" "bytes_of s' = bytes_of s" by auto
  have "tables (with_memory mem' m) p = Some (page_entries fs)" using t by simp
  from load_byte_ok [OF I(3) this fs(2), of seg k] obtain s2 where
    L: "load_byte p read_at seg k (int (seg_from seg + k), with_memory mem' m, s') =
      Inr (int (seg_from seg + Suc k), with_memory (mem'(place fs (seg_at seg + k) := bytes_of s ! (seg_from seg + k))) m, s2)"
    "ok s2" "bytes_of s2 = bytes_of s"
    using seg n l Suc.prems I(4) by (auto simp: with_memory_def)
  have "seg_at seg + k < length fs * PageSize" using seg_okD(2) [OF seg] Suc.prems by simp
  from holds_segment_Suc [OF fs(1) this I(2)] show ?case using I(1) L by (auto simp: fold_res_append)
qed

lemma load_whole_ok:
  assumes s: "ok s" and fs: "fs = [0..<length fs]" and seg: "seg_ok (length fs) (length (bytes_of s)) seg" "0 < seg_len seg"
    and n: "length fs \<le> NumPhysPages" and l: "length (bytes_of s) < 2147483647"
  shows "\<exists>mem' s'. load_segment False p read_at seg m s = Inr (with_memory mem' m, s') \<and>
    holds_segment fs (bytes_of s) seg (seg_len seg) (mainMemory m) mem' \<and> ok s' \<and> bytes_of s' = bytes_of s"
proof -
  note q = seg_okD [OF seg]
  let ?bs = "take (seg_len seg) (drop (seg_from seg) (bytes_of s))"
  have z: "sint (seg_size seg) = int (seg_len seg)" "0 < sint (seg_size seg)" using seg(2) by (simp_all add: seg_len_def)
  have b: "length ?bs = seg_len seg" using q(3) by simp
  have "is_int (int (seg_from seg) + int (seg_len seg))" using q(3) l by (simp add: is_int_def)
  then obtain s' where R: "read_at (int (seg_len seg)) (int (seg_from seg)) s = Inr (int (length ?bs), ?bs, s')" "ok s'" "bytes_of s' = bytes_of s"
    using read [OF s, of "int (seg_from seg)" "int (seg_len seg)"] by auto
  let ?mem = "\<lambda>i. if seg_at seg \<le> i \<and> i < seg_at seg + length ?bs then ?bs ! (i - seg_at seg) else mainMemory m i"
  have "seg_at seg + length ?bs \<le> MemorySize" using q(2) n unfolding b by (simp add: size_defs)
  then have "store_bytes (int (seg_at seg)) ?bs m = Inr (with_memory ?mem m)" using seg(2) b by (intro store_with) auto
  then have L: "load_segment False p read_at seg m s = Inr (with_memory ?mem m, s')" using R z q by (simp add: load_segment_def)
  have pl: "place fs (seg_at seg + j) = seg_at seg + j" if "j < seg_len seg" for j
    using place_id [of "seg_at seg + j" "length fs"] q(2) that fs by simp
  have "?mem a = mainMemory m a" if "\<forall>j < seg_len seg. a \<noteq> place fs (seg_at seg + j)" for a
    using that pl [of "a - seg_at seg"] unfolding b by (auto dest!: spec [of _ "a - seg_at seg"])
  then have "holds_segment fs (bytes_of s) seg (seg_len seg) (mainMemory m) ?mem"
    unfolding holds_segment_def using pl b q(3) by (auto simp del: length_take length_drop)
  then show ?thesis using L R(2,3) by blast
qed

lemma load_segment_ok:
  assumes s: "ok s" and t: "tables m p = Some (page_entries fs)" and fs: "distinct fs" "set fs \<subseteq> {..<NumPhysPages}"
    and seg: "seg_ok (length fs) (length (bytes_of s)) seg" and n: "length fs \<le> NumPhysPages" and l: "length (bytes_of s) < 2147483647"
    and mt: "mt \<or> fs = [0..<length fs]"
  shows "\<exists>mem' s'. load_segment mt p read_at seg m s = Inr (with_memory mem' m, s') \<and>
    holds_segment fs (bytes_of s) seg (seg_len seg) (mainMemory m) mem' \<and> ok s' \<and> bytes_of s' = bytes_of s"
proof (cases "seg_len seg = 0")
  case True
  then have "\<not> 0 < sint (seg_size seg)" by (simp add: seg_len_def)
  moreover have "holds_segment fs (bytes_of s) seg 0 (mainMemory m) (mainMemory m)" by (simp add: holds_segment_def)
  ultimately show ?thesis using s True by (intro exI [of _ "mainMemory m"] exI [of _ s]) (simp add: load_segment_def)
next
  case False
  then have p: "0 < seg_len seg" "0 < sint (seg_size seg)" by (auto simp: seg_len_def)
  show ?thesis
  proof (cases mt)
    case True
    then show ?thesis using load_bytes_ok [OF s t fs seg n l le_refl] seg_okD(1) [OF seg p(1)] p(2) by (auto simp: load_segment_def seg_len_def)
  next
    case False
    then show ?thesis using load_whole_ok [OF s _ seg p(1) n l] mt by simp
  qed
qed

end

subsection \<open>The loaded program\<close>

text \<open>The header of an object file, its byte order corrected.\<close>

definition noff_header :: "build \<Rightarrow> byte list \<Rightarrow> NoffHeader" where
  "noff_header b c = host_order b (noff_of_bytes b (take noff_size c))"

text \<open>An object file that fits: the magic number, at most 32 pages, segments inside the file and the space.\<close>

definition noff_ok :: "build \<Rightarrow> byte list \<Rightarrow> bool" where
  "noff_ok b c \<longleftrightarrow> noff_size \<le> length c \<and> length c < 2147483647 \<and> noffMagic (noff_header b c) = NOFFMAGIC \<and>
     unat (space_pages (noff_header b c)) \<le> NumPhysPages \<and>
     seg_ok (unat (space_pages (noff_header b c))) (length c) (code (noff_header b c)) \<and>
     seg_ok (unat (space_pages (noff_header b c))) (length c) (initData (noff_header b c))"

text \<open>The byte of the program at a virtual address: initialised data, else code, else what the bytes were before.\<close>

definition program_image :: "NoffHeader \<Rightarrow> byte list \<Rightarrow> nat \<Rightarrow> byte \<Rightarrow> byte" where
  "program_image h c v z =
     (if seg_at (initData h) \<le> v \<and> v < seg_at (initData h) + seg_len (initData h) then c ! (seg_from (initData h) + (v - seg_at (initData h)))
      else if seg_at (code h) \<le> v \<and> v < seg_at (code h) + seg_len (code h) then c ! (seg_from (code h) + (v - seg_at (code h)))
      else z)"

lemma holds_segment_at:
  assumes "holds_segment fs c seg (seg_len seg) mem mem'" "distinct fs" "seg_ok (length fs) l seg" "v < length fs * PageSize"
  shows "mem' (place fs v) = (if seg_at seg \<le> v \<and> v < seg_at seg + seg_len seg then c ! (seg_from seg + (v - seg_at seg)) else mem (place fs v))"
proof (cases "seg_at seg \<le> v \<and> v < seg_at seg + seg_len seg")
  case True
  have "mem' (place fs (seg_at seg + j)) = c ! (seg_from seg + j)" if "j < seg_len seg" for j
    using assms(1) that by (simp add: holds_segment_def)
  moreover have "v - seg_at seg < seg_len seg" "seg_at seg + (v - seg_at seg) = v" using True by linarith+
  ultimately show ?thesis using True by metis
next
  case False
  have "place fs v \<noteq> place fs (seg_at seg + j)" if j: "j < seg_len seg" for j
  proof
    assume "place fs v = place fs (seg_at seg + j)"
    moreover have "seg_at seg + j < length fs * PageSize" using seg_okD(2) [OF assms(3)] j by simp
    ultimately have "v = seg_at seg + j" using place_inj [OF assms(2,4)] by blast
    then show False using False j by simp
  qed
  then show ?thesis unfolding if_not_P [OF False] using assms(1) by (simp add: holds_segment_def)
qed

lemma holds_segment_other:
  assumes "holds_segment fs c seg (seg_len seg) mem mem'" "seg_ok (length fs) l seg" "a div PageSize \<notin> set fs"
  shows "mem' a = mem a"
proof -
  have "a \<noteq> place fs (seg_at seg + j)" if j: "j < seg_len seg" for j
  proof
    assume e: "a = place fs (seg_at seg + j)"
    have "seg_at seg + j < length fs * PageSize" using seg_okD(2) [OF assms(2)] j by simp
    then have "(seg_at seg + j) div PageSize < length fs" by (simp add: less_mult_imp_div_less)
    then have "a div PageSize \<in> set fs" unfolding e place_frame by (rule nth_mem)
    then show False using assms(3) by simp
  qed
  then show ?thesis using assms(1) by (simp add: holds_segment_def)
qed

lemma pages_size: "unat n \<le> NumPhysPages \<Longrightarrow> unat (n * of_nat PageSize :: 32 word) = unat n * PageSize"
  by (simp add: unat_word_ariths size_defs)

context readable_file
begin

lemma read_header_ok:
  assumes "ok s" "noff_ok b (bytes_of s)"
  shows "\<exists>s'. read_header b read_at stk s = Inr (noff_header b (bytes_of s), s') \<and> ok s' \<and> bytes_of s' = bytes_of s"
proof -
  have i: "is_int (0 + int noff_size)" by (simp add: is_int_def noff_size_def)
  have l: "length (take noff_size (bytes_of s)) = noff_size" "noffMagic (noff_header b (bytes_of s)) = NOFFMAGIC"
    using assms(2) by (simp_all add: noff_ok_def)
  obtain s' where "read_at (int noff_size) 0 s = Inr (int noff_size, take noff_size (bytes_of s), s')" "ok s'" "bytes_of s' = bytes_of s"
    using read [OF assms(1) _ _ i] l(1) by auto
  then show ?thesis using l by (simp add: read_header_def noff_header_def Let_def)
qed

lemma AddrSpace_ok:
  assumes s: "ok s" and c: "noff_ok b (bytes_of s)" and bm: "bitmap_wf (bitMap m)" "numBits (bitMap m) = NumPhysPages"
    and room: "unat (space_pages (noff_header b (bytes_of s))) \<le> card ({..<NumPhysPages} - marked (bitMap m))"
    and mt: "mt \<or> marked (bitMap m) = {}"
  defines "h \<equiv> noff_header b (bytes_of s)"
  defines "sz \<equiv> unat (space_pages h) * PageSize"
  shows "\<exists>m' s' fs bm' mem'. AddrSpace_AddrSpace b mt read_at stk fresh p m s = Inr (\<lparr>as_pageTable = p, numPages = space_pages h\<rparr>, m', s') \<and>
    m' = with_memory mem' (paged p bm' (page_entries fs) m) \<and> fs = take (unat (space_pages h)) (free_frames (bitMap m)) \<and> ok s' \<and> bytes_of s' = bytes_of s \<and> length fs = unat (space_pages h) \<and> distinct fs \<and>
    set fs \<subseteq> {..<NumPhysPages} - marked (bitMap m) \<and> bitmap_wf bm' \<and> numBits bm' = NumPhysPages \<and> marked bm' = marked (bitMap m) \<union> set fs \<and>
    (\<forall>v < sz. mem' (place fs v) = program_image h (bytes_of s) v (if place fs v < sz then 0 else mainMemory m (place fs v))) \<and>
    (\<forall>a. a div PageSize \<notin> set fs \<longrightarrow> mem' a = (if a < sz then 0 else mainMemory m a))"
proof -
  let ?n = "space_pages h" and ?c = "bytes_of s"
  have c': "unat ?n \<le> NumPhysPages" "seg_ok (unat ?n) (length ?c) (code h)" "seg_ok (unat ?n) (length ?c) (initData h)" "length ?c < 2147483647"
    using c by (simp_all add: noff_ok_def h_def)
  obtain s1 where R: "read_header b read_at stk s = Inr (h, s1)" "ok s1" "bytes_of s1 = ?c"
    using read_header_ok [OF s c] unfolding h_def by blast
  have t: "m\<lparr>tables := (tables m)(p \<mapsto> map fresh [0..<unat ?n])\<rparr> = paged p (bitMap m) (map fresh [0..<unat ?n]) m" by (simp add: paged_def)
  define fs where "fs = take (unat ?n) (free_frames (bitMap m))"
  have r: "unat ?n \<le> length (free_frames (bitMap m))" using room bm(2) by (simp add: free_frames_props h_def)
  obtain bm' where "fold_res (new_page p) [0..<unat ?n] (paged p (bitMap m) (map fresh [0..<unat ?n]) m) = Inr (paged p bm' (page_entries fs) m)"
    "bitmap_wf bm'" "numBits bm' = NumPhysPages" "marked bm' = marked (bitMap m) \<union> set fs"
    using new_pages_ok [OF bm(1) r, of "map fresh [0..<unat ?n]" p m] bm(2) by (auto simp: fs_def)
  moreover have "length fs = unat ?n" "distinct fs" using r free_frames_props(1) by (simp_all add: fs_def)
  moreover have "set fs \<subseteq> {..<NumPhysPages} - marked (bitMap m)" using set_take_subset [of "unat ?n"] free_frames_props(2) bm(2) by (metis fs_def)
  ultimately have P: "fold_res (new_page p) [0..<unat ?n] (paged p (bitMap m) (map fresh [0..<unat ?n]) m) = Inr (paged p bm' (page_entries fs) m)"
    "length fs = unat ?n" "distinct fs" "set fs \<subseteq> {..<NumPhysPages} - marked (bitMap m)" "bitmap_wf bm'" "numBits bm' = NumPhysPages"
    "marked bm' = marked (bitMap m) \<union> set fs" by blast+
  have mt': "mt \<or> fs = [0..<length fs]" using mt P(2) c'(1) bm(2) by (auto simp: fs_def free_frames_def take_upt)
  let ?m = "paged p bm' (page_entries fs) m" and ?z = "\<lambda>a. if a < sz then 0 else mainMemory m a"
  have z: "bzero_mem (unat (?n * of_nat PageSize)) ?m = with_memory ?z ?m"
    unfolding bzero_with pages_size [OF c'(1)] sz_def paged_simps ..
  have fs: "set fs \<subseteq> {..<NumPhysPages}" "length fs \<le> NumPhysPages" "seg_ok (length fs) (length (bytes_of s1)) (code h)"
    "length (bytes_of s1) < 2147483647" "tables (with_memory ?z ?m) p = Some (page_entries fs)"
    using P(2,4) c' R(3) by auto
  obtain mem2 s2 where L: "load_segment mt p read_at (code h) (with_memory ?z ?m) s1 = Inr (with_memory mem2 ?m, s2)"
    "holds_segment fs ?c (code h) (seg_len (code h)) ?z mem2" "ok s2" "bytes_of s2 = ?c"
    using load_segment_ok [OF R(2) fs(5) P(3) fs(1,3,2,4) mt'] R(3) by auto
  have fs2: "seg_ok (length fs) (length (bytes_of s2)) (initData h)" "length (bytes_of s2) < 2147483647"
    "tables (with_memory mem2 ?m) p = Some (page_entries fs)" using P(2) c' L(4) by auto
  obtain mem3 s3 where D: "load_segment mt p read_at (initData h) (with_memory mem2 ?m) s2 = Inr (with_memory mem3 ?m, s3)"
    "holds_segment fs ?c (initData h) (seg_len (initData h)) mem2 mem3" "ok s3" "bytes_of s3 = ?c"
    using load_segment_ok [OF L(3) fs2(3) P(3) fs(1) fs2(1) fs(2) fs2(2) mt'] L(4) by auto
  have "AddrSpace_AddrSpace b mt read_at stk fresh p m s = Inr (\<lparr>as_pageTable = p, numPages = ?n\<rparr>, with_memory mem3 ?m, s3)"
    using R(1) c'(1) t P(1) z L(1) D(1) by (simp add: AddrSpace_AddrSpace_def Let_def word_le_nat_alt unat_of_nat size_defs)
  moreover have "mem3 (place fs v) = program_image h ?c v (?z (place fs v))" if "v < sz" for v
  proof -
    have v: "v < length fs * PageSize" using that P(2) by (simp add: sz_def)
    show ?thesis using holds_segment_at [OF L(2) P(3) fs(3) v] holds_segment_at [OF D(2) P(3) fs2(1) v] by (simp add: program_image_def)
  qed
  moreover have "mem3 a = ?z a" if "a div PageSize \<notin> set fs" for a
    using holds_segment_other [OF L(2) fs(3) that] holds_segment_other [OF D(2) fs2(1) that] by simp
  ultimately show ?thesis using P(2-7) fs_def D(3,4) by blast
qed

end

subsection \<open>Releasing the frames\<close>

definition release_page :: "AddrSpace \<Rightarrow> nat \<Rightarrow> Machine \<Rightarrow> Machine res" where
  "release_page sp i m = bind_res (get_entry (Some (as_pageTable sp)) i m) (\<lambda>e. Machine_Clear (sint (physicalPage e)) m)"

lemma release_page_ok:
  assumes "tables m (as_pageTable sp) = Some (page_entries fs)" "i < length fs" "fs ! i < NumPhysPages" "bitmap_wf (bitMap m)" "numBits (bitMap m) = NumPhysPages"
  obtains bm where "release_page sp i m = Inr (m\<lparr>bitMap := bm\<rparr>)" "bitmap_wf bm" "numBits bm = NumPhysPages" "marked bm = marked (bitMap m) - {fs ! i}"
proof -
  have f: "sint (of_nat (fs ! i) :: 32 word) = int (fs ! i)"
    using assms(3) by (subst sint_small) (simp_all add: unat_of_nat take_bit_nat_eq_self NumPhysPages_def)
  have i: "fs ! i < numBits (bitMap m)" using assms(3,5) by simp
  obtain bm where bm: "BitMap_Clear (int (fs ! i)) (bitMap m) = Inr bm" "bitmap_wf bm" "numBits bm = NumPhysPages" "marked bm = marked (bitMap m) - {fs ! i}"
    using BitMap_Clear_ok [OF assms(4) i] assms(5) by auto
  have r: "release_page sp i m = (if fs ! i \<in> marked (bitMap m) then Inr (m\<lparr>bitMap := bm\<rparr>) else Inr m)"
    using assms(1,2) f BitMap_Test_eq [OF assms(4) i] bm(1) i
    by (simp add: release_page_def get_entry_def page_entry_def Machine_Clear_def marked_def)
  show thesis
  proof (cases "fs ! i \<in> marked (bitMap m)")
    case True
    then show ?thesis using that [OF _ bm(2-4)] r by simp
  next
    case False
    then show ?thesis using that [of "bitMap m"] r assms(4,5) by simp
  qed
qed

lemma release_pages_ok:
  assumes "tables m (as_pageTable sp) = Some (page_entries fs)" "k \<le> length fs" "set fs \<subseteq> {..<NumPhysPages}" "bitmap_wf (bitMap m)" "numBits (bitMap m) = NumPhysPages"
  shows "\<exists>bm. fold_res (release_page sp) [0..<k] m = Inr (m\<lparr>bitMap := bm\<rparr>) \<and> bitmap_wf bm \<and> numBits bm = NumPhysPages \<and>
    marked bm = marked (bitMap m) - set (take k fs)"
  using assms(2)
proof (induction k)
  case 0
  then show ?case using assms(4,5) by (intro exI [of _ "bitMap m"]) simp
next
  case (Suc k)
  then obtain bm where I: "fold_res (release_page sp) [0..<k] m = Inr (m\<lparr>bitMap := bm\<rparr>)" "bitmap_wf bm" "numBits bm = NumPhysPages"
    "marked bm = marked (bitMap m) - set (take k fs)" by auto
  have k: "k < length fs" using Suc.prems by simp
  have fk: "fs ! k < NumPhysPages" using assms(3) nth_mem [OF k] by auto
  obtain bm1 where R: "release_page sp k (m\<lparr>bitMap := bm\<rparr>) = Inr (m\<lparr>bitMap := bm1\<rparr>)" "bitmap_wf bm1" "numBits bm1 = NumPhysPages"
    "marked bm1 = marked bm - {fs ! k}"
    using release_page_ok [of "m\<lparr>bitMap := bm\<rparr>" sp fs k] assms(1) k fk I(2,3) by auto
  then show ?case using I(1,4) k by (intro exI [of _ bm1]) (auto simp: fold_res_append take_Suc_conv_app_nth)
qed

lemma destroy_ok:
  assumes "tables m (as_pageTable sp) = Some (page_entries fs)" "unat (numPages sp) = length fs" "set fs \<subseteq> {..<NumPhysPages}"
    "bitmap_wf (bitMap m)" "numBits (bitMap m) = NumPhysPages"
  obtains m' where "AddrSpace_destroy sp m = Inr m'" "tables m' = (tables m)(as_pageTable sp := None)" "mainMemory m' = mainMemory m"
    "bitmap_wf (bitMap m')" "marked (bitMap m') = marked (bitMap m) - set fs"
proof -
  obtain bm where "fold_res (release_page sp) [0..<length fs] m = Inr (m\<lparr>bitMap := bm\<rparr>)" "bitmap_wf bm" "marked bm = marked (bitMap m) - set fs"
    using release_pages_ok [OF assms(1) le_refl assms(3-5)] by auto
  then show thesis using that assms(2) by (simp add: AddrSpace_destroy_def release_page_def [abs_def])
qed

subsection \<open>Saving and restoring registers\<close>

lemma save_registers: "k \<le> NumTotalRegs \<Longrightarrow> length a = NumTotalRegs \<Longrightarrow>
  fold_res (\<lambda>i a. bind_res (Machine_ReadRegister (int i) m) (\<lambda>v. arr_set a i v)) [0..<k] a = Inr (map (registers m) [0..<k] @ drop k a)"
proof (induction k)
  case (Suc k)
  then have "(map (registers m) [0..<k] @ drop k a)[k := registers m k] = map (registers m) [0..<Suc k] @ drop (Suc k) a"
    by (simp add: list_update_append Cons_nth_drop_Suc [of k a, symmetric])
  then show ?case using Suc by (simp add: fold_res_append Machine_ReadRegister_def)
qed simp

lemma restore_registers: "k \<le> NumTotalRegs \<Longrightarrow> length a = NumTotalRegs \<Longrightarrow>
  fold_res (\<lambda>i m. bind_res (arr_get a i) (\<lambda>v. Machine_WriteRegister (int i) v m)) [0..<k] m =
    Inr (m\<lparr>registers := (\<lambda>i. if i < k then a ! i else registers m i)\<rparr>)"
proof (induction k)
  case (Suc k)
  have "(\<lambda>i. if i < k then a ! i else registers m i)(k := a ! k) = (\<lambda>i. if i < Suc k then a ! i else registers m i)" by (auto simp: less_Suc_eq)
  then show ?case using Suc by (simp add: fold_res_append Machine_WriteRegister_def set_reg_def)
qed simp

lemma save_restore:
  assumes "length a = NumTotalRegs"
  shows "Thread_SaveUserState m a = Inr (map (registers m) [0..<NumTotalRegs])"
    "Thread_RestoreUserState (map (registers m) [0..<NumTotalRegs]) m1 = Inr (m1\<lparr>registers := (\<lambda>i. if i < NumTotalRegs then registers m i else registers m1 i)\<rparr>)"
proof -
  show "Thread_SaveUserState m a = Inr (map (registers m) [0..<NumTotalRegs])"
    using save_registers [OF le_refl assms, of m] assms by (simp add: Thread_SaveUserState_def)
  have "(\<lambda>i. if i < NumTotalRegs then map (registers m) [0..<NumTotalRegs] ! i else registers m1 i) =
      (\<lambda>i. if i < NumTotalRegs then registers m i else registers m1 i)" by auto
  then show "Thread_RestoreUserState (map (registers m) [0..<NumTotalRegs]) m1 = Inr (m1\<lparr>registers := (\<lambda>i. if i < NumTotalRegs then registers m i else registers m1 i)\<rparr>)"
    using restore_registers [OF le_refl, of "map (registers m) [0..<NumTotalRegs]" m1] by (simp add: Thread_RestoreUserState_def)
qed

subsection \<open>Reading through the new page table\<close>

text \<open>In a build with a tlb RestoreState makes the page table the tlb, of which Translate looks at the first four entries.\<close>

lemma tlb_lookup_pages:
  assumes "tlb m = Some p" "tables m p = Some (page_entries fs)" "length fs \<le> NumPhysPages" "k < length fs" "a \<le> k" "k < n"
  shows "tlb_lookup [a..<n] (of_nat k) m = Inr (Some k)"
  using assms(5)
proof (induction "k - a" arbitrary: a)
  case 0
  then show ?case using assms by (simp add: upt_conv_Cons get_entry_def page_entry_def)
next
  case (Suc d)
  then have a: "a < k" by simp
  then have "(of_nat a :: 32 word) \<noteq> of_nat k"
    using assms(3,4) by (simp add: word_of_nat_eq_iff take_bit_nat_eq_self NumPhysPages_def)
  moreover have "tlb_lookup [Suc a..<n] (of_nat k) m = Inr (Some k)" using Suc a by (intro Suc.hyps(1)) simp_all
  ultimately show ?case using a assms by (subst upt_conv_Cons) (simp_all add: get_entry_def page_entry_def)
qed

lemma ReadMem_tlb_pages:
  assumes t: "tlb m = Some p" "pageTable m = None" "tables m p = Some (page_entries fs)" and fs: "length fs \<le> NumPhysPages" "set fs \<subseteq> {..<NumPhysPages}"
    and va: "unat va < length fs * PageSize" "unat va < TLBSize * PageSize"
  shows "\<exists>m2. Machine_ReadMem b va 1 m = Inr (Some (scast (mainMemory m (place fs (unat va)))), m2)"
proof -
  define k where "k = unat va div PageSize"
  have k: "k < length fs" "k < TLBSize" using va by (simp_all add: k_def less_mult_imp_div_less)
  have g: "fs ! k < 32" using fs(2) nth_mem [OF k(1)] unfolding NumPhysPages_def by blast
  have vpn: "va div of_nat PageSize = of_nat k" 
  proof -
    have "unat va div PageSize < 4294967296" using k fs(1) by (simp add: k_def NumPhysPages_def)
    then show ?thesis by (simp add: k_def word_unat_eq_iff unat_div unat_of_nat size_defs)
  qed
  have L: "tlb_lookup [0..<TLBSize] (of_nat k) m = Inr (Some k)" by (rule tlb_lookup_pages [OF t(1,3) fs(1) k(1) le0 k(2)])
  have u: "unat (of_nat (fs ! k) :: 32 word) = fs ! k" using g by (simp add: unat_of_nat take_bit_nat_eq_self)
  have md: "unat va mod PageSize < 128" by (simp add: size_defs)
  have pa: "unat (of_nat (fs ! k) * of_nat PageSize + va mod of_nat PageSize) = place fs (unat va)"
    using g md unfolding place_def k_def [symmetric] by (simp add: unat_word_ariths u unat_of_nat size_defs)
  have b: "place fs (unat va) < 4096" using place_bound [OF fs(2) va(1)] by (simp add: size_defs)
  have s: "sint (of_nat (fs ! k) * of_nat PageSize + va mod of_nat PageSize :: 32 word) = int (place fs (unat va))"
    "sint (of_nat (fs ! k) * of_nat PageSize + va mod of_nat PageSize + 1 :: 32 word) = int (place fs (unat va)) + 1"
    using b pa by (subst sint_small; simp add: unat_word_ariths)+
  show ?thesis
    using t k L vpn u g s pa b
    by (auto simp: Machine_ReadMem_def mem_address_def Machine_Translate_def misaligned_def Translate_entry_def get_entry_def put_entry_def page_entry_def
      word_le_nat_alt NumPhysPages_def size_defs)
qed

lemma image_readable:
  assumes t: "tables m p = Some (page_entries fs)" and fs: "set fs \<subseteq> {..<NumPhysPages}" "length fs = unat n" "length fs \<le> NumPhysPages"
    and b: "if USE_TLB b then pageTable m = None else tlb m = None"
    and va: "unat va < (if USE_TLB b then min TLBSize (unat n) else unat n) * PageSize"
  shows "\<exists>m2. Machine_ReadMem b va 1 (AddrSpace_RestoreState b \<lparr>as_pageTable = p, numPages = n\<rparr> m) = Inr (Some (scast (mainMemory m (place fs (unat va)))), m2)"
proof (cases "USE_TLB b")
  case True
  have "min TLBSize (unat n) * PageSize \<le> TLBSize * PageSize" "min TLBSize (unat n) * PageSize \<le> length fs * PageSize"
    unfolding fs(2) by (rule mult_le_mono1, simp)+
  then have v: "unat va < length fs * PageSize" "unat va < TLBSize * PageSize" using va unfolding if_P [OF True] by (blast intro: less_le_trans)+
  show ?thesis
    using ReadMem_tlb_pages [OF _ _ _ fs(3,1) v, of "AddrSpace_RestoreState b \<lparr>as_pageTable = p, numPages = n\<rparr> m" p b] True b t
    by (simp add: AddrSpace_RestoreState_def)
next
  case False
  let ?m = "AddrSpace_RestoreState b \<lparr>as_pageTable = p, numPages = n\<rparr> m"
  have pt: "page_table ?m (page_entries fs)" using b t fs(2) False by (simp add: page_table_def AddrSpace_RestoreState_def)
  have v: "unat va div PageSize < length fs" using va fs(2) False by (simp add: less_mult_imp_div_less)
  have g: "fs ! (unat va div PageSize) < 32" using fs(1) nth_mem [OF v] unfolding NumPhysPages_def by blast
  then have u: "unat (of_nat (fs ! (unat va div PageSize)) :: 32 word) = fs ! (unat va div PageSize)" by (simp add: unat_of_nat take_bit_nat_eq_self)
  then have "page_fault (page_entries fs) va 1 False = NoException" "phys_addr (page_entries fs) va = place fs (unat va)"
    using v g by (simp_all add: page_fault_def misaligned_def Let_def page_entry_def phys_addr_def place_def NumPhysPages_def)
  then show ?thesis using ReadMem_page_table [OF pt, of 1 va b] False by (simp add: AddrSpace_RestoreState_def)
qed

subsection \<open>Properties\<close>

text \<open>C12. Loading an object file whose segments lie in the file and in the address space, with enough free page frames, in any build: with
  MULTI_THREAD, or without it as the first program. The frames are the lowest free ones, and after RestoreState every byte that a user
  program reads through ReadMem, in a build with a tlb from its first four pages, is the byte of the object file, initialised data before
  code; the rest of the space is zero where the constructor has cleared memory and otherwise what the frame held.\<close>

theorem program_loaded:
  assumes "noff_ok b (stub_bytes f)" "bitmap_wf (bitMap m)" "numBits (bitMap m) = NumPhysPages" "if USE_TLB b then pageTable m = None else tlb m = None"
    "unat (space_pages (noff_header b (stub_bytes f))) \<le> card ({..<NumPhysPages} - marked (bitMap m))" "mt \<or> marked (bitMap m) = {}"
  shows "\<exists>sp m' f' fs. AddrSpace_AddrSpace b mt Stub_ReadAt stk fresh p m f = Inr (sp, m', f') \<and>
    fs = take (unat (numPages sp)) (free_frames (bitMap m)) \<and> length fs = unat (numPages sp) \<and> marked (bitMap m') = marked (bitMap m) \<union> set fs \<and>
    (\<forall>va. unat va < (if USE_TLB b then min TLBSize (unat (numPages sp)) else unat (numPages sp)) * PageSize \<longrightarrow>
      (\<exists>m2. Machine_ReadMem b va 1 (AddrSpace_RestoreState b sp m') = Inr (Some (scast (program_image (noff_header b (stub_bytes f)) (stub_bytes f) (unat va)
        (if place fs (unat va) < unat (numPages sp) * PageSize then 0 else mainMemory m (place fs (unat va))))), m2)))"
proof -
  let ?h = "noff_header b (stub_bytes f)"
  let ?n = "space_pages ?h"
  obtain f' fs bm' mem' where A: "AddrSpace_AddrSpace b mt Stub_ReadAt stk fresh p m f =
      Inr (\<lparr>as_pageTable = p, numPages = ?n\<rparr>, with_memory mem' (paged p bm' (page_entries fs) m), f')"
    "fs = take (unat ?n) (free_frames (bitMap m))" "length fs = unat ?n" "set fs \<subseteq> {..<NumPhysPages} - marked (bitMap m)" "marked bm' = marked (bitMap m) \<union> set fs"
    "\<forall>v < unat ?n * PageSize. mem' (place fs v) = program_image ?h (stub_bytes f) v (if place fs v < unat ?n * PageSize then 0 else mainMemory m (place fs v))"
    using sf.AddrSpace_ok [OF TrueI assms(1-3,5,6), of stk fresh p] by blast
  let ?m = "with_memory mem' (paged p bm' (page_entries fs) m)"
  have c: "tables ?m p = Some (page_entries fs)" "set fs \<subseteq> {..<NumPhysPages}" "length fs \<le> NumPhysPages" "if USE_TLB b then pageTable ?m = None else tlb ?m = None"
    using assms(1,4) A(3,4) by (auto simp: noff_ok_def with_memory_def)
  have "\<exists>m2. Machine_ReadMem b va 1 (AddrSpace_RestoreState b \<lparr>as_pageTable = p, numPages = ?n\<rparr> ?m) =
      Inr (Some (scast (program_image ?h (stub_bytes f) (unat va) (if place fs (unat va) < unat ?n * PageSize then 0 else mainMemory m (place fs (unat va))))), m2)"
    if va: "unat va < (if USE_TLB b then min TLBSize (unat ?n) else unat ?n) * PageSize" for va
  proof -
    have "unat va < unat ?n * PageSize" using va by (auto simp: min_def split: if_splits intro: less_le_trans [OF _ mult_le_mono1])
    then show ?thesis using image_readable [OF c(1,2) A(3) c(3,4) va] A(6) by simp
  qed
  then show ?thesis using A(1,3,5) unfolding A(2) [symmetric] by (intro exI [of _ fs] exI conjI) (assumption | simp add: A(2) [symmetric])+
qed

text \<open>Loading a program clears the first bytes of physical memory, as many as the new address space has, whatever frames it got: of a
  frame that was in use before, every byte below that bound is lost, and every byte above is kept.\<close>

theorem loading_clears_low_memory:
  assumes "noff_ok b (stub_bytes f)" "bitmap_wf (bitMap m)" "numBits (bitMap m) = NumPhysPages"
    "unat (space_pages (noff_header b (stub_bytes f))) \<le> card ({..<NumPhysPages} - marked (bitMap m))"
  shows "\<exists>sp m' f'. AddrSpace_AddrSpace b True Stub_ReadAt stk fresh p m f = Inr (sp, m', f') \<and>
    (\<forall>a. a div PageSize \<in> marked (bitMap m) \<longrightarrow> mainMemory m' a = (if a < unat (numPages sp) * PageSize then 0 else mainMemory m a))"
proof -
  let ?h = "noff_header b (stub_bytes f)"
  obtain f' fs bm' mem' where A: "AddrSpace_AddrSpace b True Stub_ReadAt stk fresh p m f =
      Inr (\<lparr>as_pageTable = p, numPages = space_pages ?h\<rparr>, with_memory mem' (paged p bm' (page_entries fs) m), f')"
    "set fs \<subseteq> {..<NumPhysPages} - marked (bitMap m)"
    "\<forall>a. a div PageSize \<notin> set fs \<longrightarrow> mem' a = (if a < unat (space_pages ?h) * PageSize then 0 else mainMemory m a)"
    using sf.AddrSpace_ok [OF TrueI assms(1-4) disjI1 [OF TrueI], of stk fresh p] by blast
  have "\<forall>a. a div PageSize \<in> marked (bitMap m) \<longrightarrow> mem' a = (if a < unat (space_pages ?h) * PageSize then 0 else mainMemory m a)"
    using A(2,3) by blast
  then show ?thesis using A(1) by auto
qed

text \<open>An object file with one instruction, and a build without a tlb.\<close>

definition demo_build :: build where
  "demo_build = \<lparr>USE_TLB = False, TLB_LRU = False, HOST_IS_BIG_ENDIAN = False\<rparr>"

definition demo_program :: "byte list" where
  "demo_program = [0xad, 0xdf, 0xba, 0, 0, 0, 0, 0, 40, 0, 0, 0, 4, 0, 0, 0, 0, 0, 0, 0, 0, 0, 0, 0, 0, 0, 0, 0,
     0, 0, 0, 0, 0, 0, 0, 0, 0, 0, 0, 0, 0x0c, 0, 0, 7]"

definition demo_stub :: StubFile where
  "demo_stub = Stub_OpenFile \<lparr>content = nth demo_program, fsize = 44\<rparr>"

lemma demo_stub_bytes: "stub_bytes demo_stub = demo_program"
proof -
  have "length demo_program = 44" by (simp add: demo_program_def)
  then have "map (nth demo_program) [0..<44] = demo_program" using map_nth [of demo_program] by metis
  then show ?thesis by (simp add: stub_bytes_def demo_stub_def Stub_OpenFile_def)
qed

lemma demo_header: "noff_header demo_build demo_program =
  \<lparr>noffMagic = 0xbadfad, code = \<lparr>virtualAddr = 0, inFileAddr = 40, seg_size = 4\<rparr>, initData = \<lparr>virtualAddr = 0, inFileAddr = 0, seg_size = 0\<rparr>,
    uninitData = \<lparr>virtualAddr = 0, inFileAddr = 0, seg_size = 0\<rparr>\<rparr>"
  by code_simp

lemma demo_noff: "noff_ok demo_build demo_program" "space_pages (noff_header demo_build demo_program) = 9"
proof -
  show p: "space_pages (noff_header demo_build demo_program) = 9"
    unfolding demo_header by code_simp
  show "noff_ok demo_build demo_program"
    unfolding noff_ok_def p unfolding demo_header by (simp add: demo_program_def noff_size_def seg_ok_def NOFFMAGIC_def size_defs)
qed

lemma new_machine:
  obtains m where "Machine_Machine demo_build False (\<lambda>_. 0) (\<lambda>_. page_entry 0 0) 0 = Inr m" "tlb m = None" "bitmap_wf (bitMap m)"
    "numBits (bitMap m) = NumPhysPages" "marked (bitMap m) = {}" "mainMemory m = (\<lambda>_. 0)"
proof -
  obtain bm where bm: "BitMap_BitMap NumPhysPages (\<lambda>_. 0) = Inr bm" "bitmap_wf bm" "numBits bm = NumPhysPages" "marked bm = {}"
    using BitMap_BitMap_ok [of NumPhysPages "\<lambda>_. 0"] by blast
  have "CheckEndian demo_build False = Inr ()" by code_simp
  then show thesis using that bm by (simp add: Machine_Machine_def demo_build_def)
qed

lemma program_loaded_witness:
  "\<exists>m sp m' f' m2. Machine_Machine demo_build False (\<lambda>_. 0) (\<lambda>_. page_entry 0 0) 0 = Inr m \<and>
     AddrSpace_AddrSpace demo_build True Stub_ReadAt (\<lambda>_. 0) (\<lambda>_. page_entry 0 0) 1 m demo_stub = Inr (sp, m', f') \<and>
     Machine_ReadMem demo_build 3 1 (AddrSpace_RestoreState demo_build sp m') = Inr (Some 7, m2)"
proof -
  obtain m where m: "Machine_Machine demo_build False (\<lambda>_. 0) (\<lambda>_. page_entry 0 0) 0 = Inr m" "tlb m = None" "bitmap_wf (bitMap m)"
    "numBits (bitMap m) = NumPhysPages" "marked (bitMap m) = {}" by (rule new_machine)
  have c: "noff_ok demo_build (stub_bytes demo_stub)" "if USE_TLB demo_build then pageTable m = None else tlb m = None"
    "unat (space_pages (noff_header demo_build (stub_bytes demo_stub))) \<le> card ({..<NumPhysPages} - marked (bitMap m))"
    using demo_noff m(2,5) by (simp_all add: demo_stub_bytes demo_build_def NumPhysPages_def)
  obtain sp m' f' fs where L: "AddrSpace_AddrSpace demo_build True Stub_ReadAt (\<lambda>_. 0) (\<lambda>_. page_entry 0 0) 1 m demo_stub = Inr (sp, m', f')"
    "length fs = unat (numPages sp)" "\<forall>va. unat va < (if USE_TLB demo_build then min TLBSize (unat (numPages sp)) else unat (numPages sp)) * PageSize \<longrightarrow>
      (\<exists>m2. Machine_ReadMem demo_build va 1 (AddrSpace_RestoreState demo_build sp m') = Inr (Some (scast (program_image (noff_header demo_build (stub_bytes demo_stub)) (stub_bytes demo_stub) (unat va)
        (if place fs (unat va) < unat (numPages sp) * PageSize then 0 else mainMemory m (place fs (unat va))))), m2))"
    using program_loaded [OF c(1) m(3,4) c(2,3) disjI1 [OF TrueI], of "\<lambda>_. 0" "\<lambda>_. page_entry 0 0" 1] by blast
  have i: "program_image (noff_header demo_build (stub_bytes demo_stub)) (stub_bytes demo_stub) 3 z = 7" for z
    unfolding demo_stub_bytes demo_header by (simp add: program_image_def seg_at_def seg_len_def seg_from_def demo_program_def)
  have "numPages sp = 9"
    using L(1) demo_noff(2) sf.AddrSpace_ok [OF TrueI c(1) m(3,4) c(3) disjI1 [OF TrueI], of "\<lambda>_. 0" "\<lambda>_. page_entry 0 0" 1] by (auto simp: demo_stub_bytes)
  then show ?thesis using m(1) L(1) L(3) [rule_format, of 3] i by (auto simp: demo_build_def size_defs)
qed

lemma loading_clears_low_memory_witness:
  "\<exists>bm sp m' f'. BitMap_Mark 0 \<lparr>numBits = 32, numWords = 1, bm_map = [0]\<rparr> = Inr bm \<and>
     AddrSpace_AddrSpace demo_build True Stub_ReadAt (\<lambda>_. 0) (\<lambda>_. page_entry 0 0) 1 (mach0\<lparr>mainMemory := \<lambda>_. 1, bitMap := bm\<rparr>) demo_stub = Inr (sp, m', f') \<and>
     mainMemory m' 0 = 0"
proof -
  let ?b = "\<lparr>numBits = 32, numWords = 1, bm_map = [0]\<rparr> :: BitMap"
  have b: "bitmap_wf ?b" "marked ?b = {}" by (auto simp: bitmap_wf_def divRoundUp_def BitsInWord_def marked_def is_marked_def)
  obtain bm where bm: "BitMap_Mark 0 ?b = Inr bm" "bitmap_wf bm" "numBits bm = NumPhysPages" "marked bm = {0}"
    using BitMap_Mark_ok [OF b(1), of 0] b(2) by (auto simp: NumPhysPages_def)
  let ?m = "mach0\<lparr>mainMemory := \<lambda>_. 1, bitMap := bm\<rparr>"
  have c: "noff_ok demo_build (stub_bytes demo_stub)"
    "unat (space_pages (noff_header demo_build (stub_bytes demo_stub))) \<le> card ({..<NumPhysPages} - marked (bitMap ?m))"
    using demo_noff bm(4) by (simp_all add: demo_stub_bytes NumPhysPages_def card_Diff_subset)
  have w: "bitmap_wf (bitMap ?m)" "numBits (bitMap ?m) = NumPhysPages" using bm by simp_all
  obtain sp m' f' where L: "AddrSpace_AddrSpace demo_build True Stub_ReadAt (\<lambda>_. 0) (\<lambda>_. page_entry 0 0) 1 ?m demo_stub = Inr (sp, m', f')"
    "\<forall>a. a div PageSize \<in> marked (bitMap ?m) \<longrightarrow> mainMemory m' a = (if a < unat (numPages sp) * PageSize then 0 else mainMemory ?m a)"
    using loading_clears_low_memory [OF c(1) w c(2), of "\<lambda>_. 0" "\<lambda>_. page_entry 0 0" 1] by blast
  have "numPages sp = 9"
    using L(1) demo_noff(2) sf.AddrSpace_ok [OF TrueI c(1) w c(2) disjI1 [OF TrueI], of "\<lambda>_. 0" "\<lambda>_. page_entry 0 0" 1] by (auto simp: demo_stub_bytes)
  then have "mainMemory m' 0 = 0" using L(2) [rule_format, of 0] bm(4) by (simp add: size_defs)
  then show ?thesis using bm(1) L(1) by blast
qed

end
