(* ===== verification/Nachos_Coff.thy ===== *)
theory Nachos_Coff
  imports Nachos_AddrSpace
begin

text \<open>
  The converter of object files (bin/coff2noff.c with bin/coff.h and bin/noff.h): it reads a COFF file and writes the NOFF file that the loader of
  userprog/addrspace.cc reads. A long has 32 bits and the structures have no padding, as on the hosts the code was written for. A file is its
  bytes and a position; the messages are left out. The program ends with an exit code; the flag says whether the output was unlinked. A section
  size above the largest int makes malloc and read fail in a way that depends on the host, the outcome \<open>HostLimit\<close>.
\<close>

subsection \<open>COFF structures (coff.h)\<close>

record filehdr =
  f_magic :: "16 word"
  f_nscns :: "16 word"
  f_timdat :: "32 word"
  f_symptr :: "32 word"
  f_nsyms :: "32 word"
  f_opthdr :: "16 word"
  f_flags :: "16 word"

record aouthdr =
  ao_magic :: "16 word"
  vstamp :: "16 word"
  tsize :: "32 word"
  dsize :: "32 word"
  bsize :: "32 word"
  entry :: "32 word"
  text_start :: "32 word"
  data_start :: "32 word"
  bss_start :: "32 word"
  gprmask :: "32 word"
  cprmask :: "32 word list"
  gp_value :: "32 word"

record scnhdr =
  s_name :: "byte list"
  s_paddr :: "32 word"
  s_vaddr :: "32 word"
  s_size :: "32 word"
  s_scnptr :: "32 word"
  s_relptr :: "32 word"
  s_lnnoptr :: "32 word"
  s_nreloc :: "16 word"
  s_nlnno :: "16 word"
  s_flags :: "32 word"

definition MIPSELMAGIC :: "16 word" where "MIPSELMAGIC = 0x0162"
definition OMAGIC :: "16 word" where "OMAGIC = 0x107"

definition filehdr_size :: nat where "filehdr_size = 20"
definition aouthdr_size :: nat where "aouthdr_size = 56"
definition scnhdr_size :: nat where "scnhdr_size = 40"

text \<open>The structures in memory, as the host reads their fields.\<close>

definition filehdr_of_bytes :: "build \<Rightarrow> byte list \<Rightarrow> filehdr" where
  "filehdr_of_bytes b bs =
     \<lparr>f_magic = host_get16 b (nth bs) 0, f_nscns = host_get16 b (nth bs) 2, f_timdat = host_get32 b (nth bs) 4, f_symptr = host_get32 b (nth bs) 8,
      f_nsyms = host_get32 b (nth bs) 12, f_opthdr = host_get16 b (nth bs) 16, f_flags = host_get16 b (nth bs) 18\<rparr>"

definition aouthdr_of_bytes :: "build \<Rightarrow> byte list \<Rightarrow> aouthdr" where
  "aouthdr_of_bytes b bs =
     \<lparr>ao_magic = host_get16 b (nth bs) 0, vstamp = host_get16 b (nth bs) 2, tsize = host_get32 b (nth bs) 4, dsize = host_get32 b (nth bs) 8,
      bsize = host_get32 b (nth bs) 12, entry = host_get32 b (nth bs) 16, text_start = host_get32 b (nth bs) 20, data_start = host_get32 b (nth bs) 24,
      bss_start = host_get32 b (nth bs) 28, gprmask = host_get32 b (nth bs) 32,
      cprmask = map (\<lambda>i. host_get32 b (nth bs) (36 + 4 * i)) [0..<4], gp_value = host_get32 b (nth bs) 52\<rparr>"

definition scnhdr_of_bytes :: "build \<Rightarrow> byte list \<Rightarrow> scnhdr" where
  "scnhdr_of_bytes b bs =
     \<lparr>s_name = take 8 bs, s_paddr = host_get32 b (nth bs) 8, s_vaddr = host_get32 b (nth bs) 12, s_size = host_get32 b (nth bs) 16,
      s_scnptr = host_get32 b (nth bs) 20, s_relptr = host_get32 b (nth bs) 24, s_lnnoptr = host_get32 b (nth bs) 28,
      s_nreloc = host_get16 b (nth bs) 32, s_nlnno = host_get16 b (nth bs) 34, s_flags = host_get32 b (nth bs) 36\<rparr>"

subsection \<open>Byte order\<close>

definition coff_WordToHost :: "build \<Rightarrow> 32 word \<Rightarrow> 32 word" where
  "coff_WordToHost b word =
     (if HOST_IS_BIG_ENDIAN b
      then (drop_bit 24 word AND 0x000000ff) OR (drop_bit 8 word AND 0x0000ff00) OR (push_bit 8 word AND 0x00ff0000) OR (push_bit 24 word AND 0xff000000)
      else word)"

definition coff_ShortToHost :: "build \<Rightarrow> 16 word \<Rightarrow> 16 word" where
  "coff_ShortToHost b shortword =
     (if HOST_IS_BIG_ENDIAN b then (push_bit 8 shortword AND 0xff00) OR (drop_bit 8 shortword AND 0x00ff) else shortword)"

subsection \<open>Files\<close>

datatype cstop = Quit int bool | HostLimit

type_synonym 'a cres = "cstop + 'a"

record CFiles =
  fin :: "byte list"
  fin_pos :: nat
  fout :: "byte list"
  fout_pos :: nat
  out_takes :: "nat \<Rightarrow> nat \<Rightarrow> bool"   \<comment> \<open>the host takes so many bytes for the output, at a position; never if it was not opened\<close>

text \<open>Writing at a position behind the end fills the gap with zeros.\<close>

definition file_write :: "nat \<Rightarrow> byte list \<Rightarrow> byte list \<Rightarrow> byte list" where
  "file_write pos bs f = take pos (f @ replicate (pos - length f) 0) @ bs @ drop (pos + length bs) f"

definition coff_Read :: "int \<Rightarrow> CFiles \<Rightarrow> (byte list \<times> CFiles) cres" where
  "coff_Read nBytes F =
     (if nBytes < 0 then Inl HostLimit
      else let bs = take (nat nBytes) (drop (fin_pos F) (fin F)) in
        if int (length bs) \<noteq> nBytes then Inl (Quit 1 True) else Inr (bs, F\<lparr>fin_pos := fin_pos F + length bs\<rparr>))"

text \<open>A write that the host does not take in full, for whatever reason, ends the program.\<close>

definition coff_Write :: "byte list \<Rightarrow> CFiles \<Rightarrow> CFiles cres" where
  "coff_Write bs F =
     (if out_takes F (fout_pos F) (length bs)
      then Inr (F\<lparr>fout := file_write (fout_pos F) bs (fout F), fout_pos := fout_pos F + length bs\<rparr>) else Inl (Quit 1 True))"

text \<open>A seek to a negative position fails, and the code does not notice.\<close>

definition seek_in :: "32 word \<Rightarrow> CFiles \<Rightarrow> CFiles" where
  "seek_in off F = (if sint off < 0 then F else F\<lparr>fin_pos := nat (sint off)\<rparr>)"

text \<open>A host that takes every write.\<close>

abbreviation all_taken :: "nat \<Rightarrow> nat \<Rightarrow> bool" where
  "all_taken \<equiv> \<lambda>_ _. True"

subsection \<open>The conversion\<close>

text \<open>strcmp with a name shorter than the field.\<close>

definition name_is :: "string \<Rightarrow> scnhdr \<Rightarrow> bool" where
  "name_is str s \<longleftrightarrow> take (length str + 1) (s_name s) = bytes str @ [0]"

definition section_order :: "build \<Rightarrow> scnhdr \<Rightarrow> scnhdr" where
  "section_order b s = s\<lparr>s_paddr := coff_WordToHost b (s_paddr s), s_size := coff_WordToHost b (s_size s), s_scnptr := coff_WordToHost b (s_scnptr s)\<rparr>"

text \<open>Seek, Read and Write of the contents of a section.\<close>

definition copy_section :: "scnhdr \<Rightarrow> CFiles \<Rightarrow> CFiles cres" where
  "copy_section s F = bind_res (coff_Read (sint (s_size s)) (seek_in (s_scnptr s) F)) (\<lambda>(buffer, F1). coff_Write buffer F1)"

text \<open>One round of the loop, on the header, \<open>inNoffFile\<close> and the files.\<close>

definition convert_section :: "scnhdr \<Rightarrow> NoffHeader \<times> 32 word \<times> CFiles \<Rightarrow> (NoffHeader \<times> 32 word \<times> CFiles) cres" where
  "convert_section s = (\<lambda>(noffH, inNoffFile, F).
     let seg = \<lparr>virtualAddr = s_paddr s, inFileAddr = inNoffFile, seg_size = s_size s\<rparr> in
     if s_size s = 0 then Inr (noffH, inNoffFile, F)
     else if name_is ''.text'' s then
       bind_res (copy_section s F) (\<lambda>F1. Inr (noffH\<lparr>code := seg\<rparr>, inNoffFile + s_size s, F1))
     else if name_is ''.data'' s \<or> name_is ''.rdata'' s then
       (if seg_size (initData noffH) \<noteq> 0 then Inl (Quit 1 True)
        else bind_res (copy_section s F) (\<lambda>F1. Inr (noffH\<lparr>initData := seg\<rparr>, inNoffFile + s_size s, F1)))
     else if name_is ''.bss'' s \<or> name_is ''.sbss'' s then
       (let u = uninitData noffH in
        if seg_size u \<noteq> 0
        then if s_paddr s = virtualAddr u + seg_size u then Inl (Quit 1 True)
             else Inr (noffH\<lparr>uninitData := u\<lparr>seg_size := seg_size u + s_size s\<rparr>\<rparr>, inNoffFile, F)
        else Inr (noffH\<lparr>uninitData := u\<lparr>virtualAddr := s_paddr s, seg_size := s_size s\<rparr>\<rparr>, inNoffFile, F))
     else Inl (Quit 1 True))"

text \<open>The headers of the input: the file header, the system header and the sections.\<close>

definition read_sections :: "build \<Rightarrow> CFiles \<Rightarrow> (scnhdr list \<times> CFiles) cres" where
  "read_sections b F =
     bind_res (coff_Read (int filehdr_size) F) (\<lambda>(bs, F1).
     let fileh = filehdr_of_bytes b bs; numsections = unat (coff_ShortToHost b (f_nscns fileh)) in
     if coff_ShortToHost b (f_magic fileh) \<noteq> MIPSELMAGIC then Inl (Quit 1 True)
     else bind_res (coff_Read (int aouthdr_size) F1) (\<lambda>(bs2, F2).
       if coff_ShortToHost b (ao_magic (aouthdr_of_bytes b bs2)) \<noteq> OMAGIC then Inl (Quit 1 True)
       else bind_res (coff_Read (int (numsections * scnhdr_size)) F2) (\<lambda>(bs3, F3).
         Inr (map (\<lambda>i. section_order b (scnhdr_of_bytes b (drop (scnhdr_size * i) bs3))) [0..<numsections], F3))))"

text \<open>The header of the output in the byte order of the host.\<close>

definition host_bytes :: "build \<Rightarrow> 32 word \<Rightarrow> byte list" where
  "host_bytes b w = (if HOST_IS_BIG_ENDIAN b then rev (int_to_bytes w) else int_to_bytes w)"

definition segment_bytes :: "build \<Rightarrow> Segment \<Rightarrow> byte list" where
  "segment_bytes b s = host_bytes b (virtualAddr s) @ host_bytes b (inFileAddr s) @ host_bytes b (seg_size s)"

definition noff_bytes :: "build \<Rightarrow> NoffHeader \<Rightarrow> byte list" where
  "noff_bytes b h = host_bytes b (noffMagic h) @ segment_bytes b (code h) @ segment_bytes b (initData h) @ segment_bytes b (uninitData h)"

text \<open>The program: what the header held before, \<open>argc\<close>, the input file if it can be opened, and the writes the host takes. The value is the
  output file.\<close>

definition coff2noff :: "build \<Rightarrow> NoffHeader \<Rightarrow> nat \<Rightarrow> byte list option \<Rightarrow> (nat \<Rightarrow> nat \<Rightarrow> bool) \<Rightarrow> byte list cres" where
  "coff2noff b junk argc input takes =
     (if argc < 2 then Inl (Quit 1 False)
      else case input of
        None \<Rightarrow> Inl (Quit 1 False)
      | Some c \<Rightarrow>
          bind_res (read_sections b \<lparr>fin = c, fin_pos = 0, fout = [], fout_pos = 0, out_takes = takes\<rparr>) (\<lambda>(sections, F).
          let noffH = junk\<lparr>noffMagic := NOFFMAGIC, code := (code junk)\<lparr>seg_size := 0\<rparr>, initData := (initData junk)\<lparr>seg_size := 0\<rparr>,
                uninitData := (uninitData junk)\<lparr>seg_size := 0\<rparr>\<rparr> in
          bind_res (fold_res convert_section sections (noffH, of_nat noff_size, F\<lparr>fout_pos := noff_size\<rparr>)) (\<lambda>(noffH1, _, F1).
          bind_res (coff_Write (noff_bytes b noffH1) (F1\<lparr>fout_pos := 0\<rparr>)) (\<lambda>F2. Inr (fout F2)))))"

subsection \<open>What a COFF file means\<close>

text \<open>The sections of a file, those in use by kind, and the bytes of one.\<close>

definition coff_sections :: "build \<Rightarrow> byte list \<Rightarrow> scnhdr list option" where
  "coff_sections b c = (case read_sections b \<lparr>fin = c, fin_pos = 0, fout = [], fout_pos = 0, out_takes = all_taken\<rparr> of Inr (ss, _) \<Rightarrow> Some ss | Inl _ \<Rightarrow> None)"

definition is_text :: "scnhdr \<Rightarrow> bool" where
  "is_text s \<longleftrightarrow> s_size s \<noteq> 0 \<and> name_is ''.text'' s"

definition is_data :: "scnhdr \<Rightarrow> bool" where
  "is_data s \<longleftrightarrow> s_size s \<noteq> 0 \<and> (name_is ''.data'' s \<or> name_is ''.rdata'' s)"

definition is_bss :: "scnhdr \<Rightarrow> bool" where
  "is_bss s \<longleftrightarrow> s_size s \<noteq> 0 \<and> (name_is ''.bss'' s \<or> name_is ''.sbss'' s)"

definition section_bytes :: "byte list \<Rightarrow> scnhdr \<Rightarrow> byte list" where
  "section_bytes c s = take (unat (s_size s)) (drop (unat (s_scnptr s)) c)"

definition in_file :: "byte list \<Rightarrow> scnhdr \<Rightarrow> bool" where
  "in_file c s \<longleftrightarrow> 0 < sint (s_size s) \<and> 0 \<le> sint (s_scnptr s) \<and> sint (s_scnptr s) + sint (s_size s) \<le> int (length c)"

text \<open>A file the converter takes: known sections with their contents in the file, at most one of each kind.\<close>

definition sections_ok :: "byte list \<Rightarrow> scnhdr list \<Rightarrow> bool" where
  "sections_ok c ss \<longleftrightarrow> int (length c) < 1000000000 \<and>
     (\<forall>s\<in>set ss. s_size s = 0 \<or> is_text s \<and> in_file c s \<or> is_data s \<and> in_file c s \<or> is_bss s) \<and>
     length (filter is_text ss) \<le> 1 \<and> length (filter is_data ss) \<le> 1 \<and> length (filter is_bss ss) \<le> 1"

text \<open>The byte at an address of the program, initialised data before code; \<open>z\<close> where no section is.\<close>

definition covers :: "nat \<Rightarrow> scnhdr \<Rightarrow> bool" where
  "covers v s \<longleftrightarrow> sint (s_paddr s) \<le> int v \<and> int v < sint (s_paddr s) + sint (s_size s)"

definition coff_image :: "byte list \<Rightarrow> scnhdr list \<Rightarrow> nat \<Rightarrow> byte \<Rightarrow> byte" where
  "coff_image c ss v z =
     (case filter (covers v) (filter is_data ss @ filter is_text ss) of
        [] \<Rightarrow> z | s # _ \<Rightarrow> c ! (nat (sint (s_scnptr s)) + nat (int v - sint (s_paddr s))))"

text \<open>The pages a program needs, and that its sections lie in them.\<close>

definition coff_pages :: "scnhdr list \<Rightarrow> 32 word" where
  "coff_pages ss = wdivRoundUp (sum_list (map s_size (filter is_text ss)) + sum_list (map s_size (filter is_data ss)) +
     sum_list (map s_size (filter is_bss ss)) + UserStackSize) (of_nat PageSize)"

definition in_space :: "scnhdr list \<Rightarrow> bool" where
  "in_space ss \<longleftrightarrow> unat (coff_pages ss) \<le> NumPhysPages \<and>
     (\<forall>s\<in>set (filter is_data ss @ filter is_text ss). 0 \<le> sint (s_paddr s) \<and> sint (s_paddr s) + sint (s_size s) \<le> int (unat (coff_pages ss) * PageSize))"

subsection \<open>Names of sections\<close>

lemma name_is_nth: "name_is str s \<Longrightarrow> i \<le> length str \<Longrightarrow> s_name s ! i = (bytes str @ [0]) ! i"
  unfolding name_is_def by (metis less_Suc_eq_le Suc_eq_plus1 nth_take)

lemma second_letter:
  "name_is ''.text'' s \<Longrightarrow> s_name s ! 1 = 0x74" "name_is ''.data'' s \<Longrightarrow> s_name s ! 1 = 0x64" "name_is ''.rdata'' s \<Longrightarrow> s_name s ! 1 = 0x72"
  "name_is ''.bss'' s \<Longrightarrow> s_name s ! 1 = 0x62" "name_is ''.sbss'' s \<Longrightarrow> s_name s ! 1 = 0x73"
proof -
  have l: "(bytes ''.text'' @ [0]) ! 1 = 0x74" "(bytes ''.data'' @ [0]) ! 1 = 0x64" "(bytes ''.rdata'' @ [0]) ! 1 = 0x72"
      "(bytes ''.bss'' @ [0]) ! 1 = 0x62" "(bytes ''.sbss'' @ [0]) ! 1 = 0x73"
    by code_simp+
  show "name_is ''.text'' s \<Longrightarrow> s_name s ! 1 = 0x74" "name_is ''.data'' s \<Longrightarrow> s_name s ! 1 = 0x64" "name_is ''.rdata'' s \<Longrightarrow> s_name s ! 1 = 0x72"
      "name_is ''.bss'' s \<Longrightarrow> s_name s ! 1 = 0x62" "name_is ''.sbss'' s \<Longrightarrow> s_name s ! 1 = 0x73"
    using name_is_nth [of _ s 1] l by (metis One_nat_def Suc_le_mono le0 list.size(4) One_nat_def Suc_eq_plus1)+
qed

lemma section_kinds:
  "name_is ''.text'' s \<Longrightarrow> \<not> name_is ''.data'' s \<and> \<not> name_is ''.rdata'' s \<and> \<not> name_is ''.bss'' s \<and> \<not> name_is ''.sbss'' s"
  "name_is ''.data'' s \<or> name_is ''.rdata'' s \<Longrightarrow> \<not> name_is ''.text'' s \<and> \<not> name_is ''.bss'' s \<and> \<not> name_is ''.sbss'' s"
  using second_letter [of s] by fastforce+

lemma is_kinds:
  "is_text s \<Longrightarrow> \<not> is_data s \<and> \<not> is_bss s" "is_data s \<Longrightarrow> \<not> is_text s \<and> \<not> is_bss s" "is_bss s \<Longrightarrow> \<not> is_text s \<and> \<not> is_data s"
  using section_kinds [of s] unfolding is_text_def is_data_def is_bss_def by blast+

subsection \<open>Copying sections\<close>

lemma file_write_end: "length f \<le> pos \<Longrightarrow> file_write pos bs f = f @ replicate (pos - length f) 0 @ bs"
  by (simp add: file_write_def)

lemma sint_unat: "0 \<le> sint (w :: 32 word) \<Longrightarrow> sint w = int (unat w)"
  using uint_sint [of w] sint_lt [of w] by (simp add: take_bit_int_eq_self)

lemma in_file_unat:
  assumes "in_file c s"
  shows "0 < unat (s_size s)" "unat (s_scnptr s) + unat (s_size s) \<le> length c" "sint (s_size s) = int (unat (s_size s))" "sint (s_scnptr s) = int (unat (s_scnptr s))"
  using assms sint_unat [of "s_size s"] sint_unat [of "s_scnptr s"] unfolding in_file_def by linarith+

lemma section_bytes_length: "in_file c s \<Longrightarrow> length (section_bytes c s) = unat (s_size s)"
  using in_file_unat [of c s] by (simp add: section_bytes_def)

lemma copy_section_ok:
  assumes "in_file c s" "fin F = c" "out_takes F = all_taken" "length (fout F) \<le> fout_pos F"
  obtains F' where "copy_section s F = Inr F'" "fin F' = c" "out_takes F' = all_taken" "fout_pos F' = fout_pos F + unat (s_size s)"
    "fout F' = fout F @ replicate (fout_pos F - length (fout F)) 0 @ section_bytes c s"
proof -
  note u = in_file_unat [OF assms(1)]
  have "coff_Read (sint (s_size s)) (seek_in (s_scnptr s) F) =
      Inr (section_bytes c s, F\<lparr>fin_pos := unat (s_scnptr s) + unat (s_size s)\<rparr>)"
    using u assms(2) section_bytes_length [OF assms(1)] by (simp add: coff_Read_def seek_in_def section_bytes_def)
  then have "copy_section s F = coff_Write (section_bytes c s) (F\<lparr>fin_pos := unat (s_scnptr s) + unat (s_size s)\<rparr>)"
    by (simp add: copy_section_def)
  then show ?thesis using assms section_bytes_length [OF assms(1)] that by (simp add: coff_Write_def file_write_end)
qed

subsection \<open>The invariant of the loop\<close>

definition seg_inv :: "byte list \<Rightarrow> scnhdr list \<Rightarrow> Segment \<Rightarrow> byte list \<Rightarrow> bool" where
  "seg_inv c ss seg out \<longleftrightarrow>
     (case ss of
        [] \<Rightarrow> seg_size seg = 0
      | s # _ \<Rightarrow> virtualAddr seg = s_paddr s \<and> seg_size seg = s_size s \<and> noff_size \<le> unat (inFileAddr seg) \<and>
          unat (inFileAddr seg) + unat (s_size s) \<le> length out \<and>
          take (unat (s_size s)) (drop (unat (inFileAddr seg)) out) = section_bytes c s)"

definition bss_inv :: "scnhdr list \<Rightarrow> Segment \<Rightarrow> bool" where
  "bss_inv ss seg \<longleftrightarrow> (case ss of [] \<Rightarrow> seg_size seg = 0 | s # _ \<Rightarrow> virtualAddr seg = s_paddr s \<and> seg_size seg = s_size s)"

definition copied :: "scnhdr list \<Rightarrow> nat" where
  "copied ss = sum_list (map (unat \<circ> s_size) (filter is_text ss)) + sum_list (map (unat \<circ> s_size) (filter is_data ss))"

definition conv_inv :: "byte list \<Rightarrow> scnhdr list \<Rightarrow> NoffHeader \<times> 32 word \<times> CFiles \<Rightarrow> bool" where
  "conv_inv c ss = (\<lambda>(h, pos, F). fin F = c \<and> out_takes F = all_taken \<and> noffMagic h = NOFFMAGIC \<and>
     seg_inv c (filter is_text ss) (code h) (fout F) \<and> seg_inv c (filter is_data ss) (initData h) (fout F) \<and> bss_inv (filter is_bss ss) (uninitData h) \<and>
     fout_pos F = unat pos \<and> unat pos = noff_size + copied ss \<and> length (fout F) \<le> unat pos)"

lemma seg_inv_append: "seg_inv c ss seg out \<Longrightarrow> seg_inv c ss seg (out @ extra)"
  by (auto simp: seg_inv_def split: list.splits)

lemma sections_in_file:
  assumes "sections_ok c ss" "s \<in> set ss" "is_text s \<or> is_data s"
  shows "in_file c s"
proof -
  have "s_size s \<noteq> 0" using assms(3) by (auto simp: is_text_def is_data_def)
  moreover have "\<not> is_bss s" using assms(3) is_kinds by blast
  ultimately show ?thesis using assms(1,2) unfolding sections_ok_def by blast
qed

lemma copied_bound:
  assumes "sections_ok c ss"
  shows "copied ss \<le> 2 * length c"
proof -
  have b: "sum_list (map (unat \<circ> s_size) (filter P ss)) \<le> length c" if "length (filter P ss) \<le> 1" "\<forall>s\<in>set ss. P s \<longrightarrow> in_file c s" for P
  proof (cases "filter P ss")
    case (Cons x xs)
    have "x \<in> set (filter P ss)" unfolding Cons by simp
    then have "in_file c x" using that(2) unfolding set_filter by blast
    then have "unat (s_size x) \<le> length c" using in_file_unat(2) [of c x] by linarith
    then show ?thesis using Cons that(1) by simp
  qed simp
  have "\<forall>s\<in>set ss. is_text s \<longrightarrow> in_file c s" "\<forall>s\<in>set ss. is_data s \<longrightarrow> in_file c s"
    using sections_in_file [OF assms] by blast+
  then show ?thesis using b [of is_text] b [of is_data] assms by (simp add: copied_def sections_ok_def)
qed

lemma convert_copied:
  assumes "conv_inv c ss (h, pos, F)" "sections_ok c (ss @ [s])" "is_text s \<or> is_data s"
  obtains F' where "copy_section s F = Inr F'" "fin F' = c" "out_takes F' = all_taken" "fout_pos F' = unat (pos + s_size s)"
    "unat (pos + s_size s) = noff_size + copied (ss @ [s])" "length (fout F') \<le> unat (pos + s_size s)" "\<exists>extra. fout F' = fout F @ extra"
    "seg_inv c [s] \<lparr>virtualAddr = s_paddr s, inFileAddr = pos, seg_size = s_size s\<rparr> (fout F')"
proof -
  have f: "in_file c s" by (rule sections_in_file [OF assms(2) _ assms(3)]) simp
  note I = assms(1) [unfolded conv_inv_def prod.case]
  obtain F' where F: "copy_section s F = Inr F'" "fin F' = c" "out_takes F' = all_taken" "fout_pos F' = fout_pos F + unat (s_size s)"
      "fout F' = fout F @ replicate (fout_pos F - length (fout F)) 0 @ section_bytes c s"
    by (rule copy_section_ok [OF f, of F]) (use I in auto)
  have c: "copied (ss @ [s]) = copied ss + unat (s_size s)"
  proof (cases "is_text s")
    case True
    then have "\<not> is_data s" using is_kinds(1) by blast
    then show ?thesis using True by (simp add: copied_def)
  next
    case False
    then have "is_data s" using assms(3) by blast
    then show ?thesis using False by (simp add: copied_def)
  qed
  have "noff_size + copied (ss @ [s]) < 2 ^ 32" using copied_bound [OF assms(2)] assms(2) by (simp add: sections_ok_def noff_size_def)
  then have p: "unat (pos + s_size s) = unat pos + unat (s_size s)" using I c by (simp add: unat_word_ariths)
  have l: "length (fout F') = unat pos + unat (s_size s)" using F(5) I section_bytes_length [OF f] by simp
  have "drop (unat pos) (fout F') = section_bytes c s" using F(5) I by simp
  then have "seg_inv c [s] \<lparr>virtualAddr = s_paddr s, inFileAddr = pos, seg_size = s_size s\<rparr> (fout F')"
    using I l section_bytes_length [OF f] by (simp add: seg_inv_def)
  moreover have "\<exists>extra. fout F' = fout F @ extra" using F(5) by blast
  moreover have "fout_pos F' = unat (pos + s_size s)" using F(4) I p by simp
  moreover have "unat (pos + s_size s) = noff_size + copied (ss @ [s])" using I p c by simp
  ultimately show ?thesis using F(1-3) l p that by simp
qed

lemma sections_ok_append: "sections_ok c (xs @ ys) \<Longrightarrow> sections_ok c xs"
  unfolding sections_ok_def by simp

lemma convert_text:
  assumes "conv_inv c ss (h, pos, F)" "sections_ok c (ss @ [s])" "is_text s"
  shows "\<exists>x'. convert_section s (h, pos, F) = Inr x' \<and> conv_inv c (ss @ [s]) x'"
proof -
  note I = assms(1) [unfolded conv_inv_def prod.case]
  have k: "\<not> is_data s" "\<not> is_bss s" using assms(3) is_kinds(1) by blast+
  obtain F' where F: "copy_section s F = Inr F'" "fin F' = c" "out_takes F' = all_taken" "fout_pos F' = unat (pos + s_size s)"
      "unat (pos + s_size s) = noff_size + copied (ss @ [s])" "length (fout F') \<le> unat (pos + s_size s)" "\<exists>extra. fout F' = fout F @ extra"
      "seg_inv c [s] \<lparr>virtualAddr = s_paddr s, inFileAddr = pos, seg_size = s_size s\<rparr> (fout F')"
    using convert_copied [OF assms(1,2)] assms(3) by blast
  have t: "filter is_text ss = []" using assms(2,3) by (simp add: sections_ok_def)
  obtain extra where e: "fout F' = fout F @ extra" using F(7) by blast
  have d: "seg_inv c (filter is_data ss) (initData h) (fout F')" unfolding e by (rule seg_inv_append) (use I in blast)
  have "convert_section s (h, pos, F) =
      Inr (h\<lparr>code := \<lparr>virtualAddr = s_paddr s, inFileAddr = pos, seg_size = s_size s\<rparr>\<rparr>, pos + s_size s, F')"
    using assms(3) F(1) by (simp add: convert_section_def is_text_def)
  moreover have "conv_inv c (ss @ [s]) (h\<lparr>code := \<lparr>virtualAddr = s_paddr s, inFileAddr = pos, seg_size = s_size s\<rparr>\<rparr>, pos + s_size s, F')"
    using I F(2-6,8) d t k assms(3) by (simp add: conv_inv_def)
  ultimately show ?thesis by blast
qed

lemma convert_data:
  assumes "conv_inv c ss (h, pos, F)" "sections_ok c (ss @ [s])" "is_data s"
  shows "\<exists>x'. convert_section s (h, pos, F) = Inr x' \<and> conv_inv c (ss @ [s]) x'"
proof -
  note I = assms(1) [unfolded conv_inv_def prod.case]
  have k: "\<not> is_text s" "\<not> is_bss s" using assms(3) is_kinds(2) by blast+
  obtain F' where F: "copy_section s F = Inr F'" "fin F' = c" "out_takes F' = all_taken" "fout_pos F' = unat (pos + s_size s)"
      "unat (pos + s_size s) = noff_size + copied (ss @ [s])" "length (fout F') \<le> unat (pos + s_size s)" "\<exists>extra. fout F' = fout F @ extra"
      "seg_inv c [s] \<lparr>virtualAddr = s_paddr s, inFileAddr = pos, seg_size = s_size s\<rparr> (fout F')"
    using convert_copied [OF assms(1,2)] assms(3) by blast
  have t: "filter is_data ss = []" using assms(2,3) by (simp add: sections_ok_def)
  obtain extra where e: "fout F' = fout F @ extra" using F(7) by blast
  have d: "seg_inv c (filter is_text ss) (code h) (fout F')" unfolding e by (rule seg_inv_append) (use I in blast)
  have z: "seg_size (initData h) = 0" using I t by (simp add: seg_inv_def)
  have n: "s_size s \<noteq> 0" "\<not> name_is ''.text'' s" "name_is ''.data'' s \<or> name_is ''.rdata'' s" using assms(3) k(1) by (simp_all add: is_data_def is_text_def)
  have "convert_section s (h, pos, F) =
      Inr (h\<lparr>initData := \<lparr>virtualAddr = s_paddr s, inFileAddr = pos, seg_size = s_size s\<rparr>\<rparr>, pos + s_size s, F')"
    using n F(1) z by (simp add: convert_section_def)
  moreover have "conv_inv c (ss @ [s]) (h\<lparr>initData := \<lparr>virtualAddr = s_paddr s, inFileAddr = pos, seg_size = s_size s\<rparr>\<rparr>, pos + s_size s, F')"
    using I F(2-6,8) d t k assms(3) by (simp add: conv_inv_def)
  ultimately show ?thesis by blast
qed

lemma convert_bss:
  assumes "conv_inv c ss (h, pos, F)" "sections_ok c (ss @ [s])" "is_bss s"
  shows "\<exists>x'. convert_section s (h, pos, F) = Inr x' \<and> conv_inv c (ss @ [s]) x'"
proof -
  note I = assms(1) [unfolded conv_inv_def prod.case]
  have k: "\<not> is_text s" "\<not> is_data s" using assms(3) is_kinds(3) by blast+
  have t: "filter is_bss ss = []" using assms(2,3) by (simp add: sections_ok_def)
  have z: "seg_size (uninitData h) = 0" using I t by (simp add: bss_inv_def)
  have n: "s_size s \<noteq> 0" "\<not> name_is ''.text'' s" "\<not> (name_is ''.data'' s \<or> name_is ''.rdata'' s)" "name_is ''.bss'' s \<or> name_is ''.sbss'' s"
    using assms(3) k by (simp_all add: is_data_def is_text_def is_bss_def)
  have "convert_section s (h, pos, F) = Inr (h\<lparr>uninitData := (uninitData h)\<lparr>virtualAddr := s_paddr s, seg_size := s_size s\<rparr>\<rparr>, pos, F)"
    using n z by (simp add: convert_section_def Let_def)
  moreover have "conv_inv c (ss @ [s]) (h\<lparr>uninitData := (uninitData h)\<lparr>virtualAddr := s_paddr s, seg_size := s_size s\<rparr>\<rparr>, pos, F)"
    using I t k assms(3) by (simp add: conv_inv_def bss_inv_def copied_def)
  ultimately show ?thesis by blast
qed

lemma convert_step:
  assumes "conv_inv c ss x" "sections_ok c (ss @ [s])"
  shows "\<exists>x'. convert_section s x = Inr x' \<and> conv_inv c (ss @ [s]) x'"
proof -
  obtain h pos F where x: "x = (h, pos, F)" by (cases x)
  have "s_size s = 0 \<or> is_text s \<or> is_data s \<or> is_bss s" using assms(2) unfolding sections_ok_def by auto
  then consider "s_size s = 0" | "is_text s" | "is_data s" | "is_bss s" by blast
  then show ?thesis
  proof cases
    case 1
    then have "\<not> is_text s" "\<not> is_data s" "\<not> is_bss s" by (simp_all add: is_text_def is_data_def is_bss_def)
    then have "conv_inv c (ss @ [s]) x" using assms(1) by (simp add: x conv_inv_def copied_def)
    then show ?thesis using 1 by (simp add: x convert_section_def)
  qed (use assms convert_text convert_data convert_bss in \<open>simp_all add: x\<close>)
qed

lemma convert_loop: "conv_inv c ss x \<Longrightarrow> sections_ok c (ss @ ts) \<Longrightarrow> \<exists>x'. fold_res convert_section ts x = Inr x' \<and> conv_inv c (ss @ ts) x'"
proof (induction ts arbitrary: ss x)
  case (Cons t ts)
  have "sections_ok c (ss @ [t])" using Cons.prems(2) sections_ok_append [of c "ss @ [t]" ts] by simp
  then obtain x1 where "convert_section t x = Inr x1" "conv_inv c (ss @ [t]) x1" using convert_step [OF Cons.prems(1)] by blast
  then show ?case using Cons.IH [of "ss @ [t]" x1] Cons.prems(2) by simp
qed simp

subsection \<open>The header of the output\<close>

lemma host_bytes_length [simp]: "length (host_bytes b w) = 4" "length (segment_bytes b s) = 12" "length (noff_bytes b h) = 40"
  by (simp_all add: host_bytes_def segment_bytes_def noff_bytes_def)

lemma host_get_bytes: "host_get32 b (nth (host_bytes b w @ ys)) 0 = w"
proof -
  obtain p q r t where e: "int_to_bytes w = [p, q, r, t]" by (simp add: int_to_bytes_def)
  then have "bytes_to_int [p, q, r, t] = w" by (metis bytes_to_int_to_bytes)
  then show ?thesis by (simp add: host_get32_def host_bytes_def e del: bytes_to_int.simps)
qed

lemma host_get_field:
  assumes "take 4 (drop i bs) = host_bytes b w"
  shows "host_get32 b (nth bs) i = w"
proof -
  have "length (take 4 (drop i bs)) = 4" using assms by simp
  then have l: "i + 4 \<le> length bs" by simp
  have "host_get32 b (nth bs) i = host_get32 b (nth (drop i bs)) 0" using l by (simp add: host_get32_def del: bytes_to_int.simps)
  also have "drop i bs = host_bytes b w @ drop 4 (drop i bs)" using assms by (metis append_take_drop_id)
  finally show ?thesis by (simp only: host_get_bytes)
qed

lemma noff_roundtrip: "noff_of_bytes b (noff_bytes b h) = h"
proof -
  have "segment_at b (noff_bytes b h) 4 = code h" "segment_at b (noff_bytes b h) 16 = initData h" "segment_at b (noff_bytes b h) 28 = uninitData h"
    unfolding segment_at_def by (rule Segment.equality; simp; rule host_get_field; simp add: noff_bytes_def segment_bytes_def)+
  moreover have "host_get32 b (nth (noff_bytes b h)) 0 = noffMagic h" by (rule host_get_field) (simp add: noff_bytes_def)
  ultimately show ?thesis by (simp add: noff_of_bytes_def)
qed

subsection \<open>The whole conversion\<close>

lemma coff_Read_keeps: "coff_Read n F = Inr (bs, F') \<Longrightarrow> fin F' = fin F \<and> fout F' = fout F \<and> out_takes F' = out_takes F"
  by (auto simp: coff_Read_def Let_def split: if_splits)

lemma read_sections_keeps:
  assumes "read_sections b F = Inr (ss, F')"
  shows "fin F' = fin F \<and> fout F' = fout F \<and> out_takes F' = out_takes F"
proof -
  obtain bs F1 bs2 F2 bs3 where "coff_Read (int filehdr_size) F = Inr (bs, F1)" "coff_Read (int aouthdr_size) F1 = Inr (bs2, F2)"
      "coff_Read (int (unat (coff_ShortToHost b (f_nscns (filehdr_of_bytes b bs))) * scnhdr_size)) F2 = Inr (bs3, F')"
    using assms unfolding read_sections_def Let_def bind_res_Inr_iff by (auto simp: res_simps split: if_splits)
  then show ?thesis by (auto dest!: coff_Read_keeps)
qed

lemma seg_inv_header:
  assumes "seg_inv c ss seg f" "length hbs = noff_size"
  shows "seg_inv c ss seg (hbs @ drop noff_size f)"
proof (cases ss)
  case (Cons s ss')
  then have a: "noff_size \<le> unat (inFileAddr seg)" "unat (inFileAddr seg) + unat (s_size s) \<le> length f" using assms(1) by (simp_all add: seg_inv_def)
  then have "drop (unat (inFileAddr seg)) (hbs @ drop noff_size f) = drop (unat (inFileAddr seg)) f" using assms(2) by simp
  then show ?thesis using assms a Cons by (simp add: seg_inv_def)
qed (use assms in \<open>simp add: seg_inv_def\<close>)

lemma coff2noff_ok:
  assumes "coff_sections b c = Some ss" "sections_ok c ss" "2 \<le> argc"
  obtains out h where "coff2noff b junk argc (Some c) all_taken = Inr out" "noff_header b out = h" "noffMagic h = NOFFMAGIC"
    "noff_size \<le> length out" "length out \<le> noff_size + 2 * length c"
    "seg_inv c (filter is_text ss) (code h) out" "seg_inv c (filter is_data ss) (initData h) out" "bss_inv (filter is_bss ss) (uninitData h)"
proof -
  obtain F where R: "read_sections b \<lparr>fin = c, fin_pos = 0, fout = [], fout_pos = 0, out_takes = all_taken\<rparr> = Inr (ss, F)"
    using assms(1) by (auto simp: coff_sections_def split: sum.splits)
  then have F: "fin F = c" "fout F = []" "out_takes F = all_taken" using read_sections_keeps [OF R] by simp_all
  let ?h = "junk\<lparr>noffMagic := NOFFMAGIC, code := (code junk)\<lparr>seg_size := 0\<rparr>, initData := (initData junk)\<lparr>seg_size := 0\<rparr>,
    uninitData := (uninitData junk)\<lparr>seg_size := 0\<rparr>\<rparr>"
  have "conv_inv c [] (?h, of_nat noff_size, F\<lparr>fout_pos := noff_size\<rparr>)"
    using F by (simp add: conv_inv_def seg_inv_def bss_inv_def copied_def noff_size_def)
  then obtain h pos F1 where L: "fold_res convert_section ss (?h, of_nat noff_size, F\<lparr>fout_pos := noff_size\<rparr>) = Inr (h, pos, F1)" "conv_inv c ss (h, pos, F1)"
    using convert_loop [of c "[]"] assms(2) by fastforce
  let ?out = "noff_bytes b h @ drop noff_size (fout F1)"
  have o: "out_takes F1 = all_taken" using L(2) by (simp add: conv_inv_def)
  have "coff2noff b junk argc (Some c) all_taken = Inr ?out"
    using assms(3) R L(1) o by (simp add: coff2noff_def Let_def coff_Write_def file_write_def noff_size_def)
  moreover have "noff_header b ?out = h"
    using L(2) by (simp add: noff_header_def noff_size_def noff_roundtrip host_order_def conv_inv_def)
  moreover have "length ?out \<le> noff_size + 2 * length c"
    using L(2) copied_bound [OF assms(2)] by (auto simp: conv_inv_def noff_size_def)
  ultimately show ?thesis using L(2) seg_inv_header [of c _ _ "fout F1" "noff_bytes b h"]
    by (intro that [of ?out h]) (simp_all add: conv_inv_def noff_size_def)
qed

subsection \<open>The program image\<close>

lemma seg_image:
  assumes "seg_inv c ss seg out" "length ss \<le> 1" "\<forall>s\<in>set ss. in_file c s \<and> 0 \<le> sint (s_paddr s)" "length out < 2 ^ 31"
  shows "seg_at seg \<le> v \<and> v < seg_at seg + seg_len seg \<longleftrightarrow> filter (covers v) ss \<noteq> []"
    "filter (covers v) ss = s # rest \<Longrightarrow> out ! (seg_from seg + (v - seg_at seg)) = c ! (nat (sint (s_scnptr s)) + nat (int v - sint (s_paddr s)))"
    "seg_size seg = sum_list (map s_size ss)"
proof -
  have *: "(seg_at seg \<le> v \<and> v < seg_at seg + seg_len seg \<longleftrightarrow> filter (covers v) ss \<noteq> []) \<and> seg_size seg = sum_list (map s_size ss) \<and>
    (filter (covers v) ss = s # rest \<longrightarrow> out ! (seg_from seg + (v - seg_at seg)) = c ! (nat (sint (s_scnptr s)) + nat (int v - sint (s_paddr s))))"
  proof (cases ss)
    case Nil
    then show ?thesis using assms(1) by (simp add: seg_inv_def seg_len_def)
  next
    case (Cons t ts)
    then have ss: "ss = [t]" using assms(2) by simp
    note I = assms(1) [unfolded seg_inv_def ss list.case]
    have t: "in_file c t" "0 \<le> sint (s_paddr t)" using assms(3) ss by simp_all
    note u = in_file_unat [OF t(1)]
    have f: "seg_from seg = unat (inFileAddr seg)" using I assms(4) by (simp add: seg_from_def sint_small)
    have l: "seg_len seg = unat (s_size t)" "int (seg_at seg) = sint (s_paddr t)" using I u(3) t(2) by (simp_all add: seg_len_def seg_at_def)
    have b: "out ! (unat (inFileAddr seg) + k) = c ! (unat (s_scnptr t) + k)" if "k < unat (s_size t)" for k
    proof -
      have "out ! (unat (inFileAddr seg) + k) = take (unat (s_size t)) (drop (unat (inFileAddr seg)) out) ! k"
        using that I by (subst nth_take) simp_all
      also have "\<dots> = section_bytes c t ! k" using I by simp
      finally show ?thesis using that u(2) by (simp add: section_bytes_def)
    qed
    have "covers v t \<longleftrightarrow> seg_at seg \<le> v \<and> v < seg_at seg + seg_len seg" unfolding covers_def u(3) l(2) [symmetric] l(1) by linarith
    moreover have "out ! (seg_from seg + (v - seg_at seg)) = c ! (nat (sint (s_scnptr t)) + nat (int v - sint (s_paddr t)))" if "seg_at seg \<le> v" "v < seg_at seg + seg_len seg"
      using b [of "v - seg_at seg"] that l u(4) f by (simp add: nat_diff_distrib flip: l(2))
    ultimately show ?thesis using I ss by auto
  qed
  then show "seg_at seg \<le> v \<and> v < seg_at seg + seg_len seg \<longleftrightarrow> filter (covers v) ss \<noteq> []" "seg_size seg = sum_list (map s_size ss)"
    "filter (covers v) ss = s # rest \<Longrightarrow> out ! (seg_from seg + (v - seg_at seg)) = c ! (nat (sint (s_scnptr s)) + nat (int v - sint (s_paddr s)))"
    by blast+
qed

lemma seg_loads:
  assumes "seg_inv c ss seg out" "length ss \<le> 1" "\<forall>s\<in>set ss. in_file c s \<and> 0 \<le> sint (s_paddr s) \<and> sint (s_paddr s) + sint (s_size s) \<le> int (n * PageSize)"
    "length out < 2 ^ 31"
  shows "seg_ok n (length out) seg"
proof (cases ss)
  case Nil
  then show ?thesis using assms(1) by (simp add: seg_inv_def seg_ok_def)
next
  case (Cons t ts)
  then have t: "in_file c t" "0 \<le> sint (s_paddr t)" "sint (s_paddr t) + sint (s_size t) \<le> int (n * PageSize)" using assms(3) by simp_all
  note I = assms(1) [unfolded seg_inv_def Cons list.case]
  have "sint (inFileAddr seg) = int (unat (inFileAddr seg))" using I assms(4) by (intro sint_small) linarith
  moreover have "int (unat (inFileAddr seg)) + int (unat (s_size t)) \<le> int (length out)" using I by linarith
  moreover have e: "seg_size seg = s_size t" "virtualAddr seg = s_paddr t" using I by simp_all
  ultimately show ?thesis using t in_file_unat(3) [OF t(1)] unfolding seg_ok_def e by (intro conjI impI; linarith)
qed

lemma coff2noff_image:
  assumes "coff_sections b c = Some ss" "sections_ok c ss" "in_space ss" "2 \<le> argc"
  obtains out where "coff2noff b junk argc (Some c) all_taken = Inr out" "noff_ok b out" "space_pages (noff_header b out) = coff_pages ss"
    "length out \<le> noff_size + 2 * length c" "\<forall>v z. program_image (noff_header b out) out v z = coff_image c ss v z"
proof -
  obtain out h where O: "coff2noff b junk argc (Some c) all_taken = Inr out" "noff_header b out = h" "noffMagic h = NOFFMAGIC"
      "noff_size \<le> length out" "length out \<le> noff_size + 2 * length c"
      "seg_inv c (filter is_text ss) (code h) out" "seg_inv c (filter is_data ss) (initData h) out" "bss_inv (filter is_bss ss) (uninitData h)"
    by (rule coff2noff_ok [OF assms(1,2,4)])
  have k: "length (filter is_text ss) \<le> 1" "length (filter is_data ss) \<le> 1" "length (filter is_bss ss) \<le> 1" "length c < 1000000000"
    using assms(2) by (simp_all add: sections_ok_def)
  have l: "length out < 2147483647" "length out < 2 ^ 31" using O(5) k(4) by (simp_all add: noff_size_def)
  have f: "\<forall>s\<in>set (filter is_text ss). in_file c s \<and> 0 \<le> sint (s_paddr s) \<and> sint (s_paddr s) + sint (s_size s) \<le> int (unat (coff_pages ss) * PageSize)"
      "\<forall>s\<in>set (filter is_data ss). in_file c s \<and> 0 \<le> sint (s_paddr s) \<and> sint (s_paddr s) + sint (s_size s) \<le> int (unat (coff_pages ss) * PageSize)"
    using sections_in_file [OF assms(2)] assms(3) unfolding in_space_def set_filter set_append by blast+
  then have g: "\<forall>s\<in>set (filter is_text ss). in_file c s \<and> 0 \<le> sint (s_paddr s)" "\<forall>s\<in>set (filter is_data ss). in_file c s \<and> 0 \<le> sint (s_paddr s)"
    by blast+
  note T = seg_image [OF O(6) k(1) g(1) l(2)] and D = seg_image [OF O(7) k(2) g(2) l(2)]
  have "seg_size (uninitData h) = sum_list (map s_size (filter is_bss ss))" using O(8) k(3) by (cases "filter is_bss ss") (simp_all add: bss_inv_def)
  then have p: "space_pages h = coff_pages ss" unfolding space_pages_def coff_pages_def T(3) D(3) by simp
  have n: "noff_ok b out" unfolding noff_ok_def O(2) p
    using O(3,4) l(1) assms(3) seg_loads [OF O(6) k(1) f(1) l(2)] seg_loads [OF O(7) k(2) f(2) l(2)] by (simp add: in_space_def)
  have "program_image h out v z = coff_image c ss v z" for v z
  proof (cases "filter (covers v) (filter is_data ss)")
    case Nil
    then have "program_image h out v z = (if filter (covers v) (filter is_text ss) \<noteq> [] then out ! (seg_from (code h) + (v - seg_at (code h))) else z)"
      unfolding program_image_def D(1) T(1) by simp
    then show ?thesis unfolding coff_image_def filter_append Nil using T(2) [of v] by (cases "filter (covers v) (filter is_text ss)") simp_all
  next
    case (Cons s rest)
    then show ?thesis unfolding program_image_def coff_image_def filter_append D(1) using D(2) [OF Cons] by simp
  qed
  then show ?thesis using O(1,2,5) n p that by blast
qed

subsection \<open>Properties\<close>

text \<open>C13. The converter and the loader agree on what a program is: a COFF file whose sections are in the file, at most one of each kind, becomes a NOFF
  file that the loader accepts, with the same number of pages, and the image the loader makes of it has at every address the byte of
  the section of the COFF file that lies there, on hosts of either byte order.\<close>

theorem converted_program:
  assumes "coff_sections b c = Some ss" "sections_ok c ss" "in_space ss" "2 \<le> argc"
  shows "\<exists>out. coff2noff b junk argc (Some c) all_taken = Inr out \<and> noff_ok b out \<and> space_pages (noff_header b out) = coff_pages ss \<and>
    (\<forall>v z. program_image (noff_header b out) out v z = coff_image c ss v z)"
  using coff2noff_image [OF assms, of junk] by metis

text \<open>A file with four bytes of text at address 0 and four bytes of data at address 4.\<close>

definition coff_demo :: "byte list" where
  "coff_demo = [0x62, 1, 2, 0] @ replicate 16 0 @ [7, 1] @ replicate 54 0 @
     bytes ''.text'' @ [0, 0, 0] @ [0, 0, 0, 0, 0, 0, 0, 0, 4, 0, 0, 0, 156, 0, 0, 0] @ replicate 16 0 @
     bytes ''.data'' @ [0, 0, 0] @ [4, 0, 0, 0, 4, 0, 0, 0, 4, 0, 0, 0, 160, 0, 0, 0] @ replicate 16 0 @ [1, 2, 3, 4, 0x21, 0x22, 0x23, 0x24]"

definition noff_junk :: NoffHeader where
  "noff_junk = (let seg = \<lparr>virtualAddr = 7, inFileAddr = 7, seg_size = 7\<rparr> in \<lparr>noffMagic = 7, code = seg, initData = seg, uninitData = seg\<rparr>)"

definition coff_demo_sections :: "scnhdr list" where
  "coff_demo_sections =
     [\<lparr>s_name = bytes ''.text'' @ [0, 0, 0], s_paddr = 0, s_vaddr = 0, s_size = 4, s_scnptr = 156, s_relptr = 0, s_lnnoptr = 0, s_nreloc = 0, s_nlnno = 0, s_flags = 0\<rparr>,
      \<lparr>s_name = bytes ''.data'' @ [0, 0, 0], s_paddr = 4, s_vaddr = 4, s_size = 4, s_scnptr = 160, s_relptr = 0, s_lnnoptr = 0, s_nreloc = 0, s_nlnno = 0, s_flags = 0\<rparr>]"

lemma coff_demo_ok:
  "coff_sections demo_build coff_demo = Some coff_demo_sections" "sections_ok coff_demo coff_demo_sections" "in_space coff_demo_sections"
  "coff_image coff_demo coff_demo_sections 5 0 = 0x22"
proof -
  show "coff_sections demo_build coff_demo = Some coff_demo_sections" by code_simp
  show "sections_ok coff_demo coff_demo_sections" by code_simp
  show "in_space coff_demo_sections" by code_simp
  show "coff_image coff_demo coff_demo_sections 5 0 = 0x22" by code_simp
qed

lemma converted_program_witness:
  "\<exists>out. coff2noff demo_build noff_junk 3 (Some coff_demo) all_taken = Inr out \<and> noff_ok demo_build out \<and>
    program_image (noff_header demo_build out) out 5 0 = 0x22"
  using converted_program [OF coff_demo_ok(1-3), of 3 noff_junk] coff_demo_ok(4) by auto

text \<open>Two sections of uninitialised data: those that follow each other are refused, others are merged. The comment wants it the other way round.\<close>

lemma contiguous_bss_refused:
  assumes "is_bss s" "seg_size (uninitData h) \<noteq> 0"
  shows "convert_section s (h, pos, F) =
    (if s_paddr s = virtualAddr (uninitData h) + seg_size (uninitData h) then Inl (Quit 1 True)
     else Inr (h\<lparr>uninitData := (uninitData h)\<lparr>seg_size := seg_size (uninitData h) + s_size s\<rparr>\<rparr>, pos, F))"
proof -
  have "\<not> name_is ''.text'' s" "\<not> (name_is ''.data'' s \<or> name_is ''.rdata'' s)" "s_size s \<noteq> 0" "name_is ''.bss'' s \<or> name_is ''.sbss'' s"
    using assms(1) is_kinds(3) [OF assms(1)] by (auto simp: is_bss_def is_text_def is_data_def)
  then show ?thesis using assms(2) by (simp add: convert_section_def Let_def)
qed

end
