(* ===== verification/Nachos_Progtest.thy ===== *)
theory Nachos_Progtest
  imports Nachos_FsTest Nachos_AddrSpace
begin

text \<open>
  Starting user programs (userprog/progtest.cc) and the part of Scheduler::Run (threads/scheduler.cc) that exchanges the registers and
  the translation of the user programs of two threads. Opening the executable is a parameter, as reading it is in
  \<open>Nachos_AddrSpace\<close>: \<open>nachos_open\<close> opens a file of the Nachos disk, \<open>stub_open\<close> a file of the host. The routines
  end in Machine::Run, which never returns; their result here is the state in which Run starts.
\<close>

type_synonym 's reader = "int \<Rightarrow> int \<Rightarrow> 's \<Rightarrow> (int \<times> byte list \<times> 's) res"

definition nachos_open :: "memory \<Rightarrow> FileSystem \<Rightarrow> byte list \<Rightarrow> Disk \<Rightarrow> (Disk reader option \<times> Disk) res" where
  "nachos_open mem fs fname d = bind_res (FileSystem_Open mem fs fname d) (\<lambda>(f, d1). Inr (map_option ReadAt f, d1))"


definition StartProcess1 ::
  "build \<Rightarrow> bool \<Rightarrow> ('s \<Rightarrow> ('s reader option \<times> 's) res) \<Rightarrow> byte list \<Rightarrow> (nat \<Rightarrow> byte) \<Rightarrow> (nat \<Rightarrow> TranslationEntry) \<Rightarrow> table_ptr \<Rightarrow>
   Machine \<Rightarrow> 's \<Rightarrow> (byte list \<times> AddrSpace option \<times> Machine \<times> 's) res" where
  "StartProcess1 b MULTI_THREAD opn filename stk fresh p m s =
     bind_res (opn s) (\<lambda>(executable, s1).
     case executable of
       None \<Rightarrow> Inr (bytes ''Unable to open file '' @ print_name filename @ [10], None, m, s1)
     | Some read_at \<Rightarrow>
         bind_res (AddrSpace_AddrSpace b MULTI_THREAD read_at stk fresh p m s1) (\<lambda>(space, m1, s2).
         bind_res (AddrSpace_InitRegisters space m1) (\<lambda>m2.
         Inr ([], Some space, AddrSpace_RestoreState b space m2, s2))))"


text \<open>Scheduler::Run before and after SWITCH, for a thread with an address space: its saved registers are \<open>userRegisters\<close>.\<close>

definition Run_save :: "Machine \<Rightarrow> 32 word list \<Rightarrow> (32 word list \<times> Machine) res" where
  "Run_save m userRegisters =
     bind_res (Thread_SaveUserState m userRegisters) (\<lambda>rs. bind_res (AddrSpace_SaveState m) (\<lambda>m1. Inr (rs, m1)))"

definition Run_restore :: "build \<Rightarrow> AddrSpace \<Rightarrow> 32 word list \<Rightarrow> Machine \<Rightarrow> Machine res" where
  "Run_restore b space userRegisters m =
     bind_res (Thread_RestoreUserState userRegisters m) (\<lambda>m1. Inr (AddrSpace_RestoreState b space m1))"

subsection \<open>Setting up the registers\<close>

lemma clear_registers: "k \<le> NumTotalRegs \<Longrightarrow> fold_res (\<lambda>i m. Machine_WriteRegister (int i) 0 m) [0..<k] m =
    Inr (m\<lparr>registers := (\<lambda>i. if i < k then 0 else registers m i)\<rparr>)"
proof (induction k)
  case (Suc k)
  have "(\<lambda>i. if i < k then 0 else registers m i)(k := 0) = (\<lambda>i. if i < Suc k then 0 else registers m i)" by (auto simp: less_Suc_eq)
  then show ?case using Suc by (simp add: fold_res_append Machine_WriteRegister_def set_reg_def)
qed simp

definition start_registers :: "AddrSpace \<Rightarrow> Machine \<Rightarrow> nat \<Rightarrow> 32 word" where
  "start_registers sp m i = (if i = StackReg then numPages sp * of_nat PageSize - 16 else if i = NextPCReg then 4 else if i < NumTotalRegs then 0 else registers m i)"

lemma InitRegisters_ok: "AddrSpace_InitRegisters sp m = Inr (m\<lparr>registers := start_registers sp m\<rparr>)"
proof -
  have "(\<lambda>i. if i < NumTotalRegs then 0 else registers m i)(PCReg := 0, NextPCReg := 4, StackReg := numPages sp * of_nat PageSize - 16) =
      start_registers sp m" by (auto simp: start_registers_def PCReg_def NumTotalRegs_def)
  then show ?thesis using clear_registers [OF le_refl, of m]
    by (simp add: AddrSpace_InitRegisters_def Machine_WriteRegister_def set_reg_def PCReg_def NextPCReg_def StackReg_def NumTotalRegs_def)
qed

lemma new_machine_ok:
  assumes "Machine_Machine b big junk fresh pts = Inr m"
  shows "bitmap_wf (bitMap m)" "numBits (bitMap m) = NumPhysPages" "marked (bitMap m) = {}" "mainMemory m = (\<lambda>_. 0)" "pageTable m = None"
    "\<not> USE_TLB b \<Longrightarrow> tlb m = None" "free_frames (bitMap m) = [0..<NumPhysPages]"
proof -
  obtain bm where bm: "BitMap_BitMap NumPhysPages junk = Inr bm" "bitmap_wf bm" "numBits bm = NumPhysPages" "marked bm = {}"
    using BitMap_BitMap_ok [of NumPhysPages junk] by blast
  then show "bitmap_wf (bitMap m)" "numBits (bitMap m) = NumPhysPages" "marked (bitMap m) = {}" "mainMemory m = (\<lambda>_. 0)" "pageTable m = None"
    "\<not> USE_TLB b \<Longrightarrow> tlb m = None" "free_frames (bitMap m) = [0..<NumPhysPages]"
    using assms by (auto simp: Machine_Machine_def free_frames_def res_simps)
qed

subsection \<open>Running a program from the Nachos disk\<close>

lemma restore_simps [simp]:
  "registers (AddrSpace_RestoreState b sp m) = registers m" "mainMemory (AddrSpace_RestoreState b sp m) = mainMemory m"
  "tables (AddrSpace_RestoreState b sp m) = tables m" "bitMap (AddrSpace_RestoreState b sp m) = bitMap m"
  by (simp_all add: AddrSpace_RestoreState_def)

lemma StartProcess1_absent:
  assumes "fs_ok fs d dir bm" "files d dir (key fname) = None"
  obtains d' where "StartProcess1 b mt (nachos_open mem fs fname) fname stk fresh p m d =
    Inr (bytes ''Unable to open file '' @ print_name fname @ [10], None, m, d')" "sector d' = sector d"
proof -
  have "dir_map dir (key fname) = None" using assms(2) by (simp add: files_def)
  then obtain d' where "FileSystem_Open mem fs fname d = Inr (None, d')" "sector d' = sector d" by (rule Open_absent [OF assms(1)])
  then show thesis using that by (simp add: StartProcess1_def nachos_open_def)
qed

text \<open>On a new machine the frames are in the order of the pages, so both ways of loading agree.\<close>

lemma StartProcess1_ok:
  assumes fs: "fs_ok fs d dir bm" and f: "files d dir (key fname) = Some c" and c: "noff_ok b c"
    and m: "Machine_Machine b big junk fresh0 pts = Inr m"
  obtains sp m' d' where "StartProcess1 b mt (nachos_open mem fs fname) fname stk fresh p m d = Inr ([], Some sp, m', d')" "sector d' = sector d" "fs_ok fs d' dir bm"
    "numPages sp = space_pages (noff_header b c)" "registers m' = start_registers sp m"
    "\<forall>va. unat va < (if USE_TLB b then min TLBSize (unat (numPages sp)) else unat (numPages sp)) * PageSize \<longrightarrow>
      (\<exists>m2. Machine_ReadMem b va 1 m' = Inr (Some (scast (program_image (noff_header b c) c (unat va) 0)), m2))"
proof -
  note M = new_machine_ok [OF m]
  let ?h = "noff_header b c"
  let ?n = "space_pages ?h"
  obtain s where s: "dir_map dir (key fname) = Some s" "contents (hdr_at d s) d = c" using f by (auto simp: files_def)
  let ?f = "\<lparr>hdr = hdr_at d s, seekPosition = 0, hdrSector = s\<rparr> :: OpenFile"
  obtain d1 where O: "FileSystem_Open mem fs fname d = Inr (Some ?f, d1)" "disk_ok d1" "sector d1 = sector d" by (rule Open_ok [OF fs s(1)])
  have ok: "file_ok (hdr ?f) \<and> disk_ok d1 \<and> sector d1 = sector d" using files_okD [OF fs_okD(7) [OF fs] s(1)] O(2,3) by simp
  have c1: "contents (hdr ?f) d1 = c" using s(2) O(3) by (simp add: contents_def)
  have n: "unat ?n \<le> NumPhysPages" using c by (simp add: noff_ok_def)
  then have r: "unat (space_pages (noff_header b (contents (hdr ?f) d1))) \<le> card ({..<NumPhysPages} - marked (bitMap m))" "noff_ok b (contents (hdr ?f) d1)"
    using M(3) c unfolding c1 by simp_all
  obtain d' fs' bm' mem' where A: "AddrSpace_AddrSpace b mt (ReadAt ?f) stk fresh p m d1 =
      Inr (\<lparr>as_pageTable = p, numPages = ?n\<rparr>, with_memory mem' (paged p bm' (page_entries fs') m), d')"
    "fs' = take (unat ?n) (free_frames (bitMap m))" "disk_ok d'" "sector d' = sector d"
    "\<forall>v < unat ?n * PageSize. mem' (place fs' v) = program_image ?h c v (if place fs' v < unat ?n * PageSize then 0 else mainMemory m (place fs' v))"
    using nf.AddrSpace_ok [OF ok r(2) M(1,2) r(1) disjI2 [OF M(3)], of mt stk fresh p] unfolding c1 by blast
  have fs': "fs' = [0..<unat ?n]" using A(2) M(7) n by (simp add: take_upt)
  let ?sp = "\<lparr>as_pageTable = p, numPages = ?n\<rparr>" and ?m = "with_memory mem' (paged p bm' (page_entries fs') m)"
  let ?m1 = "?m\<lparr>registers := start_registers ?sp ?m\<rparr>"
  have t: "tables ?m1 p = Some (page_entries fs')" "set fs' \<subseteq> {..<NumPhysPages}" "length fs' = unat ?n" "length fs' \<le> NumPhysPages"
    "if USE_TLB b then pageTable ?m1 = None else tlb ?m1 = None" "mainMemory ?m1 = mem'"
    using n M(5,6) by (auto simp: fs' with_memory_def)
  have R: "\<exists>m2. Machine_ReadMem b va 1 (AddrSpace_RestoreState b ?sp ?m1) = Inr (Some (scast (program_image ?h c (unat va) 0)), m2)"
    if va: "unat va < (if USE_TLB b then min TLBSize (unat ?n) else unat ?n) * PageSize" for va
  proof -
    have v: "unat va < unat ?n * PageSize" using va by (auto simp: min_def split: if_splits intro: less_le_trans [OF _ mult_le_mono1])
    then have "place fs' (unat va) = unat va" unfolding fs' by (rule place_id)
    then show ?thesis using image_readable [OF t(1-5) va] A(5) [rule_format, OF v] v unfolding t(6) by simp
  qed
  have "StartProcess1 b mt (nachos_open mem fs fname) fname stk fresh p m d = Inr ([], Some ?sp, AddrSpace_RestoreState b ?sp ?m1, d')"
    using O(1) A(1) by (simp add: StartProcess1_def nachos_open_def InitRegisters_ok)
  moreover have "start_registers ?sp ?m = start_registers ?sp m" by (auto simp: start_registers_def)
  ultimately show thesis using that [of ?sp "AddrSpace_RestoreState b ?sp ?m1" d'] A(3,4) R fs_ok_same [OF fs A(3,4)] by simp
qed

subsection \<open>Two programs\<close>



text \<open>A thread that has an address space cannot be switched out in a build without a tlb.\<close>

lemma Run_save_no_tlb:
  assumes "tlb m = None" "length rs = NumTotalRegs"
  shows "Run_save m rs = Inl NullDeref"
  using assms save_restore(1) [OF assms(2), of m] by (simp add: Run_save_def AddrSpace_SaveState_def get_entry_def upt_conv_Cons TLBSize_def)

text \<open>Registers survive a switch from one user program to another and back.\<close>

lemma Run_save_restore:
  assumes "length rs = NumTotalRegs" "Run_save m rs = Inr (rs', m1)"
  obtains m' where "Run_restore b sp rs' m2 = Inr m'" "\<forall>i < NumTotalRegs. registers m' i = registers m i"
  using that assms save_restore [OF assms(1), of m] by (auto simp: Run_save_def Run_restore_def res_simps)



lemma formatted_room:
  obtains d fs d0 dir bm where "Disk_Disk None 0 = Inr d" "FileSystem_FileSystem zeros noon True d = Inr (fs, d0)" "fs_ok fs d0 dir bm"
    "\<forall>n \<le> 1792. creatable dir bm fname (int n)"
proof -
  obtain d where d: "Disk_Disk None 0 = Inr d" "disk_ok d" by (rule Disk_new [of 0]) auto
  obtain fs d0 dir bm where F: "FileSystem_FileSystem zeros noon True d = Inr (fs, d0)" "fs_ok fs d0 dir bm" "files d0 dir = Map.empty"
    "sectors_free bm = 1019" by (rule format_ok [OF d(2)])
  have "dir_map dir = Map.empty" using dom_files [of d0 dir] F(3) by (metis dom_empty dom_eq_empty_conv)
  moreover have "divRoundUp n SectorSize \<le> 15" if "n \<le> 1792" for n using div_le_mono [OF that, of 128] by (simp add: divRoundUp_def SectorSize_def)
  ultimately have "\<forall>n \<le> 1792. creatable dir bm fname (int n)" using F(4) by (fastforce simp: creatable_def NumDirEntries_def)
  then show thesis using that d(1) F(1,2) by blast
qed

end
