(* ===== verification/Nachos_Console.thy ===== *)
theory Nachos_Console
  imports Nachos_Prelude "HOL-Library.Sublist"
begin

text \<open>
  The console device (machine/console.h, console.cc, with the host files of machine/sysdep.cc) and ConsoleTest (userprog/progtest.cc), which
  echoes its input. The keyboard holds the characters typed and not read yet, and whether the input has ended; a char is a signed
  byte, as on the hosts the code was written for, so EOF in a char is the byte 255. Interrupts come between any two calls of the thread: one poll is
  always scheduled, and one interrupt for each character written.
\<close>

subsection \<open>Files of the host (sysdep.cc)\<close>

text \<open>The descriptors that open and the values that close returns come from the host.\<close>

definition OpenForWrite :: "(string \<Rightarrow> int) \<Rightarrow> string \<Rightarrow> int res" where
  "OpenForWrite open_w name = (let fd = open_w name in bind_res (ASSERT (fd \<ge> 0)) (\<lambda>_. Inr fd))"

definition OpenForReadWrite :: "(string \<Rightarrow> int) \<Rightarrow> string \<Rightarrow> bool \<Rightarrow> int res" where
  "OpenForReadWrite open_rw name crashOnError = (let fd = open_rw name in bind_res (ASSERT (\<not> crashOnError \<or> fd \<ge> 0)) (\<lambda>_. Inr fd))"

definition Close :: "(int \<Rightarrow> int) \<Rightarrow> int \<Rightarrow> unit res" where
  "Close close fd = ASSERT (close fd \<ge> 0)"

record Keyboard =
  typed :: "byte list"
  ended :: bool

text \<open>At the end of the input a poll reports that reading does not wait, and reading gives no character.\<close>

definition PollFile :: "Keyboard \<Rightarrow> bool" where
  "PollFile kb \<longleftrightarrow> typed kb \<noteq> [] \<or> ended kb"

definition Read_char :: "Keyboard \<Rightarrow> (byte \<times> Keyboard) res" where
  "Read_char kb = (case typed kb of [] \<Rightarrow> Inl AssertFailed | c # cs \<Rightarrow> Inr (c, kb\<lparr>typed := cs\<rparr>))"

subsection \<open>The device\<close>

definition EOF :: byte where "EOF = - 1"

record Console =
  readFileNo :: int
  writeFileNo :: int
  putBusy :: bool
  incoming :: byte
  numConsoleCharsRead :: nat
  numConsoleCharsWritten :: nat
  writesPending :: nat       \<comment> \<open>scheduled ConsoleWriteDone interrupts\<close>

definition Console_Console :: "(string \<Rightarrow> int) \<Rightarrow> (string \<Rightarrow> int) \<Rightarrow> string option \<Rightarrow> string option \<Rightarrow> Console res" where
  "Console_Console open_rw open_w readFile writeFile =
     bind_res (case readFile of None \<Rightarrow> Inr 0 | Some name \<Rightarrow> OpenForReadWrite open_rw name True) (\<lambda>r.
     bind_res (case writeFile of None \<Rightarrow> Inr 1 | Some name \<Rightarrow> OpenForWrite open_w name) (\<lambda>w.
     Inr \<lparr>readFileNo = r, writeFileNo = w, putBusy = False, incoming = EOF, numConsoleCharsRead = 0, numConsoleCharsWritten = 0, writesPending = 0\<rparr>))"

definition Console_destroy :: "(int \<Rightarrow> int) \<Rightarrow> Console \<Rightarrow> unit res" where
  "Console_destroy close con =
     bind_res (if readFileNo con \<noteq> 0 then Close close (readFileNo con) else Inr ()) (\<lambda>_.
     if writeFileNo con \<noteq> 1 then Close close (writeFileNo con) else Inr ())"

text \<open>The poll; the value says whether \<open>readHandler\<close> is called.\<close>

definition Console_CheckCharAvail :: "Console \<Rightarrow> Keyboard \<Rightarrow> (bool \<times> Console \<times> Keyboard) res" where
  "Console_CheckCharAvail con kb =
     (if incoming con \<noteq> EOF \<or> \<not> PollFile kb then Inr (False, con, kb)
      else bind_res (Read_char kb) (\<lambda>(c, kb1).
        Inr (True, con\<lparr>incoming := c, numConsoleCharsRead := numConsoleCharsRead con + 1\<rparr>, kb1)))"

definition Console_WriteDone :: "Console \<Rightarrow> Console" where
  "Console_WriteDone con = con\<lparr>putBusy := False, numConsoleCharsWritten := numConsoleCharsWritten con + 1\<rparr>"

definition Console_GetChar :: "Console \<Rightarrow> byte \<times> Console" where
  "Console_GetChar con = (incoming con, con\<lparr>incoming := EOF\<rparr>)"

definition Console_PutChar :: "byte \<Rightarrow> Console \<Rightarrow> byte list \<Rightarrow> (Console \<times> byte list) res" where
  "Console_PutChar ch con display =
     bind_res (ASSERT (putBusy con = False)) (\<lambda>_.
     Inr (con\<lparr>putBusy := True, writesPending := writesPending con + 1\<rparr>, display @ [ch]))"

subsection \<open>ConsoleTest\<close>

text \<open>Where the thread is: before the first P, before GetChar, before PutChar, before the second P, or returned.\<close>

datatype tester = WaitRead | AtGetChar | AtPutChar byte | WaitWrite byte | Returned

record ConsoleSys =
  console :: Console
  keyboard :: Keyboard
  display :: "byte list"
  readAvail :: nat
  writeDone :: nat
  tester :: tester

definition ReadAvail :: "ConsoleSys \<Rightarrow> ConsoleSys" where
  "ReadAvail s = s\<lparr>readAvail := readAvail s + 1\<rparr>"

definition WriteDone :: "ConsoleSys \<Rightarrow> ConsoleSys" where
  "WriteDone s = s\<lparr>writeDone := writeDone s + 1\<rparr>"

definition ConsoleTest_start :: "(string \<Rightarrow> int) \<Rightarrow> (string \<Rightarrow> int) \<Rightarrow> string option \<Rightarrow> string option \<Rightarrow> ConsoleSys res" where
  "ConsoleTest_start open_rw open_w inp out =
     bind_res (Console_Console open_rw open_w inp out) (\<lambda>con.
     Inr \<lparr>console = con, keyboard = \<lparr>typed = [], ended = False\<rparr>, display = [], readAvail = 0, writeDone = 0, tester = WaitRead\<rparr>)"

text \<open>The next call of the thread; None when it waits or has returned.\<close>

definition ConsoleTest_step :: "ConsoleSys \<Rightarrow> ConsoleSys res option" where
  "ConsoleTest_step s =
     (case tester s of
        WaitRead \<Rightarrow> if readAvail s = 0 then None else Some (Inr (s\<lparr>readAvail := readAvail s - 1, tester := AtGetChar\<rparr>))
      | AtGetChar \<Rightarrow> (let (ch, con) = Console_GetChar (console s) in Some (Inr (s\<lparr>console := con, tester := AtPutChar ch\<rparr>)))
      | AtPutChar ch \<Rightarrow> Some (bind_res (Console_PutChar ch (console s) (display s)) (\<lambda>(con, out).
          Inr (s\<lparr>console := con, display := out, tester := WaitWrite ch\<rparr>)))
      | WaitWrite ch \<Rightarrow> if writeDone s = 0 then None
          else Some (Inr (s\<lparr>writeDone := writeDone s - 1, tester := if ch = 0x71 then Returned else WaitRead\<rparr>))
      | Returned \<Rightarrow> None)"

text \<open>What can happen: a character is typed, the input ends, one of the two interrupts, a call of the thread.\<close>

datatype caction = CType byte | CEnd | CPoll | CWritten | CThread

fun console_act :: "caction \<Rightarrow> ConsoleSys \<Rightarrow> ConsoleSys res option" where
  "console_act (CType c) s = (if ended (keyboard s) then None else Some (Inr (s\<lparr>keyboard := (keyboard s)\<lparr>typed := typed (keyboard s) @ [c]\<rparr>\<rparr>)))"
| "console_act CEnd s = Some (Inr (s\<lparr>keyboard := (keyboard s)\<lparr>ended := True\<rparr>\<rparr>))"
| "console_act CPoll s = Some (bind_res (Console_CheckCharAvail (console s) (keyboard s)) (\<lambda>(arrived, con, kb).
     let s1 = s\<lparr>console := con, keyboard := kb\<rparr> in Inr (if arrived then ReadAvail s1 else s1)))"
| "console_act CWritten s = (if writesPending (console s) = 0 then None
     else Some (Inr (WriteDone (s\<lparr>console := Console_WriteDone ((console s)\<lparr>writesPending := writesPending (console s) - 1\<rparr>)\<rparr>))))"
| "console_act CThread s = ConsoleTest_step s"

text \<open>The characters an action types, and runs of the system.\<close>

fun typing :: "caction list \<Rightarrow> byte list" where
  "typing [] = []"
| "typing (CType c # as) = c # typing as"
| "typing (_ # as) = typing as"

inductive console_run :: "ConsoleSys \<Rightarrow> caction list \<Rightarrow> ConsoleSys \<Rightarrow> bool" for s0 where
  start: "console_run s0 [] s0"
| act: "console_run s0 as s \<Longrightarrow> console_act a s = Some (Inr s') \<Longrightarrow> console_run s0 (as @ [a]) s'"

text \<open>Letters up to and including the first q.\<close>

definition until_q :: "byte list \<Rightarrow> byte list" where
  "until_q cs = takeWhile (\<lambda>c. c \<noteq> 0x71) cs @ (if 0x71 \<in> set cs then [0x71] else [])"

subsection \<open>The invariant\<close>

text \<open>The character in the hands of the thread or in the buffer of the device, not shown yet.\<close>

definition in_hand :: "ConsoleSys \<Rightarrow> byte list" where
  "in_hand s = (case tester s of AtPutChar c \<Rightarrow> [c] | _ \<Rightarrow> [])"

definition in_buffer :: "Console \<Rightarrow> byte list" where
  "in_buffer con = (if incoming con = EOF then [] else [incoming con])"

definition console_inv :: "byte list \<Rightarrow> ConsoleSys \<Rightarrow> bool" where
  "console_inv ts s \<longleftrightarrow>
     display s @ in_hand s @ in_buffer (console s) @ typed (keyboard s) = ts \<and>
     readAvail s + (if tester s = AtGetChar then 1 else 0) = length (in_buffer (console s)) \<and>
     (case tester s of
        WaitWrite c \<Rightarrow> writesPending (console s) + writeDone s = 1 \<and> (putBusy (console s) \<longleftrightarrow> writesPending (console s) = 1) \<and>
          display s \<noteq> [] \<and> last (display s) = c \<and> 0x71 \<notin> set (butlast (display s))
      | Returned \<Rightarrow> writesPending (console s) = 0 \<and> writeDone s = 0 \<and> \<not> putBusy (console s) \<and>
          display s \<noteq> [] \<and> last (display s) = 0x71 \<and> 0x71 \<notin> set (butlast (display s))
      | _ \<Rightarrow> writesPending (console s) = 0 \<and> writeDone s = 0 \<and> \<not> putBusy (console s) \<and> 0x71 \<notin> set (display s))"

lemmas console_defs = Console_CheckCharAvail_def Console_WriteDone_def Console_GetChar_def Console_PutChar_def PollFile_def Read_char_def
  ReadAvail_def WriteDone_def ConsoleTest_step_def

lemma typing_append: "typing (as @ bs) = typing as @ typing bs"
  by (induction as rule: typing.induct) simp_all

lemma start_inv:
  assumes "ConsoleTest_start open_rw open_w inp out = Inr s0"
  shows "console_inv [] s0" "\<not> ended (keyboard s0)"
  using assms by (auto simp: ConsoleTest_start_def Console_Console_def console_inv_def in_hand_def in_buffer_def res_simps)

lemma in_buffer_incoming [simp]: "c \<noteq> EOF \<Longrightarrow> in_buffer (con\<lparr>incoming := c\<rparr>) = [c]" "in_buffer (con\<lparr>incoming := EOF\<rparr>) = []"
  by (simp_all add: in_buffer_def)

lemma in_set_last: "xs \<noteq> [] \<Longrightarrow> c \<in> set xs \<longleftrightarrow> c = last xs \<or> c \<in> set (butlast xs)"
  by (cases xs rule: rev_cases) auto

lemma inv_prefix:
  assumes "console_inv ts s"
  obtains rest where "ts = display s @ rest"
  using assms that unfolding console_inv_def by metis

lemma thread_inv:
  assumes "console_inv ts s" "ConsoleTest_step s = Some (Inr s')"
  shows "console_inv ts s'"
  using assms
  by (cases "tester s") (auto simp: console_inv_def ConsoleTest_step_def Console_GetChar_def Console_PutChar_def in_hand_def in_buffer_def
      in_set_last res_simps split: if_splits)

lemma poll_inv:
  assumes "console_inv ts s" "EOF \<notin> set ts" "console_act CPoll s = Some (Inr s')"
  shows "console_inv ts s'"
proof (cases "incoming (console s) = EOF \<and> PollFile (keyboard s)")
  case True
  then obtain c cs where t: "typed (keyboard s) = c # cs" using assms(3) by (cases "typed (keyboard s)") (auto simp: console_defs)
  have "s' = ReadAvail (s\<lparr>console := (console s)\<lparr>incoming := c, numConsoleCharsRead := numConsoleCharsRead (console s) + 1\<rparr>,
      keyboard := (keyboard s)\<lparr>typed := cs\<rparr>\<rparr>)"
    using assms(3) True t by (simp add: Console_CheckCharAvail_def Read_char_def)
  moreover have "c \<noteq> EOF" using assms(1,2) t by (auto simp: console_inv_def)
  ultimately show ?thesis using assms(1) True t
    by (cases "tester s") (auto simp: console_inv_def ReadAvail_def in_hand_def in_buffer_def)
next
  case False
  then have "s' = s" using assms(3) by (auto simp: Console_CheckCharAvail_def)
  then show ?thesis using assms(1) by simp
qed

lemma written_inv:
  assumes "console_inv ts s" "console_act CWritten s = Some (Inr s')"
  shows "console_inv ts s'"
proof -
  have p: "writesPending (console s) \<noteq> 0" using assms(2) by (auto split: if_splits)
  then obtain c where t: "tester s = WaitWrite c" using assms(1) by (cases "tester s") (auto simp: console_inv_def)
  have "s' = WriteDone (s\<lparr>console := Console_WriteDone ((console s)\<lparr>writesPending := writesPending (console s) - 1\<rparr>)\<rparr>)"
    using assms(2) p by simp
  then show ?thesis using assms(1) t p by (auto simp: console_inv_def in_hand_def in_buffer_def WriteDone_def Console_WriteDone_def)
qed

lemma keyboard_inv:
  assumes "console_inv ts s" "typed kb = typed (keyboard s) @ cs"
  shows "console_inv (ts @ cs) (s\<lparr>keyboard := kb\<rparr>)"
  using assms by (cases "tester s") (auto simp: console_inv_def in_hand_def)

lemma act_inv:
  assumes "console_inv ts s" "EOF \<notin> set (ts @ typing [a])" "console_act a s = Some (Inr s')"
  shows "console_inv (ts @ typing [a]) s'"
proof (cases a)
  case (CType c)
  then have "s' = s\<lparr>keyboard := (keyboard s)\<lparr>typed := typed (keyboard s) @ [c]\<rparr>\<rparr>" using assms(3) by (simp split: if_splits)
  then show ?thesis using keyboard_inv [OF assms(1), of _ "[c]"] CType by simp
next
  case CEnd
  then have "s' = s\<lparr>keyboard := (keyboard s)\<lparr>ended := True\<rparr>\<rparr>" using assms(3) by simp
  then show ?thesis using keyboard_inv [OF assms(1), of _ "[]"] CEnd by simp
next
  case CPoll
  then show ?thesis using poll_inv assms by simp
next
  case CWritten
  then show ?thesis using written_inv assms by simp
next
  case CThread
  then show ?thesis using thread_inv assms by simp
qed

lemma run_inv:
  assumes "console_run s0 as s" "console_inv [] s0" "EOF \<notin> set (typing as)"
  shows "console_inv (typing as) s"
  using assms
proof induction
  case (act as s a s')
  have "EOF \<notin> set (typing as)" using act.prems(2) by (simp add: typing_append)
  then have "console_inv (typing as) s" by (rule act.IH [OF act.prems(1)])
  then show ?case using act_inv [OF _ _ act.hyps(2)] act.prems(2) unfolding typing_append by blast
qed simp

lemma act_ended:
  assumes "console_act a s = Some (Inr s')"
  shows "ended (keyboard s') \<longleftrightarrow> ended (keyboard s) \<or> a = CEnd"
proof (cases a)
  case CPoll
  then show ?thesis using assms
    by (auto simp: Console_CheckCharAvail_def Read_char_def ReadAvail_def split: if_splits list.splits)
next
  case CThread
  then show ?thesis using assms
    by (cases "tester s") (auto simp: ConsoleTest_step_def Console_GetChar_def Console_PutChar_def res_simps split: if_splits)
qed (use assms in \<open>auto simp: WriteDone_def split: if_splits\<close>)

lemma run_ended:
  assumes "console_run s0 as s" "\<not> ended (keyboard s0)"
  shows "ended (keyboard s) \<longleftrightarrow> CEnd \<in> set as"
  using assms by induction (auto simp: act_ended)

lemma act_fault:
  assumes "console_inv ts s" "console_act a s = Some (Inl e)"
  shows "a = CPoll \<and> e = AssertFailed \<and> ended (keyboard s) \<and> display s @ in_hand s = ts"
proof (cases a)
  case CPoll
  then show ?thesis using assms by (auto simp: console_inv_def in_buffer_def Console_CheckCharAvail_def PollFile_def Read_char_def res_simps split: if_splits list.splits)
next
  case CThread
  then show ?thesis using assms
    by (cases "tester s") (auto simp: console_inv_def ConsoleTest_step_def Console_GetChar_def Console_PutChar_def res_simps split: if_splits)
qed (use assms in \<open>simp_all split: if_splits\<close>)

subsection \<open>Progress\<close>

text \<open>The actions of the thread and of the device still needed for the characters that were typed.\<close>

definition console_work :: "ConsoleSys \<Rightarrow> nat" where
  "console_work s = 6 * length (typed (keyboard s)) + 5 * readAvail s +
     (case tester s of AtGetChar \<Rightarrow> 4 | AtPutChar _ \<Rightarrow> 3 | WaitWrite _ \<Rightarrow> 1 + writesPending (console s) | _ \<Rightarrow> 0)"

definition console_idle :: "ConsoleSys \<Rightarrow> bool" where
  "console_idle s \<longleftrightarrow> tester s = Returned \<or> tester s = WaitRead \<and> readAvail s = 0 \<and> typed (keyboard s) = []"

lemma console_progress:
  assumes "console_inv ts s" "\<not> console_idle s"
  shows "\<exists>a\<in>{CPoll, CWritten, CThread}. \<exists>s'. console_act a s = Some (Inr s') \<and> console_work s' < console_work s"
proof (cases "tester s")
  case WaitRead
  show ?thesis
  proof (cases "readAvail s")
    case 0
    then obtain c cs where t: "typed (keyboard s) = c # cs" using assms(2) WaitRead by (cases "typed (keyboard s)") (auto simp: console_idle_def)
    have "incoming (console s) = EOF" using assms(1) WaitRead 0 by (auto simp: console_inv_def in_buffer_def split: if_splits)
    then show ?thesis using t WaitRead 0
      by (intro bexI [of _ CPoll]) (simp_all add: Console_CheckCharAvail_def PollFile_def Read_char_def ReadAvail_def console_work_def)
  next
    case (Suc n)
    then show ?thesis using WaitRead by (intro bexI [of _ CThread]) (simp_all add: ConsoleTest_step_def console_work_def)
  qed
next
  case AtGetChar
  then show ?thesis by (intro bexI [of _ CThread]) (simp_all add: ConsoleTest_step_def Console_GetChar_def console_work_def)
next
  case (AtPutChar c)
  then show ?thesis using assms(1)
    by (intro bexI [of _ CThread]) (simp_all add: ConsoleTest_step_def Console_PutChar_def console_work_def console_inv_def)
next
  case (WaitWrite c)
  show ?thesis
  proof (cases "writeDone s")
    case 0
    then show ?thesis using WaitWrite assms(1)
      by (intro bexI [of _ CWritten]) (simp_all add: WriteDone_def Console_WriteDone_def console_work_def console_inv_def)
  next
    case (Suc n)
    then show ?thesis using WaitWrite by (intro bexI [of _ CThread]) (simp_all add: ConsoleTest_step_def console_work_def)
  qed
next
  case Returned
  then show ?thesis using assms(2) by (simp add: console_idle_def)
qed

lemma console_finishes:
  assumes "console_run s0 as s" "console_inv (typing as) s" "EOF \<notin> set (typing as)"
  shows "\<exists>bs s'. set bs \<subseteq> {CPoll, CWritten, CThread} \<and> length bs \<le> console_work s \<and> console_run s0 (as @ bs) s' \<and>
    console_inv (typing as) s' \<and> console_idle s'"
  using assms
proof (induction "console_work s" arbitrary: as s rule: less_induct)
  case less
  show ?case
  proof (cases "console_idle s")
    case True
    then show ?thesis using less.prems by (intro exI [of _ "[]"] exI [of _ s]) simp
  next
    case False
    obtain a s' where a: "a \<in> {CPoll, CWritten, CThread}" "console_act a s = Some (Inr s')" "console_work s' < console_work s"
      using console_progress [OF less.prems(2) False] by blast
    have t: "typing (as @ [a]) = typing as" using a(1) by (auto simp: typing_append)
    have i: "console_inv (typing (as @ [a])) s'" using act_inv [OF less.prems(2) _ a(2)] less.prems(3) t by (simp add: typing_append)
    obtain bs s2 where "set bs \<subseteq> {CPoll, CWritten, CThread}" "length bs \<le> console_work s'" "console_run s0 ((as @ [a]) @ bs) s2"
        "console_inv (typing as) s2" "console_idle s2"
      using less.hyps [OF a(3) console_run.act [OF less.prems(1) a(2)] i] less.prems(3) t by auto
    then show ?thesis using a(1,3) by (intro exI [of _ "a # bs"] exI [of _ s2]) simp
  qed
qed

lemma work_bound:
  assumes "console_inv ts s"
  shows "console_work s \<le> 6 * length ts"
proof -
  have "length ts = length (display s) + length (in_hand s) + length (in_buffer (console s)) + length (typed (keyboard s))"
    using assms unfolding console_inv_def by (metis length_append add.assoc)
  moreover have "1 \<le> length (display s)" if "tester s = WaitWrite c" for c
    using assms that by (cases "display s") (auto simp: console_inv_def)
  ultimately show ?thesis using assms
    by (cases "tester s") (auto simp: console_inv_def console_work_def in_hand_def)
qed

lemma until_q_prefix:
  assumes "0x71 \<notin> set (butlast xs)"
  shows "prefix xs (until_q (xs @ ys))" "xs \<noteq> [] \<Longrightarrow> last xs = 0x71 \<Longrightarrow> until_q (xs @ ys) = xs" "0x71 \<notin> set xs \<Longrightarrow> until_q xs = xs"
proof -
  show q: "xs \<noteq> [] \<Longrightarrow> last xs = 0x71 \<Longrightarrow> until_q (xs @ ys) = xs"
    using assms by (cases xs rule: rev_cases) (auto simp: until_q_def takeWhile_append takeWhile_eq_all_conv)
  show n: "0x71 \<notin> set xs \<Longrightarrow> until_q xs = xs" by (auto simp: until_q_def takeWhile_eq_all_conv)
  have "until_q (xs @ ys) = xs @ until_q ys" if "0x71 \<notin> set xs" using that by (induction xs) (auto simp: until_q_def)
  then show "prefix xs (until_q (xs @ ys))" using q assms in_set_last [of xs "0x71"]
    by (metis list.set_cases list.distinct(1) prefixI prefix_order.refl)
qed

lemma inv_display: "console_inv ts s \<Longrightarrow> 0x71 \<notin> set (butlast (display s))"
  by (auto simp: console_inv_def dest: in_set_butlastD split: tester.splits)

text \<open>A run by its actions.\<close>

fun console_exec :: "caction list \<Rightarrow> ConsoleSys \<Rightarrow> ConsoleSys option" where
  "console_exec [] s = Some s"
| "console_exec (a # as) s = (case console_act a s of Some (Inr s') \<Rightarrow> console_exec as s' | _ \<Rightarrow> None)"

lemma exec_run_append: "console_run s0 as s \<Longrightarrow> console_exec bs s = Some s' \<Longrightarrow> console_run s0 (as @ bs) s'"
proof (induction bs arbitrary: as s)
  case (Cons b bs)
  obtain s1 where "console_act b s = Some (Inr s1)" "console_exec bs s1 = Some s'"
    using Cons.prems(2) by (auto split: option.splits sum.splits)
  then show ?case using Cons.IH [of "as @ [b]" s1] console_run.act [OF Cons.prems(1)] by simp
qed simp

lemma exec_run: "console_exec as s = Some s' \<Longrightarrow> console_run s as s'"
  using exec_run_append [OF console_run.start, of as s s'] by simp

text \<open>The console on the standard files of the host, and a run in which h, q and x are typed and h is in the buffer of the device.\<close>

definition console0 :: ConsoleSys where
  "console0 = \<lparr>console = \<lparr>readFileNo = 0, writeFileNo = 1, putBusy = False, incoming = EOF, numConsoleCharsRead = 0, numConsoleCharsWritten = 0,
     writesPending = 0\<rparr>, keyboard = \<lparr>typed = [], ended = False\<rparr>, display = [], readAvail = 0, writeDone = 0, tester = WaitRead\<rparr>"

definition console_demo :: "caction list" where
  "console_demo = [CType 0x68, CType 0x71, CPoll, CType 0x78, CThread]"

lemma console0_start: "ConsoleTest_start (\<lambda>_. 0) (\<lambda>_. 0) None None = Inr console0"
  by (simp add: ConsoleTest_start_def Console_Console_def console0_def)

lemma console_demo_run:
  "console_run console0 console_demo \<lparr>console = \<lparr>readFileNo = 0, writeFileNo = 1, putBusy = False, incoming = 0x68, numConsoleCharsRead = 1, numConsoleCharsWritten = 0,
     writesPending = 0\<rparr>, keyboard = \<lparr>typed = [0x71, 0x78], ended = False\<rparr>, display = [], readAvail = 0, writeDone = 0, tester = AtGetChar\<rparr>"
  by (rule exec_run) (simp add: console_demo_def console0_def console_defs EOF_def)

lemma console_demo_typing: "typing console_demo = [0x68, 0x71, 0x78]" "EOF \<notin> set (typing console_demo)"
  by (simp_all add: console_demo_def EOF_def)

subsection \<open>Properties\<close>

text \<open>C8. The echo of the console, in any interleaving of typing, interrupts and the thread, for input without the character 255: the display shows the
  characters typed, in order, each once, up to the first q; the thread returns only when they are all shown. The one assertion that can fail is the one of Read,
  in a poll after the input has ended and everything typed was read.\<close>

theorem console_echo:
  assumes "ConsoleTest_start open_rw open_w inp out = Inr s0" "console_run s0 as s" "EOF \<notin> set (typing as)"
  shows "prefix (display s) (until_q (typing as)) \<and> (tester s = Returned \<longrightarrow> display s = until_q (typing as)) \<and>
    (\<forall>a e. console_act a s = Some (Inl e) \<longrightarrow> a = CPoll \<and> e = AssertFailed \<and> CEnd \<in> set as \<and> display s @ in_hand s = typing as)"
proof -
  have i: "console_inv (typing as) s" by (rule run_inv [OF assms(2) start_inv(1) [OF assms(1)] assms(3)])
  then obtain rest where t: "typing as = display s @ rest" by (rule inv_prefix)
  note q = until_q_prefix [OF inv_display [OF i]]
  have "tester s = Returned \<longrightarrow> display s = until_q (typing as)" using q(2) i unfolding t by (auto simp: console_inv_def)
  moreover have "prefix (display s) (until_q (typing as))" using q(1) unfolding t .
  ultimately show ?thesis using act_fault [OF i] run_ended [OF assms(2) start_inv(2) [OF assms(1)]] by blast
qed

lemma console_echo_witness:
  "\<exists>s. console_run console0 console_demo s \<and> prefix (display s) (until_q [0x68, 0x71, 0x78])"
  using console_echo [OF console0_start console_demo_run console_demo_typing(2)] console_demo_run unfolding console_demo_typing(1) by blast

text \<open>C22. The echo arrives, for input without the character 255: from every state such a run reaches, at most six more interrupts and calls of the thread per character typed show everything up to the
  first q, and with a q the thread returns.\<close>

theorem console_echo_arrives:
  assumes "ConsoleTest_start open_rw open_w inp out = Inr s0" "console_run s0 as s" "EOF \<notin> set (typing as)"
  shows "\<exists>bs s'. set bs \<subseteq> {CPoll, CWritten, CThread} \<and> length bs \<le> 6 * length (typing as) \<and> console_run s0 (as @ bs) s' \<and>
    display s' = until_q (typing as) \<and> (0x71 \<in> set (typing as) \<longrightarrow> tester s' = Returned)"
proof -
  have i: "console_inv (typing as) s" by (rule run_inv [OF assms(2) start_inv(1) [OF assms(1)] assms(3)])
  obtain bs s' where b: "set bs \<subseteq> {CPoll, CWritten, CThread}" "length bs \<le> console_work s" "console_run s0 (as @ bs) s'"
      "console_inv (typing as) s'" "console_idle s'"
    using console_finishes [OF assms(2) i assms(3)] by blast
  obtain rest where t: "typing as = display s' @ rest" using b(4) by (rule inv_prefix)
  note q = until_q_prefix [OF inv_display [OF b(4)]]
  have "display s' = until_q (typing as) \<and> (0x71 \<in> set (typing as) \<longrightarrow> tester s' = Returned)"
  proof (cases "tester s' = Returned")
    case True
    then show ?thesis using q(2) b(4) unfolding t by (auto simp: console_inv_def)
  next
    case False
    then have "typing as = display s'" "0x71 \<notin> set (display s')" using b(4,5) by (auto simp: console_inv_def console_idle_def in_hand_def)
    then show ?thesis using q(3) by simp
  qed
  then show ?thesis using b(1-3) work_bound [OF i] by (meson le_trans)
qed

lemma console_echo_arrives_witness:
  "\<exists>bs s'. length bs \<le> 18 \<and> console_run console0 (console_demo @ bs) s' \<and> display s' = [0x68, 0x71] \<and> tester s' = Returned"
proof -
  have "until_q (typing console_demo) = [0x68, 0x71]" "0x71 \<in> set (typing console_demo)" "6 * length (typing console_demo) = 18"
    unfolding console_demo_typing(1) by (simp_all add: until_q_def)
  then show ?thesis using console_echo_arrives [OF console0_start console_demo_run console_demo_typing(2)] by metis
qed

text \<open>The character 255 is EOF in the buffer: the next poll puts another one over it.\<close>

lemma character_255_lost:
  "console_act CPoll \<lparr>console = \<lparr>readFileNo = 0, writeFileNo = 1, putBusy = False, incoming = 0xff, numConsoleCharsRead = 1, numConsoleCharsWritten = 0,
       writesPending = 0\<rparr>, keyboard = \<lparr>typed = [0x61], ended = False\<rparr>, display = [], readAvail = 1, writeDone = 0, tester = WaitRead\<rparr> =
   Some (Inr \<lparr>console = \<lparr>readFileNo = 0, writeFileNo = 1, putBusy = False, incoming = 0x61, numConsoleCharsRead = 2, numConsoleCharsWritten = 0,
       writesPending = 0\<rparr>, keyboard = \<lparr>typed = [], ended = False\<rparr>, display = [], readAvail = 2, writeDone = 0, tester = WaitRead\<rparr>)"
  by (simp add: Console_CheckCharAvail_def PollFile_def Read_char_def ReadAvail_def EOF_def)

end
