(* ===== verification/Nachos_Post.thy ===== *)
theory Nachos_Post
  imports Nachos_CLib Complex_Main
begin

text \<open>
  The network device and the post office (machine/network.h, network.cc, network/post.h, post.cc): packets of 64 bytes between
  machines, and mailboxes on top of them. The sockets of the host are a queue of packets for each address. A call that waits, or
  a loop that waits, is split where it waits: Send up to the wait for the interrupt and after it, the postal worker after it
  has taken a packet off the network. The network has one poll and one interrupt for each packet sent pending; these, the random
  numbers and the contents of new buffers come with the actions. The chance of a packet is a rational number.
\<close>

subsection \<open>Headers\<close>

record PacketHeader =
  pkt_to :: "32 word"
  pkt_from :: "32 word"
  pkt_length :: "32 word"

definition header_size :: nat where "header_size = 12"
definition MaxWireSize :: nat where "MaxWireSize = 64"
definition MaxPacketSize :: nat where "MaxPacketSize = MaxWireSize - header_size"

record MailHeader =
  mail_to :: "32 word"
  mail_from :: "32 word"
  mail_length :: "32 word"

definition MaxMailSize :: nat where "MaxMailSize = MaxPacketSize - header_size"

lemmas post_sizes = header_size_def MaxWireSize_def MaxPacketSize_def MaxMailSize_def

text \<open>The headers in memory.\<close>

definition pkt_bytes :: "PacketHeader \<Rightarrow> byte list" where
  "pkt_bytes h = int_to_bytes (pkt_to h) @ int_to_bytes (pkt_from h) @ int_to_bytes (pkt_length h)"

definition pkt_of_bytes :: "byte list \<Rightarrow> PacketHeader" where
  "pkt_of_bytes bs = \<lparr>pkt_to = bytes_to_int (take 4 bs), pkt_from = bytes_to_int (take 4 (drop 4 bs)), pkt_length = bytes_to_int (take 4 (drop 8 bs))\<rparr>"

definition mail_bytes :: "MailHeader \<Rightarrow> byte list" where
  "mail_bytes h = int_to_bytes (mail_to h) @ int_to_bytes (mail_from h) @ int_to_bytes (mail_length h)"

definition mail_of_bytes :: "byte list \<Rightarrow> MailHeader" where
  "mail_of_bytes bs = \<lparr>mail_to = bytes_to_int (take 4 bs), mail_from = bytes_to_int (take 4 (drop 4 bs)), mail_length = bytes_to_int (take 4 (drop 8 bs))\<rparr>"

subsection \<open>The network device\<close>

record Network =
  ident :: "32 word"
  chanceToWork :: rat
  sendBusy :: bool
  inHdr :: PacketHeader
  inbox :: "byte list"
  numPacketsSent :: nat
  numPacketsRecvd :: nat
  sendsPending :: nat        \<comment> \<open>scheduled NetworkSendDone interrupts\<close>

text \<open>The constructor; \<open>hdr0\<close> and \<open>box0\<close> are what the members held.\<close>

definition Network_Network :: "32 word \<Rightarrow> rat \<Rightarrow> PacketHeader \<Rightarrow> (nat \<Rightarrow> byte) \<Rightarrow> Network" where
  "Network_Network addr reliability hdr0 box0 =
     \<lparr>ident = addr, chanceToWork = (if reliability < 0 then 0 else if reliability > 1 then 1 else reliability), sendBusy = False,
      inHdr = hdr0\<lparr>pkt_length := 0\<rparr>, inbox = map box0 [0..<MaxPacketSize], numPacketsSent = 0, numPacketsRecvd = 0, sendsPending = 0\<rparr>"

text \<open>The poll: \<open>sock\<close> is the queue of packets of this machine. The value says whether \<open>readHandler\<close> is called.\<close>

definition Network_CheckPktAvail :: "Network \<Rightarrow> byte list list \<Rightarrow> (bool \<times> Network \<times> byte list list) res" where
  "Network_CheckPktAvail net sock =
     (if pkt_length (inHdr net) \<noteq> 0 then Inr (False, net, sock)
      else case sock of
        [] \<Rightarrow> Inr (False, net, [])
      | buffer # sock1 \<Rightarrow>
          bind_res (ASSERT (length buffer = MaxWireSize)) (\<lambda>_.
          let hdr = pkt_of_bytes buffer in
          bind_res (ASSERT (pkt_to hdr = ident net \<and> unat (pkt_length hdr) \<le> MaxPacketSize)) (\<lambda>_.
          bind_res (get_bytes (int header_size) (uint (pkt_length hdr)) buffer) (\<lambda>bs.
          bind_res (put_bytes 0 bs (inbox net)) (\<lambda>box.
          Inr (True, net\<lparr>inHdr := hdr, inbox := box, numPacketsRecvd := numPacketsRecvd net + 1\<rparr>, sock1))))))"

definition Network_SendDone :: "Network \<Rightarrow> Network" where
  "Network_SendDone net = net\<lparr>sendBusy := False, numPacketsSent := numPacketsSent net + 1\<rparr>"

text \<open>Send: the packet that goes out, or None when it is lost; \<open>r\<close> is the value of Random() and \<open>pad\<close> what the new buffer held.\<close>

definition Network_Send :: "nat \<Rightarrow> (nat \<Rightarrow> byte) \<Rightarrow> PacketHeader \<Rightarrow> byte list \<Rightarrow> Network \<Rightarrow> (byte list option \<times> Network) res" where
  "Network_Send r pad hdr data net =
     bind_res (ASSERT (sendBusy net = False \<and> pkt_length hdr > 0 \<and> unat (pkt_length hdr) \<le> MaxPacketSize \<and> pkt_from hdr = ident net)) (\<lambda>_.
     let net1 = net\<lparr>sendsPending := sendsPending net + 1\<rparr> in
     if of_nat (r mod 100) \<ge> chanceToWork net * 100 then Inr (None, net1)
     else bind_res (get_bytes 0 (uint (pkt_length hdr)) data) (\<lambda>bs.
       bind_res (put_bytes 0 (pkt_bytes hdr) (map pad [0..<MaxWireSize])) (\<lambda>buffer.
       bind_res (put_bytes (int header_size) bs buffer) (\<lambda>buffer1. Inr (Some buffer1, net1)))))"

definition Network_Receive :: "byte list \<Rightarrow> Network \<Rightarrow> (PacketHeader \<times> byte list \<times> Network) res" where
  "Network_Receive data net =
     (let hdr = inHdr net; net1 = net\<lparr>inHdr := hdr\<lparr>pkt_length := 0\<rparr>\<rparr> in
      if pkt_length hdr \<noteq> 0
      then bind_res (get_bytes 0 (uint (pkt_length hdr)) (inbox net)) (\<lambda>bs.
           bind_res (put_bytes 0 bs data) (\<lambda>data1. Inr (hdr, data1, net1)))
      else Inr (hdr, data, net1))"

subsection \<open>Mail\<close>

record Mail =
  pktHdr :: PacketHeader
  mailHdr :: MailHeader
  mdata :: "byte list"       \<comment> \<open>the first \<open>length\<close> bytes of the array\<close>

definition Mail_Mail :: "PacketHeader \<Rightarrow> MailHeader \<Rightarrow> byte list \<Rightarrow> Mail res" where
  "Mail_Mail pktH mailH msgData =
     bind_res (ASSERT (unat (mail_length mailH) \<le> MaxMailSize)) (\<lambda>_.
     bind_res (get_bytes 0 (uint (mail_length mailH)) msgData) (\<lambda>bs.
     Inr \<lparr>pktHdr = pktH, mailHdr = mailH, mdata = bs\<rparr>))"

text \<open>A mailbox is its queue of messages; Put and Get are Append and Remove of a synchronized list, and Get waits while it is empty.\<close>

definition MailBox_Put :: "PacketHeader \<Rightarrow> MailHeader \<Rightarrow> byte list \<Rightarrow> Mail list \<Rightarrow> Mail list res" where
  "MailBox_Put pktH mailH data messages = bind_res (Mail_Mail pktH mailH data) (\<lambda>mail. Inr (messages @ [mail]))"

fun MailBox_Get :: "Mail list \<Rightarrow> (Mail \<times> Mail list) option" where
  "MailBox_Get [] = None"
| "MailBox_Get (mail # messages) = Some (mail, messages)"

definition PrintHeader :: "PacketHeader \<Rightarrow> MailHeader \<Rightarrow> byte list" where
  "PrintHeader p m = bytes ''From ('' @ print_d (sint (pkt_from p)) @ bytes '', '' @ print_d (sint (mail_from m)) @ bytes '') to ('' @
     print_d (sint (pkt_to p)) @ bytes '', '' @ print_d (sint (mail_to m)) @ bytes '') bytes '' @ print_d (sint (mail_length m)) @ [10]"

subsection \<open>The post office\<close>

record PostOffice =
  network :: Network
  netAddr :: "32 word"
  numBoxes :: int
  boxes :: "Mail list list"
  messageAvailable :: nat
  messageSent :: nat
  sendLock :: bool                                    \<comment> \<open>held by a sender\<close>
  worker :: "PacketHeader option"                     \<comment> \<open>the packet the postal worker has taken\<close>
  buffer :: "byte list"                               \<comment> \<open>the buffer of the postal worker\<close>

definition PostOffice_PostOffice :: "32 word \<Rightarrow> rat \<Rightarrow> nat \<Rightarrow> PacketHeader \<Rightarrow> (nat \<Rightarrow> byte) \<Rightarrow> (nat \<Rightarrow> byte) \<Rightarrow> PostOffice" where
  "PostOffice_PostOffice addr reliability nBoxes hdr0 box0 buf0 =
     \<lparr>network = Network_Network addr reliability hdr0 box0, netAddr = addr, numBoxes = int nBoxes, boxes = replicate nBoxes [],
      messageAvailable = 0, messageSent = 0, sendLock = False, worker = None, buffer = map buf0 [0..<MaxPacketSize]\<rparr>"

definition IncomingPacket :: "PostOffice \<Rightarrow> PostOffice" where
  "IncomingPacket po = po\<lparr>messageAvailable := messageAvailable po + 1\<rparr>"

definition PacketSent :: "PostOffice \<Rightarrow> PostOffice" where
  "PacketSent po = po\<lparr>messageSent := messageSent po + 1\<rparr>"

text \<open>Send up to the wait: the checks, the headers, the lock (the call waits while it is held), and the packet.\<close>

definition Send_begin :: "nat \<Rightarrow> (nat \<Rightarrow> byte) \<Rightarrow> (nat \<Rightarrow> byte) \<Rightarrow> PacketHeader \<Rightarrow> MailHeader \<Rightarrow> byte list \<Rightarrow> PostOffice \<Rightarrow>
    (PacketHeader \<times> byte list option \<times> PostOffice) res" where
  "Send_begin r buf0 pad pktH mailH data po =
     bind_res (ASSERT (unat (mail_length mailH) \<le> MaxMailSize)) (\<lambda>_.
     bind_res (ASSERT (0 \<le> sint (mail_to mailH) \<and> sint (mail_to mailH) < numBoxes po)) (\<lambda>_.
     let pktH1 = pktH\<lparr>pkt_from := netAddr po, pkt_length := mail_length mailH + of_nat header_size\<rparr> in
     bind_res (put_bytes 0 (mail_bytes mailH) (map buf0 [0..<MaxPacketSize])) (\<lambda>buf1.
     bind_res (get_bytes 0 (uint (mail_length mailH)) data) (\<lambda>bs.
     bind_res (put_bytes (int header_size) bs buf1) (\<lambda>buf2.
     bind_res (Network_Send r pad pktH1 buf2 (network po)) (\<lambda>(packet, net1).
     Inr (pktH1, packet, po\<lparr>sendLock := True, network := net1\<rparr>)))))))"

definition Send_end :: "PostOffice \<Rightarrow> PostOffice" where
  "Send_end po = po\<lparr>messageSent := messageSent po - 1, sendLock := False\<rparr>"

text \<open>One round of PostalDelivery: P and Receive, then the checks and Put.\<close>

definition Delivery_take :: "PostOffice \<Rightarrow> PostOffice res" where
  "Delivery_take po =
     bind_res (Network_Receive (buffer po) (network po)) (\<lambda>(hdr, buf, net).
     Inr (po\<lparr>messageAvailable := messageAvailable po - 1, network := net, buffer := buf, worker := Some hdr\<rparr>))"

definition Delivery_put :: "PacketHeader \<Rightarrow> PostOffice \<Rightarrow> PostOffice res" where
  "Delivery_put hdr po =
     (let mailH = mail_of_bytes (buffer po) in
      bind_res (ASSERT (0 \<le> sint (mail_to mailH) \<and> sint (mail_to mailH) < numBoxes po)) (\<lambda>_.
      bind_res (ASSERT (unat (mail_length mailH) \<le> MaxMailSize)) (\<lambda>_.
      let i = nat (sint (mail_to mailH)) in
      bind_res (arr_get (boxes po) i) (\<lambda>messages.
      bind_res (MailBox_Put hdr mailH (drop header_size (buffer po)) messages) (\<lambda>messages1.
      bind_res (arr_set (boxes po) i messages1) (\<lambda>boxes1. Inr (po\<lparr>boxes := boxes1, worker := None\<rparr>)))))))"

text \<open>Receive: None when it waits for a message.\<close>

definition PostOffice_Receive :: "int \<Rightarrow> PostOffice \<Rightarrow> (Mail \<times> PostOffice) option res" where
  "PostOffice_Receive box po =
     bind_res (ASSERT (box \<ge> 0 \<and> box < numBoxes po)) (\<lambda>_.
     bind_res (arr_get (boxes po) (nat box)) (\<lambda>messages.
     case MailBox_Get messages of
       None \<Rightarrow> Inr None
     | Some (mail, messages1) \<Rightarrow>
         bind_res (arr_set (boxes po) (nat box) messages1) (\<lambda>boxes1.
         bind_res (ASSERT (unat (mail_length (mailHdr mail)) \<le> MaxMailSize)) (\<lambda>_.
         Inr (Some (mail, po\<lparr>boxes := boxes1\<rparr>))))))"

subsection \<open>Machines on a network\<close>

record net =
  nodes :: "32 word \<rightharpoonup> PostOffice"
  sockets :: "32 word \<rightharpoonup> byte list list"

text \<open>What machines do: a thread sends or goes on after sending, the interrupts happen, the postal worker works, a thread receives.\<close>

datatype action =
    ASend "32 word" nat "nat \<Rightarrow> byte" "nat \<Rightarrow> byte" PacketHeader MailHeader "byte list"
  | ASendDone "32 word"
  | ASendEnd "32 word"
  | APoll "32 word"
  | ATake "32 word"
  | APut "32 word"
  | AReceive "32 word" int

datatype event = ESent Mail | EGot "32 word" nat Mail | EOther

text \<open>An action that has to wait gives None. A packet to an address without a socket fails an assertion of the host interface.\<close>

definition act_send :: "nat \<Rightarrow> (nat \<Rightarrow> byte) \<Rightarrow> (nat \<Rightarrow> byte) \<Rightarrow> PacketHeader \<Rightarrow> MailHeader \<Rightarrow> byte list \<Rightarrow> 32 word \<Rightarrow> PostOffice \<Rightarrow> net \<Rightarrow> (event \<times> net) res" where
  "act_send r buf0 pad pktH mailH data a po s =
     bind_res (Send_begin r buf0 pad pktH mailH data po) (\<lambda>(hdr, packet, po1).
     let s1 = s\<lparr>nodes := (nodes s)(a \<mapsto> po1)\<rparr> in
     case packet of
       None \<Rightarrow> Inr (EOther, s1)
     | Some p \<Rightarrow> (case sockets s (pkt_to hdr) of
         None \<Rightarrow> Inl AssertFailed
       | Some q \<Rightarrow> Inr (ESent \<lparr>pktHdr = hdr, mailHdr = mailH, mdata = take (unat (mail_length mailH)) data\<rparr>,
           s1\<lparr>sockets := (sockets s)(pkt_to hdr \<mapsto> q @ [p])\<rparr>)))"

definition act_poll :: "32 word \<Rightarrow> PostOffice \<Rightarrow> net \<Rightarrow> (event \<times> net) res" where
  "act_poll a po s =
     (case sockets s a of
        None \<Rightarrow> Inl BadPointer
      | Some q \<Rightarrow> bind_res (Network_CheckPktAvail (network po) q) (\<lambda>(arrived, net1, q1).
          let po1 = po\<lparr>network := net1\<rparr> in
          Inr (EOther, s\<lparr>nodes := (nodes s)(a \<mapsto> if arrived then IncomingPacket po1 else po1), sockets := (sockets s)(a \<mapsto> q1)\<rparr>)))"

definition act_send_done :: "32 word \<Rightarrow> PostOffice \<Rightarrow> net \<Rightarrow> net" where
  "act_send_done a po s =
     (let net1 = (network po)\<lparr>sendsPending := sendsPending (network po) - 1\<rparr> in
      s\<lparr>nodes := (nodes s)(a \<mapsto> PacketSent (po\<lparr>network := Network_SendDone net1\<rparr>))\<rparr>)"

definition act_receive :: "32 word \<Rightarrow> int \<Rightarrow> PostOffice \<Rightarrow> net \<Rightarrow> (event \<times> net) res option" where
  "act_receive a box po s =
     (case PostOffice_Receive box po of
        Inl e \<Rightarrow> Some (Inl e)
      | Inr None \<Rightarrow> None
      | Inr (Some (mail, po1)) \<Rightarrow> Some (Inr (EGot a (nat box) mail, s\<lparr>nodes := (nodes s)(a \<mapsto> po1)\<rparr>)))"

fun actor :: "action \<Rightarrow> 32 word" where
  "actor (ASend a _ _ _ _ _ _) = a"
| "actor (ASendDone a) = a"
| "actor (ASendEnd a) = a"
| "actor (APoll a) = a"
| "actor (ATake a) = a"
| "actor (APut a) = a"
| "actor (AReceive a _) = a"

fun node_act :: "action \<Rightarrow> PostOffice \<Rightarrow> net \<Rightarrow> (event \<times> net) res option" where
  "node_act (ASend a r buf0 pad pktH mailH data) po s = (if sendLock po then None else Some (act_send r buf0 pad pktH mailH data a po s))"
| "node_act (ASendDone a) po s = (if sendsPending (network po) = 0 then None else Some (Inr (EOther, act_send_done a po s)))"
| "node_act (ASendEnd a) po s = (if messageSent po = 0 then None else Some (Inr (EOther, s\<lparr>nodes := (nodes s)(a \<mapsto> Send_end po)\<rparr>)))"
| "node_act (APoll a) po s = Some (act_poll a po s)"
| "node_act (ATake a) po s = (if worker po \<noteq> None \<or> messageAvailable po = 0 then None
     else Some (bind_res (Delivery_take po) (\<lambda>po1. Inr (EOther, s\<lparr>nodes := (nodes s)(a \<mapsto> po1)\<rparr>))))"
| "node_act (APut a) po s = (case worker po of None \<Rightarrow> None
     | Some hdr \<Rightarrow> Some (bind_res (Delivery_put hdr po) (\<lambda>po1. Inr (EOther, s\<lparr>nodes := (nodes s)(a \<mapsto> po1)\<rparr>))))"
| "node_act (AReceive a box) po s = act_receive a box po s"

definition net_act :: "action \<Rightarrow> net \<Rightarrow> (event \<times> net) res option" where
  "net_act c s = (case nodes s (actor c) of None \<Rightarrow> None | Some po \<Rightarrow> node_act c po s)"

text \<open>Calls that keep to the rules: a message that fits, with all its bytes, to an existing box of an existing machine.\<close>

fun legal :: "32 word set \<Rightarrow> nat \<Rightarrow> action \<Rightarrow> bool" where
  "legal A n (ASend a r buf0 pad pktH mailH data) \<longleftrightarrow> pkt_to pktH \<in> A \<and> 0 \<le> sint (mail_to mailH) \<and> sint (mail_to mailH) < int n \<and>
     unat (mail_length mailH) \<le> MaxMailSize \<and> unat (mail_length mailH) \<le> length data"
| "legal A n (AReceive a box) \<longleftrightarrow> 0 \<le> box \<and> box < int n"
| "legal A n _ \<longleftrightarrow> True"

text \<open>Machines with the addresses \<open>A\<close>, \<open>n\<close> mailboxes each, just started.\<close>

definition net_start :: "32 word set \<Rightarrow> nat \<Rightarrow> net \<Rightarrow> bool" where
  "net_start A n s \<longleftrightarrow> (\<forall>a. if a \<in> A then sockets s a = Some [] \<and> (\<exists>rel hdr0 box0 buf0. nodes s a = Some (PostOffice_PostOffice a rel n hdr0 box0 buf0))
     else nodes s a = None \<and> sockets s a = None)"

inductive net_trace :: "32 word set \<Rightarrow> nat \<Rightarrow> net \<Rightarrow> event list \<Rightarrow> net \<Rightarrow> bool" for A n s where
  start: "net_trace A n s [] s"
| act: "net_trace A n s es s1 \<Longrightarrow> legal A n c \<Longrightarrow> net_act c s1 = Some (Inr (e, s2)) \<Longrightarrow> net_trace A n s (es @ [e]) s2"

subsection \<open>Packets carry mail\<close>

lemma hdr_roundtrip [simp]:
  "pkt_of_bytes (pkt_bytes h @ bs) = h" "mail_of_bytes (mail_bytes m @ bs) = m" "length (pkt_bytes h) = 12" "length (mail_bytes m) = 12"
  by (simp_all add: pkt_of_bytes_def pkt_bytes_def mail_of_bytes_def mail_bytes_def)

text \<open>The mail in the payload of a packet.\<close>

definition payload_mail :: "PacketHeader \<Rightarrow> byte list \<Rightarrow> Mail" where
  "payload_mail hdr bs = \<lparr>pktHdr = hdr, mailHdr = mail_of_bytes bs, mdata = take (unat (mail_length (mail_of_bytes bs))) (drop header_size bs)\<rparr>"

definition packet_mail :: "byte list \<Rightarrow> Mail" where
  "packet_mail p = payload_mail (pkt_of_bytes p) (drop header_size p)"

definition mail_box :: "Mail \<Rightarrow> nat" where
  "mail_box m = nat (sint (mail_to (mailHdr m)))"

text \<open>A packet and a payload as Send makes them.\<close>

definition payload_ok :: "nat \<Rightarrow> PacketHeader \<Rightarrow> byte list \<Rightarrow> bool" where
  "payload_ok n hdr bs \<longleftrightarrow> (let mh = mail_of_bytes bs in 0 \<le> sint (mail_to mh) \<and> sint (mail_to mh) < int n \<and> unat (mail_length mh) \<le> MaxMailSize \<and>
     pkt_length hdr = mail_length mh + 12)"

definition packet_ok :: "32 word \<Rightarrow> nat \<Rightarrow> byte list \<Rightarrow> bool" where
  "packet_ok a n p \<longleftrightarrow> length p = MaxWireSize \<and> pkt_to (pkt_of_bytes p) = a \<and> payload_ok n (pkt_of_bytes p) (drop header_size p)"

lemma take_drop_take: "a + b \<le> k \<Longrightarrow> take b (drop a (take k xs)) = take b (drop a xs)"
  by (simp add: drop_take min_def)

lemma mail_of_prefix: "take k xs = take k ys \<Longrightarrow> 12 \<le> k \<Longrightarrow> mail_of_bytes xs = mail_of_bytes ys"
proof -
  assume e: "take k xs = take k ys" "12 \<le> k"
  have "mail_of_bytes zs = mail_of_bytes (take k zs)" for zs
    using e(2) take_drop_take [of 4 4 k zs] take_drop_take [of 8 4 k zs] by (simp add: mail_of_bytes_def min_def)
  then show ?thesis using e(1) by metis
qed

lemma unat_length: "unat (l :: 32 word) \<le> 40 \<Longrightarrow> unat (l + 12) = unat l + 12" "uint (l :: 32 word) = int (unat l)"
  by (simp_all add: unat_word_ariths)

text \<open>Only the first bytes of a buffer belong to the mail.\<close>

lemma payload_prefix:
  assumes "payload_ok n hdr xs" "take (unat (pkt_length hdr)) xs = take (unat (pkt_length hdr)) ys"
  shows "payload_ok n hdr ys" "payload_mail hdr ys = payload_mail hdr xs"
proof -
  let ?l = "unat (mail_length (mail_of_bytes xs))"
  have l: "unat (pkt_length hdr) = ?l + 12" using assms(1) unat_length(1) by (simp add: payload_ok_def Let_def post_sizes)
  then have e: "mail_of_bytes ys = mail_of_bytes xs" using mail_of_prefix [OF assms(2)] by simp
  then show "payload_ok n hdr ys" using assms(1) by (simp add: payload_ok_def)
  have "take ?l (drop 12 xs) = take ?l (drop 12 ys)"
    using take_drop_take [of 12 ?l "?l + 12" xs] take_drop_take [of 12 ?l "?l + 12" ys] assms(2) unfolding l by simp
  then show "payload_mail hdr ys = payload_mail hdr xs" using e by (simp add: payload_mail_def post_sizes)
qed

text \<open>Copying a payload into a buffer.\<close>

lemma payload_copy:
  assumes "payload_ok n hdr xs" "length xs = 52" "length buf = 52"
  obtains buf1 where "bind_res (get_bytes 0 (uint (pkt_length hdr)) xs) (\<lambda>bs. put_bytes 0 bs buf) = Inr buf1" "length buf1 = 52"
    "payload_ok n hdr buf1" "payload_mail hdr buf1 = payload_mail hdr xs"
proof -
  let ?l = "unat (pkt_length hdr)"
  have l: "?l \<le> 52" using assms(1) unat_length(1) by (simp add: payload_ok_def Let_def post_sizes)
  then have "bind_res (get_bytes 0 (uint (pkt_length hdr)) xs) (\<lambda>bs. put_bytes 0 bs buf) = Inr (take ?l xs @ drop ?l buf)"
    using assms(2,3) by (simp add: get_bytes_def put_bytes_def)
  moreover have "take ?l xs = take ?l (take ?l xs @ drop ?l buf)" using l assms(2) by simp
  from payload_prefix [OF assms(1) this] have "payload_ok n hdr (take ?l xs @ drop ?l buf)" "payload_mail hdr (take ?l xs @ drop ?l buf) = payload_mail hdr xs" .
  ultimately show thesis using that l assms(2,3) by simp
qed

subsection \<open>A post office in order\<close>

definition node_ok :: "32 word \<Rightarrow> nat \<Rightarrow> PostOffice \<Rightarrow> bool" where
  "node_ok a n po \<longleftrightarrow> netAddr po = a \<and> ident (network po) = a \<and> \<not> sendBusy (network po) \<and> numBoxes po = int n \<and> length (boxes po) = n \<and>
     length (inbox (network po)) = 52 \<and> length (buffer po) = 52 \<and>
     messageAvailable po = (if pkt_length (inHdr (network po)) = 0 then 0 else 1) \<and>
     (pkt_length (inHdr (network po)) \<noteq> 0 \<longrightarrow> payload_ok n (inHdr (network po)) (inbox (network po))) \<and>
     (\<forall>hdr. worker po = Some hdr \<longrightarrow> payload_ok n hdr (buffer po)) \<and>
     (\<forall>b \<in> set (boxes po). \<forall>m \<in> set b. unat (mail_length (mailHdr m)) \<le> MaxMailSize)"

text \<open>The mail on its way to a box, the oldest first: in the box, with the worker, in the device, in the socket.\<close>

definition arriving :: "PostOffice \<Rightarrow> byte list list \<Rightarrow> Mail list" where
  "arriving po q = (case worker po of None \<Rightarrow> [] | Some hdr \<Rightarrow> [payload_mail hdr (buffer po)]) @
     (if pkt_length (inHdr (network po)) = 0 then [] else [payload_mail (inHdr (network po)) (inbox (network po))]) @ map packet_mail q"

definition transit :: "PostOffice \<Rightarrow> byte list list \<Rightarrow> nat \<Rightarrow> Mail list" where
  "transit po q k = boxes po ! k @ filter (\<lambda>m. mail_box m = k) (arriving po q)"

lemma Send_begin_ok:
  assumes po: "node_ok a n po" and c: "legal A n (ASend a r buf0 pad pktH mailH data)"
  obtains hdr packet po1 where "Send_begin r buf0 pad pktH mailH data po = Inr (hdr, packet, po1)" "node_ok a n po1" "pkt_to hdr = pkt_to pktH"
    "\<And>q. arriving po1 q = arriving po q" "boxes po1 = boxes po"
    "\<And>p. packet = Some p \<Longrightarrow> packet_ok (pkt_to pktH) n p \<and>
      packet_mail p = \<lparr>pktHdr = hdr, mailHdr = mailH, mdata = take (unat (mail_length mailH)) data\<rparr>"
proof -
  let ?l = "unat (mail_length mailH)" and ?hdr = "pktH\<lparr>pkt_from := netAddr po, pkt_length := mail_length mailH + 12\<rparr>"
  have l: "?l \<le> 40" "?l \<le> length data" "unat (mail_length mailH + 12) = ?l + 12"
    using c unat_length(1) by (simp_all add: post_sizes)
  let ?buf = "mail_bytes mailH @ take ?l data @ drop (?l + 12) (map buf0 [0..<52])"
  have buf: "put_bytes 0 (mail_bytes mailH) (map buf0 [0..<52]) = Inr (mail_bytes mailH @ drop 12 (map buf0 [0..<52]))"
    "get_bytes 0 (uint (mail_length mailH)) data = Inr (take ?l data)"
    "put_bytes 12 (take ?l data) (mail_bytes mailH @ drop 12 (map buf0 [0..<52])) = Inr ?buf"
    using l(1,2) by (simp_all add: put_bytes_def get_bytes_def min_def)
  let ?pad = "pkt_bytes ?hdr @ take (?l + 12) ?buf @ drop (24 + ?l) (map pad [0..<64])"
  have pack: "get_bytes 0 (uint (mail_length mailH + 12)) ?buf = Inr (take (?l + 12) ?buf)"
    "put_bytes 0 (pkt_bytes ?hdr) (map pad [0..<64]) = Inr (pkt_bytes ?hdr @ drop 12 (map pad [0..<64]))"
    "put_bytes 12 (take (?l + 12) ?buf) (pkt_bytes ?hdr @ drop 12 (map pad [0..<64])) = Inr ?pad"
    using l by (simp_all add: put_bytes_def get_bytes_def min_def)
  have z: "0 < mail_length mailH + 12" using l(3) by (simp add: word_less_nat_alt)
  have mb: "mail_of_bytes (drop 12 ?pad) = mailH" "take ?l (drop 12 (drop 12 ?pad)) = take ?l data" "pkt_of_bytes ?pad = ?hdr"
    using l by (simp_all add: min_def)
  have P: "packet_ok (pkt_to pktH) n ?pad" "packet_mail ?pad = \<lparr>pktHdr = ?hdr, mailHdr = mailH, mdata = take ?l data\<rparr>"
    unfolding packet_ok_def packet_mail_def payload_ok_def payload_mail_def Let_def header_size_def mb
    using c l by (simp_all add: post_sizes min_def)
  have S: "Send_begin r buf0 pad pktH mailH data po = Inr (?hdr, if of_nat (r mod 100) \<ge> chanceToWork (network po) * 100 then None else Some ?pad,
      po\<lparr>sendLock := True, network := (network po)\<lparr>sendsPending := sendsPending (network po) + 1\<rparr>\<rparr>)"
    using c po buf pack z l by (simp add: Send_begin_def Network_Send_def node_ok_def post_sizes Let_def del: append.simps)
  have N: "node_ok a n (po\<lparr>sendLock := True, network := (network po)\<lparr>sendsPending := sendsPending (network po) + 1\<rparr>\<rparr>)"
    using po by (simp add: node_ok_def)
  show thesis by (rule that [OF S N]) (use P in \<open>auto simp: arriving_def split: if_splits option.splits\<close>)
qed

lemma CheckPktAvail_ok:
  assumes po: "node_ok a n po" and q: "list_all (packet_ok a n) q"
  obtains arrived net1 q1 where "Network_CheckPktAvail (network po) q = Inr (arrived, net1, q1)"
    "node_ok a n (if arrived then IncomingPacket (po\<lparr>network := net1\<rparr>) else po\<lparr>network := net1\<rparr>)" "list_all (packet_ok a n) q1"
    "arriving (po\<lparr>network := net1\<rparr>) q1 = arriving po q" "arrived \<longleftrightarrow> pkt_length (inHdr (network po)) = 0 \<and> q \<noteq> []"
    "arrived \<Longrightarrow> q1 = tl q"
proof (cases "pkt_length (inHdr (network po)) \<noteq> 0 \<or> q = []")
  case True
  then show ?thesis using that [of False "network po" q] po q by (auto simp: Network_CheckPktAvail_def)
next
  case False
  then obtain p q1 where p: "q = p # q1" "packet_ok a n p" "list_all (packet_ok a n) q1" using q by (cases q) auto
  let ?hdr = "pkt_of_bytes p" and ?net = "network po"
  have h: "length p = 64" "pkt_to ?hdr = a" "payload_ok n ?hdr (drop 12 p)" using p(2) by (simp_all add: packet_ok_def post_sizes)
  have l: "unat (pkt_length ?hdr) \<le> 52" "unat (pkt_length ?hdr) \<ge> 12" using h(3) unat_length(1) by (simp_all add: payload_ok_def Let_def post_sizes)
  have po': "ident ?net = a" "length (inbox ?net) = 52" using po by (simp_all add: node_ok_def)
  obtain box where box: "bind_res (get_bytes 0 (uint (pkt_length ?hdr)) (drop 12 p)) (\<lambda>bs. put_bytes 0 bs (inbox ?net)) = Inr box" "length box = 52"
    "payload_ok n ?hdr box" "payload_mail ?hdr box = payload_mail ?hdr (drop 12 p)"
    by (rule payload_copy [OF h(3) _ po'(2)]) (use h(1) in simp)
  have g: "get_bytes 12 (uint (pkt_length ?hdr)) p = get_bytes 0 (uint (pkt_length ?hdr)) (drop 12 p)"
    using h(1) l(1) by (simp add: get_bytes_def)
  let ?net1 = "?net\<lparr>inHdr := ?hdr, inbox := box, numPacketsRecvd := numPacketsRecvd ?net + 1\<rparr>"
  have C: "Network_CheckPktAvail ?net q = Inr (True, ?net1, q1)"
    using False p(1) h(1,2) l(1) po'(1) box(1) by (simp add: Network_CheckPktAvail_def post_sizes Let_def g bind_res_Inr_iff)
  have z: "pkt_length ?hdr \<noteq> 0" using l(2) by auto
  show ?thesis
  proof (rule that [OF C])
    show "node_ok a n (if True then IncomingPacket (po\<lparr>network := ?net1\<rparr>) else po\<lparr>network := ?net1\<rparr>)"
      using po False z box(2,3) by (simp add: node_ok_def IncomingPacket_def)
    show "arriving (po\<lparr>network := ?net1\<rparr>) q1 = arriving po q"
      using False z p(1) box(4) by (simp add: arriving_def packet_mail_def header_size_def split: option.split)
  qed (use p False in auto)
qed

lemma Delivery_take_ok:
  assumes po: "node_ok a n po" and w: "worker po = None" "messageAvailable po \<noteq> 0"
  obtains po1 hdr where "Delivery_take po = Inr po1" "node_ok a n po1" "arriving po1 q = arriving po q" "boxes po1 = boxes po" "worker po1 = Some hdr"
    "pkt_length (inHdr (network po1)) = 0"
proof -
  let ?hdr = "inHdr (network po)"
  have h: "pkt_length ?hdr \<noteq> 0" "payload_ok n ?hdr (inbox (network po))" "length (inbox (network po)) = 52" "length (buffer po) = 52" "messageAvailable po = 1"
    using po w(2) by (simp_all add: node_ok_def split: if_splits)
  obtain buf where buf: "bind_res (get_bytes 0 (uint (pkt_length ?hdr)) (inbox (network po))) (\<lambda>bs. put_bytes 0 bs (buffer po)) = Inr buf" "length buf = 52"
    "payload_ok n ?hdr buf" "payload_mail ?hdr buf = payload_mail ?hdr (inbox (network po))"
    by (rule payload_copy [OF h(2-4)])
  let ?po1 = "po\<lparr>messageAvailable := messageAvailable po - 1, network := (network po)\<lparr>inHdr := ?hdr\<lparr>pkt_length := 0\<rparr>\<rparr>, buffer := buf, worker := Some ?hdr\<rparr>"
  have "Delivery_take po = Inr ?po1"
    using h(1) buf(1) by (auto simp: Delivery_take_def Network_Receive_def Let_def bind_res_Inr_iff)
  moreover have "node_ok a n ?po1" using po buf(2,3) h(5) by (simp add: node_ok_def)
  moreover have "arriving ?po1 q = arriving po q" using h(1) w(1) buf(4) by (simp add: arriving_def)
  ultimately show thesis using that by simp
qed

lemma Delivery_put_ok:
  assumes po: "node_ok a n po" and w: "worker po = Some hdr"
  obtains po1 where "Delivery_put hdr po = Inr po1" "node_ok a n po1" "\<And>k q. k < n \<Longrightarrow> transit po1 q k = transit po q k"
    "worker po1 = None" "network po1 = network po" "arriving po q = payload_mail hdr (buffer po) # arriving po1 q"
proof -
  let ?mh = "mail_of_bytes (buffer po)"
  let ?i = "nat (sint (mail_to ?mh))" and ?m = "payload_mail hdr (buffer po)"
  have h: "payload_ok n hdr (buffer po)" "length (boxes po) = n" "numBoxes po = int n" "length (buffer po) = 52" using po w by (simp_all add: node_ok_def)
  then have i: "0 \<le> sint (mail_to ?mh)" "sint (mail_to ?mh) < int n" "unat (mail_length ?mh) \<le> 40" "?i < n"
    by (simp_all add: payload_ok_def Let_def post_sizes nat_less_iff)
  have "Mail_Mail hdr ?mh (drop 12 (buffer po)) = Inr ?m"
    using i(3) h(4) by (simp add: Mail_Mail_def get_bytes_def payload_mail_def post_sizes)
  then have D: "Delivery_put hdr po = Inr (po\<lparr>boxes := (boxes po)[?i := boxes po ! ?i @ [?m]], worker := None\<rparr>)"
    using i h(2,3) by (simp add: Delivery_put_def MailBox_Put_def Let_def post_sizes)
  have bi: "boxes po ! ?i \<in> set (boxes po)" using i(4) h(2) by simp
  have old: "\<forall>b \<in> set (boxes po). \<forall>m \<in> set b. unat (mail_length (mailHdr m)) \<le> MaxMailSize" using po by (simp add: node_ok_def)
  have "\<forall>b \<in> set ((boxes po)[?i := boxes po ! ?i @ [?m]]). \<forall>m \<in> set b. unat (mail_length (mailHdr m)) \<le> MaxMailSize"
    using old bi i(3) by (auto simp: payload_mail_def post_sizes dest!: subsetD [OF set_update_subset_insert])
  then have N: "node_ok a n (po\<lparr>boxes := (boxes po)[?i := boxes po ! ?i @ [?m]], worker := None\<rparr>)" using po by (simp add: node_ok_def)
  have m: "mail_box ?m = ?i" by (simp add: mail_box_def payload_mail_def)
  show thesis
    by (rule that [OF D N]) (use w h(2) m in \<open>auto simp: transit_def arriving_def nth_list_update\<close>)
qed

lemma Receive_ok:
  assumes po: "node_ok a n po" and b: "0 \<le> box" "box < int n"
  shows "PostOffice_Receive box po = (case boxes po ! nat box of [] \<Rightarrow> Inr None | m # ms \<Rightarrow> Inr (Some (m, po\<lparr>boxes := (boxes po)[nat box := ms]\<rparr>)))"
    "boxes po ! nat box = m # ms \<Longrightarrow> node_ok a n (po\<lparr>boxes := (boxes po)[nat box := ms]\<rparr>)"
proof -
  have l: "nat box < length (boxes po)" "numBoxes po = int n" "boxes po ! nat box \<in> set (boxes po)" using po b by (simp_all add: node_ok_def)
  then have s: "\<forall>m \<in> set (boxes po ! nat box). unat (mail_length (mailHdr m)) \<le> MaxMailSize" using po by (auto simp: node_ok_def)
  then show "PostOffice_Receive box po = (case boxes po ! nat box of [] \<Rightarrow> Inr None | m # ms \<Rightarrow> Inr (Some (m, po\<lparr>boxes := (boxes po)[nat box := ms]\<rparr>)))"
    using b l by (cases "boxes po ! nat box") (simp_all add: PostOffice_Receive_def)
  assume "boxes po ! nat box = m # ms"
  then show "node_ok a n (po\<lparr>boxes := (boxes po)[nat box := ms]\<rparr>)"
    using po s by (auto simp: node_ok_def dest!: subsetD [OF set_update_subset_insert])
qed

subsection \<open>A network in order\<close>

definition net_ok :: "32 word set \<Rightarrow> nat \<Rightarrow> net \<Rightarrow> bool" where
  "net_ok A n s \<longleftrightarrow> (\<forall>a. if a \<in> A then \<exists>po q. nodes s a = Some po \<and> sockets s a = Some q \<and> node_ok a n po \<and> list_all (packet_ok a n) q
     else nodes s a = None \<and> sockets s a = None)"

text \<open>The mail on its way to box \<open>k\<close> of machine \<open>b\<close>.\<close>

definition on_the_way :: "net \<Rightarrow> 32 word \<Rightarrow> nat \<Rightarrow> Mail list" where
  "on_the_way s b k = transit (the (nodes s b)) (the (sockets s b)) k"

fun sent_by :: "event \<Rightarrow> 32 word \<Rightarrow> nat \<Rightarrow> Mail list" where
  "sent_by (ESent m) b k = (if pkt_to (pktHdr m) = b \<and> mail_box m = k then [m] else [])"
| "sent_by _ b k = []"

fun got_by :: "event \<Rightarrow> 32 word \<Rightarrow> nat \<Rightarrow> Mail list" where
  "got_by (EGot a i m) b k = (if a = b \<and> i = k then [m] else [])"
| "got_by _ b k = []"

definition sent :: "event list \<Rightarrow> 32 word \<Rightarrow> nat \<Rightarrow> Mail list" where
  "sent es b k = concat (map (\<lambda>e. sent_by e b k) es)"

definition got :: "event list \<Rightarrow> 32 word \<Rightarrow> nat \<Rightarrow> Mail list" where
  "got es b k = concat (map (\<lambda>e. got_by e b k) es)"

lemma log_append: "got (es @ es') b k = got es b k @ got es' b k" "sent (es @ es') b k = sent es b k @ sent es' b k"
  by (simp_all add: got_def sent_def)

definition balance :: "32 word set \<Rightarrow> nat \<Rightarrow> net \<Rightarrow> event \<Rightarrow> net \<Rightarrow> bool" where
  "balance A n s e s' \<longleftrightarrow> (\<forall>b \<in> A. \<forall>k < n. got_by e b k @ on_the_way s' b k = on_the_way s b k @ sent_by e b k)"

lemma net_okD:
  assumes "net_ok A n s" "a \<in> A"
  obtains po q where "nodes s a = Some po" "sockets s a = Some q" "node_ok a n po" "list_all (packet_ok a n) q"
  using assms by (auto simp: net_ok_def split: if_splits)

lemma net_ok_member: "net_ok A n s \<Longrightarrow> nodes s a = Some po \<Longrightarrow> a \<in> A"
  by (auto simp: net_ok_def split: if_splits)

text \<open>A step of one machine that sends nothing.\<close>

definition set_node :: "32 word \<Rightarrow> PostOffice \<Rightarrow> byte list list \<Rightarrow> net \<Rightarrow> net" where
  "set_node a po q s = s\<lparr>nodes := (nodes s)(a \<mapsto> po), sockets := (sockets s)(a \<mapsto> q)\<rparr>"

lemma set_node_socket: "sockets s a = Some q \<Longrightarrow> s\<lparr>nodes := (nodes s)(a \<mapsto> po)\<rparr> = set_node a po q s"
  by (simp add: set_node_def fun_upd_idem)

lemma set_node_ok:
  assumes "net_ok A n s" "a \<in> A" "node_ok a n po" "list_all (packet_ok a n) q"
  shows "net_ok A n (set_node a po q s)"
  unfolding net_ok_def
proof
  fix b
  show "if b \<in> A then \<exists>po' q'. nodes (set_node a po q s) b = Some po' \<and> sockets (set_node a po q s) b = Some q' \<and> node_ok b n po' \<and> list_all (packet_ok b n) q'
     else nodes (set_node a po q s) b = None \<and> sockets (set_node a po q s) b = None"
    using spec [OF assms(1) [unfolded net_ok_def], of b] assms(2-4) by (cases "b = a") (auto simp: set_node_def split: if_splits)
qed

lemma set_node_way: "on_the_way (set_node a po q s) b k = (if b = a then transit po q k else on_the_way s b k)"
  by (simp add: on_the_way_def set_node_def)

lemma node_step:
  assumes s: "net_ok A n s" and a: "nodes s a = Some po" "sockets s a = Some q" and po: "node_ok a n po1" and q: "list_all (packet_ok a n) q1"
    and t: "\<And>k. k < n \<Longrightarrow> got_by e a k @ transit po1 q1 k = transit po q k" and e: "\<And>b k. sent_by e b k = []" "\<And>b k. b \<noteq> a \<Longrightarrow> got_by e b k = []"
  shows "net_ok A n (set_node a po1 q1 s)" "balance A n s e (set_node a po1 q1 s)"
proof -
  have "a \<in> A" by (rule net_ok_member [OF s a(1)])
  from set_node_ok [OF s this po q] show "net_ok A n (set_node a po1 q1 s)" .
  have "on_the_way s a k = transit po q k" for k using a by (simp add: on_the_way_def)
  then show "balance A n s e (set_node a po1 q1 s)" using t e by (auto simp: balance_def set_node_way)
qed

lemma send_step:
  assumes s: "net_ok A n s" and a: "nodes s a = Some po" and c: "legal A n (ASend a r buf0 pad pktH mailH data)"
  shows "\<exists>e s'. act_send r buf0 pad pktH mailH data a po s = Inr (e, s') \<and> net_ok A n s' \<and> balance A n s e s'"
proof -
  have A: "a \<in> A" "pkt_to pktH \<in> A" using net_ok_member [OF s a] c by simp_all
  obtain q where q: "sockets s a = Some q" "node_ok a n po" "list_all (packet_ok a n) q" using net_okD [OF s A(1)] a by auto
  obtain hdr packet po1 where B: "Send_begin r buf0 pad pktH mailH data po = Inr (hdr, packet, po1)" "node_ok a n po1" "pkt_to hdr = pkt_to pktH"
    "\<And>q. arriving po1 q = arriving po q" "boxes po1 = boxes po"
    "\<And>p. packet = Some p \<Longrightarrow> packet_ok (pkt_to pktH) n p \<and>
      packet_mail p = \<lparr>pktHdr = hdr, mailHdr = mailH, mdata = take (unat (mail_length mailH)) data\<rparr>"
    by (rule Send_begin_ok [OF q(2) c]) blast
  have t: "transit po1 q k = transit po q k" for q k using B(4,5) by (simp add: transit_def)
  let ?s1 = "set_node a po1 q s"
  have s1: "net_ok A n ?s1" "balance A n s EOther ?s1"
    using node_step [OF s a q(1) B(2) q(3), of EOther] t by simp_all
  show ?thesis
  proof (cases packet)
    case None
    then have "act_send r buf0 pad pktH mailH data a po s = Inr (EOther, ?s1)" using B(1) q(1) by (simp add: act_send_def set_node_socket)
    then show ?thesis using s1 by blast
  next
    case (Some p)
    let ?b = "pkt_to pktH" and ?m = "packet_mail p"
    obtain po2 q2 where b: "nodes ?s1 ?b = Some po2" "sockets ?s1 ?b = Some q2" "node_ok ?b n po2" "list_all (packet_ok ?b n) q2"
      by (rule net_okD [OF s1(1) A(2)])
    have sb: "sockets s ?b = Some q2" using b(2) q(1) by (auto simp: set_node_def split: if_splits)
    have p: "packet_ok ?b n p" "?m = \<lparr>pktHdr = hdr, mailHdr = mailH, mdata = take (unat (mail_length mailH)) data\<rparr>" using B(6) Some by auto
    let ?s2 = "?s1\<lparr>sockets := (sockets ?s1)(?b \<mapsto> q2 @ [p])\<rparr>"
    have e: "?s2 = set_node ?b po2 (q2 @ [p]) ?s1" using b(1) by (simp add: set_node_def fun_upd_idem)
    have "s\<lparr>nodes := (nodes s)(a \<mapsto> po1), sockets := (sockets s)(?b \<mapsto> q2 @ [p])\<rparr> = ?s2"
      using q(1) by (simp add: set_node_def fun_upd_idem)
    then have "act_send r buf0 pad pktH mailH data a po s = Inr (ESent ?m, ?s2)"
      using B(1,3) Some sb p(2) by (simp add: act_send_def)
    moreover have "net_ok A n ?s2" unfolding e by (rule set_node_ok [OF s1(1) A(2) b(3)]) (use b(4) p(1) in simp)
    moreover have "balance A n s (ESent ?m) ?s2"
    proof -
      have "transit po2 (q2 @ [p]) k = on_the_way ?s1 ?b k @ sent_by (ESent ?m) ?b k" for k
        using b(1,2) B(3) p(2) by (simp add: on_the_way_def transit_def arriving_def)
      moreover have "sent_by (ESent ?m) b k = []" if "b \<noteq> ?b" for b k using that B(3) p(2) by simp
      ultimately show ?thesis using s1(2) unfolding e balance_def set_node_way by auto
    qed
    ultimately show ?thesis by blast
  qed
qed

text \<open>The state of a machine with its socket.\<close>

definition at_node :: "net \<Rightarrow> 32 word \<Rightarrow> PostOffice \<Rightarrow> byte list list \<Rightarrow> nat \<Rightarrow> bool" where
  "at_node s a po q n \<longleftrightarrow> nodes s a = Some po \<and> sockets s a = Some q \<and> node_ok a n po \<and> list_all (packet_ok a n) q"

lemma quiet_step:
  assumes "net_ok A n s" "at_node s a po q n" "node_ok a n po1" "list_all (packet_ok a n) q1" "\<And>k. k < n \<Longrightarrow> transit po1 q1 k = transit po q k"
  shows "net_ok A n (set_node a po1 q1 s)" "balance A n s EOther (set_node a po1 q1 s)"
  using node_step [OF assms(1) _ _ assms(3,4), of po q EOther] assms(2,5) by (simp_all add: at_node_def)

lemma incoming_simps [simp]: "arriving (IncomingPacket po) q = arriving po q" "boxes (IncomingPacket po) = boxes po" "worker (IncomingPacket po) = worker po"
  "messageAvailable (IncomingPacket po) \<noteq> 0"
  by (simp_all add: IncomingPacket_def arriving_def split: option.split)

lemma poll_step:
  assumes s: "net_ok A n s" and a: "at_node s a po q n"
  obtains po1 q1 where "act_poll a po s = Inr (EOther, set_node a po1 q1 s)" "net_ok A n (set_node a po1 q1 s)" "balance A n s EOther (set_node a po1 q1 s)"
    "pkt_length (inHdr (network po)) = 0 \<Longrightarrow> q \<noteq> [] \<Longrightarrow> q1 = tl q \<and> messageAvailable po1 \<noteq> 0 \<and> worker po1 = worker po"
proof -
  have a': "nodes s a = Some po" "sockets s a = Some q" "node_ok a n po" "list_all (packet_ok a n) q" using a by (simp_all add: at_node_def)
  obtain arrived net1 q1 where C: "Network_CheckPktAvail (network po) q = Inr (arrived, net1, q1)"
    "node_ok a n (if arrived then IncomingPacket (po\<lparr>network := net1\<rparr>) else po\<lparr>network := net1\<rparr>)" "list_all (packet_ok a n) q1"
    "arriving (po\<lparr>network := net1\<rparr>) q1 = arriving po q" "arrived \<longleftrightarrow> pkt_length (inHdr (network po)) = 0 \<and> q \<noteq> []" "arrived \<Longrightarrow> q1 = tl q"
    by (rule CheckPktAvail_ok [OF a'(3,4)]) blast
  let ?po1 = "if arrived then IncomingPacket (po\<lparr>network := net1\<rparr>) else po\<lparr>network := net1\<rparr>"
  have "transit ?po1 q1 k = transit po q k" for k
    using C(4) by (cases arrived) (simp_all add: transit_def)
  note Q = quiet_step [OF s a C(2,3) this]
  have "act_poll a po s = Inr (EOther, set_node a ?po1 q1 s)" using a'(2) C(1) by (simp add: act_poll_def set_node_def Let_def)
  then show thesis by (rule that [OF _ Q]) (use C(5,6) in auto)
qed

lemma take_step:
  assumes s: "net_ok A n s" and a: "at_node s a po q n" and w: "worker po = None" "messageAvailable po \<noteq> 0"
  obtains po1 hdr where "Delivery_take po = Inr po1" "net_ok A n (set_node a po1 q s)" "balance A n s EOther (set_node a po1 q s)" "worker po1 = Some hdr"
    "pkt_length (inHdr (network po1)) = 0"
proof -
  have a': "node_ok a n po" "list_all (packet_ok a n) q" using a by (simp_all add: at_node_def)
  obtain po1 hdr where T: "Delivery_take po = Inr po1" "node_ok a n po1" "arriving po1 q = arriving po q" "boxes po1 = boxes po" "worker po1 = Some hdr"
    "pkt_length (inHdr (network po1)) = 0" by (rule Delivery_take_ok [OF a'(1) w])
  have "transit po1 q k = transit po q k" for k using T(3,4) by (simp add: transit_def)
  from quiet_step [OF s a T(2) a'(2) this] show thesis using that T by blast
qed

lemma put_step:
  assumes s: "net_ok A n s" and a: "at_node s a po q n" and w: "worker po = Some hdr"
  obtains po1 where "Delivery_put hdr po = Inr po1" "net_ok A n (set_node a po1 q s)" "balance A n s EOther (set_node a po1 q s)" "worker po1 = None"
    "network po1 = network po"
proof -
  have a': "node_ok a n po" "list_all (packet_ok a n) q" using a by (simp_all add: at_node_def)
  obtain po1 where T: "Delivery_put hdr po = Inr po1" "node_ok a n po1" "\<And>k q. k < n \<Longrightarrow> transit po1 q k = transit po q k"
    "worker po1 = None" "network po1 = network po" by (rule Delivery_put_ok [OF a'(1) w]) blast
  from quiet_step [OF s a T(2) a'(2) T(3)] show thesis using that T by blast
qed

lemma receive_step:
  assumes s: "net_ok A n s" and a: "at_node s a po q n" and b: "0 \<le> box" "box < int n"
  shows "act_receive a box po s = None \<or> (\<exists>e s'. act_receive a box po s = Some (Inr (e, s')) \<and> net_ok A n s' \<and> balance A n s e s')"
proof (cases "boxes po ! nat box")
  case Nil
  then show ?thesis using Receive_ok(1) [OF _ b, of a po] a by (simp add: act_receive_def at_node_def)
next
  case (Cons m ms)
  have a': "nodes s a = Some po" "sockets s a = Some q" "node_ok a n po" "list_all (packet_ok a n) q" using a by (simp_all add: at_node_def)
  let ?po1 = "po\<lparr>boxes := (boxes po)[nat box := ms]\<rparr>"
  have l: "nat box < length (boxes po)" using a'(3) b by (simp add: node_ok_def)
  have R: "act_receive a box po s = Some (Inr (EGot a (nat box) m, set_node a ?po1 q s))"
    using Receive_ok(1) [OF a'(3) b] Cons a'(2) by (simp add: act_receive_def set_node_socket)
  have "arriving ?po1 q = arriving po q" by (simp add: arriving_def split: option.split)
  then have "got_by (EGot a (nat box) m) a k @ transit ?po1 q k = transit po q k" for k
    using Cons l by (auto simp: transit_def nth_list_update)
  from node_step [OF s a'(1,2) Receive_ok(2) [OF a'(3) b Cons] a'(4), of "EGot a (nat box) m"] this show ?thesis using R by auto
qed

lemma act_step:
  assumes s: "net_ok A n s" and c: "legal A n c"
  shows "net_act c s = None \<or> (\<exists>e s'. net_act c s = Some (Inr (e, s')) \<and> net_ok A n s' \<and> balance A n s e s')"
proof (cases "nodes s (actor c)")
  case None
  then show ?thesis by (simp add: net_act_def)
next
  case (Some po)
  then have A: "actor c \<in> A" by (rule net_ok_member [OF s])
  obtain q where a: "at_node s (actor c) po q n" using net_okD [OF s A] Some by (auto simp: at_node_def)
  then have q: "sockets s (actor c) = Some q" "node_ok (actor c) n po" "list_all (packet_ok (actor c) n) q" by (simp_all add: at_node_def)
  have same: "net_ok A n (s\<lparr>nodes := (nodes s)(actor c \<mapsto> po1)\<rparr>) \<and> balance A n s EOther (s\<lparr>nodes := (nodes s)(actor c \<mapsto> po1)\<rparr>)"
    if "node_ok (actor c) n po1" "boxes po1 = boxes po" "arriving po1 q = arriving po q" for po1
    unfolding set_node_socket [OF q(1)] using quiet_step [OF s a that(1) q(3)] that(2,3) by (simp add: transit_def)
  have "node_act c po s = None \<or> (\<exists>e s'. node_act c po s = Some (Inr (e, s')) \<and> net_ok A n s' \<and> balance A n s e s')"
  proof (cases c)
    case (ASend a' r buf0 pad pktH mailH data)
    then show ?thesis using send_step [OF s _ c [unfolded ASend]] Some by simp
  next
    case (ASendDone a')
    then show ?thesis using same [of "PacketSent (po\<lparr>network := Network_SendDone ((network po)\<lparr>sendsPending := sendsPending (network po) - 1\<rparr>)\<rparr>)"] q(2)
      by (simp add: act_send_done_def Let_def PacketSent_def Network_SendDone_def node_ok_def arriving_def split: option.split)
  next
    case (ASendEnd a')
    then show ?thesis using same [of "Send_end po"] q(2) by (simp add: Send_end_def node_ok_def arriving_def split: option.split)
  next
    case (APoll a')
    then show ?thesis using poll_step [OF s a] by (metis actor.simps(4) node_act.simps(4))
  next
    case (ATake a')
    then show ?thesis using take_step [OF s a] set_node_socket [OF q(1)] by (cases "worker po = None \<and> messageAvailable po \<noteq> 0") fastforce+
  next
    case (APut a')
    then show ?thesis using put_step [OF s a] set_node_socket [OF q(1)] by (cases "worker po") fastforce+
  next
    case (AReceive a' box)
    then show ?thesis using receive_step [OF s a, of box] c by simp
  qed
  then show ?thesis using Some by (simp add: net_act_def)
qed

subsection \<open>Traces\<close>

lemma start_ok: "net_start A n s \<Longrightarrow> net_ok A n s"
  unfolding net_ok_def
proof
  fix a assume s: "net_start A n s"
  have p: "node_ok a n (PostOffice_PostOffice a rel n hdr0 box0 buf0)" for rel hdr0 box0 buf0
    by (auto simp: node_ok_def PostOffice_PostOffice_def Network_Network_def post_sizes)
  show "if a \<in> A then \<exists>po q. nodes s a = Some po \<and> sockets s a = Some q \<and> node_ok a n po \<and> list_all (packet_ok a n) q
     else nodes s a = None \<and> sockets s a = None"
    using spec [OF s [unfolded net_start_def], of a] p by (auto split: if_splits)
qed

lemma start_way: "net_start A n s \<Longrightarrow> b \<in> A \<Longrightarrow> k < n \<Longrightarrow> on_the_way s b k = []"
proof -
  assume s: "net_start A n s" and b: "b \<in> A" "k < n"
  have "sockets s b = Some []" "\<exists>rel hdr0 box0 buf0. nodes s b = Some (PostOffice_PostOffice b rel n hdr0 box0 buf0)"
    using spec [OF s [unfolded net_start_def], of b] b(1) by simp_all
  then show ?thesis using b(2) by (auto simp: on_the_way_def transit_def arriving_def PostOffice_PostOffice_def Network_Network_def)
qed

lemma trace_inv:
  assumes "net_trace A n s0 es s" "net_start A n s0"
  shows "net_ok A n s \<and> (\<forall>b \<in> A. \<forall>k < n. got es b k @ on_the_way s b k = sent es b k)"
  using assms
proof induction
  case start
  then show ?case using start_ok start_way by (simp add: got_def sent_def)
next
  case (act es s1 c e s2)
  then have s1: "net_ok A n s1" and I: "\<And>b k. b \<in> A \<Longrightarrow> k < n \<Longrightarrow> got es b k @ on_the_way s1 b k = sent es b k" by auto
  have s2: "net_ok A n s2" "balance A n s1 e s2" using act_step [OF s1 act.hyps(2)] act.hyps(3) by auto
  have "got (es @ [e]) b k @ on_the_way s2 b k = sent (es @ [e]) b k" if b: "b \<in> A" "k < n" for b k
  proof -
    have "got_by e b k @ on_the_way s2 b k = on_the_way s1 b k @ sent_by e b k" using s2(2) b by (simp add: balance_def)
    then show ?thesis using I [OF b] by (simp add: got_def sent_def)
  qed
  then show ?case using s2(1) by blast
qed

text \<open>What is left to do for the machine \<open>b\<close> to bring its mail into the boxes.\<close>

definition work :: "PostOffice \<Rightarrow> byte list list \<Rightarrow> nat" where
  "work po q = 3 * length q + (if pkt_length (inHdr (network po)) = 0 then 0 else 2) + (if worker po = None then 0 else 1)"

lemma work_done: "work po q = 0 \<Longrightarrow> arriving po q = []"
  by (simp add: work_def arriving_def split: if_splits)

lemma work_step:
  assumes s: "net_ok A n s" and a: "at_node s a po q n" and w: "work po q \<noteq> 0"
  shows "\<exists>c s' po' q'. legal A n c \<and> net_act c s = Some (Inr (EOther, s')) \<and> net_ok A n s' \<and> at_node s' a po' q' n \<and> work po' q' < work po q"
proof -
  have a': "nodes s a = Some po" "sockets s a = Some q" "node_ok a n po" "list_all (packet_ok a n) q" using a by (simp_all add: at_node_def)
  have at: "at_node (set_node a po1 q1 s) a po1 q1 n" if "net_ok A n (set_node a po1 q1 s)" for po1 q1
    using net_okD [OF that net_ok_member [OF s a'(1)]] by (auto simp: at_node_def set_node_def)
  consider hdr where "worker po = Some hdr" | "worker po = None" "pkt_length (inHdr (network po)) \<noteq> 0"
    | "worker po = None" "pkt_length (inHdr (network po)) = 0" "q \<noteq> []" using w by (fastforce simp: work_def split: if_splits)
  then show ?thesis
  proof cases
    case 1
    obtain po1 where P: "Delivery_put hdr po = Inr po1" "net_ok A n (set_node a po1 q s)" "worker po1 = None" "network po1 = network po"
      by (rule put_step [OF s a 1])
    have "net_act (APut a) s = Some (Inr (EOther, set_node a po1 q s))" using a'(1,2) 1 P(1) by (simp add: net_act_def set_node_socket)
    moreover have "work po1 q < work po q" using P(3,4) 1 by (simp add: work_def)
    ultimately show ?thesis using P(2) at [OF P(2)] by (intro exI [of _ "APut a"]) auto
  next
    case 2
    then have m: "messageAvailable po \<noteq> 0" using a'(3) by (simp add: node_ok_def)
    obtain po1 hdr where P: "Delivery_take po = Inr po1" "net_ok A n (set_node a po1 q s)" "worker po1 = Some hdr" "pkt_length (inHdr (network po1)) = 0"
      by (rule take_step [OF s a 2(1) m])
    have "net_act (ATake a) s = Some (Inr (EOther, set_node a po1 q s))" using a'(1,2) 2 m P(1) by (simp add: net_act_def set_node_socket)
    moreover have "work po1 q < work po q" using P(3,4) 2 by (simp add: work_def)
    ultimately show ?thesis using P(2) at [OF P(2)] by (intro exI [of _ "ATake a"]) auto
  next
    case 3
    obtain po1 q1 where P: "act_poll a po s = Inr (EOther, set_node a po1 q1 s)" "net_ok A n (set_node a po1 q1 s)"
      "q1 = tl q" "messageAvailable po1 \<noteq> 0" "worker po1 = None"
      by (rule poll_step [OF s a]) (use 3 in auto)
    have "net_act (APoll a) s = Some (Inr (EOther, set_node a po1 q1 s))" using a'(1) P(1) by (simp add: net_act_def)
    moreover have "work po1 q1 < work po q" using P(3,5) 3 by (cases q) (simp_all add: work_def)
    ultimately show ?thesis using P(2) at [OF P(2)] by (intro exI [of _ "APoll a"]) auto
  qed
qed

lemma work_ends:
  assumes "net_trace A n s0 es s" "net_ok A n s" "at_node s a po q n"
  shows "\<exists>es' s' po' q'. net_trace A n s0 (es @ es') s' \<and> set es' \<subseteq> {EOther} \<and> length es' \<le> work po q \<and> net_ok A n s' \<and> at_node s' a po' q' n \<and> work po' q' = 0"
  using assms
proof (induction "work po q" arbitrary: es s po q rule: less_induct)
  case less
  show ?case
  proof (cases "work po q = 0")
    case True
    then show ?thesis using less.prems by (intro exI [of _ "[]"] exI [of _ s] exI [of _ po] exI [of _ q]) simp
  next
    case False
    obtain c s1 po1 q1 where S: "legal A n c" "net_act c s = Some (Inr (EOther, s1))" "net_ok A n s1" "at_node s1 a po1 q1 n" "work po1 q1 < work po q"
      using work_step [OF less.prems(2,3) False] by blast
    have t: "net_trace A n s0 (es @ [EOther]) s1" by (rule net_trace.act [OF less.prems(1) S(1,2)])
    obtain es' s' po' q' where I: "net_trace A n s0 ((es @ [EOther]) @ es') s'" "set es' \<subseteq> {EOther}" "length es' \<le> work po1 q1" "net_ok A n s'" "at_node s' a po' q' n" "work po' q' = 0"
      using less.hyps [OF S(5) t S(3,4)] by blast
    have "net_trace A n s0 (es @ (EOther # es')) s'" using I(1) by simp
    then show ?thesis using I(2-6) S(5) by (intro exI [of _ "EOther # es'"] exI [of _ s'] exI [of _ po'] exI [of _ q']) auto
  qed
qed

subsection \<open>Properties\<close>

text \<open>C6. Machines with the same number of mailboxes exchange mail, in any interleaving of senders, interrupts, postal workers and receivers:
  no assertion fails and no copy leaves its buffer as long as messages fit and go to existing boxes, and for each mailbox the mail received and
  the mail on its way, the oldest first, are just the mail sent to it that the network did not lose, in order, each with its headers
  and bytes unchanged.\<close>

theorem mail_in_order:
  assumes "net_start A n s0" "net_trace A n s0 es s"
  shows "(\<forall>b \<in> A. \<forall>k < n. got es b k @ on_the_way s b k = sent es b k) \<and> (\<forall>c err. legal A n c \<longrightarrow> net_act c s \<noteq> Some (Inl err))"
proof
  note I = trace_inv [OF assms(2,1)]
  then show "\<forall>b \<in> A. \<forall>k < n. got es b k @ on_the_way s b k = sent es b k" by blast
  show "\<forall>c err. legal A n c \<longrightarrow> net_act c s \<noteq> Some (Inl err)" using act_step [of A n s] I by fastforce
qed

text \<open>C7. Mail arrives: whatever has happened, polls and the postal worker of a machine alone, in a bounded number of steps,
  bring all mail on its way to this machine into the mailboxes, in the order it was sent.\<close>

theorem mail_arrives:
  assumes "net_start A n s0" "net_trace A n s0 es s" "b \<in> A"
  shows "\<exists>es' s' po. net_trace A n s0 (es @ es') s' \<and> set es' \<subseteq> {EOther} \<and> length es' \<le> work (the (nodes s b)) (the (sockets s b)) \<and>
    nodes s' b = Some po \<and> (\<forall>k < n. boxes po ! k = drop (length (got es b k)) (sent es b k))"
proof -
  have s: "net_ok A n s" using trace_inv [OF assms(2,1)] by blast
  obtain po q where a: "nodes s b = Some po" "sockets s b = Some q" "at_node s b po q n"
    by (rule net_okD [OF s assms(3)]) (simp add: at_node_def)
  obtain es' s' po' q' where W: "net_trace A n s0 (es @ es') s'" "set es' \<subseteq> {EOther}" "length es' \<le> work po q" "at_node s' b po' q' n" "work po' q' = 0"
    using work_ends [OF assms(2) s a(3)] by blast
  have n: "nodes s' b = Some po'" "sockets s' b = Some q'" using W(4) by (simp_all add: at_node_def)
  have q: "got es' b k = []" "sent es' b k = []" for k using W(2) by (force simp: got_def sent_def)+
  have "boxes po' ! k = drop (length (got es b k)) (sent es b k)" if "k < n" for k
  proof -
    have "got (es @ es') b k @ on_the_way s' b k = sent (es @ es') b k" using trace_inv [OF W(1) assms(1)] assms(3) that by blast
    moreover have "on_the_way s' b k = boxes po' ! k" using n work_done [OF W(5)] by (simp add: on_the_way_def transit_def)
    ultimately have "got es b k @ boxes po' ! k = sent es b k" using q [of k] by (simp add: log_append)
    from this [symmetric] show ?thesis by simp
  qed
  then show ?thesis using W(1-3) n(1) a(1,2) by auto
qed

text \<open>Two machines, one message.\<close>

definition demo_net :: net where
  "demo_net = \<lparr>nodes = (\<lambda>a. if a = 1 \<or> a = 2 then Some (PostOffice_PostOffice a 1 10 \<lparr>pkt_to = 0, pkt_from = 0, pkt_length = 0\<rparr> (\<lambda>_. 0) (\<lambda>_. 0)) else None),
     sockets = (\<lambda>a. if a = 1 \<or> a = 2 then Some [] else None)\<rparr>"

definition demo_send :: action where
  "demo_send = ASend 1 0 (\<lambda>_. 0) (\<lambda>_. 0) \<lparr>pkt_to = 2, pkt_from = 0, pkt_length = 0\<rparr> \<lparr>mail_to = 3, mail_from = 1, mail_length = 2\<rparr> [72, 105]"

lemma demo_trace:
  "net_start {1, 2} 10 demo_net" "legal {1, 2} 10 demo_send" "\<exists>e s. net_act demo_send demo_net = Some (Inr (e, s))"
proof -
  show s: "net_start {1, 2} 10 demo_net" by (auto simp: net_start_def demo_net_def)
  show c: "legal {1, 2} 10 demo_send" by (simp add: demo_send_def post_sizes)
  have "net_act demo_send demo_net \<noteq> None" by (simp add: net_act_def demo_send_def demo_net_def PostOffice_PostOffice_def)
  then show "\<exists>e s. net_act demo_send demo_net = Some (Inr (e, s))" using act_step [OF start_ok [OF s] c] by auto
qed

lemma mail_in_order_witness:
  "\<exists>e s. net_trace {1, 2} 10 demo_net [e] s \<and> (\<forall>k < 10. got [e] 2 k @ on_the_way s 2 k = sent [e] 2 k)"
proof -
  obtain e s where "net_act demo_send demo_net = Some (Inr (e, s))" using demo_trace(3) by blast
  then have t: "net_trace {1, 2} 10 demo_net ([] @ [e]) s" by (rule net_trace.act [OF net_trace.start demo_trace(2)])
  then show ?thesis using mail_in_order [OF demo_trace(1) t] by auto
qed

lemma mail_arrives_witness:
  "\<exists>e s es' s' po. net_act demo_send demo_net = Some (Inr (e, s)) \<and> net_trace {1, 2} 10 demo_net (e # es') s' \<and> nodes s' 2 = Some po \<and>
     boxes po ! 3 = sent [e] 2 3"
proof -
  obtain e s where a: "net_act demo_send demo_net = Some (Inr (e, s))" using demo_trace(3) by blast
  then have t: "net_trace {1, 2} 10 demo_net ([] @ [e]) s" by (rule net_trace.act [OF net_trace.start demo_trace(2)])
  have "got [e] 2 3 = []" using a by (auto simp: net_act_def demo_send_def demo_net_def act_send_def got_def bind_res_Inr_iff Let_def split: if_splits option.splits)
  moreover obtain es' s' po where E: "net_trace {1, 2} 10 demo_net (([] @ [e]) @ es') s'" "nodes s' 2 = Some po"
    "\<forall>k < 10. boxes po ! k = drop (length (got ([] @ [e]) 2 k)) (sent ([] @ [e]) 2 k)"
    using mail_arrives [OF demo_trace(1) t, of 2] by auto
  ultimately have "boxes po ! 3 = sent [e] 2 3" by simp
  then show ?thesis using a E(1,2) by (intro exI [of _ e] exI [of _ s] exI [of _ es'] exI [of _ s'] exI [of _ po]) simp
qed

end
