(* ===== verification/Spec2Isabelle.thy ===== *)
theory Spec2Isabelle
  imports Nachos_Prelude Nachos_List Nachos_Bitmap Nachos_Machine Nachos_Mips Nachos_Interp Nachos_Kernel Nachos_KernelInv Nachos_KernelRun Nachos_CLib Nachos_Disk Nachos_FileHdr Nachos_OpenFile Nachos_Directory Nachos_FileSys Nachos_FsTest Nachos_AddrSpace Nachos_Coff Nachos_Progtest Nachos_Console Nachos_Post
begin

text \<open>
  A verification library for the Nachos 3.4 operating system lab under src/nachos-3.4.

  \<^bold>\<open>The program.\<close> Nachos is an operating system kernel that runs as one process of a host, on a simulated machine: a MIPS
  processor with memory and address translation (machine/), a clock with interrupts, a disk, a console and a network
  device. On top of it are kernel threads with a scheduler and synchronization (threads/), a file system on the disk (filesys/), user
  programs in address spaces (userprog/), and mail between machines (network/). The tools that make object files are in bin/.

  \<^bold>\<open>Conventions.\<close> C++ code that can stop Nachos (a failed ASSERT, NULL, an index outside an array, an
  unassigned variable) returns \<open>Inl\<close> with an error of type \<open>nerr\<close>; everything else is \<open>Inr\<close> of the result
  and the new state. Functions are named after the methods, \<open>Class_Method\<close> where the bare name is ambiguous. Registers,
  addresses and packets are machine words; C ints of the file system are \<open>int\<close> with wrap-around written as \<open>s32\<close> and
  \<open>u32\<close>. The kernel's counters that grow while it runs (the clock, the tick counters, the times of interrupts, the values of semaphores) are
  \<open>int\<close> with checked additions (\<open>int_add\<close>, \<open>int_sub\<close>): a result outside 32 bits is the error \<open>Overflow\<close>, so a run of the model ends where the
  C++ becomes undefined. The model of the disk has a clock of its own, from which the delays of requests are computed; it and the counters that are only
  printed (machine/stats.h) are numbers without a bound, so the theorems on disk and files are about the time before the clock reaches \<open>2 ^ 31\<close>. Memory that was never written, the host's files, time of day and random numbers are parameters. Compile-time
  switches (USE_TLB, TLB_LRU, MULTI_THREAD, HOST_IS_BIG_ENDIAN, the scheduling policy) are arguments, so a theorem holds in every build
  that its hypotheses allow. Texts printed by the modelled routines are lists of bytes; DEBUG output is left out.

  \<^bold>\<open>The theories.\<close>
  \<^item> \<open>Nachos_Prelude\<close>: errors and results, ASSERT and the division macros of threads/utility.h, arrays, integers in bytes.
  \<^item> \<open>Nachos_List\<close>: threads/list at the level of pointers in a heap of cells. Every sequence of calls refines
    sequences of (item, key) pairs; sorted insertion is a stable sort; the destructor frees exactly the cells of the list.
    The contract of a queue is the locale \<open>keyed_queue\<close>.
  \<^item> \<open>Nachos_Bitmap\<close>: userprog/bitmap, bits in words; allocation gives distinct free numbers, lowest first
    (locale \<open>allocator\<close>).
  \<^item> \<open>Nachos_Machine\<close>: machine/machine, translate and userprog/exception.cc: Translate is characterised case by case, stores
    and loads round trip, address spaces with different frames do not touch each other, what faults lead to, tlb replacement.
  \<^item> \<open>Nachos_Mips\<close>: machine/mipssim: decoding, one definition for each instruction, the delayed load. The bitwise
    multiplication equals the product in 64 bits, overflow traps exactly when the sum does not fit, every step keeps the machine well formed, branches and loads take
    effect one instruction late.
  \<^item> \<open>Nachos_Kernel\<close>, \<open>Nachos_KernelInv\<close>, \<open>Nachos_KernelRun\<close>: threads, scheduler, interrupts, timer, semaphores, locks,
    conditions, synchronized lists as a step function on stacks of frames. Code between two calls of SWITCH is one step. An invariant
    of all reachable states (locale \<open>safe_system\<close>) gives: each thread is in the list its state says, locks exclude each other,
    semaphores serve in order, time advances and delivers every due interrupt, the kernel halts only when nothing can run,
    and every failure is a misuse by the caller or a counter at the end of the range of \<open>int\<close>.
  \<^item> \<open>Nachos_CLib\<close>: C strings, buffers, printf conversions, 32-bit ints.
  \<^item> \<open>Nachos_Disk\<close>: machine/disk and filesys/synchdisk (locale \<open>block_device\<close>): sectors keep what was written, bounds on the time of a request.
  \<^item> \<open>Nachos_FileHdr\<close>, \<open>Nachos_OpenFile\<close>, \<open>Nachos_Directory\<close>, \<open>Nachos_FileSys\<close>: the file system. Reads and writes of any part of a
    file are slices and updates of a list of bytes; a directory is a finite map (locale \<open>name_table\<close>); after a format every sequence of calls
    refines an abstract store of files by name (locale \<open>server\<close>), and no sector is lost or in two files. Files up to the
    direct sectors (1792 bytes) are covered by these theorems; what larger files do is stated separately.
  \<^item> \<open>Nachos_FsTest\<close>: filesys/fstest.cc and machine/stats: Copy and then Print gives back the file of the host.
  \<^item> \<open>Nachos_AddrSpace\<close>, \<open>Nachos_Progtest\<close>: userprog/addrspace, the loader of bin/noff.h files, progtest.cc. The loader reads through the contract
    \<open>readable_file\<close>, which both the Nachos disk and the host files satisfy. A program's bytes are read back through ReadMem;
    loading a second program erases the first.
  \<^item> \<open>Nachos_Post\<close>: machine/network and network/post: mail arrives in order, and polls alone bring all of it into the boxes.
  \<^item> \<open>Nachos_Console\<close>: machine/console and ConsoleTest of userprog/progtest.cc as interleavings of typing, polls, interrupts and the thread: what is
    typed is shown, in order and once, up to the first q, and it is shown after a bounded number of steps. The theorems are about input without
    the character 255, which the device loses.
  \<^item> \<open>Nachos_Coff\<close>: bin/coff2noff.c with the structures of bin/coff.h: the converted file has the bytes of the sections at their
    addresses, on hosts of either byte order. Which writes the host takes is a parameter.
  \<^item> \<open>Nachos_Interp\<close>: bin/execute.c, instr.h, int.h, encode.h and system.c, the second interpreter of MIPS code. It agrees with the simulated
    machine on sequences of register instructions, branches and jumps, but for the differences that are listed there; the host's system
    calls are a parameter.
  This theory holds what spans several components: a program brought to the disk by Copy is loaded and started by StartProcess1, also when it comes out of
  coff2noff. The file has at most 1792 bytes, and in a build with a tlb the bytes read are those of the first four pages.

  \<^bold>\<open>Bounds and fuel.\<close> Loops over pointers (list.cc) and the read loop of Print are partial functions; the theorems state
  that they return. All other loops are bounded by data of the state. \<open>mult_loop\<close> runs 32 rounds as in the code.

  \<^bold>\<open>Not modelled.\<close> threads/switch (host assembly: its effect is the change of the current thread), the stacks of threads, sockets,
  signals and memory protection in machine/sysdep.cc (the host), DEBUG output and the interactive debugger, command line parsing in
  threads/main.cc and system.cc, Machine::Run, which repeats OneInstruction and OneTick for ever,
  the elevator, the thread tests, nettest.cc, the loaders and dump programs in bin/ that use the object file library of the host,
  and the test programs under test/, which are clients.
\<close>

subsection \<open>From a file of the host to a running program\<close>

text \<open>A program copied to the disk and started from there.\<close>

lemma copied_program_runs:
  assumes "fs_ok fs d dir bm" "host from = Some c" "length c \<le> 1792" "creatable dir bm to (int (length c))" "noff_ok b c"
    "Machine_Machine b big junk fresh0 pts = Inr m"
  shows "\<exists>out d1 sp m' d2 dir2 bm2. Copy mem t host from to fs d = Inr (out, d1) \<and>
    StartProcess1 b mt (nachos_open mem' fs to) to stack_mem fresh p m d1 = Inr ([], Some sp, m', d2) \<and>
    fs_ok fs d2 dir2 bm2 \<and> files d2 dir2 = (files d dir)(key to \<mapsto> c) \<and>
    numPages sp = space_pages (noff_header b c) \<and> registers m' PCReg = 0 \<and> registers m' NextPCReg = 4 \<and> registers m' StackReg = numPages sp * of_nat PageSize - 16 \<and>
    (\<forall>va. unat va < (if USE_TLB b then min TLBSize (unat (numPages sp)) else unat (numPages sp)) * PageSize \<longrightarrow>
      (\<exists>m2. Machine_ReadMem b va 1 m' = Inr (Some (scast (program_image (noff_header b c) c (unat va) 0)), m2)))"
proof -
  obtain d1 dir1 bm1 where C: "Copy mem t host from to fs d = Inr (bytes ''Copy: 11'' @ [10] @ bytes ''Copy: 22'' @ [10] @ bytes ''Copy: 44'' @ [10], d1)"
    "fs_ok fs d1 dir1 bm1" "files d1 dir1 = (files d dir)(key to \<mapsto> c)"
    by (rule Copy_ok [of fs d dir bm host "from" c to mem t, OF assms(1-4)])
  then have f: "files d1 dir1 (key to) = Some c" by simp
  obtain sp m' d2 where S: "StartProcess1 b mt (nachos_open mem' fs to) to stack_mem fresh p m d1 = Inr ([], Some sp, m', d2)" "sector d2 = sector d1"
    "fs_ok fs d2 dir1 bm1" "numPages sp = space_pages (noff_header b c)" "registers m' = start_registers sp m"
    "\<forall>va. unat va < (if USE_TLB b then min TLBSize (unat (numPages sp)) else unat (numPages sp)) * PageSize \<longrightarrow>
      (\<exists>m2. Machine_ReadMem b va 1 m' = Inr (Some (scast (program_image (noff_header b c) c (unat va) 0)), m2))"
    by (rule StartProcess1_ok [OF C(2) f assms(5,6)]) blast
  have "files d2 dir1 = files d1 dir1" using S(2) by (auto simp: files_def hdr_at_def contents_def)
  then show ?thesis using C S(1,3-6)
    by (intro exI conjI) (assumption | simp add: start_registers_def PCReg_def NextPCReg_def StackReg_def NumTotalRegs_def)+
qed

text \<open>C14. A program in an object file of at most 1792 bytes, copied to a consistent Nachos disk with room for it and started from there, on a new
  machine: Copy puts the object file on the disk, StartProcess1
  opens it, loads it and leaves the machine at the first instruction, program counter 0, with the stack at the end of the address
  space; every byte the program then reads through ReadMem, in a build with a tlb from its first four pages, is
  the byte of the object file of the host, or zero outside its segments. The files on the disk are those of before with the new one.\<close>

theorem copy_then_run:
  assumes "fs_ok fs d dir bm" "host from = Some c" "length c \<le> 1792" "creatable dir bm to (int (length c))" "noff_ok b c"
    "Machine_Machine b big junk fresh0 pts = Inr m"
  shows "\<exists>out d1 sp m' d2 dir2 bm2. Copy mem t host from to fs d = Inr (out, d1) \<and>
    StartProcess1 b mt (nachos_open mem' fs to) to stack_mem fresh p m d1 = Inr ([], Some sp, m', d2) \<and>
    fs_ok fs d2 dir2 bm2 \<and> files d2 dir2 = (files d dir)(key to \<mapsto> c) \<and>
    numPages sp = space_pages (noff_header b c) \<and> registers m' PCReg = 0 \<and> registers m' NextPCReg = 4 \<and> registers m' StackReg = numPages sp * of_nat PageSize - 16 \<and>
    (\<forall>va. unat va < (if USE_TLB b then min TLBSize (unat (numPages sp)) else unat (numPages sp)) * PageSize \<longrightarrow>
      (\<exists>m2. Machine_ReadMem b va 1 m' = Inr (Some (scast (program_image (noff_header b c) c (unat va) 0)), m2)))"
  by (rule copied_program_runs) (rule assms)+

lemma copy_then_run_witness:
  "\<exists>d fs d0 out d1 m sp m' d2 m2. Disk_Disk None 0 = Inr d \<and> FileSystem_FileSystem zeros noon True d = Inr (fs, d0) \<and>
     Copy zeros noon [[97] \<mapsto> demo_program] [97] [98] fs d0 = Inr (out, d1) \<and>
     Machine_Machine demo_build False (\<lambda>_. 0) (\<lambda>_. page_entry 0 0) 0 = Inr m \<and>
     StartProcess1 demo_build False (nachos_open zeros fs [98]) [98] (\<lambda>_. 0) (\<lambda>_. page_entry 0 0) 1 m d1 = Inr ([], Some sp, m', d2) \<and>
     Machine_ReadMem demo_build 3 1 m' = Inr (Some 7, m2)"
proof -
  obtain d fs d0 dir bm where F: "Disk_Disk None 0 = Inr d" "FileSystem_FileSystem zeros noon True d = Inr (fs, d0)" "fs_ok fs d0 dir bm"
    "\<forall>n \<le> 1792. creatable dir bm [98] (int n)" by (rule formatted_room [of "[98]"])
  obtain m where m: "Machine_Machine demo_build False (\<lambda>_. 0) (\<lambda>_. page_entry 0 0) 0 = Inr m" by (rule new_machine)
  have l: "length demo_program = 44" by (simp add: demo_program_def)
  then have c: "length demo_program \<le> 1792" "creatable dir bm [98] (int (length demo_program))" using F(4) [rule_format, of 44] by simp_all
  obtain out d1 sp m' d2 where P: "Copy zeros noon [[97] \<mapsto> demo_program] [97] [98] fs d0 = Inr (out, d1)"
    "StartProcess1 demo_build False (nachos_open zeros fs [98]) [98] (\<lambda>_. 0) (\<lambda>_. page_entry 0 0) 1 m d1 = Inr ([], Some sp, m', d2)" "numPages sp = space_pages (noff_header demo_build demo_program)"
    "\<forall>va. unat va < (if USE_TLB demo_build then min TLBSize (unat (numPages sp)) else unat (numPages sp)) * PageSize \<longrightarrow>
      (\<exists>m2. Machine_ReadMem demo_build va 1 m' = Inr (Some (scast (program_image (noff_header demo_build demo_program) demo_program (unat va) 0)), m2))"
    using copy_then_run [of fs d0 dir bm "[[97] \<mapsto> demo_program]" "[97]" demo_program "[98]", OF F(3) _ c demo_noff(1) m,
      of zeros noon False zeros "\<lambda>_. 0" "\<lambda>_. page_entry 0 0" 1] by auto
  have "program_image (noff_header demo_build demo_program) demo_program 3 0 = 7"
    unfolding demo_header by (simp add: program_image_def seg_at_def seg_len_def seg_from_def demo_program_def)
  then have "\<exists>m2. Machine_ReadMem demo_build 3 1 m' = Inr (Some 7, m2)"
    using P(4) [rule_format, of 3] P(3) demo_noff(2) by (auto simp: demo_build_def size_defs)
  then show ?thesis using F(1,2) m P(1,2) by blast
qed

text \<open>C2. From the object file of the compiler to a running program, for a COFF file of at most 876 bytes (so that the output fits in the 1792 bytes
  of a file) with at most one section of each kind, sections in the file and in an address space of at most 32 pages: the output of the converter, when the host takes
  every write, copied to a Nachos disk with room for it and started there on a new machine, puts the machine
  at its first instruction, and every byte the program reads, in a build with a tlb from its first four pages, is the byte of the section of the COFF file at
  that address, or zero.\<close>

theorem convert_copy_run:
  assumes "coff_sections b obj = Some ss" "sections_ok obj ss" "in_space ss" "2 \<le> argc" "2 * length obj \<le> 1752"
    "fs_ok fs d dir bm" "\<forall>n \<le> 1792. creatable dir bm to (int n)" "Machine_Machine b big junk fresh0 pts = Inr m"
  shows "\<exists>c out d1 sp m' d2. coff2noff b junkH argc (Some obj) all_taken = Inr c \<and> Copy mem t (host(from \<mapsto> c)) from to fs d = Inr (out, d1) \<and>
    StartProcess1 b mt (nachos_open mem' fs to) to stack_mem fresh p m d1 = Inr ([], Some sp, m', d2) \<and>
    numPages sp = coff_pages ss \<and> registers m' PCReg = 0 \<and> registers m' NextPCReg = 4 \<and>
    (\<forall>va. unat va < (if USE_TLB b then min TLBSize (unat (numPages sp)) else unat (numPages sp)) * PageSize \<longrightarrow>
      (\<exists>m2. Machine_ReadMem b va 1 m' = Inr (Some (scast (coff_image obj ss (unat va) 0)), m2)))"
proof -
  obtain c where C: "coff2noff b junkH argc (Some obj) all_taken = Inr c" "noff_ok b c" "space_pages (noff_header b c) = coff_pages ss"
      "length c \<le> noff_size + 2 * length obj" "\<forall>v z. program_image (noff_header b c) c v z = coff_image obj ss v z"
    by (rule coff2noff_image [OF assms(1-4), of junkH])
  have l: "length c \<le> 1792" using C(4) assms(5) by (simp add: noff_size_def)
  have h: "(host(from \<mapsto> c)) from = Some c" by simp
  show ?thesis
    using copied_program_runs [of fs d dir bm "host(from \<mapsto> c)" "from" c to b big junk fresh0 pts m, OF assms(6) h l assms(7) [rule_format, OF l] C(2) assms(8), of mem t mt mem' stack_mem fresh p] C(1,3,5) by fastforce
qed

lemma convert_copy_run_witness:
  "\<exists>d fs d0 c out d1 m sp m' d2 m2. Disk_Disk None 0 = Inr d \<and> FileSystem_FileSystem zeros noon True d = Inr (fs, d0) \<and>
     coff2noff demo_build noff_junk 3 (Some coff_demo) all_taken = Inr c \<and> Copy zeros noon (Map.empty([97] \<mapsto> c)) [97] [98] fs d0 = Inr (out, d1) \<and>
     Machine_Machine demo_build False (\<lambda>_. 0) (\<lambda>_. page_entry 0 0) 0 = Inr m \<and>
     StartProcess1 demo_build False (nachos_open zeros fs [98]) [98] (\<lambda>_. 0) (\<lambda>_. page_entry 0 0) 1 m d1 = Inr ([], Some sp, m', d2) \<and>
     Machine_ReadMem demo_build 5 1 m' = Inr (Some 0x22, m2)"
proof -
  obtain d fs d0 dir bm where F: "Disk_Disk None 0 = Inr d" "FileSystem_FileSystem zeros noon True d = Inr (fs, d0)" "fs_ok fs d0 dir bm"
    "\<forall>n \<le> 1792. creatable dir bm [98] (int n)" by (rule formatted_room [of "[98]"])
  obtain m where m: "Machine_Machine demo_build False (\<lambda>_. 0) (\<lambda>_. page_entry 0 0) 0 = Inr m" by (rule new_machine)
  have l: "2 * length coff_demo \<le> 1752" by (simp add: coff_demo_def bytes_def)
  have n: "unat (coff_pages coff_demo_sections) = 9" by code_simp
  obtain c out d1 sp m' d2 where P: "coff2noff demo_build noff_junk 3 (Some coff_demo) all_taken = Inr c" "Copy zeros noon (Map.empty([97] \<mapsto> c)) [97] [98] fs d0 = Inr (out, d1)"
    "StartProcess1 demo_build False (nachos_open zeros fs [98]) [98] (\<lambda>_. 0) (\<lambda>_. page_entry 0 0) 1 m d1 = Inr ([], Some sp, m', d2)" "numPages sp = coff_pages coff_demo_sections"
    "\<forall>va. unat va < (if USE_TLB demo_build then min TLBSize (unat (numPages sp)) else unat (numPages sp)) * PageSize \<longrightarrow>
      (\<exists>m2. Machine_ReadMem demo_build va 1 m' = Inr (Some (scast (coff_image coff_demo coff_demo_sections (unat va) 0)), m2))"
    using convert_copy_run [OF coff_demo_ok(1-3) _ l F(3,4) m, of 3 noff_junk zeros noon Map.empty "[97]" False zeros "\<lambda>_. 0" "\<lambda>_. page_entry 0 0" 1] by auto
  have "\<exists>m2. Machine_ReadMem demo_build 5 1 m' = Inr (Some 0x22, m2)"
    using P(5) [rule_format, of 5] P(4) n coff_demo_ok(4) by (auto simp: demo_build_def size_defs)
  then show ?thesis using F(1,2) m P(1-3) by blast
qed

end
